(* ===== verification/Kern_Prelude.thy ===== *)
theory Kern_Prelude
  imports Main "HOL-Library.Word" "HOL-Library.Monad_Syntax" "HOL-Library.Signed_Division"
begin

text \<open>
  What the components of the kernel model share: the error numbers, the C integers, checked
  access to buffers, the outcome of a call of the kernel allocator, and the generic lemmas on
  lists, options and remainders that the component proofs use.

  A kernel function is a HOL function into an \<open>option\<close>: \<open>None\<close> stands for every way in which the C
  function does not return to its caller in a defined state, that is a failed \<open>assert\<close>, a call of
  \<open>panic\<close>, an access outside a buffer or through a null pointer, and a signed overflow. A C
  function that hands back an error number has the result type \<open>errno + 'a\<close>, with \<open>Inl\<close> for the
  error and \<open>Inr\<close> for a return value of 0 together with what the function stores through its
  pointer arguments.
\<close>

unbundle bit_operations_syntax

named_theorems kdefs
named_theorems kinv

section \<open>Error numbers\<close>

text \<open>The error numbers of \<^verbatim>\<open>kern/include/kern/errno.h\<close>, in its order; 0 (success) is no member.\<close>

datatype errno =
    EINVAL | EFAULT | ENAMETOOLONG | ENOMEM | EIO | ENOENT | ENOTDIR | EISDIR | EEXIST
  | EXDEV | EAGAIN | ESPIPE | EUNIMP | ENXIO | ENODEV | EBUSY | EIOCTL | ENOTEMPTY
  | ERANGE | ENOSPC | EMFILE | ENFILE | ENOSYS | ENOEXEC | E2BIG | EBADF

primrec errno_code :: "errno \<Rightarrow> int" where
  "errno_code EINVAL = 1"
| "errno_code EFAULT = 2"
| "errno_code ENAMETOOLONG = 3"
| "errno_code ENOMEM = 4"
| "errno_code EIO = 5"
| "errno_code ENOENT = 6"
| "errno_code ENOTDIR = 7"
| "errno_code EISDIR = 8"
| "errno_code EEXIST = 9"
| "errno_code EXDEV = 10"
| "errno_code EAGAIN = 11"
| "errno_code ESPIPE = 12"
| "errno_code EUNIMP = 13"
| "errno_code ENXIO = 14"
| "errno_code ENODEV = 15"
| "errno_code EBUSY = 16"
| "errno_code EIOCTL = 17"
| "errno_code ENOTEMPTY = 18"
| "errno_code ERANGE = 19"
| "errno_code ENOSPC = 20"
| "errno_code EMFILE = 21"
| "errno_code ENFILE = 22"
| "errno_code ENOSYS = 23"
| "errno_code ENOEXEC = 24"
| "errno_code E2BIG = 25"
| "errno_code EBADF = 26"

text \<open>The value a C function of type \<open>int\<close> returns: 0, or the number of its error.\<close>

definition rc :: "errno + 'a \<Rightarrow> int" where
  "rc r = (case r of Inl e \<Rightarrow> errno_code e | Inr _ \<Rightarrow> 0)"

lemma errno_code_pos: "0 < errno_code e"
  by (cases e) simp_all

lemma rc_simps [simp]: "rc (Inr x) = 0" "rc (Inl e) = errno_code e"
  by (simp_all add: rc_def)

lemma rc_eq_0_iff [simp]: "rc r = 0 \<longleftrightarrow> (\<exists>x. r = Inr x)"
  using errno_code_pos by (cases r) (auto simp: rc_def, metis less_irrefl)

section \<open>Assertions, C integers and buffers\<close>

text \<open>The \<open>assert\<close> macro of \<^verbatim>\<open>kern/include/lib.h\<close>: it panics unless the condition holds.\<close>

definition kassert :: "bool \<Rightarrow> unit option" where
  "kassert b = (if b then Some () else None)"

lemma kassert_simps [simp]: "kassert True = Some ()" "kassert False = None"
  by (simp_all add: kassert_def)

lemma kassert_eq_Some [simp]: "kassert b = Some u \<longleftrightarrow> b"
  by (simp add: kassert_def)

lemma kassert_bind_eq_Some [simp]: "(kassert b \<bind> f) = Some x \<longleftrightarrow> b \<and> f () = Some x"
  by (simp add: kassert_def)

lemma kassert_bind_eq_None [simp]: "(kassert b \<bind> f) = None \<longleftrightarrow> (b \<longrightarrow> f () = None)"
  by (simp add: kassert_def)

text \<open>A value of the C type \<open>int\<close>; signed overflow is undefined.\<close>

abbreviation INT_MAX :: int where "INT_MAX \<equiv> 2147483647"
abbreviation INT_MIN :: int where "INT_MIN \<equiv> - 2147483648"

definition cint :: "int \<Rightarrow> int option" where
  "cint x = (if INT_MIN \<le> x \<and> x \<le> INT_MAX then Some x else None)"

lemma cint_in [simp]: "INT_MIN \<le> x \<Longrightarrow> x \<le> INT_MAX \<Longrightarrow> cint x = Some x"
  by (simp add: cint_def)

lemma cint_Some_iff: "cint x = Some y \<longleftrightarrow> y = x \<and> INT_MIN \<le> x \<and> x \<le> INT_MAX"
  by (auto simp: cint_def)

lemma smod_eq_mod: "0 \<le> a \<Longrightarrow> 0 < b \<Longrightarrow> a smod b = a mod (b::int)"
  by (cases "a = 0") (simp_all add: smod_int_alt_def)

text \<open>Reads and writes of a buffer at a C index; outside the buffer they have no defined result.\<close>

definition rd :: "'a list \<Rightarrow> int \<Rightarrow> 'a option" where
  "rd xs i = (if 0 \<le> i \<and> i < int (length xs) then Some (xs ! nat i) else None)"

definition wr :: "'a list \<Rightarrow> int \<Rightarrow> 'a \<Rightarrow> 'a list option" where
  "wr xs i x = (if 0 \<le> i \<and> i < int (length xs) then Some (xs[nat i := x]) else None)"

lemma rd_in [simp]: "0 \<le> i \<Longrightarrow> i < int (length xs) \<Longrightarrow> rd xs i = Some (xs ! nat i)"
  by (simp add: rd_def)

lemma wr_in [simp]: "0 \<le> i \<Longrightarrow> i < int (length xs) \<Longrightarrow> wr xs i x = Some (xs[nat i := x])"
  by (simp add: wr_def)

lemma rd_Some_iff: "rd xs i = Some x \<longleftrightarrow> 0 \<le> i \<and> i < int (length xs) \<and> x = xs ! nat i"
  by (auto simp: rd_def)

lemma wr_Some_iff:
  "wr xs i x = Some ys \<longleftrightarrow> 0 \<le> i \<and> i < int (length xs) \<and> ys = xs[nat i := x]"
  by (auto simp: wr_def)

lemma rd_wr_same: "wr xs i x = Some ys \<Longrightarrow> rd ys i = Some x"
  by (auto simp: wr_Some_iff rd_def)

lemma rd_wr_other: "wr xs i x = Some ys \<Longrightarrow> i \<noteq> j \<Longrightarrow> rd ys j = rd xs j"
  by (auto simp: wr_Some_iff rd_def nth_list_update split: if_splits)

section \<open>The outcome of an allocation\<close>

text \<open>
  A caller of \<open>kmalloc\<close> sees a null pointer or a fresh buffer whose contents are arbitrary. An
  operation that allocates takes that outcome as an argument: \<open>None\<close> for the null pointer,
  \<open>Some g\<close> for a buffer whose cell \<open>k\<close> initially holds \<open>g k\<close>. The allocator itself is modelled
  in its own theory.
\<close>

type_synonym 'a fresh = "(nat \<Rightarrow> 'a) option"

text \<open>The number of pointer cells of a buffer of \<open>n * sizeof(void *)\<close> bytes, as a 32-bit \<open>size_t\<close>.\<close>

definition ptr_cells :: "int \<Rightarrow> nat" where
  "ptr_cells n = nat ((n * 4) mod 2 ^ 32 div 4)"

definition fresh_cells :: "(nat \<Rightarrow> 'a) \<Rightarrow> int \<Rightarrow> 'a list" where
  "fresh_cells g n = map g [0..<ptr_cells n]"

lemma ptr_cells_small: "0 \<le> n \<Longrightarrow> n < 2 ^ 30 \<Longrightarrow> ptr_cells n = nat n"
  by (simp add: ptr_cells_def)

lemma length_fresh_cells [simp]: "length (fresh_cells g n) = ptr_cells n"
  by (simp add: fresh_cells_def)

text \<open>The loop \<open>for (i = 0; i < k; i++) dst[i] = src[i]\<close>.\<close>

primrec copy_cells :: "nat \<Rightarrow> 'a list \<Rightarrow> 'a list \<Rightarrow> 'a list option" where
  "copy_cells 0 src dst = Some dst"
| "copy_cells (Suc k) src dst =
     do { dst' \<leftarrow> copy_cells k src dst; x \<leftarrow> rd src (int k); wr dst' (int k) x }"

lemma copy_cells_eq:
  "k \<le> length src \<Longrightarrow> k \<le> length dst \<Longrightarrow> copy_cells k src dst = Some (take k src @ drop k dst)"
proof (induction k)
  case 0
  then show ?case by simp
next
  case (Suc k)
  then have "copy_cells k src dst = Some (take k src @ drop k dst)" by simp
  with Suc.prems show ?case
    by (simp add: take_Suc_conv_app_nth list_update_append Cons_nth_drop_Suc [symmetric])
qed

section \<open>Multiples\<close>

lemma mult_le_offset_iff:
  assumes "r < (k :: nat)"
  shows "b * k \<le> q * k + r \<longleftrightarrow> b \<le> q"
proof
  assume le: "b * k \<le> q * k + r"
  show "b \<le> q"
  proof (rule ccontr)
    assume "\<not> b \<le> q"
    then have "Suc q * k \<le> b * k" by (intro mult_le_mono1) simp
    with le assms show False by simp
  qed
qed (simp add: mult_le_mono1 trans_le_add1)

lemma offset_less_mult_iff: "r < (k :: nat) \<Longrightarrow> q * k + r < b * k \<longleftrightarrow> q < b"
  using mult_le_offset_iff [of r k b q] by (simp add: not_le [symmetric])

section \<open>Words\<close>

lemma rd_uint: "rd xs (uint i) = (if unat i < length xs then Some (xs ! unat i) else None)"
  by (simp only: rd_def uint_nat nat_int of_nat_less_iff of_nat_0_le_iff simp_thms)

lemma wr_uint: "wr xs (uint i) x = (if unat i < length xs then Some (xs[unat i := x]) else None)"
  by (simp only: wr_def uint_nat nat_int of_nat_less_iff of_nat_0_le_iff simp_thms)

lemma unat_of_nat32: "n < 2 ^ 32 \<Longrightarrow> unat (of_nat n :: 32 word) = n"
  by (simp add: unat_of_nat)

lemma unat_inc:
  fixes a b :: "'a::len word"
  assumes "a < b"
  shows "unat (a + 1) = Suc (unat a)"
proof -
  have "unat b < 2 ^ LENGTH('a)" by (rule unsigned_less)
  then have "unat a + 1 < 2 ^ LENGTH('a)"
    using assms unfolding word_less_nat_alt by linarith
  then show ?thesis by (simp add: unat_word_ariths)
qed

lemma unat_diff_inc:
  fixes a b :: "'a::len word"
  assumes "a < b"
  shows "unat (b - (a + 1)) < unat (b - a)"
proof -
  have "a + 1 \<le> b" "a \<le> b" using assms by (auto simp: word_le_nat_alt word_less_nat_alt unat_inc)
  then show ?thesis
    using assms by (simp add: unat_sub unat_inc word_less_nat_alt)
qed

section \<open>Lists\<close>

lemma find_SomeD: "find P xs = Some x \<Longrightarrow> x \<in> set xs \<and> P x"
  by (auto simp: find_Some_iff)

definition del_at :: "nat \<Rightarrow> 'a list \<Rightarrow> 'a list" where
  "del_at i xs = take i xs @ drop (Suc i) xs"

lemma length_del_at: "i < length xs \<Longrightarrow> length (del_at i xs) = length xs - 1"
  by (simp add: del_at_def)

lemma del_at_append: "del_at (length xs) (xs @ y # ys) = xs @ ys"
  by (simp add: del_at_def)

lemma set_del_at_distinct:
  assumes "distinct xs" "i < length xs"
  shows "set (del_at i xs) = set xs - {xs ! i}"
proof -
  have eq: "xs = take i xs @ xs ! i # drop (Suc i) xs"
    using assms(2) by (rule id_take_nth_drop)
  have "distinct (take i xs @ xs ! i # drop (Suc i) xs)"
    using assms(1) eq by simp
  then have "xs ! i \<notin> set (take i xs) \<union> set (drop (Suc i) xs)"
    by auto
  moreover have "set xs = insert (xs ! i) (set (take i xs) \<union> set (drop (Suc i) xs))"
    by (subst eq) auto
  ultimately show ?thesis
    by (auto simp: del_at_def)
qed

end
