(* ===== verification/Kern_Array.thy ===== *)
theory Kern_Array
  imports Kern_Prelude
begin

text \<open>
  The resizeable array of \<^verbatim>\<open>kern/lib/array.c\<close>: its structure, its operations with every
  assertion and every allocation, the invariant that the operations keep, and the contract that
  the thread system and the file systems rely on, as the locale \<open>dyn_array\<close>.
\<close>

section \<open>Structure and operations\<close>

text \<open>\<open>struct array\<close>: \<open>a_v\<close> is \<open>None\<close> for a null pointer, otherwise the cells of the buffer.\<close>

record 'a karray =
  a_num :: int
  a_max :: int
  a_v :: "'a list option"

definition array_create :: "bool \<Rightarrow> 'a karray option" where
  "array_create mem = (if mem then Some \<lparr>a_num = 0, a_max = 0, a_v = None\<rparr> else None)"

definition array_getnum :: "'a karray \<Rightarrow> int" where
  "array_getnum a = a_num a"

definition array_getguy :: "'a karray \<Rightarrow> int \<Rightarrow> 'a option" where
  "array_getguy a index = do {
     kassert (a_num a \<le> a_max a);
     kassert (0 \<le> index \<and> index < a_num a);
     xs \<leftarrow> a_v a;
     rd xs index }"

text \<open>The loop of \<open>array_preallocate\<close> that enlarges the capacity; it may run forever.\<close>

partial_function (option) prealloc_size :: "int \<Rightarrow> int \<Rightarrow> int option" where
  "prealloc_size nguys newmax =
     (if newmax < nguys then do { m \<leftarrow> cint ((newmax + 1) * 2); prealloc_size nguys m }
      else Some newmax)"

definition copy_guys :: "'a karray \<Rightarrow> 'a list \<Rightarrow> 'a list option" where
  "copy_guys a newv =
     (if 0 < a_num a then do { xs \<leftarrow> a_v a; copy_cells (nat (a_num a)) xs newv } else Some newv)"

definition array_preallocate ::
    "'a fresh \<Rightarrow> 'a karray \<Rightarrow> int \<Rightarrow> ((errno + unit) \<times> 'a karray) option" where
  "array_preallocate mem a nguys = do {
     kassert (0 \<le> a_num a \<and> a_num a \<le> a_max a);
     newmax \<leftarrow> prealloc_size nguys (a_max a);
     (case mem of
        None \<Rightarrow> Some (Inl ENOMEM, a)
      | Some g \<Rightarrow> do {
          newv \<leftarrow> copy_guys a (fresh_cells g newmax);
          Some (Inr (), a\<lparr>a_max := newmax, a_v := Some newv\<rparr>) }) }"

definition array_setsize ::
    "'a fresh \<Rightarrow> 'a karray \<Rightarrow> int \<Rightarrow> ((errno + unit) \<times> 'a karray) option" where
  "array_setsize mem a nguys = do {
     kassert (0 \<le> a_num a \<and> a_num a \<le> a_max a);
     if a_max a < nguys then do {
       (r, a') \<leftarrow> array_preallocate mem a nguys;
       (case r of Inl e \<Rightarrow> Some (Inl e, a') | Inr _ \<Rightarrow> Some (Inr (), a'\<lparr>a_num := nguys\<rparr>)) }
     else if nguys = 0 \<and> 16 < a_max a then do {
       kassert (a_v a \<noteq> None);
       Some (Inr (), a\<lparr>a_v := None, a_max := 0, a_num := nguys\<rparr>) }
     else Some (Inr (), a\<lparr>a_num := nguys\<rparr>) }"

definition array_setguy :: "'a karray \<Rightarrow> int \<Rightarrow> 'a \<Rightarrow> 'a karray option" where
  "array_setguy a index ptr = do {
     kassert (a_num a \<le> a_max a);
     kassert (0 \<le> index \<and> index < a_num a);
     xs \<leftarrow> a_v a;
     ys \<leftarrow> wr xs index ptr;
     Some (a\<lparr>a_v := Some ys\<rparr>) }"

definition array_add ::
    "'a fresh \<Rightarrow> 'a karray \<Rightarrow> 'a \<Rightarrow> ((errno + unit) \<times> 'a karray) option" where
  "array_add mem a guy = do {
     n \<leftarrow> cint (a_num a + 1);
     (r, a') \<leftarrow> array_setsize mem a n;
     (case r of
        Inl e \<Rightarrow> Some (Inl e, a')
      | Inr _ \<Rightarrow> do {
          xs \<leftarrow> a_v a';
          ys \<leftarrow> wr xs (a_num a) guy;
          Some (Inr (), a'\<lparr>a_v := Some ys\<rparr>) }) }"

text \<open>\<open>memmove\<close> within one buffer, in cells: both ranges have to lie inside it.\<close>

definition memmove_cells :: "'a list \<Rightarrow> nat \<Rightarrow> nat \<Rightarrow> nat \<Rightarrow> 'a list option" where
  "memmove_cells xs dst src n =
     (if dst + n \<le> length xs \<and> src + n \<le> length xs
      then Some (take dst xs @ take n (drop src xs) @ drop (dst + n) xs) else None)"

definition array_remove :: "'a karray \<Rightarrow> int \<Rightarrow> 'a karray option" where
  "array_remove a index = do {
     kassert (a_num a \<le> a_max a);
     kassert (0 \<le> index \<and> index < a_num a);
     xs \<leftarrow> a_v a;
     ys \<leftarrow> memmove_cells xs (nat index) (nat (index + 1)) (nat (a_num a - (index + 1)));
     Some (a\<lparr>a_v := Some ys, a_num := a_num a - 1\<rparr>) }"

text \<open>
  The search loop of the array's clients: \<open>for (i = 0; i < num; i++)\<close> with a read of each
  element and a break at the first match.
\<close>

function array_scan ::
    "(int \<Rightarrow> 'a option) \<Rightarrow> ('a \<Rightarrow> bool) \<Rightarrow> nat \<Rightarrow> nat \<Rightarrow> nat option option" where
  "array_scan get p i n =
     (if i < n then do {
        x \<leftarrow> get (int i);
        if p x then Some (Some i) else array_scan get p (Suc i) n }
      else Some None)"
  by pat_completeness auto
termination
  by (relation "measure (\<lambda>(get, p, i, n). n - i)") auto

declare array_scan.simps [simp del]

section \<open>Invariant and contents\<close>

definition array_ok :: "'a karray \<Rightarrow> bool" where
  "array_ok a \<longleftrightarrow> 0 \<le> a_num a \<and> a_num a \<le> a_max a \<and> a_max a < 2 ^ 30 \<and>
     (case a_v a of None \<Rightarrow> a_max a = 0 | Some xs \<Rightarrow> int (length xs) = a_max a)"

definition guys :: "'a karray \<Rightarrow> 'a list" where
  "guys a = (case a_v a of None \<Rightarrow> [] | Some xs \<Rightarrow> take (nat (a_num a)) xs)"

lemma length_guys: "array_ok a \<Longrightarrow> int (length (guys a)) = a_num a"
  by (auto simp: array_ok_def guys_def split: option.splits)

lemma array_ok_create: "array_create True = Some a \<Longrightarrow> array_ok a \<and> guys a = []"
  by (auto simp: array_create_def array_ok_def guys_def)

text \<open>The capacity loop returns, at the first capacity that suffices, and at most doubles it.\<close>

lemma prealloc_size_returns:
  assumes "0 \<le> m" "n \<le> 2 ^ 29"
  shows "\<exists>m'. prealloc_size n m = Some m' \<and> n \<le> m' \<and> m \<le> m' \<and> (m' = m \<or> m' \<le> 2 * n)"
  using assms(1)
proof (induction "nat (n - m)" arbitrary: m rule: less_induct)
  case less
  show ?case
  proof (cases "m < n")
    case False
    then show ?thesis by (subst prealloc_size.simps) simp
  next
    case True
    with less.prems assms(2) have ck: "cint ((m + 1) * 2) = Some ((m + 1) * 2)"
      by simp
    have "nat (n - (m + 1) * 2) < nat (n - m)" "0 \<le> (m + 1) * 2"
      using True less.prems by auto
    from less.hyps [OF this] obtain m' where m':
      "prealloc_size n ((m + 1) * 2) = Some m'" "n \<le> m'" "(m + 1) * 2 \<le> m'"
      "m' = (m + 1) * 2 \<or> m' \<le> 2 * n" by blast
    then have "prealloc_size n m = Some m'"
      using True by (subst prealloc_size.simps) (simp only: if_True ck bind.simps)
    with m' True less.prems show ?thesis by force
  qed
qed

lemma copy_guys_eq:
  assumes "array_ok a" "a_num a \<le> int (length newv)"
  shows "copy_guys a newv = Some (guys a @ drop (nat (a_num a)) newv)"
proof (cases "0 < a_num a")
  case True
  with assms(1) obtain xs where xs: "a_v a = Some xs" "int (length xs) = a_max a"
    by (auto simp: array_ok_def split: option.splits)
  have "nat (a_num a) \<le> length xs" "nat (a_num a) \<le> length newv"
    using assms xs by (auto simp: array_ok_def)
  then show ?thesis
    using True xs by (simp add: copy_guys_def guys_def copy_cells_eq)
next
  case False
  with assms(1) have "a_num a = 0" by (simp add: array_ok_def)
  then show ?thesis
    by (simp add: copy_guys_def guys_def split: option.splits)
qed

lemma array_preallocate_ok:
  assumes "array_ok a" "n < 2 ^ 29"
  shows "case mem of
      None \<Rightarrow> array_preallocate mem a n = Some (Inl ENOMEM, a)
    | Some g \<Rightarrow> \<exists>a'. array_preallocate mem a n = Some (Inr (), a') \<and> array_ok a' \<and>
        guys a' = guys a \<and> n \<le> a_max a' \<and> a_num a' = a_num a \<and> a_max a \<le> a_max a'"
proof -
  have "0 \<le> a_max a" "n \<le> 2 ^ 29" using assms by (auto simp: array_ok_def)
  from prealloc_size_returns [OF this] obtain m where m:
    "prealloc_size n (a_max a) = Some m" "n \<le> m" "a_max a \<le> m" "m = a_max a \<or> m \<le> 2 * n"
    by blast
  have mb: "0 \<le> m" "m < 2 ^ 30" "a_num a \<le> m"
    using m assms by (auto simp: array_ok_def)
  show ?thesis
  proof (cases mem)
    case None
    then show ?thesis
      using assms m by (simp add: array_preallocate_def array_ok_def)
  next
    case (Some g)
    let ?nv = "guys a @ drop (nat (a_num a)) (fresh_cells g m)"
    have len: "length (fresh_cells g m) = nat m" using mb by (simp add: ptr_cells_small)
    have cp: "copy_guys a (fresh_cells g m) = Some ?nv"
      using assms(1) mb len by (intro copy_guys_eq) auto
    have lg: "length (guys a) = nat (a_num a)" using length_guys [OF assms(1)] by simp
    have "array_preallocate mem a n = Some (Inr (), a\<lparr>a_max := m, a_v := Some ?nv\<rparr>)"
      using assms(1) m cp Some by (simp add: array_preallocate_def array_ok_def)
    moreover have "array_ok (a\<lparr>a_max := m, a_v := Some ?nv\<rparr>)"
      using assms(1) mb len lg by (auto simp: array_ok_def)
    moreover have "guys (a\<lparr>a_max := m, a_v := Some ?nv\<rparr>) = guys a"
      using lg by (simp add: guys_def)
    ultimately show ?thesis using Some m by auto
  qed
qed

lemma array_add_room:
  assumes "array_ok a" "a_num a < a_max a"
  shows "\<exists>a'. array_add mem a x = Some (Inr (), a') \<and> array_ok a' \<and>
    guys a' = guys a @ [x] \<and> a_num a' = a_num a + 1 \<and> a_max a' = a_max a"
proof -
  from assms obtain xs where xs: "a_v a = Some xs" "int (length xs) = a_max a"
    by (auto simp: array_ok_def split: option.splits)
  have b: "0 \<le> a_num a" "a_num a < int (length xs)" "a_max a < 2 ^ 30" "nat (a_num a) < length xs"
    using assms xs by (auto simp: array_ok_def)
  let ?a = "a\<lparr>a_num := a_num a + 1, a_v := Some (xs[nat (a_num a) := x])\<rparr>"
  have "array_add mem a x = Some (Inr (), ?a)"
    using assms xs b by (simp add: array_add_def array_setsize_def)
  moreover have "array_ok ?a" using assms xs by (auto simp: array_ok_def)
  moreover have "guys ?a = guys a @ [x]"
    using xs b by (simp add: guys_def nat_add_distrib take_Suc_conv_app_nth)
  ultimately show ?thesis by force
qed

lemma array_add_full:
  assumes ok: "array_ok a" and full: "a_num a = a_max a" and small: "a_num a + 1 < 2 ^ 29"
  shows "case mem of
      None \<Rightarrow> array_add mem a x = Some (Inl ENOMEM, a)
    | Some g \<Rightarrow> \<exists>a'. array_add mem a x = Some (Inr (), a') \<and> array_ok a' \<and>
        guys a' = guys a @ [x] \<and> a_num a' = a_num a + 1"
proof -
  have ck: "cint (a_num a + 1) = Some (a_num a + 1)"
    using ok small by (simp add: array_ok_def)
  note pre = array_preallocate_ok [OF ok small, of mem]
  show ?thesis
  proof (cases mem)
    case None
    with pre have "array_preallocate None a (a_num a + 1) = Some (Inl ENOMEM, a)" by simp
    then show ?thesis
      using None ok full ck by (simp add: array_add_def array_setsize_def array_ok_def)
  next
    case (Some g)
    with pre obtain b where b: "array_preallocate mem a (a_num a + 1) = Some (Inr (), b)"
      "array_ok b" "guys b = guys a" "a_num a + 1 \<le> a_max b" "a_num b = a_num a" by auto
    from b obtain xs where xs: "a_v b = Some xs" "int (length xs) = a_max b"
      using ok by (auto simp: array_ok_def split: option.splits)
    have i: "0 \<le> a_num a" "a_num a < int (length xs)" "nat (a_num a) < length xs"
      using ok b xs by (auto simp: array_ok_def)
    let ?a = "b\<lparr>a_num := a_num a + 1, a_v := Some (xs[nat (a_num a) := x])\<rparr>"
    have "array_add mem a x = Some (Inr (), ?a)"
      using ok full ck b xs i Some by (simp add: array_add_def array_setsize_def array_ok_def)
    moreover have "array_ok ?a" using b xs i by (auto simp: array_ok_def)
    moreover have "guys ?a = guys a @ [x]"
      using b xs i by (simp add: guys_def nat_add_distrib take_Suc_conv_app_nth)
    ultimately show ?thesis using Some by auto
  qed
qed

lemma array_getguy_ok:
  assumes "array_ok a" "0 \<le> i" "i < a_num a"
  shows "array_getguy a i = Some (guys a ! nat i)"
proof -
  from assms obtain xs where "a_v a = Some xs" "int (length xs) = a_max a"
    by (auto simp: array_ok_def split: option.splits)
  with assms show ?thesis
    by (simp add: array_getguy_def guys_def array_ok_def)
qed

lemma array_setguy_ok:
  assumes "array_ok a" "0 \<le> i" "i < a_num a"
  shows "\<exists>a'. array_setguy a i x = Some a' \<and> array_ok a' \<and> guys a' = (guys a)[nat i := x]"
proof -
  from assms obtain xs where xs: "a_v a = Some xs" "int (length xs) = a_max a"
    by (auto simp: array_ok_def split: option.splits)
  have "array_setguy a i x = Some (a\<lparr>a_v := Some (xs[nat i := x])\<rparr>)"
    using assms xs by (simp add: array_setguy_def array_ok_def)
  then show ?thesis
    using assms xs by (auto simp: array_ok_def guys_def take_update_swap)
qed

lemma memmove_down:
  assumes "i < n" "n \<le> length xs"
  shows "\<exists>ys. memmove_cells xs i (Suc i) (n - Suc i) = Some ys \<and> length ys = length xs \<and>
    take (n - 1) ys = del_at i (take n xs)"
proof -
  obtain k where k: "n = Suc (i + k)" using assms(1) less_iff_Suc_add by auto
  have "memmove_cells xs i (Suc i) k =
    Some (take i xs @ take k (drop (Suc i) xs) @ drop (i + k) xs)"
    using assms(2) k by (simp add: memmove_cells_def)
  moreover have "take (i + k) (take i xs @ take k (drop (Suc i) xs) @ drop (i + k) xs) =
    take i xs @ take k (drop (Suc i) xs)"
    using assms(2) k by simp
  moreover have "del_at i (take n xs) = take i xs @ take k (drop (Suc i) xs)"
    using k by (simp add: del_at_def drop_take)
  ultimately show ?thesis using assms(2) k by simp
qed

lemma array_remove_ok:
  assumes "array_ok a" "0 \<le> i" "i < a_num a"
  shows "\<exists>a'. array_remove a i = Some a' \<and> array_ok a' \<and> guys a' = del_at (nat i) (guys a) \<and>
    a_num a' = a_num a - 1 \<and> a_max a' = a_max a"
proof -
  from assms obtain xs where xs: "a_v a = Some xs" "int (length xs) = a_max a"
    by (auto simp: array_ok_def split: option.splits)
  let ?i = "nat i" and ?n = "nat (a_num a)"
  have n: "?i < ?n" "?n \<le> length xs" using assms xs by (auto simp: array_ok_def)
  have e: "nat (i + 1) = Suc ?i" "nat (a_num a - (i + 1)) = ?n - Suc ?i"
    using assms by (auto simp: nat_add_distrib)
  obtain ys where ys: "memmove_cells xs ?i (Suc ?i) (?n - Suc ?i) = Some ys"
    "length ys = length xs" "take (?n - 1) ys = del_at ?i (take ?n xs)"
    using memmove_down [OF n] by blast
  have "array_remove a i = Some (a\<lparr>a_v := Some ys, a_num := a_num a - 1\<rparr>)"
    using assms xs e ys(1) by (simp add: array_remove_def array_ok_def)
  moreover have "nat (a_num a - 1) = ?n - 1" by simp
  ultimately show ?thesis
    using assms xs ys(2,3) by (simp add: array_ok_def guys_def)
qed

text \<open>Emptying an array never allocates. A capacity above 16 is given back.\<close>

lemma array_setsize_0:
  assumes "array_ok a"
  shows "\<exists>a'. array_setsize mem a 0 = Some (Inr (), a') \<and> array_ok a' \<and> guys a' = [] \<and>
    a_max a' = (if 16 < a_max a then 0 else a_max a)"
  using assms by (auto simp: array_setsize_def array_ok_def guys_def split: option.splits)

section \<open>The search loop\<close>

lemma array_scan_from:
  assumes "\<And>i. i < length xs \<Longrightarrow> get (int i) = Some (xs ! i)" "i \<le> length xs"
  shows "array_scan get p i (length xs) =
    Some (if \<exists>x \<in> set (drop i xs). p x
          then Some (i + length (takeWhile (\<lambda>x. \<not> p x) (drop i xs))) else None)"
  using assms(2)
proof (induction "length xs - i" arbitrary: i)
  case 0
  then show ?case by (simp add: array_scan.simps)
next
  case (Suc k)
  then have i: "i < length xs" and k: "k = length xs - Suc i" by auto
  have d: "drop i xs = xs ! i # drop (Suc i) xs" using i by (simp add: Cons_nth_drop_Suc)
  have g: "get (int i) = Some (xs ! i)" using i by (rule assms(1))
  show ?case
  proof (cases "p (xs ! i)")
    case True
    then show ?thesis using i g d by (subst array_scan.simps) simp
  next
    case False
    have "array_scan get p i (length xs) = array_scan get p (Suc i) (length xs)"
      using i g False by (subst array_scan.simps) simp
    then show ?thesis using Suc.hyps(1) [OF k] i d False by simp
  qed
qed

section \<open>The contract of the array\<close>

text \<open>
  What the clients of the array rely on. \<open>room\<close> is the capacity: adding to an array whose length
  is below it allocates nothing, whatever the allocator would answer.
\<close>

locale dyn_array =
  fixes ok :: "'c \<Rightarrow> bool"
    and elems :: "'c \<Rightarrow> 'a list"
    and room :: "'c \<Rightarrow> int"
    and getnum :: "'c \<Rightarrow> int"
    and getguy :: "'c \<Rightarrow> int \<Rightarrow> 'a option"
    and add :: "'a fresh \<Rightarrow> 'c \<Rightarrow> 'a \<Rightarrow> ((errno + unit) \<times> 'c) option"
    and remove :: "'c \<Rightarrow> int \<Rightarrow> 'c option"
  assumes getnum: "ok c \<Longrightarrow> getnum c = int (length (elems c))"
    and getguy: "ok c \<Longrightarrow> i < length (elems c) \<Longrightarrow> getguy c (int i) = Some (elems c ! i)"
    and add_room: "ok c \<Longrightarrow> int (length (elems c)) < room c \<Longrightarrow>
      \<exists>c'. add mem c x = Some (Inr (), c') \<and> ok c' \<and> elems c' = elems c @ [x] \<and> room c' = room c"
    and remove: "ok c \<Longrightarrow> i < length (elems c) \<Longrightarrow>
      \<exists>c'. remove c (int i) = Some c' \<and> ok c' \<and> elems c' = del_at i (elems c) \<and> room c' = room c"
begin

text \<open>
  The search loop finds the first element that passes the test, or reports that none does. The
  test looks at what \<open>h\<close> reads of an element, the element itself or a field of what it points to.
\<close>

lemma scan_elems:
  assumes "ok c" "\<And>t. t \<in> set (elems c) \<Longrightarrow> h t = Some (f t)"
  shows "array_scan (\<lambda>i. do { t \<leftarrow> getguy c i; h t }) p 0 (length (elems c)) =
    Some (if \<exists>t \<in> set (elems c). p (f t)
          then Some (length (takeWhile (\<lambda>t. \<not> p (f t)) (elems c))) else None)"
proof -
  have "array_scan (\<lambda>i. do { t \<leftarrow> getguy c i; h t }) p 0 (length (map f (elems c))) =
    Some (if \<exists>x \<in> set (map f (elems c)). p x
          then Some (length (takeWhile (\<lambda>x. \<not> p x) (map f (elems c)))) else None)"
    using assms getguy by (subst array_scan_from) auto
  then show ?thesis by (simp add: takeWhile_map o_def)
qed

lemma scan_hit:
  assumes "ok c" "\<And>t. t \<in> set (elems c) \<Longrightarrow> h t = Some (f t)"
    "elems c = xs @ x # ys" "\<forall>y \<in> set xs. \<not> p (f y)" "p (f x)"
  shows "array_scan (\<lambda>i. do { t \<leftarrow> getguy c i; h t }) p 0 (length (elems c)) = Some (Some (length xs))"
proof -
  have "takeWhile (\<lambda>t. \<not> p (f t)) (elems c) = xs" using assms(3,4,5) by simp
  moreover have "\<exists>t \<in> set (elems c). p (f t)" using assms(3,5) by auto
  ultimately show ?thesis using scan_elems [OF assms(1,2), where p = p] by simp
qed

lemma scan_miss:
  assumes "ok c" "\<And>t. t \<in> set (elems c) \<Longrightarrow> h t = Some (f t)" "\<forall>t \<in> set (elems c). \<not> p (f t)"
  shows "array_scan (\<lambda>i. do { t \<leftarrow> getguy c i; h t }) p 0 (length (elems c)) = Some None"
  using scan_elems [OF assms(1,2), where p = p] assms(3) by simp

end

lemma max_room_guys: "array_ok a \<Longrightarrow> int (length (guys a)) \<le> a_max a"
  using length_guys [of a] by (simp add: array_ok_def)

interpretation karr: dyn_array array_ok guys a_max array_getnum array_getguy array_add array_remove
proof (unfold_locales, goal_cases)
  case (1 c)
  then show ?case by (simp add: array_getnum_def length_guys)
next
  case (2 c i)
  then have "int i < a_num c" using length_guys [OF 2(1)] by simp
  with 2(1) array_getguy_ok [of c "int i"] show ?case by simp
next
  case (3 c mem x)
  then have "a_num c < a_max c" using length_guys [OF 3(1)] by simp
  with 3(1) array_add_room [of c mem x] show ?case by blast
next
  case (4 c i)
  then have "int i < a_num c" using length_guys [OF 4(1)] by simp
  with 4(1) array_remove_ok [of c "int i"] show ?case by auto
qed

end
