(* ===== verification/Kern_Queue.thy ===== *)
theory Kern_Queue
  imports Kern_Prelude
begin

text \<open>
  The circular queue of \<^verbatim>\<open>kern/lib/queue.c\<close>. \<open>q_grow\<close> copies the old ring by
  calling \<open>q_addtail\<close>, which itself calls \<open>q_grow\<close> on a full ring: the three pieces are
  mutually recursive and carry fuel, and the lemmas show that \<open>size + 4\<close> is always enough. The ring
  is related to the list of its items, and the locale \<open>fifo\<close> states what the scheduler relies on.
\<close>

section \<open>Structure and operations\<close>

record 'a queue =
  q_size :: int
  q_nextwrite :: int
  q_nextread :: int
  q_data :: "'a list"

text \<open>
  The answers of \<open>kmalloc\<close>, one for each call: the list is the path of nested calls (the number of
  the loop iteration in \<open>q_grow\<close>) that leads to the allocation.
\<close>

type_synonym 'a kmem = "nat list \<Rightarrow> 'a fresh"

definition q_create :: "bool \<Rightarrow> 'a fresh \<Rightarrow> int \<Rightarrow> 'a queue option" where
  "q_create mem1 mem2 sz =
     (if \<not> mem1 then None
      else case mem2 of
          None \<Rightarrow> None
        | Some g \<Rightarrow> Some \<lparr>q_size = sz, q_nextwrite = 0, q_nextread = 0,
                          q_data = fresh_cells g sz\<rparr>)"

definition q_empty :: "'a queue \<Rightarrow> bool" where
  "q_empty q \<longleftrightarrow> q_nextwrite q = q_nextread q"

text \<open>\<open>while (nsize < targetsize) { nsize *= 2; assert(nsize > 0); }\<close>\<close>

partial_function (option) q_newsize :: "int \<Rightarrow> int \<Rightarrow> int option" where
  "q_newsize target nsize =
     (if nsize < target then do {
        n \<leftarrow> cint (nsize * 2);
        kassert (0 < n);
        q_newsize target n }
      else Some nsize)"

fun q_grow_f :: "nat \<Rightarrow> 'a kmem \<Rightarrow> 'a queue \<Rightarrow> int \<Rightarrow> ((errno + unit) \<times> 'a queue) option"
  and q_copy_f :: "nat \<Rightarrow> 'a kmem \<Rightarrow> nat \<Rightarrow> 'a list \<Rightarrow> int \<Rightarrow> int \<Rightarrow> int \<Rightarrow> 'a queue \<Rightarrow> 'a queue option"
  and q_addtail_f :: "nat \<Rightarrow> 'a kmem \<Rightarrow> 'a queue \<Rightarrow> 'a \<Rightarrow> ((errno + unit) \<times> 'a queue) option" where
  "q_grow_f 0 mem q targetsize = None"
| "q_grow_f (Suc f) mem q targetsize = do {
     nsize \<leftarrow> q_newsize targetsize (q_size q);
     (case mem [] of
        None \<Rightarrow> Some (Inl ENOMEM, q)
      | Some g \<Rightarrow> do {
          q' \<leftarrow> q_copy_f f mem 0 (q_data q) (q_size q) (q_nextread q) (q_nextwrite q)
                 \<lparr>q_size = nsize, q_nextwrite = 0, q_nextread = 0, q_data = fresh_cells g nsize\<rparr>;
          Some (Inr (), q') }) }"
| "q_copy_f 0 mem k olddata osize i onw q = None"
| "q_copy_f (Suc f) mem k olddata osize i onw q =
     (if i = onw then Some q
      else do {
        x \<leftarrow> rd olddata i;
        (r, q') \<leftarrow> q_addtail_f f (\<lambda>p. mem (k # p)) q x;
        kassert (r = Inr ());
        q_copy_f f mem (Suc k) olddata osize ((i + 1) smod osize) onw q' })"
| "q_addtail_f 0 mem q ptr = None"
| "q_addtail_f (Suc f) mem q ptr = do {
     kassert (0 < q_size q);
     (if (q_nextwrite q + 1) smod q_size q = q_nextread q then do {
        t \<leftarrow> cint (q_size q + 1);
        (r, q') \<leftarrow> q_grow_f f mem q t;
        (case r of
           Inl e \<Rightarrow> Some (Inl e, q')
         | Inr _ \<Rightarrow> do {
             d \<leftarrow> wr (q_data q') (q_nextwrite q') ptr;
             Some (Inr (), q'\<lparr>q_data := d,
                               q_nextwrite := (q_nextwrite q' + 1) smod q_size q'\<rparr>) }) }
      else do {
        d \<leftarrow> wr (q_data q) (q_nextwrite q) ptr;
        Some (Inr (), q\<lparr>q_data := d, q_nextwrite := (q_nextwrite q + 1) smod q_size q\<rparr>) }) }"

definition q_fuel :: "'a queue \<Rightarrow> nat" where
  "q_fuel q = nat (q_size q) + 4"

definition q_grow :: "'a kmem \<Rightarrow> 'a queue \<Rightarrow> int \<Rightarrow> ((errno + unit) \<times> 'a queue) option" where
  "q_grow mem q targetsize = q_grow_f (q_fuel q) mem q targetsize"

definition q_addtail :: "'a kmem \<Rightarrow> 'a queue \<Rightarrow> 'a \<Rightarrow> ((errno + unit) \<times> 'a queue) option" where
  "q_addtail mem q ptr = q_addtail_f (q_fuel q) mem q ptr"

definition q_preallocate :: "'a kmem \<Rightarrow> 'a queue \<Rightarrow> int \<Rightarrow> ((errno + unit) \<times> 'a queue) option" where
  "q_preallocate mem q sz = do {
     kassert (0 < q_size q);
     if q_size q < sz then q_grow mem q sz else Some (Inr (), q) }"

definition q_remhead :: "'a queue \<Rightarrow> ('a \<times> 'a queue) option" where
  "q_remhead q = do {
     kassert (0 < q_size q);
     kassert (\<not> q_empty q);
     ret \<leftarrow> rd (q_data q) (q_nextread q);
     Some (ret, q\<lparr>q_nextread := (q_nextread q + 1) smod q_size q\<rparr>) }"

definition q_destroy :: "'a queue \<Rightarrow> unit option" where
  "q_destroy q = kassert (q_empty q)"

definition q_getstart :: "'a queue \<Rightarrow> int" where
  "q_getstart q = q_nextread q"

definition q_getend :: "'a queue \<Rightarrow> int" where
  "q_getend q = q_nextwrite q"

definition q_getsize :: "'a queue \<Rightarrow> int" where
  "q_getsize q = q_size q"

definition q_getguy :: "'a queue \<Rightarrow> int \<Rightarrow> 'a option" where
  "q_getguy q index = do {
     kassert (0 \<le> index \<and> index < q_size q);
     rd (q_data q) index }"

section \<open>Invariant and items\<close>

definition q_ok :: "'a queue \<Rightarrow> bool" where
  "q_ok q \<longleftrightarrow> 0 < q_size q \<and> q_size q < 2 ^ 30 \<and> int (length (q_data q)) = q_size q \<and>
     0 \<le> q_nextwrite q \<and> q_nextwrite q < q_size q \<and> 0 \<le> q_nextread q \<and> q_nextread q < q_size q"

text \<open>The items of a ring of \<open>n\<close> cells, from index \<open>i\<close> up to and excluding index \<open>w\<close>.\<close>

definition ring_len :: "int \<Rightarrow> int \<Rightarrow> int \<Rightarrow> nat" where
  "ring_len n i w = nat ((w - i) mod n)"

definition ring :: "'a list \<Rightarrow> int \<Rightarrow> int \<Rightarrow> int \<Rightarrow> 'a list" where
  "ring d n i w = map (\<lambda>j. d ! nat ((i + int j) mod n)) [0..<ring_len n i w]"

definition q_items :: "'a queue \<Rightarrow> 'a list" where
  "q_items q = ring (q_data q) (q_size q) (q_nextread q) (q_nextwrite q)"

lemma length_ring [simp]: "length (ring d n i w) = ring_len n i w"
  by (simp add: ring_def)

lemma int_ring_len: "0 < n \<Longrightarrow> int (ring_len n i w) = (w - i) mod n"
  by (simp add: ring_len_def)

lemma ring_len_less: "0 < n \<Longrightarrow> int (ring_len n i w) < n"
  by (simp add: int_ring_len)

lemma ring_len_0_iff:
  assumes "0 \<le> i" "i < n" "0 \<le> w" "w < n"
  shows "ring_len n i w = 0 \<longleftrightarrow> i = w"
proof
  assume "ring_len n i w = 0"
  then have "(w - i) mod n = 0" using int_ring_len [of n i w] assms by simp
  then have "w mod n = i mod n" by (simp add: mod_eq_dvd_iff mod_eq_0_iff_dvd)
  then show "i = w" using assms by simp
qed (simp add: ring_len_def)

text \<open>The cell at distance \<open>j\<close> is the write cell only if \<open>j\<close> is the number of items.\<close>

lemma ring_index_eq:
  assumes "0 \<le> j" "j < (n :: int)" "(i + j) mod n = w"
  shows "j = (w - i) mod n"
proof -
  have "(w - i) mod n = ((i + j) mod n - i) mod n" using assms(3) by simp
  also have "\<dots> = (i + j - i) mod n" by (simp add: mod_simps)
  finally show ?thesis using assms by simp
qed

lemma ring_len_Suc_write:
  assumes "0 < n" "int (ring_len n i w) + 1 < n"
  shows "ring_len n i ((w + 1) mod n) = Suc (ring_len n i w)"
proof -
  have "((w + 1) mod n - i) mod n = ((w - i) mod n + 1) mod n"
    by (simp add: mod_simps algebra_simps)
  also have "\<dots> = (w - i) mod n + 1"
    using assms int_ring_len [of n i w] by (intro mod_pos_pos_trivial) simp_all
  finally have "int (ring_len n i ((w + 1) mod n)) = int (Suc (ring_len n i w))"
    using assms(1) by (simp add: int_ring_len)
  then show ?thesis by (simp only: of_nat_eq_iff)
qed

lemma ring_len_full:
  assumes "0 < n" "(w + 1) mod n = i"
  shows "int (ring_len n i w) = n - 1"
proof -
  have "(w - i) mod n = (w - (w + 1)) mod n"
    using assms(2) by (metis mod_diff_right_eq)
  also have "\<dots> = (- 1) mod n" by simp
  also have "\<dots> = n - 1" using assms(1) by (simp add: zmod_minus1)
  finally show ?thesis using assms(1) by (simp add: int_ring_len)
qed

lemma ring_len_not_full:
  assumes "0 < n" "0 \<le> i" "i < n" "(w + 1) mod n \<noteq> i"
  shows "int (ring_len n i w) + 1 < n"
proof (rule ccontr)
  assume "\<not> int (ring_len n i w) + 1 < n"
  with ring_len_less [OF assms(1), of i w] int_ring_len [OF assms(1), of i w]
  have "(w - i) mod n = n - 1" by linarith
  then have "((w - i) mod n + (i + 1)) mod n = (n + i) mod n" by simp
  then have "(w + 1) mod n = i mod n" by (simp add: mod_simps)
  with assms show False by simp
qed

text \<open>The two ends of the ring: a write behind the last item, a read of the first one.\<close>

lemma ring_write:
  assumes "0 < n" "0 \<le> w" "w < n" "int (length d) = n" "int (ring_len n i w) + 1 < n"
  shows "ring (d[nat w := x]) n i ((w + 1) mod n) = ring d n i w @ [x]"
proof -
  let ?k = "ring_len n i w"
  have other: "nat ((i + int j) mod n) \<noteq> nat w" if "j < ?k" for j
  proof
    assume "nat ((i + int j) mod n) = nat w"
    then have "(i + int j) mod n = w"
      using assms(1,2) pos_mod_sign [of n "i + int j"] by linarith
    then have "int j = (w - i) mod n"
      using that assms(5) by (intro ring_index_eq) auto
    with that int_ring_len [OF assms(1), of i w] show False by simp
  qed
  have "(i + int ?k) mod n = w"
    using assms(1,2,3) by (simp add: int_ring_len mod_simps)
  moreover have "nat w < length d" using assms(2,3,4) by auto
  moreover have "map (\<lambda>j. d[nat w := x] ! nat ((i + int j) mod n)) [0..<?k] =
      map (\<lambda>j. d ! nat ((i + int j) mod n)) [0..<?k]"
    using other by (intro map_cong refl nth_list_update_neq not_sym [OF other]) simp
  ultimately show ?thesis
    using ring_len_Suc_write [OF assms(1,5)] by (simp add: ring_def)
qed

lemma ring_read:
  assumes "0 \<le> i" "i < n" "0 \<le> w" "w < n" "i \<noteq> w"
  shows "ring d n i w = d ! nat i # ring d n ((i + 1) mod n) w"
proof -
  have n: "0 < n" using assms by simp
  have k: "0 < ring_len n i w" using assms ring_len_0_iff [of i n w] by simp
  have "(w - (i + 1) mod n) mod n = ((w - i) mod n - 1) mod n"
    by (simp add: mod_simps algebra_simps)
  also have "\<dots> = (w - i) mod n - 1"
    using k n int_ring_len [OF n, of i w] pos_mod_bound [OF n, of "w - i"]
    by (intro mod_pos_pos_trivial) linarith+
  finally have "int (ring_len n ((i + 1) mod n) w) = int (ring_len n i w) - 1"
    using n by (simp add: int_ring_len)
  then have s: "ring_len n i w = Suc (ring_len n ((i + 1) mod n) w)"
    using k by linarith
  have "map (\<lambda>j. d ! nat ((i + int j) mod n)) [0..<Suc m] =
      d ! nat i # map (\<lambda>j. d ! nat (((i + 1) mod n + int j) mod n)) [0..<m]" for m
    using assms by (simp add: map_upt_Suc mod_simps algebra_simps del: upt_Suc)
  then show ?thesis by (simp add: ring_def s)
qed

section \<open>The operations on the items\<close>

lemma q_empty_iff: "q_ok q \<Longrightarrow> q_empty q \<longleftrightarrow> q_items q = []"
  using ring_len_0_iff [of "q_nextread q" "q_size q" "q_nextwrite q"]
  by (auto simp: q_ok_def q_empty_def q_items_def simp flip: length_0_conv)

lemma length_items_less: "q_ok q \<Longrightarrow> int (length (q_items q)) < q_size q"
  by (simp add: q_ok_def q_items_def ring_len_less)

lemma q_remhead_items:
  assumes "q_ok q" "q_items q = x # xs"
  shows "\<exists>q'. q_remhead q = Some (x, q') \<and> q_ok q' \<and> q_items q' = xs \<and> q_size q' = q_size q"
proof -
  have ne: "q_nextread q \<noteq> q_nextwrite q"
    using assms q_empty_iff [OF assms(1)] by (simp add: q_empty_def)
  have "q_items q = q_data q ! nat (q_nextread q) #
      ring (q_data q) (q_size q) ((q_nextread q + 1) mod q_size q) (q_nextwrite q)"
    using assms(1) ne unfolding q_items_def by (intro ring_read) (auto simp: q_ok_def)
  moreover have "q_remhead q = Some (q_data q ! nat (q_nextread q),
      q\<lparr>q_nextread := (q_nextread q + 1) mod q_size q\<rparr>)"
    using assms(1) ne by (simp add: q_remhead_def q_ok_def q_empty_def smod_eq_mod)
  ultimately show ?thesis
    using assms by (auto simp: q_ok_def q_items_def)
qed

lemma q_addtail_f_room:
  assumes "q_ok q" "int (length (q_items q)) + 1 < q_size q"
  shows "\<exists>q'. q_addtail_f (Suc f) mem q x = Some (Inr (), q') \<and> q_ok q' \<and>
    q_items q' = q_items q @ [x] \<and> q_size q' = q_size q"
proof -
  let ?n = "q_size q" and ?i = "q_nextread q" and ?w = "q_nextwrite q"
  have ok: "0 < ?n" "0 \<le> ?w" "?w < ?n" "0 \<le> ?i" "?i < ?n" "int (length (q_data q)) = ?n"
    using assms(1) by (auto simp: q_ok_def)
  have room: "int (ring_len ?n ?i ?w) + 1 < ?n"
    using assms(2) by (simp add: q_items_def)
  have "(?w + 1) mod ?n \<noteq> ?i" using ring_len_full [OF ok(1)] room by fastforce
  then have "q_addtail_f (Suc f) mem q x = Some (Inr (),
      q\<lparr>q_data := (q_data q)[nat ?w := x], q_nextwrite := (?w + 1) mod ?n\<rparr>)"
    using ok by (simp add: smod_eq_mod)
  moreover have "ring ((q_data q)[nat ?w := x]) ?n ?i ((?w + 1) mod ?n) = q_items q @ [x]"
    using ring_write [OF ok(1-3,6) room] by (simp add: q_items_def)
  ultimately show ?thesis
    using assms(1) ok by (auto simp: q_ok_def q_items_def)
qed

lemma q_copy_f_items:
  assumes "q_ok q" "0 \<le> i" "i < n" "0 \<le> w" "w < n" "int (length d) = n"
    "ring_len n i w < f" "int (length (q_items q)) + int (ring_len n i w) < q_size q"
  shows "\<exists>q'. q_copy_f f mem k d n i w q = Some q' \<and> q_ok q' \<and>
    q_items q' = q_items q @ ring d n i w \<and> q_size q' = q_size q"
  using assms
proof (induction f arbitrary: q i k)
  case 0
  then show ?case by simp
next
  case (Suc f)
  show ?case
  proof (cases "i = w")
    case True
    then show ?thesis using Suc.prems by (auto simp: ring_def ring_len_def)
  next
    case False
    then have r: "ring d n i w = d ! nat i # ring d n ((i + 1) mod n) w"
      using Suc.prems by (intro ring_read)
    have len: "ring_len n i w = Suc (ring_len n ((i + 1) mod n) w)"
      using arg_cong [OF r, of length] by simp
    obtain f' where f': "f = Suc f'" using Suc.prems(7) len by (cases f) auto
    obtain q1 where q1: "q_addtail_f f (\<lambda>p. mem (k # p)) q (d ! nat i) = Some (Inr (), q1)"
      "q_ok q1" "q_items q1 = q_items q @ [d ! nat i]" "q_size q1 = q_size q"
      using q_addtail_f_room [OF Suc.prems(1), of f' "\<lambda>p. mem (k # p)" "d ! nat i"]
        Suc.prems(8) len f' by auto
    have "\<exists>q'. q_copy_f f mem (Suc k) d n ((i + 1) mod n) w q1 = Some q' \<and> q_ok q' \<and>
      q_items q' = q_items q1 @ ring d n ((i + 1) mod n) w \<and> q_size q' = q_size q1"
      using Suc.prems q1 len by (intro Suc.IH) auto
    with q1 r show ?thesis
      using Suc.prems(2,3,6) False by (simp add: smod_eq_mod)
  qed
qed

lemma q_newsize_returns:
  assumes "0 < n" "t \<le> 2 ^ 29"
  shows "\<exists>m. q_newsize t n = Some m \<and> t \<le> m \<and> n \<le> m \<and> (m = n \<or> m < 2 * t)"
  using assms(1)
proof (induction "nat (t - n)" arbitrary: n rule: less_induct)
  case less
  show ?case
  proof (cases "n < t")
    case False
    then show ?thesis by (subst q_newsize.simps) simp
  next
    case True
    with less.prems assms(2) have ck: "cint (n * 2) = Some (n * 2)" by simp
    have "nat (t - n * 2) < nat (t - n)" "0 < n * 2" using True less.prems by auto
    from less.hyps [OF this] obtain m where m:
      "q_newsize t (n * 2) = Some m" "t \<le> m" "n * 2 \<le> m" "m = n * 2 \<or> m < 2 * t" by blast
    then have "q_newsize t n = Some m"
      using True less.prems by (subst q_newsize.simps) (simp add: ck del: cint_in)
    with m True less.prems show ?thesis by force
  qed
qed

text \<open>Growing keeps the items, in order, and gives a ring of at least the requested size.\<close>

lemma q_grow_f_items:
  assumes ok: "q_ok q" and t: "q_size q < t" "t \<le> 2 ^ 29" and f: "nat (q_size q) < f"
  shows "case mem [] of
      None \<Rightarrow> q_grow_f (Suc f) mem q t = Some (Inl ENOMEM, q)
    | Some g \<Rightarrow> \<exists>q'. q_grow_f (Suc f) mem q t = Some (Inr (), q') \<and> q_ok q' \<and>
        q_items q' = q_items q \<and> t \<le> q_size q' \<and> q_size q' < 2 * t"
proof -
  have pos: "0 < q_size q" using ok by (simp add: q_ok_def)
  obtain m where m: "q_newsize t (q_size q) = Some m" "t \<le> m" "m < 2 * t"
    using q_newsize_returns [OF pos t(2)] t(1) by auto
  show ?thesis
  proof (cases "mem []")
    case None
    then show ?thesis using m by simp
  next
    case (Some g)
    let ?q = "\<lparr>q_size = m, q_nextwrite = 0, q_nextread = 0, q_data = fresh_cells g m\<rparr>"
    have mb: "0 < m" "m < 2 ^ 30" using m t pos by auto
    have q: "q_ok ?q" using mb by (simp add: q_ok_def ptr_cells_small)
    have e: "q_items ?q = []" by (simp add: q_items_def ring_def ring_len_def)
    have "int (ring_len (q_size q) (q_nextread q) (q_nextwrite q)) < q_size q"
      using pos by (rule ring_len_less)
    moreover have "ring_len (q_size q) (q_nextread q) (q_nextwrite q) < f"
      using calculation f by linarith
    ultimately obtain q' where "q_copy_f f mem 0 (q_data q) (q_size q) (q_nextread q) (q_nextwrite q) ?q =
        Some q'" "q_ok q'" "q_items q' = q_items ?q @ q_items q" "q_size q' = q_size ?q"
      using q_copy_f_items [OF q, of "q_nextread q" "q_size q" "q_nextwrite q" "q_data q" f mem 0]
        ok e t m f by (auto simp: q_ok_def q_items_def [of q])
    then show ?thesis using Some m e by simp
  qed
qed

lemma q_addtail_room:
  assumes "q_ok q" "int (length (q_items q)) + 1 < q_size q"
  shows "\<exists>q'. q_addtail mem q x = Some (Inr (), q') \<and> q_ok q' \<and>
    q_items q' = q_items q @ [x] \<and> q_size q' = q_size q"
  using q_addtail_f_room [OF assms, of "nat (q_size q) + 3" mem x]
  by (simp add: q_addtail_def q_fuel_def numeral_eq_Suc)

lemma q_addtail_full:
  assumes ok: "q_ok q" and full: "int (length (q_items q)) + 1 = q_size q"
    and small: "q_size q < 2 ^ 29"
  shows "case mem [] of
      None \<Rightarrow> q_addtail mem q x = Some (Inl ENOMEM, q)
    | Some g \<Rightarrow> \<exists>q'. q_addtail mem q x = Some (Inr (), q') \<and> q_ok q' \<and>
        q_items q' = q_items q @ [x] \<and> q_size q < q_size q' \<and> q_size q' \<le> 2 * q_size q + 1"
proof -
  let ?n = "q_size q" and ?f = "nat (q_size q) + 2"
  have pos: "0 < ?n" using ok by (simp add: q_ok_def)
  have "(q_nextwrite q + 1) mod ?n = q_nextread q"
  proof (rule ccontr)
    assume "(q_nextwrite q + 1) mod ?n \<noteq> q_nextread q"
    then have "int (ring_len ?n (q_nextread q) (q_nextwrite q)) + 1 < ?n"
      using ok by (intro ring_len_not_full) (auto simp: q_ok_def)
    with full show False by (simp add: q_items_def)
  qed
  then have next_full: "(q_nextwrite q + 1) smod ?n = q_nextread q"
    using ok by (simp add: q_ok_def smod_eq_mod)
  have ck: "cint (?n + 1) = Some (?n + 1)" using pos small by simp
  have fuel: "q_fuel q = Suc (Suc ?f)" by (simp add: q_fuel_def)
  have g: "case mem [] of
      None \<Rightarrow> q_grow_f (Suc ?f) mem q (?n + 1) = Some (Inl ENOMEM, q)
    | Some g \<Rightarrow> \<exists>q'. q_grow_f (Suc ?f) mem q (?n + 1) = Some (Inr (), q') \<and> q_ok q' \<and>
        q_items q' = q_items q \<and> ?n + 1 \<le> q_size q' \<and> q_size q' < 2 * (?n + 1)"
    using small by (intro q_grow_f_items ok) auto
  show ?thesis
  proof (cases "mem []")
    case None
    with g have "q_grow_f (Suc ?f) mem q (?n + 1) = Some (Inl ENOMEM, q)" by simp
    then show ?thesis
      using None pos next_full ck by (simp add: q_addtail_def fuel)
  next
    case (Some h)
    with g obtain q1 where q1: "q_grow_f (Suc ?f) mem q (?n + 1) = Some (Inr (), q1)"
      "q_ok q1" "q_items q1 = q_items q" "?n + 1 \<le> q_size q1" "q_size q1 < 2 * (?n + 1)" by auto
    obtain q2 where q2: "q_addtail_f 1 mem q1 x = Some (Inr (), q2)" "q_ok q2"
      "q_items q2 = q_items q1 @ [x]" "q_size q2 = q_size q1"
      using q_addtail_f_room [OF q1(2), of 0 mem x] q1(3,4) full by auto
    have "(q_nextwrite q1 + 1) smod q_size q1 \<noteq> q_nextread q1"
      using q2(1) by (auto simp: One_nat_def)
    then have "do { d \<leftarrow> wr (q_data q1) (q_nextwrite q1) x;
        Some (Inr () :: errno + unit, q1\<lparr>q_data := d,
          q_nextwrite := (q_nextwrite q1 + 1) smod q_size q1\<rparr>) } = Some (Inr (), q2)"
      using q2(1) q1(2) by (simp add: One_nat_def q_ok_def)
    then have "q_addtail mem q x = Some (Inr (), q2)"
      using pos next_full ck q1(1) by (simp add: q_addtail_def fuel del: q_grow_f.simps)
    then show ?thesis using Some q1 q2 by auto
  qed
qed

lemma q_preallocate_items:
  assumes ok: "q_ok q" and t: "t \<le> 2 ^ 29"
  shows "if q_size q < t \<and> mem [] = None then q_preallocate mem q t = Some (Inl ENOMEM, q)
    else \<exists>q'. q_preallocate mem q t = Some (Inr (), q') \<and> q_ok q' \<and> q_items q' = q_items q \<and>
      t \<le> q_size q' \<and> q_size q \<le> q_size q'"
proof (cases "q_size q < t")
  case True
  have "q_fuel q = Suc (nat (q_size q) + 3)" by (simp add: q_fuel_def)
  moreover have "0 < q_size q" using ok by (simp add: q_ok_def)
  ultimately show ?thesis
    using True q_grow_f_items [OF ok True t, of "nat (q_size q) + 3" mem]
    by (auto simp add: q_preallocate_def q_grow_def simp del: q_grow_f.simps split: option.splits)
next
  case False
  then show ?thesis using ok by (simp add: q_preallocate_def q_ok_def)
qed

lemma q_create_items:
  assumes "0 < n" "n < 2 ^ 30"
  shows "\<exists>q. q_create True (Some g) n = Some q \<and> q_ok q \<and> q_items q = [] \<and> q_size q = n"
  using assms by (simp add: q_create_def q_ok_def q_items_def ring_def ring_len_def ptr_cells_small)

section \<open>The contract of the queue\<close>

text \<open>
  What the scheduler relies on. \<open>cap\<close> is the number of items the queue holds without allocating;
  beyond it an insertion either succeeds or reports \<open>ENOMEM\<close> with the queue as it was. A ring of
  \<open>n\<close> cells holds \<open>n - 1\<close> items.
\<close>

datatype 'a fifo_op = Put 'a | Get

text \<open>A client that puts and gets, with what it got; a failed \<open>Put\<close> stops it.\<close>

fun fifo_run ::
    "('q \<Rightarrow> 'a \<Rightarrow> ((errno + unit) \<times> 'q) option) \<Rightarrow> ('q \<Rightarrow> ('a \<times> 'q) option) \<Rightarrow>
      'a fifo_op list \<Rightarrow> 'q \<Rightarrow> ('a list \<times> 'q) option" where
  "fifo_run put get [] q = Some ([], q)"
| "fifo_run put get (Put x # ops) q = do {
     (r, q) \<leftarrow> put q x;
     kassert (r = Inr ());
     fifo_run put get ops q }"
| "fifo_run put get (Get # ops) q = do {
     (x, q) \<leftarrow> get q;
     (xs, q) \<leftarrow> fifo_run put get ops q;
     Some (x # xs, q) }"

text \<open>The same client on a list.\<close>

definition list_put :: "'a list \<Rightarrow> 'a \<Rightarrow> ((errno + unit) \<times> 'a list) option" where
  "list_put xs x = Some (Inr (), xs @ [x])"

definition list_get :: "'a list \<Rightarrow> ('a \<times> 'a list) option" where
  "list_get xs = (case xs of [] \<Rightarrow> None | x # ys \<Rightarrow> Some (x, ys))"

locale fifo =
  fixes ok :: "'q \<Rightarrow> bool"
    and items :: "'q \<Rightarrow> 'a list"
    and cap :: "'q \<Rightarrow> int"
    and empty :: "'q \<Rightarrow> bool"
    and addtail :: "'a kmem \<Rightarrow> 'q \<Rightarrow> 'a \<Rightarrow> ((errno + unit) \<times> 'q) option"
    and remhead :: "'q \<Rightarrow> ('a \<times> 'q) option"
  assumes empty: "ok q \<Longrightarrow> empty q \<longleftrightarrow> items q = []"
    and cap: "ok q \<Longrightarrow> int (length (items q)) \<le> cap q"
    and addtail_room: "ok q \<Longrightarrow> int (length (items q)) < cap q \<Longrightarrow>
      \<exists>q'. addtail mem q x = Some (Inr (), q') \<and> ok q' \<and> items q' = items q @ [x] \<and> cap q' = cap q"
    and addtail_full: "ok q \<Longrightarrow> int (length (items q)) = cap q \<Longrightarrow> cap q < 2 ^ 29 - 1 \<Longrightarrow>
      case mem [] of
        None \<Rightarrow> addtail mem q x = Some (Inl ENOMEM, q)
      | Some g \<Rightarrow> \<exists>q'. addtail mem q x = Some (Inr (), q') \<and> ok q' \<and> items q' = items q @ [x] \<and> cap q < cap q' \<and>
          cap q' \<le> 2 * cap q + 2"
    and remhead: "ok q \<Longrightarrow> items q = x # xs \<Longrightarrow>
      \<exists>q'. remhead q = Some (x, q') \<and> ok q' \<and> items q' = xs \<and> cap q' = cap q"
    and remhead_empty: "ok q \<Longrightarrow> items q = [] \<Longrightarrow> remhead q = None"
begin

lemma addtail_cases:
  assumes "ok q" "cap q < 2 ^ 29 - 1"
  shows "(\<exists>q'. addtail mem q x = Some (Inr (), q') \<and> ok q' \<and> items q' = items q @ [x] \<and> cap q \<le> cap q') \<or>
    (addtail mem q x = Some (Inl ENOMEM, q) \<and> int (length (items q)) = cap q \<and> mem [] = None)"
proof (cases "int (length (items q)) < cap q")
  case True
  with assms(1) addtail_room [of q mem x] show ?thesis by fastforce
next
  case False
  then have "int (length (items q)) = cap q" using cap [OF assms(1)] by simp
  with assms addtail_full [of q mem x] show ?thesis by (fastforce split: option.splits)
qed

text \<open>First in, first out: what is put in behind a non-empty queue does not change its head.\<close>

lemma addtail_remhead:
  assumes "ok q" "cap q < 2 ^ 29 - 1" "items q = y # ys" "addtail mem q x = Some (Inr (), q1)"
  shows "\<exists>q2. remhead q1 = Some (y, q2) \<and> ok q2 \<and> items q2 = ys @ [x]"
proof -
  have "ok q1" "items q1 = y # (ys @ [x])"
    using addtail_cases [OF assms(1,2), of mem x] assms(3,4) by auto
  then show ?thesis using remhead by blast
qed

text \<open>With memory, a client cannot tell the queue from a list.\<close>

lemma run_refines:
  assumes "ok q" "mem [] \<noteq> None" "cap q < 2 ^ 29 - 1" "int (length (items q)) + int (length ops) < 2 ^ 28 - 1"
  shows "case fifo_run list_put list_get ops (items q) of
      None \<Rightarrow> fifo_run (addtail mem) remhead ops q = None
    | Some (outs, xs) \<Rightarrow> \<exists>q'. fifo_run (addtail mem) remhead ops q = Some (outs, q') \<and> ok q' \<and> items q' = xs"
  using assms(1,3,4)
proof (induction ops arbitrary: q)
  case Nil
  then show ?case by simp
next
  case (Cons op ops)
  show ?case
  proof (cases op)
    case (Put x)
    obtain q1 where q1: "addtail mem q x = Some (Inr (), q1)" "ok q1" "items q1 = items q @ [x]" "cap q1 < 2 ^ 29 - 1"
    proof (cases "int (length (items q)) < cap q")
      case True
      with addtail_room [of q mem x] Cons.prems(1,2) that show ?thesis by auto
    next
      case False
      then have "int (length (items q)) = cap q" using cap [OF Cons.prems(1)] by simp
      with addtail_full [of q mem x] Cons.prems assms(2) that show ?thesis by fastforce
    qed
    with Cons.IH [OF q1(2,4)] Cons.prems(3) show ?thesis
      by (auto simp: Put list_put_def split: option.splits)
  next
    case Get
    show ?thesis
    proof (cases "items q")
      case Nil
      then show ?thesis using remhead_empty [OF Cons.prems(1)] by (simp add: Get list_get_def)
    next
      case (Cons x xs)
      with remhead [of q x xs] Cons.prems(1) obtain q1 where
        q1: "remhead q = Some (x, q1)" "ok q1" "items q1 = xs" "cap q1 = cap q" by auto
      with Cons.IH [OF q1(2)] Cons.prems(2,3) \<open>items q = x # xs\<close> show ?thesis
        by (auto simp: Get list_get_def split: option.splits)
    qed
  qed
qed

end

interpretation kq: fifo q_ok q_items "\<lambda>q. q_size q - 1" q_empty q_addtail q_remhead
proof (unfold_locales, goal_cases)
  case (1 q)
  then show ?case by (rule q_empty_iff)
next
  case (2 q)
  then show ?case using length_items_less [of q] by simp
next
  case (3 q mem x)
  then show ?case using q_addtail_room [of q mem x] by simp
next
  case (4 q mem x)
  then show ?case using q_addtail_full [of q mem x] by (fastforce split: option.splits)
next
  case (5 q x xs)
  then show ?case using q_remhead_items [of q x xs] by simp
next
  case (6 q)
  then show ?case using q_empty_iff [of q] by (simp add: q_remhead_def)
qed

end
