(* ===== verification/Kern_Machine.thy ===== *)
theory Kern_Machine
  imports Kern_Prelude
begin

text \<open>
  The machine the kernel runs on, as far as its C code sees it: the interrupt priority level of
  \<^verbatim>\<open>arch/mips/mips/spl.c\<close>, the boot-time page allocator of \<^verbatim>\<open>arch/mips/mips/ram.c\<close>, the
  64 entries of the TLB with the constants of \<^verbatim>\<open>arch/mips/include/tlb.h\<close>, and physical memory.
  The states of the thread system and of the virtual memory system extend this record.
\<close>

section \<open>State\<close>

record machine =
  curspl :: int
  firstpaddr :: "32 word"
  lastpaddr :: "32 word"
  tlb :: "(32 word \<times> 32 word) list"
  pmem :: "32 word \<Rightarrow> 8 word"

abbreviation SPL_HIGH :: int where "SPL_HIGH \<equiv> 15"
abbreviation PAGE_SIZE :: "32 word" where "PAGE_SIZE \<equiv> 4096"
abbreviation PAGE_FRAME :: "32 word" where "PAGE_FRAME \<equiv> 0xfffff000"
abbreviation MIPS_KSEG0 :: "32 word" where "MIPS_KSEG0 \<equiv> 0x80000000"
abbreviation TLBLO_DIRTY :: "32 word" where "TLBLO_DIRTY \<equiv> 0x400"
abbreviation TLBLO_VALID :: "32 word" where "TLBLO_VALID \<equiv> 0x200"
abbreviation NUM_TLB :: nat where "NUM_TLB \<equiv> 64"

section \<open>Interrupt priority level\<close>

text \<open>The previous level is handed back, together with the new state.\<close>

definition splx :: "int \<Rightarrow> 'm machine_scheme \<Rightarrow> int \<times> 'm machine_scheme" where
  "splx newspl m = (curspl m, m\<lparr>curspl := newspl\<rparr>)"

definition splhigh :: "'m machine_scheme \<Rightarrow> int \<times> 'm machine_scheme" where
  "splhigh m = splx SPL_HIGH m"

definition spl0 :: "'m machine_scheme \<Rightarrow> int \<times> 'm machine_scheme" where
  "spl0 m = splx 0 m"

lemma splx_simps [simp]:
  "splx n m = (curspl m, m\<lparr>curspl := n\<rparr>)"
  "splhigh m = (curspl m, m\<lparr>curspl := SPL_HIGH\<rparr>)"
  "spl0 m = (curspl m, m\<lparr>curspl := 0\<rparr>)"
  by (simp_all add: splx_def splhigh_def spl0_def)

section \<open>Physical pages\<close>

definition ram_bootstrap :: "32 word \<Rightarrow> 32 word \<Rightarrow> 'm machine_scheme \<Rightarrow> 'm machine_scheme" where
  "ram_bootstrap mips_ramsize firstfree m =
     (let ramsize = (if 508 * 1024 * 1024 < mips_ramsize then 508 * 1024 * 1024 else mips_ramsize)
      in m\<lparr>lastpaddr := ramsize, firstpaddr := firstfree - MIPS_KSEG0\<rparr>)"

definition ram_stealmem :: "32 word \<Rightarrow> 'm machine_scheme \<Rightarrow> 32 word \<times> 'm machine_scheme" where
  "ram_stealmem npages m =
     (let sz = npages * PAGE_SIZE in
      if firstpaddr m + sz > lastpaddr m then (0, m)
      else (firstpaddr m, m\<lparr>firstpaddr := firstpaddr m + sz\<rparr>))"

definition ram_getsize :: "'m machine_scheme \<Rightarrow> 32 word \<times> 32 word \<times> 'm machine_scheme" where
  "ram_getsize m = (firstpaddr m, lastpaddr m, m\<lparr>firstpaddr := 0, lastpaddr := 0\<rparr>)"

definition getppages :: "32 word \<Rightarrow> 'm machine_scheme \<Rightarrow> 32 word \<times> 'm machine_scheme" where
  "getppages npages m =
     (let (spl, m1) = splhigh m;
          (addr, m2) = ram_stealmem npages m1;
          (_, m3) = splx spl m2
      in (addr, m3))"

definition alloc_kpages :: "int \<Rightarrow> 'm machine_scheme \<Rightarrow> 32 word \<times> 'm machine_scheme" where
  "alloc_kpages npages m =
     (let (pa, m') = getppages (word_of_int npages) m in
      if pa = 0 then (0, m') else (pa + MIPS_KSEG0, m'))"

definition free_kpages :: "32 word \<Rightarrow> 'm machine_scheme \<Rightarrow> 'm machine_scheme" where
  "free_kpages addr m = m"

text \<open>
  The free pages: page aligned bounds, a first free page that is not page 0 (the exception
  handlers), and at most the 508 megabytes that \<open>ram_bootstrap\<close> allows.
\<close>

definition ram_ok :: "'m machine_scheme \<Rightarrow> bool" where
  "ram_ok m \<longleftrightarrow> 0 < unat (firstpaddr m) \<and> unat (firstpaddr m) \<le> unat (lastpaddr m) \<and>
     unat (lastpaddr m) \<le> 508 * 1024 * 1024 \<and> unat (firstpaddr m) mod 4096 = 0"

lemma ram_bootstrap_ok:
  assumes "MIPS_KSEG0 < firstfree" "firstfree - MIPS_KSEG0 \<le> mips_ramsize"
    "firstfree - MIPS_KSEG0 \<le> 508 * 1024 * 1024" "unat (firstfree - MIPS_KSEG0) mod 4096 = 0"
  shows "ram_ok (ram_bootstrap mips_ramsize firstfree m)"
proof -
  have "0 < unat (firstfree - MIPS_KSEG0)"
    using assms(1) by (simp add: unat_gt_0)
  then show ?thesis
    using assms(2-4)
    by (auto simp: ram_ok_def ram_bootstrap_def Let_def word_le_nat_alt word_less_nat_alt)
qed

text \<open>A request that the multiplication does not wrap for gets the next pages, or nothing.\<close>

lemma ram_stealmem_cases:
  assumes ok: "ram_ok m" and small: "unat npages < 2 ^ 19"
  shows "if unat (firstpaddr m) + unat npages * 4096 \<le> unat (lastpaddr m)
    then ram_stealmem npages m = (firstpaddr m, m\<lparr>firstpaddr := firstpaddr m + npages * PAGE_SIZE\<rparr>) \<and>
      unat (firstpaddr m + npages * PAGE_SIZE) = unat (firstpaddr m) + unat npages * 4096 \<and>
      ram_ok (m\<lparr>firstpaddr := firstpaddr m + npages * PAGE_SIZE\<rparr>)
    else ram_stealmem npages m = (0, m)"
proof -
  have b: "unat (firstpaddr m) \<le> 508 * 1024 * 1024" using ok by (simp add: ram_ok_def)
  have s: "unat (npages * PAGE_SIZE) = unat npages * 4096"
    using small by (simp add: unat_word_ariths)
  then have "unat (firstpaddr m + npages * PAGE_SIZE) = unat (firstpaddr m) + unat npages * 4096"
    using b small by (subst unat_word_ariths) (simp add: s)
  then show ?thesis
    using ok by (auto simp: ram_stealmem_def Let_def ram_ok_def word_less_nat_alt mod_add_eq [symmetric])
qed

lemma ram_stealmem_next:
  assumes "ram_ok m" "unat npages < 2 ^ 19"
  shows "if unat (firstpaddr m) + unat npages * 4096 \<le> unat (lastpaddr m)
    then \<exists>f. ram_stealmem npages m = (firstpaddr m, m\<lparr>firstpaddr := f\<rparr>) \<and> firstpaddr m \<noteq> 0 \<and>
      unat f = unat (firstpaddr m) + unat npages * 4096 \<and> ram_ok (m\<lparr>firstpaddr := f\<rparr>)
    else ram_stealmem npages m = (0, m)"
proof -
  have "firstpaddr m \<noteq> 0" using assms(1) by (metis ram_ok_def less_irrefl unat_0)
  with ram_stealmem_cases [OF assms] show ?thesis by auto
qed

lemma getppages_eq: "getppages npages m = ram_stealmem npages m"
  by (simp add: getppages_def ram_stealmem_def Let_def)

section \<open>The TLB\<close>

definition tlb_valid :: "32 word \<times> 32 word \<Rightarrow> bool" where
  "tlb_valid e \<longleftrightarrow> snd e AND TLBLO_VALID \<noteq> 0"

text \<open>
  The loop at the end of \<open>vm_fault\<close>: the first entry whose valid bit is clear is overwritten; no
  such entry is \<open>None\<close>.
\<close>

primrec tlb_fill ::
    "32 word \<Rightarrow> 32 word \<Rightarrow> (32 word \<times> 32 word) list \<Rightarrow> (32 word \<times> 32 word) list option" where
  "tlb_fill ehi elo [] = None"
| "tlb_fill ehi elo (e # es) =
     (if tlb_valid e then map_option ((#) e) (tlb_fill ehi elo es) else Some ((ehi, elo) # es))"

text \<open>\<open>TLBHI_INVALID(i)\<close>, \<open>TLBLO_INVALID()\<close>: entry \<open>i\<close> of an empty TLB.\<close>

definition tlb_invalid :: "nat \<Rightarrow> 32 word \<times> 32 word" where
  "tlb_invalid i = (push_bit 12 (0x80000 + of_nat i), 0)"

definition tlb_empty :: "(32 word \<times> 32 word) list" where
  "tlb_empty = map tlb_invalid [0..<NUM_TLB]"

lemma tlb_fill_SomeD:
  "tlb_fill ehi elo es = Some es' \<Longrightarrow>
    \<exists>xs e ys. es = xs @ e # ys \<and> es' = xs @ (ehi, elo) # ys \<and> \<not> tlb_valid e \<and> (\<forall>x \<in> set xs. tlb_valid x)"
proof (induction es arbitrary: es')
  case (Cons e es)
  show ?case
  proof (cases "tlb_valid e")
    case True
    with Cons.prems obtain fs where "tlb_fill ehi elo es = Some fs" "es' = e # fs" by auto
    with Cons.IH [of fs] obtain xs d ys where "es = xs @ d # ys" "es' = e # xs @ (ehi, elo) # ys"
      "\<not> tlb_valid d" "\<forall>x \<in> set xs. tlb_valid x" by auto
    with True show ?thesis by (intro exI [of _ "e # xs"]) auto
  next
    case False
    with Cons.prems show ?thesis by (intro exI [of _ "[]"]) auto
  qed
qed simp

lemma tlb_fill_None_iff: "tlb_fill ehi elo es = None \<longleftrightarrow> (\<forall>e \<in> set es. tlb_valid e)"
  by (induction es) auto

lemma tlb_empty_invalid: "e \<in> set tlb_empty \<Longrightarrow> \<not> tlb_valid e"
  by (auto simp: tlb_empty_def tlb_invalid_def tlb_valid_def)

lemma length_tlb_empty [simp]: "length tlb_empty = NUM_TLB"
  by (simp add: tlb_empty_def)

end
