(* ===== verification/Kern_VM.thy ===== *)
theory Kern_VM
  imports Kern_Machine
begin

text \<open>
  Address spaces and page faults: the live part of \<^verbatim>\<open>kern/vm/addrspace.c\<close>, two contiguous
  regions and a stack of 12 pages, each backed by a contiguous piece of physical memory. The lemmas
  relate the TLB to the translation that the address space describes.
\<close>

section \<open>Address spaces\<close>

record addrspace =
  as_vbase1 :: "32 word"
  as_pbase1 :: "32 word"
  as_npages1 :: "32 word"
  as_vbase2 :: "32 word"
  as_pbase2 :: "32 word"
  as_npages2 :: "32 word"
  as_stackpbase :: "32 word"

abbreviation USERSTACK :: "32 word" where "USERSTACK \<equiv> 0x80000000"
abbreviation DUMBVM_STACKPAGES :: "32 word" where "DUMBVM_STACKPAGES \<equiv> 12"
abbreviation (input) VM_FAULT_READ :: int where "VM_FAULT_READ \<equiv> 0"
abbreviation (input) VM_FAULT_WRITE :: int where "VM_FAULT_WRITE \<equiv> 1"
abbreviation (input) VM_FAULT_READONLY :: int where "VM_FAULT_READONLY \<equiv> 2"

definition as_asserts :: "addrspace \<Rightarrow> bool" where
  "as_asserts as \<longleftrightarrow>
     as_vbase1 as \<noteq> 0 \<and> as_pbase1 as \<noteq> 0 \<and> as_npages1 as \<noteq> 0 \<and>
     as_vbase2 as \<noteq> 0 \<and> as_pbase2 as \<noteq> 0 \<and> as_npages2 as \<noteq> 0 \<and>
     as_stackpbase as \<noteq> 0 \<and>
     as_vbase1 as AND PAGE_FRAME = as_vbase1 as \<and>
     as_pbase1 as AND PAGE_FRAME = as_pbase1 as \<and>
     as_vbase2 as AND PAGE_FRAME = as_vbase2 as \<and>
     as_pbase2 as AND PAGE_FRAME = as_pbase2 as \<and>
     as_stackpbase as AND PAGE_FRAME = as_stackpbase as"

text \<open>The choice of the physical page in \<open>vm_fault\<close>; \<open>None\<close> is an address in no region.\<close>

definition vm_paddr :: "addrspace \<Rightarrow> 32 word \<Rightarrow> 32 word option" where
  "vm_paddr as faultaddress =
     (let vbase1 = as_vbase1 as;
          vtop1 = vbase1 + as_npages1 as * PAGE_SIZE;
          vbase2 = as_vbase2 as;
          vtop2 = vbase2 + as_npages2 as * PAGE_SIZE;
          stackbase = USERSTACK - DUMBVM_STACKPAGES * PAGE_SIZE;
          stacktop = USERSTACK
      in if faultaddress \<ge> vbase1 \<and> faultaddress < vtop1
         then Some ((faultaddress - vbase1) + as_pbase1 as)
         else if faultaddress \<ge> vbase2 \<and> faultaddress < vtop2
         then Some ((faultaddress - vbase2) + as_pbase2 as)
         else if faultaddress \<ge> stackbase \<and> faultaddress < stacktop
         then Some ((faultaddress - stackbase) + as_stackpbase as)
         else None)"

text \<open>
  \<open>vm_fault\<close> with \<open>curthread->t_vmspace\<close> as an argument. The return on a missing address space
  leaves the interrupt level high, as the code does.
\<close>

definition vm_fault ::
    "addrspace option \<Rightarrow> int \<Rightarrow> 32 word \<Rightarrow> 'm machine_scheme \<Rightarrow>
      ((errno + unit) \<times> 'm machine_scheme) option" where
  "vm_fault vmspace faulttype fa m =
     (let (spl, m) = splhigh m; faultaddress = fa AND PAGE_FRAME in
      if faulttype = VM_FAULT_READONLY then None
      else if faulttype \<noteq> VM_FAULT_READ \<and> faulttype \<noteq> VM_FAULT_WRITE
      then Some (Inl EINVAL, snd (splx spl m))
      else case vmspace of
          None \<Rightarrow> Some (Inl EFAULT, m)
        | Some as \<Rightarrow> do {
            kassert (as_asserts as);
            (case vm_paddr as faultaddress of
               None \<Rightarrow> Some (Inl EFAULT, snd (splx spl m))
             | Some paddr \<Rightarrow> do {
                 kassert (paddr AND PAGE_FRAME = paddr);
                 (case tlb_fill faultaddress (paddr OR TLBLO_DIRTY OR TLBLO_VALID) (tlb m) of
                    None \<Rightarrow> Some (Inl EFAULT, snd (splx spl m))
                  | Some es \<Rightarrow> Some (Inr (), snd (splx spl (m\<lparr>tlb := es\<rparr>)))) }) })"

definition as_create :: "bool \<Rightarrow> addrspace option" where
  "as_create mem =
     (if mem then Some \<lparr>as_vbase1 = 0, as_pbase1 = 0, as_npages1 = 0, as_vbase2 = 0,
                        as_pbase2 = 0, as_npages2 = 0, as_stackpbase = 0\<rparr>
      else None)"

definition as_activate :: "'m machine_scheme \<Rightarrow> 'm machine_scheme" where
  "as_activate m =
     (let (spl, m) = splhigh m in snd (splx spl (m\<lparr>tlb := tlb_empty\<rparr>)))"

definition as_define_region ::
    "addrspace \<Rightarrow> 32 word \<Rightarrow> 32 word \<Rightarrow> (errno + unit) \<times> addrspace" where
  "as_define_region as vaddr sz =
     (let sz = sz + (vaddr AND NOT PAGE_FRAME);
          vaddr = vaddr AND PAGE_FRAME;
          sz = (sz + PAGE_SIZE - 1) AND PAGE_FRAME;
          npages = sz div PAGE_SIZE
      in if as_vbase1 as = 0 then (Inr (), as\<lparr>as_vbase1 := vaddr, as_npages1 := npages\<rparr>)
         else if as_vbase2 as = 0 then (Inr (), as\<lparr>as_vbase2 := vaddr, as_npages2 := npages\<rparr>)
         else (Inl EUNIMP, as))"

definition as_prepare_load ::
    "addrspace \<Rightarrow> 'm machine_scheme \<Rightarrow> ((errno + unit) \<times> addrspace \<times> 'm machine_scheme) option" where
  "as_prepare_load as m = do {
     kassert (as_pbase1 as = 0);
     kassert (as_pbase2 as = 0);
     kassert (as_stackpbase as = 0);
     let (pa1, m) = getppages (as_npages1 as) m;
     let as = as\<lparr>as_pbase1 := pa1\<rparr>;
     if pa1 = 0 then Some (Inl ENOMEM, as, m) else do {
     let (pa2, m) = getppages (as_npages2 as) m;
     let as = as\<lparr>as_pbase2 := pa2\<rparr>;
     if pa2 = 0 then Some (Inl ENOMEM, as, m) else do {
     let (pa3, m) = getppages DUMBVM_STACKPAGES m;
     let as = as\<lparr>as_stackpbase := pa3\<rparr>;
     if pa3 = 0 then Some (Inl ENOMEM, as, m) else Some (Inr (), as, m) } } }"

definition as_complete_load :: "addrspace \<Rightarrow> errno + unit" where
  "as_complete_load as = Inr ()"

definition as_define_stack :: "addrspace \<Rightarrow> (errno + 32 word) option" where
  "as_define_stack as = do { kassert (as_stackpbase as \<noteq> 0); Some (Inr USERSTACK) }"

text \<open>\<open>memmove\<close> between two directly mapped pieces of physical memory.\<close>

definition pmem_move :: "32 word \<Rightarrow> 32 word \<Rightarrow> 32 word \<Rightarrow> 'm machine_scheme \<Rightarrow> 'm machine_scheme" where
  "pmem_move dst src n m =
     m\<lparr>pmem := (\<lambda>a. if a - dst < n then pmem m (src + (a - dst)) else pmem m a)\<rparr>"

definition as_copy ::
    "bool \<Rightarrow> addrspace \<Rightarrow> 'm machine_scheme \<Rightarrow> ((errno + addrspace) \<times> 'm machine_scheme) option" where
  "as_copy mem old m =
     (case as_create mem of
        None \<Rightarrow> Some (Inl ENOMEM, m)
      | Some new \<Rightarrow> do {
          (r, new, m) \<leftarrow> as_prepare_load
             (new\<lparr>as_vbase1 := as_vbase1 old, as_npages1 := as_npages1 old,
                  as_vbase2 := as_vbase2 old, as_npages2 := as_npages2 old\<rparr>) m;
          (case r of
             Inl _ \<Rightarrow> Some (Inl ENOMEM, m)
           | Inr _ \<Rightarrow> do {
               kassert (as_pbase1 new \<noteq> 0);
               kassert (as_pbase2 new \<noteq> 0);
               kassert (as_stackpbase new \<noteq> 0);
               let m = pmem_move (as_pbase1 new) (as_pbase1 old) (as_npages1 old * PAGE_SIZE) m;
               let m = pmem_move (as_pbase2 new) (as_pbase2 old) (as_npages2 old * PAGE_SIZE) m;
               let m = pmem_move (as_stackpbase new) (as_stackpbase old)
                         (DUMBVM_STACKPAGES * PAGE_SIZE) m;
               Some (Inr new, m) }) })"

section \<open>Pages\<close>

lemma page_frame_not_mask: "PAGE_FRAME = NOT (mask 12)"
  by (simp add: mask_eq_exp_minus_1)

lemma and_page_frame: "x AND PAGE_FRAME = push_bit 12 (drop_bit 12 x)" for x :: "32 word"
  by (rule bit_word_eqI) (auto simp: page_frame_not_mask bit_simps)

lemma unat_and_page_frame: "unat (x AND PAGE_FRAME) = unat x div 4096 * 4096" for x :: "32 word"
proof -
  have "unat x < 2 ^ 32" using unsigned_less [of x] by simp
  then have "unat x div 4096 * 4096 < 2 ^ 32" by (meson div_times_less_eq_dividend le_less_trans)
  moreover have "x AND PAGE_FRAME = (x div 4096) * 4096"
    by (simp add: and_page_frame push_bit_eq_mult drop_bit_eq_div)
  ultimately show ?thesis by (simp add: unat_word_ariths unat_div)
qed

lemma page_aligned_iff: "x AND PAGE_FRAME = x \<longleftrightarrow> unat x mod 4096 = 0" for x :: "32 word"
proof -
  have "x AND PAGE_FRAME = x \<longleftrightarrow> unat x div 4096 * 4096 = unat x"
    by (simp only: word_unat_eq_iff unat_and_page_frame)
  then show ?thesis by (metis add.right_neutral add_left_cancel div_mult_mod_eq)
qed

lemma and_not_page_frame: "unat (x AND NOT PAGE_FRAME) = unat x mod 4096" for x :: "32 word"
proof -
  have "x AND NOT PAGE_FRAME = take_bit 12 x"
    by (simp only: page_frame_not_mask bit.double_compl take_bit_eq_mask)
  then have "x AND NOT PAGE_FRAME = x mod 4096" by (simp add: take_bit_eq_mod)
  then show ?thesis by (simp add: unat_mod)
qed

lemma low_bits_page: "(p OR TLBLO_DIRTY OR TLBLO_VALID) AND PAGE_FRAME = p"
  if "p AND PAGE_FRAME = p" for p :: "32 word"
proof -
  have "(p OR TLBLO_DIRTY OR TLBLO_VALID) AND PAGE_FRAME = p AND PAGE_FRAME"
    by (simp add: bit.conj_disj_distrib2)
  with that show ?thesis by simp
qed

section \<open>Translation\<close>

text \<open>The byte address behind a virtual address, computed without wrap-around.\<close>

definition in_region :: "nat \<Rightarrow> nat \<Rightarrow> nat \<Rightarrow> bool" where
  "in_region base np va \<longleftrightarrow> base \<le> va \<and> va < base + np * 4096"

definition as_translate :: "addrspace \<Rightarrow> nat \<Rightarrow> nat option" where
  "as_translate as va =
     (if in_region (unat (as_vbase1 as)) (unat (as_npages1 as)) va
      then Some (va - unat (as_vbase1 as) + unat (as_pbase1 as))
      else if in_region (unat (as_vbase2 as)) (unat (as_npages2 as)) va
      then Some (va - unat (as_vbase2 as) + unat (as_pbase2 as))
      else if in_region (2 ^ 31 - 12 * 4096) 12 va
      then Some (va - (2 ^ 31 - 12 * 4096) + unat (as_stackpbase as))
      else None)"

text \<open>
  A loaded address space: the conditions that \<open>vm_fault\<close> asserts, regions in user space and
  physical pages below 508 megabytes.
\<close>

definition as_ok :: "addrspace \<Rightarrow> bool" where
  "as_ok as \<longleftrightarrow> as_asserts as \<and>
     unat (as_vbase1 as) + unat (as_npages1 as) * 4096 \<le> 2 ^ 31 \<and>
     unat (as_vbase2 as) + unat (as_npages2 as) * 4096 \<le> 2 ^ 31 \<and>
     unat (as_pbase1 as) + unat (as_npages1 as) * 4096 \<le> 508 * 1024 * 1024 \<and>
     unat (as_pbase2 as) + unat (as_npages2 as) * 4096 \<le> 508 * 1024 * 1024 \<and>
     unat (as_stackpbase as) + 12 * 4096 \<le> 508 * 1024 * 1024"

lemma unat_top:
  fixes base np :: "32 word"
  assumes "unat base + unat np * 4096 \<le> 2 ^ 31"
  shows "unat (base + np * PAGE_SIZE) = unat base + unat np * 4096"
proof -
  have "unat (np * PAGE_SIZE) = unat np * 4096"
    using assms by (simp add: unat_word_ariths)
  then show ?thesis using assms by (simp add: unat_word_ariths)
qed

lemma region_test:
  fixes base np va :: "32 word"
  assumes "unat base + unat np * 4096 \<le> 2 ^ 31"
  shows "va \<ge> base \<and> va < base + np * PAGE_SIZE \<longleftrightarrow> in_region (unat base) (unat np) (unat va)"
  by (simp only: word_le_nat_alt word_less_nat_alt unat_top [OF assms] in_region_def)

lemma unat_offset:
  fixes base va pb :: "32 word"
  assumes "base \<le> va" "unat va - unat base + unat pb < 2 ^ 32"
  shows "unat (va - base + pb) = unat va - unat base + unat pb"
  using assms by (simp add: unat_sub unat_word_ariths)

lemma in_region_page:
  assumes "base mod 4096 = 0"
  shows "in_region base np (va div 4096 * 4096) \<longleftrightarrow> in_region base np va"
proof -
  obtain b where b: "base = b * 4096" using assms by (metis mod_0_imp_dvd dvd_div_mult_self)
  obtain q r where va: "va = q * 4096 + r" "r < 4096"
    by (metis div_mult_mod_eq mod_less_divisor zero_less_numeral)
  have "b * 4096 \<le> q * 4096 \<longleftrightarrow> b * 4096 \<le> q * 4096 + r"
    using va(2) by (simp add: mult_le_offset_iff)
  moreover have "q * 4096 < (b + np) * 4096 \<longleftrightarrow> q * 4096 + r < (b + np) * 4096"
    using offset_less_mult_iff [OF va(2), of q "b + np"] by (simp only: mult_less_cancel2) simp
  moreover have "va div 4096 = q" using va by simp
  ultimately show ?thesis using va(1) by (simp add: in_region_def b add_mult_distrib)
qed

lemma page_of_offset:
  assumes "(base :: nat) mod 4096 = 0" "pb mod 4096 = 0" "base \<le> va"
  shows "(va - base + pb) div 4096 * 4096 = va div 4096 * 4096 - base + pb"
    "(va - base + pb) mod 4096 = va mod 4096"
proof -
  obtain b where b: "base = b * 4096" using assms(1) by (metis mod_0_imp_dvd dvd_div_mult_self)
  obtain p where p: "pb = p * 4096" using assms(2) by (metis mod_0_imp_dvd dvd_div_mult_self)
  obtain d where d: "va = base + d" using assms(3) le_Suc_ex by blast
  show "(va - base + pb) div 4096 * 4096 = va div 4096 * 4096 - base + pb"
    "(va - base + pb) mod 4096 = va mod 4096"
    by (simp_all add: b p d algebra_simps)
qed

lemma region_paddr:
  fixes base np pb va :: "32 word"
  assumes "unat base mod 4096 = 0" "unat pb mod 4096 = 0"
    "unat pb + unat np * 4096 \<le> 508 * 1024 * 1024" "in_region (unat base) (unat np) (unat va)"
  shows "unat ((va AND PAGE_FRAME) - base + pb) = (unat va - unat base + unat pb) div 4096 * 4096"
    "(unat va - unat base + unat pb) mod 4096 = unat va mod 4096"
proof -
  let ?f = "va AND PAGE_FRAME"
  have f: "in_region (unat base) (unat np) (unat ?f)"
    using assms(1,4) by (simp add: unat_and_page_frame in_region_page)
  have "unat (?f - base + pb) = unat ?f - unat base + unat pb"
    using f assms(3) by (intro unat_offset) (auto simp: in_region_def word_le_nat_alt)
  also have "\<dots> = (unat va - unat base + unat pb) div 4096 * 4096"
    using assms by (subst page_of_offset(1)) (simp_all add: unat_and_page_frame in_region_def)
  finally show "unat (?f - base + pb) = (unat va - unat base + unat pb) div 4096 * 4096" .
  show "(unat va - unat base + unat pb) mod 4096 = unat va mod 4096"
    using assms by (intro page_of_offset(2)) (simp_all add: in_region_def)
qed

text \<open>The page that \<open>vm_fault\<close> chooses is the page of the translated address.\<close>

lemma vm_paddr_page:
  assumes "as_ok as"
  shows "case as_translate as (unat va) of
      None \<Rightarrow> vm_paddr as (va AND PAGE_FRAME) = None
    | Some pa \<Rightarrow> \<exists>p. vm_paddr as (va AND PAGE_FRAME) = Some p \<and> unat p = pa div 4096 * 4096 \<and>
        pa mod 4096 = unat va mod 4096"
proof -
  let ?f = "va AND PAGE_FRAME" and ?sb = "0x7FFF4000 :: 32 word"
  have al: "unat (as_vbase1 as) mod 4096 = 0" "unat (as_vbase2 as) mod 4096 = 0"
    "unat (as_pbase1 as) mod 4096 = 0" "unat (as_pbase2 as) mod 4096 = 0"
    "unat (as_stackpbase as) mod 4096 = 0"
    using assms by (auto simp: as_ok_def as_asserts_def page_aligned_iff)
  have b: "unat (as_vbase1 as) + unat (as_npages1 as) * 4096 \<le> 2 ^ 31"
     "unat (as_vbase2 as) + unat (as_npages2 as) * 4096 \<le> 2 ^ 31"
     "unat ?sb + unat (12 :: 32 word) * 4096 \<le> 2 ^ 31"
    using assms by (simp_all add: as_ok_def)
  have t: "?f \<ge> base \<and> ?f < base + np * PAGE_SIZE \<longleftrightarrow> in_region (unat base) (unat np) (unat va)"
    if "unat base + unat np * 4096 \<le> 2 ^ 31" "unat base mod 4096 = 0" for base np :: "32 word"
    using that by (simp only: region_test unat_and_page_frame in_region_page)
  have t3: "?f \<ge> ?sb \<and> ?f < 0x80000000 \<longleftrightarrow> in_region (2 ^ 31 - 12 * 4096) 12 (unat va)"
    using t [OF b(3)] by simp
  note p1 = region_paddr [OF al(1,3), of "as_npages1 as" va]
  note p2 = region_paddr [OF al(2,4), of "as_npages2 as" va]
  note p3 = region_paddr [of ?sb "as_stackpbase as" 12 va]
  show ?thesis
    using t [OF b(1) al(1)] t [OF b(2) al(2)] t3 p1 p2 p3 al(5) assms
    by (simp add: vm_paddr_def as_translate_def Let_def as_ok_def)
qed

section \<open>The TLB as a cache of the translation\<close>

text \<open>What the processor does with the TLB: the entries match by page, invalid ones never match.\<close>

definition tlb_lookup :: "(32 word \<times> 32 word) list \<Rightarrow> 32 word \<Rightarrow> nat option" where
  "tlb_lookup es va =
     map_option (\<lambda>e. unat (snd e AND PAGE_FRAME) + unat va mod 4096)
       (find (\<lambda>e. tlb_valid e \<and> fst e AND PAGE_FRAME = va AND PAGE_FRAME) es)"

definition tlb_entry_ok :: "addrspace \<Rightarrow> 32 word \<times> 32 word \<Rightarrow> bool" where
  "tlb_entry_ok as e \<longleftrightarrow>
     (case vm_paddr as (fst e) of
        None \<Rightarrow> False
      | Some p \<Rightarrow> fst e AND PAGE_FRAME = fst e \<and> p AND PAGE_FRAME = p \<and>
                  snd e = p OR TLBLO_DIRTY OR TLBLO_VALID)"

definition tlb_consistent :: "addrspace \<Rightarrow> (32 word \<times> 32 word) list \<Rightarrow> bool" where
  "tlb_consistent as es \<longleftrightarrow> list_all (\<lambda>e. tlb_valid e \<longrightarrow> tlb_entry_ok as e) es"

lemma tlb_valid_iff: "tlb_valid e \<longleftrightarrow> bit (snd e) 9"
  using and_exp_eq_0_iff_not_bit [of "snd e" 9] by (simp add: tlb_valid_def)

lemma tlb_consistent_empty: "tlb_consistent as tlb_empty"
  using tlb_empty_invalid by (auto simp: tlb_consistent_def list_all_iff)

lemma tlb_lookup_consistent:
  assumes "as_ok as" "tlb_consistent as es" "tlb_lookup es va = Some pa"
  shows "as_translate as (unat va) = Some pa"
proof -
  obtain e where e: "e \<in> set es" "tlb_valid e" "fst e AND PAGE_FRAME = va AND PAGE_FRAME"
    "pa = unat (snd e AND PAGE_FRAME) + unat va mod 4096"
    using assms(3) by (fastforce simp: tlb_lookup_def dest: find_SomeD)
  with assms(2) have "tlb_entry_ok as e" by (auto simp: tlb_consistent_def list_all_iff)
  then obtain p where p: "vm_paddr as (fst e) = Some p" "fst e AND PAGE_FRAME = fst e"
    "p AND PAGE_FRAME = p" "snd e = p OR TLBLO_DIRTY OR TLBLO_VALID"
    by (auto simp: tlb_entry_ok_def split: option.splits)
  have pa: "pa = unat p + unat va mod 4096" using e(4) p(3,4) low_bits_page by simp
  have "vm_paddr as (va AND PAGE_FRAME) = Some p" using e(3) p(1,2) by simp
  then obtain pa' where "as_translate as (unat va) = Some pa'" "unat p = pa' div 4096 * 4096"
    "pa' mod 4096 = unat va mod 4096"
    using vm_paddr_page [OF assms(1), of va] by (auto split: option.splits)
  then show ?thesis using pa by (metis div_mult_mod_eq)
qed

text \<open>What a fault handled successfully leaves behind.\<close>

lemma tlb_fill_lookup:
  assumes "as_ok as" "tlb_consistent as es" "vm_paddr as (fa AND PAGE_FRAME) = Some p"
    "p AND PAGE_FRAME = p"
    "tlb_fill (fa AND PAGE_FRAME) (p OR TLBLO_DIRTY OR TLBLO_VALID) es = Some es'"
  shows "tlb_consistent as es'" "tlb_lookup es' fa \<noteq> None"
proof -
  let ?e = "(fa AND PAGE_FRAME, p OR TLBLO_DIRTY OR TLBLO_VALID)"
  obtain xs e ys where es: "es = xs @ e # ys" "es' = xs @ ?e # ys"
    using tlb_fill_SomeD [OF assms(5)] by blast
  have "tlb_entry_ok as ?e" using assms(3,4) by (simp add: tlb_entry_ok_def and.assoc)
  then show "tlb_consistent as es'"
    using assms(2) es by (simp add: tlb_consistent_def)
  have "bit (0x600 :: 32 word) 9" by (simp add: bit_iff_odd)
  then have "tlb_valid ?e" by (simp add: tlb_valid_iff bit_or_iff)
  then have "\<exists>e \<in> set es'. tlb_valid e \<and> fst e AND PAGE_FRAME = fa AND PAGE_FRAME"
    using es(2) by (intro bexI [of _ ?e]) (simp_all add: and.assoc)
  then have "find (\<lambda>e. tlb_valid e \<and> fst e AND PAGE_FRAME = fa AND PAGE_FRAME) es' \<noteq> None"
    unfolding find_None_iff by blast
  then show "tlb_lookup es' fa \<noteq> None"
    unfolding tlb_lookup_def option.map_disc_iff .
qed

lemma vm_fault_cases:
  assumes "as_ok as" "ft = VM_FAULT_READ \<or> ft = VM_FAULT_WRITE"
  shows "vm_fault (Some as) ft fa m =
    (case vm_paddr as (fa AND PAGE_FRAME) of
       None \<Rightarrow> Some (Inl EFAULT, m)
     | Some p \<Rightarrow>
         (case tlb_fill (fa AND PAGE_FRAME) (p OR TLBLO_DIRTY OR TLBLO_VALID) (tlb m) of
            None \<Rightarrow> Some (Inl EFAULT, m)
          | Some es \<Rightarrow> Some (Inr (), m\<lparr>tlb := es\<rparr>)))"
proof -
  have "as_asserts as" using assms(1) by (simp add: as_ok_def)
  moreover have "p AND PAGE_FRAME = p" if "vm_paddr as (fa AND PAGE_FRAME) = Some p" for p
  proof -
    have "\<exists>pa. unat p = pa div 4096 * 4096"
      using vm_paddr_page [OF assms(1), of fa] that by (auto split: option.splits)
    then show ?thesis by (auto simp: page_aligned_iff)
  qed
  ultimately show ?thesis
    using assms(2) by (auto simp: vm_fault_def split: option.splits)
qed

section \<open>Loading and copying\<close>

definition as_frames_below :: "addrspace \<Rightarrow> nat \<Rightarrow> bool" where
  "as_frames_below as n \<longleftrightarrow>
     unat (as_pbase1 as) + unat (as_npages1 as) * 4096 \<le> n \<and>
     unat (as_pbase2 as) + unat (as_npages2 as) * 4096 \<le> n \<and>
     unat (as_stackpbase as) + 12 * 4096 \<le> n"

text \<open>
  The three pieces of physical memory of a loaded address space lie one behind the other, from
  the first page that was free before the load to the first one that is free afterwards.
\<close>

definition as_frames_from :: "addrspace \<Rightarrow> nat \<Rightarrow> bool" where
  "as_frames_from as n \<longleftrightarrow> unat (as_pbase1 as) = n \<and>
     unat (as_pbase2 as) = n + unat (as_npages1 as) * 4096 \<and>
     unat (as_stackpbase as) = n + (unat (as_npages1 as) + unat (as_npages2 as)) * 4096"

lemma as_prepare_load_cases:
  assumes ok: "ram_ok m" and z: "as_pbase1 as = 0" "as_pbase2 as = 0" "as_stackpbase as = 0"
    and small: "unat (as_npages1 as) < 2 ^ 19" "unat (as_npages2 as) < 2 ^ 19"
  shows "if unat (firstpaddr m) + (unat (as_npages1 as) + unat (as_npages2 as) + 12) * 4096 \<le>
      unat (lastpaddr m)
    then \<exists>as' f. as_prepare_load as m = Some (Inr (), as', m\<lparr>firstpaddr := f\<rparr>) \<and>
      ram_ok (m\<lparr>firstpaddr := f\<rparr>) \<and> as_frames_from as' (unat (firstpaddr m)) \<and>
      unat f = unat (firstpaddr m) + (unat (as_npages1 as) + unat (as_npages2 as) + 12) * 4096 \<and>
      as_vbase1 as' = as_vbase1 as \<and> as_npages1 as' = as_npages1 as \<and>
      as_vbase2 as' = as_vbase2 as \<and> as_npages2 as' = as_npages2 as
    else \<exists>as' f. as_prepare_load as m = Some (Inl ENOMEM, as', m\<lparr>firstpaddr := f\<rparr>) \<and>
      ram_ok (m\<lparr>firstpaddr := f\<rparr>)"
proof -
  let ?n1 = "unat (as_npages1 as)" and ?n2 = "unat (as_npages2 as)"
  let ?f = "unat (firstpaddr m)" and ?l = "unat (lastpaddr m)"
  note defs = as_prepare_load_def getppages_eq
  note s1 = ram_stealmem_next [OF ok small(1)]
  show ?thesis
  proof (cases "?f + ?n1 * 4096 \<le> ?l")
    case False
    then have "as_prepare_load as m = Some (Inl ENOMEM, as\<lparr>as_pbase1 := 0\<rparr>, m\<lparr>firstpaddr := firstpaddr m\<rparr>)"
      using s1 z by (simp add: defs)
    then show ?thesis
      using False ok exI [of "\<lambda>f. m = m\<lparr>firstpaddr := f\<rparr> \<and> ram_ok (m\<lparr>firstpaddr := f\<rparr>)" "firstpaddr m"]
      by simp
  next
    case True
    with s1 obtain f1 where 1: "ram_stealmem (as_npages1 as) m = (firstpaddr m, m\<lparr>firstpaddr := f1\<rparr>)"
      "firstpaddr m \<noteq> 0" "unat f1 = ?f + ?n1 * 4096" "ram_ok (m\<lparr>firstpaddr := f1\<rparr>)" by auto
    note s2 = ram_stealmem_next [OF 1(4) small(2)]
    show ?thesis
    proof (cases "unat f1 + ?n2 * 4096 \<le> ?l")
      case False
      then have "as_prepare_load as m = Some (Inl ENOMEM,
          as\<lparr>as_pbase1 := firstpaddr m, as_pbase2 := 0\<rparr>, m\<lparr>firstpaddr := f1\<rparr>)"
        using s2 1 z by (simp add: defs)
      then show ?thesis using False 1(3,4) by auto
    next
      case True
      with s2 obtain f2 where 2: "ram_stealmem (as_npages2 as) (m\<lparr>firstpaddr := f1\<rparr>) = (f1, m\<lparr>firstpaddr := f2\<rparr>)"
        "f1 \<noteq> 0" "unat f2 = unat f1 + ?n2 * 4096" "ram_ok (m\<lparr>firstpaddr := f2\<rparr>)" by auto
      have "unat (12 :: 32 word) < 2 ^ 19" by simp
      note s3 = ram_stealmem_next [OF 2(4) this]
      show ?thesis
      proof (cases "unat f2 + 12 * 4096 \<le> ?l")
        case False
        then have "as_prepare_load as m = Some (Inl ENOMEM,
            as\<lparr>as_pbase1 := firstpaddr m, as_pbase2 := f1, as_stackpbase := 0\<rparr>, m\<lparr>firstpaddr := f2\<rparr>)"
          using s3 1 2 z by (simp add: defs)
        then show ?thesis using False 1(3) 2(3,4) by auto
      next
        case True
        with s3 obtain f3 where 3: "ram_stealmem 12 (m\<lparr>firstpaddr := f2\<rparr>) = (f2, m\<lparr>firstpaddr := f3\<rparr>)"
          "f2 \<noteq> 0" "unat f3 = unat f2 + 12 * 4096" "ram_ok (m\<lparr>firstpaddr := f3\<rparr>)" by auto
        have "as_prepare_load as m = Some (Inr (),
            as\<lparr>as_pbase1 := firstpaddr m, as_pbase2 := f1, as_stackpbase := f2\<rparr>, m\<lparr>firstpaddr := f3\<rparr>)"
          using 1 2 3 z by (simp add: defs)
        then show ?thesis using True 1(3) 2(3) 3(3,4) by (auto simp: as_frames_from_def)
      qed
    qed
  qed
qed

text \<open>\<open>pmem_move\<close> without wrap-around.\<close>

lemma pmem_move_eq:
  assumes "unat dst + unat n < 2 ^ 32"
  shows "pmem (pmem_move dst src n m) a =
    (if unat dst \<le> unat a \<and> unat a < unat dst + unat n then pmem m (src + (a - dst)) else pmem m a)"
proof -
  have "a - dst < n \<longleftrightarrow> unat dst \<le> unat a \<and> unat a < unat dst + unat n"
  proof (cases "dst \<le> a")
    case True
    then show ?thesis by (simp add: word_less_nat_alt word_le_nat_alt unat_sub) linarith
  next
    case False
    then have lt: "unat a < unat dst" by (simp add: word_le_nat_alt)
    have "unat (a - dst) = 2 ^ 32 + unat a - unat dst"
      using lt by (subst unat_sub_if_size) (simp add: word_size)
    then show ?thesis using lt assms by (simp add: word_less_nat_alt)
  qed
  then show ?thesis by (simp add: pmem_move_def)
qed

lemma pmem_move_inside:
  assumes "unat dst + unat n < 2 ^ 32" "unat src + unat n < 2 ^ 32" "k < unat n"
  shows "pmem (pmem_move dst src n m) (of_nat (unat dst + k)) = pmem m (of_nat (unat src + k))"
proof -
  have "unat (of_nat (unat dst + k) :: 32 word) = unat dst + k"
    using assms(1,3) by (intro unat_of_nat32) simp
  moreover have "src + (of_nat (unat dst + k) - dst) = of_nat (unat src + k)" by simp
  ultimately show ?thesis using assms by (simp add: pmem_move_eq)
qed

lemma pmem_move_outside:
  assumes "unat dst + unat n < 2 ^ 32" "unat a < unat dst \<or> unat dst + unat n \<le> unat a"
  shows "pmem (pmem_move dst src n m) a = pmem m a"
  using assms by (auto simp: pmem_move_eq)

lemma three_moves:
  fixes d1 d2 d3 s1 s2 s3 n1 n2 n3 :: "32 word"
  assumes d: "unat d1 + unat n1 = unat d2" "unat d2 + unat n2 = unat d3" "unat d3 + unat n3 < 2 ^ 32"
    and s: "unat s1 + unat n1 \<le> unat d1" "unat s2 + unat n2 \<le> unat d1" "unat s3 + unat n3 \<le> unat d1"
    and m3: "m3 = pmem_move d3 s3 n3 (pmem_move d2 s2 n2 (pmem_move d1 s1 n1 m))"
  shows "unat a < unat d1 \<Longrightarrow> pmem m3 a = pmem m a"
    and "k < unat n1 \<Longrightarrow> pmem m3 (of_nat (unat d1 + k)) = pmem m (of_nat (unat s1 + k))"
    and "k < unat n2 \<Longrightarrow> pmem m3 (of_nat (unat d2 + k)) = pmem m (of_nat (unat s2 + k))"
    and "k < unat n3 \<Longrightarrow> pmem m3 (of_nat (unat d3 + k)) = pmem m (of_nat (unat s3 + k))"
proof -
  let ?m1 = "pmem_move d1 s1 n1 m" and ?m2 = "pmem_move d2 s2 n2 (pmem_move d1 s1 n1 m)"
  have b: "unat d1 + unat n1 < 2 ^ 32" "unat d2 + unat n2 < 2 ^ 32" using d by simp_all
  have b': "unat s1 + unat n1 < 2 ^ 32" "unat s2 + unat n2 < 2 ^ 32" "unat s3 + unat n3 < 2 ^ 32"
    using d s by simp_all
  note out3 = pmem_move_outside [OF d(3), of _ s3 ?m2]
  note out2 = pmem_move_outside [OF b(2), of _ s2 ?m1]
  note out1 = pmem_move_outside [OF b(1), of _ s1 m]
  have u: "unat (of_nat j :: 32 word) = j" if "j < unat d3 + unat n3" for j
    using that d(3) by (intro unat_of_nat32) simp
  have low: "pmem m3 a = pmem m a" "pmem ?m2 a = pmem m a" "pmem ?m1 a = pmem m a"
    if "unat a < unat d1" for a
    using that d out1 out2 out3 m3 by simp_all
  show "unat a < unat d1 \<Longrightarrow> pmem m3 a = pmem m a" by (rule low(1))
  show "k < unat n1 \<Longrightarrow> pmem m3 (of_nat (unat d1 + k)) = pmem m (of_nat (unat s1 + k))"
    using d u [of "unat d1 + k"] out2 out3 pmem_move_inside [OF b(1) b'(1), of k m] m3 by simp
  show "pmem m3 (of_nat (unat d2 + k)) = pmem m (of_nat (unat s2 + k))" if k: "k < unat n2"
    using k d s u [of "unat d2 + k"] u [of "unat s2 + k"] out3 low(3) [of "of_nat (unat s2 + k)"]
      pmem_move_inside [OF b(2) b'(2) k, of ?m1] m3 by simp
  show "pmem m3 (of_nat (unat d3 + k)) = pmem m (of_nat (unat s3 + k))" if k: "k < unat n3"
    using k d s u [of "unat s3 + k"] low(2) [of "of_nat (unat s3 + k)"]
      pmem_move_inside [OF d(3) b'(3) k, of ?m2] m3 by simp
qed

lemma as_ok_npages:
  assumes "as_ok as"
  shows "unat (as_npages1 as) < 2 ^ 19" "unat (as_npages2 as) < 2 ^ 19"
    "unat (as_npages1 as * PAGE_SIZE) = unat (as_npages1 as) * 4096"
    "unat (as_npages2 as * PAGE_SIZE) = unat (as_npages2 as) * 4096"
  using assms by (simp_all add: as_ok_def unat_word_ariths)

lemma as_ok_loaded:
  assumes "as_ok old" "as_frames_from new (unat (firstpaddr m))" "ram_ok m"
    "as_vbase1 new = as_vbase1 old" "as_npages1 new = as_npages1 old"
    "as_vbase2 new = as_vbase2 old" "as_npages2 new = as_npages2 old"
    "unat (firstpaddr m) + (unat (as_npages1 old) + unat (as_npages2 old) + 12) * 4096 \<le> unat (lastpaddr m)"
  shows "as_ok new"
proof -
  have "unat (as_pbase1 new) mod 4096 = 0" "unat (as_pbase2 new) mod 4096 = 0"
    "unat (as_stackpbase new) mod 4096 = 0"
    using assms(2,3) by (auto simp: as_frames_from_def ram_ok_def mod_add_eq [symmetric])
  moreover have "as_pbase1 new \<noteq> 0" "as_pbase2 new \<noteq> 0" "as_stackpbase new \<noteq> 0"
    using assms(2,3) by (auto simp: as_frames_from_def ram_ok_def)
  ultimately show ?thesis
    using assms by (auto simp: as_ok_def as_asserts_def page_aligned_iff as_frames_from_def ram_ok_def)
qed

text \<open>The copy of an address space, translated address by translated address.\<close>

lemma as_copy_contents:
  assumes ok: "as_ok old" "ram_ok m" "as_frames_below old (unat (firstpaddr m))"
    and fits: "unat (firstpaddr m) + (unat (as_npages1 old) + unat (as_npages2 old) + 12) * 4096 \<le>
      unat (lastpaddr m)"
  shows "\<exists>new m'. as_copy True old m = Some (Inr new, m') \<and> as_ok new \<and> ram_ok m' \<and>
    as_frames_from new (unat (firstpaddr m)) \<and> as_frames_below new (unat (firstpaddr m')) \<and>
    (\<forall>a. unat a < unat (firstpaddr m) \<longrightarrow> pmem m' a = pmem m a) \<and>
    (\<forall>va. case as_translate old va of
        None \<Rightarrow> as_translate new va = None
      | Some pa \<Rightarrow> \<exists>pa'. as_translate new va = Some pa' \<and> pmem m' (of_nat pa') = pmem m (of_nat pa))"
proof -
  let ?init = "\<lparr>as_vbase1 = as_vbase1 old, as_pbase1 = 0, as_npages1 = as_npages1 old,
    as_vbase2 = as_vbase2 old, as_pbase2 = 0, as_npages2 = as_npages2 old, as_stackpbase = 0\<rparr>"
  let ?n1 = "as_npages1 old * PAGE_SIZE" and ?n2 = "as_npages2 old * PAGE_SIZE"
  note np = as_ok_npages [OF ok(1)]
  obtain new f where load: "as_prepare_load ?init m = Some (Inr (), new, m\<lparr>firstpaddr := f\<rparr>)"
    "ram_ok (m\<lparr>firstpaddr := f\<rparr>)" "as_frames_from new (unat (firstpaddr m))"
    "unat f = unat (firstpaddr m) + (unat (as_npages1 old) + unat (as_npages2 old) + 12) * 4096"
    and same: "as_vbase1 new = as_vbase1 old" "as_npages1 new = as_npages1 old"
      "as_vbase2 new = as_vbase2 old" "as_npages2 new = as_npages2 old"
    using as_prepare_load_cases [OF ok(2), of ?init] np(1,2) fits by auto
  have new: "as_ok new" using as_ok_loaded [OF ok(1) load(3) ok(2) same fits] .
  define m' where "m' = pmem_move (as_stackpbase new) (as_stackpbase old) (12 * PAGE_SIZE)
    (pmem_move (as_pbase2 new) (as_pbase2 old) ?n2
      (pmem_move (as_pbase1 new) (as_pbase1 old) ?n1 (m\<lparr>firstpaddr := f\<rparr>)))"
  have mv: "unat (as_pbase1 new) + unat ?n1 = unat (as_pbase2 new)"
    "unat (as_pbase2 new) + unat ?n2 = unat (as_stackpbase new)"
    "unat (as_stackpbase new) + unat (12 * PAGE_SIZE) < 2 ^ 32"
    "unat (as_pbase1 old) + unat ?n1 \<le> unat (as_pbase1 new)"
    "unat (as_pbase2 old) + unat ?n2 \<le> unat (as_pbase1 new)"
    "unat (as_stackpbase old) + unat (12 * PAGE_SIZE) \<le> unat (as_pbase1 new)"
    using load(3) ok(3) np(3,4) same new
    by (simp_all add: as_frames_from_def as_frames_below_def as_ok_def)
  note moved = three_moves [OF mv m'_def]
  have stack: "unat (12 * PAGE_SIZE) = 12 * 4096" by simp
  note moved4 = moved(4) [unfolded stack]
  have "as_copy True old m = Some (Inr new, m')"
    using load(1) new by (simp add: as_copy_def as_create_def m'_def as_ok_def as_asserts_def)
  moreover have "firstpaddr m' = f" "lastpaddr m' = lastpaddr m"
    by (simp_all add: m'_def pmem_move_def)
  moreover from this have "ram_ok m'" using load(2) by (simp add: ram_ok_def)
  moreover have "as_frames_below new (unat f)"
    using load(3,4) same by (simp add: as_frames_from_def as_frames_below_def)
  moreover have "\<forall>a. unat a < unat (firstpaddr m) \<longrightarrow> pmem m' a = pmem m a"
    using moved(1) load(3) by (simp add: as_frames_from_def)
  moreover have "case as_translate old va of
        None \<Rightarrow> as_translate new va = None
      | Some pa \<Rightarrow> \<exists>pa'. as_translate new va = Some pa' \<and> pmem m' (of_nat pa') = pmem m (of_nat pa)" for va
  proof -
    have "va - base < np' * 4096" if "in_region base np' va" for base np'
      using that by (auto simp: in_region_def)
    note r = this [of "unat (as_vbase1 old)" "unat (as_npages1 old)"]
      this [of "unat (as_vbase2 old)" "unat (as_npages2 old)"] this [of "2 ^ 31 - 12 * 4096" 12]
    show ?thesis
      using r moved(2) [of "va - unat (as_vbase1 old)"] moved(3) [of "va - unat (as_vbase2 old)"]
        moved4 [of "va - (2 ^ 31 - 12 * 4096)"] np(3,4)
      by (simp add: as_translate_def same add.commute)
  qed
  ultimately show ?thesis using new load(3) by blast
qed

lemma as_define_region_eq:
  assumes "unat sz + unat vaddr mod 4096 + 4095 < 2 ^ 32" "as_vbase1 as = 0 \<or> as_vbase2 as = 0"
  shows "\<exists>v np. unat v = unat vaddr div 4096 * 4096 \<and>
    unat np = (unat sz + unat vaddr mod 4096 + 4095) div 4096 \<and>
    as_define_region as vaddr sz =
      (Inr (), if as_vbase1 as = 0 then as\<lparr>as_vbase1 := v, as_npages1 := np\<rparr>
               else as\<lparr>as_vbase2 := v, as_npages2 := np\<rparr>)"
proof -
  let ?v = "vaddr AND PAGE_FRAME" and ?s = "sz + (vaddr AND NOT PAGE_FRAME)"
  let ?np = "((?s + PAGE_SIZE - 1) AND PAGE_FRAME) div PAGE_SIZE"
  have "unat ?s = unat sz + unat vaddr mod 4096"
    using assms(1) by (subst unat_word_ariths, subst and_not_page_frame) simp
  then have "unat (?s + 4095) = unat sz + unat vaddr mod 4096 + 4095"
    using assms(1) by (subst unat_word_ariths) simp
  moreover have "?s + PAGE_SIZE - 1 = ?s + 4095" by simp
  ultimately have "unat ?np = (unat sz + unat vaddr mod 4096 + 4095) div 4096"
    by (simp only: unat_div unat_and_page_frame) simp
  moreover have "unat ?v = unat vaddr div 4096 * 4096" by (rule unat_and_page_frame)
  moreover have "as_define_region as vaddr sz =
      (Inr (), if as_vbase1 as = 0 then as\<lparr>as_vbase1 := ?v, as_npages1 := ?np\<rparr>
               else as\<lparr>as_vbase2 := ?v, as_npages2 := ?np\<rparr>)"
    using assms(2) by (simp only: as_define_region_def Let_def split: if_split) auto
  ultimately show ?thesis by blast
qed

text \<open>Rounding out to page boundaries covers the requested bytes with as few pages as possible.\<close>

lemma pages_cover:
  fixes va sz :: nat
  defines "base \<equiv> va div 4096 * 4096" and "np \<equiv> (sz + va mod 4096 + 4095) div 4096"
  shows "base \<le> va" "va + sz \<le> base + np * 4096" "0 < sz \<Longrightarrow> base + (np - 1) * 4096 < va + sz"
proof -
  let ?t = "sz + va mod 4096"
  have va: "va = base + va mod 4096" by (simp add: base_def)
  have "(?t + 4095) div 4096 * 4096 + (?t + 4095) mod 4096 = ?t + 4095" by (rule div_mult_mod_eq)
  moreover have "(?t + 4095) mod 4096 < 4096" by simp
  ultimately have np: "?t \<le> np * 4096" "np * 4096 \<le> ?t + 4095" by (simp_all add: np_def add.assoc)
  show "base \<le> va" by (simp add: base_def)
  show "va + sz \<le> base + np * 4096" using va np(1) by simp
  show "base + (np - 1) * 4096 < va + sz" if "0 < sz" using va np that by (simp add: diff_mult_distrib)
qed

section \<open>Properties\<close>

text \<open>(C8) A page fault in a loaded address space, with a TLB that agrees with it: the fault is
  handled exactly if the address is translated and the TLB has a free entry. Then the processor
  finds the translation of the address in the TLB, every valid entry still agrees with the address
  space, and nothing but the TLB has changed; otherwise the fault is reported with \<open>EFAULT\<close> in an
  unchanged state.\<close>

theorem vm_fault_correct:
  assumes "as_ok as" "tlb_consistent as (tlb m)" "ft = VM_FAULT_READ \<or> ft = VM_FAULT_WRITE"
  shows "if as_translate as (unat fa) \<noteq> None \<and> \<not> list_all tlb_valid (tlb m)
    then \<exists>es. vm_fault (Some as) ft fa m = Some (Inr (), m\<lparr>tlb := es\<rparr>) \<and>
      length es = length (tlb m) \<and> tlb_consistent as es \<and>
      tlb_lookup es fa = as_translate as (unat fa)
    else vm_fault (Some as) ft fa m = Some (Inl EFAULT, m)"
proof (cases "as_translate as (unat fa)")
  case None
  then have "vm_paddr as (fa AND PAGE_FRAME) = None"
    using vm_paddr_page [OF assms(1), of fa] by simp
  with None show ?thesis by (simp add: vm_fault_cases [OF assms(1,3)])
next
  case (Some pa)
  then obtain p where p: "vm_paddr as (fa AND PAGE_FRAME) = Some p" "unat p = pa div 4096 * 4096"
    using vm_paddr_page [OF assms(1), of fa] by auto
  then have al: "p AND PAGE_FRAME = p" by (simp add: page_aligned_iff)
  let ?fill = "tlb_fill (fa AND PAGE_FRAME) (p OR TLBLO_DIRTY OR TLBLO_VALID) (tlb m)"
  show ?thesis
  proof (cases ?fill)
    case None
    then have "list_all tlb_valid (tlb m)" by (simp add: tlb_fill_None_iff list_all_iff)
    with None p(1) show ?thesis by (simp add: vm_fault_cases [OF assms(1,3)])
  next
    case fill: (Some es)
    note tl = tlb_fill_lookup [OF assms(1,2) p(1) al fill]
    then have "tlb_lookup es fa = as_translate as (unat fa)"
      using tlb_lookup_consistent [OF assms(1) tl(1), of fa] by auto
    moreover have "length es = length (tlb m)" using tlb_fill_SomeD [OF fill] by auto
    moreover have "\<not> list_all tlb_valid (tlb m)"
      using fill tlb_fill_None_iff [of "fa AND PAGE_FRAME" "p OR TLBLO_DIRTY OR TLBLO_VALID" "tlb m"]
      by (simp add: list_all_iff)
    ultimately show ?thesis
      using fill p(1) tl(1) Some by (auto simp: vm_fault_cases [OF assms(1,3)])
  qed
qed

text \<open>(C4) Forking copies an address space: with enough free pages \<open>as_copy\<close> succeeds, the new
  address space maps the same virtual addresses to pages of its own, each byte reads as before the
  copy, and no byte below the previously free memory (all other address spaces) is changed.\<close>

theorem as_copy_correct:
  assumes "as_ok old" "ram_ok m" "as_frames_below old (unat (firstpaddr m))"
    "unat (firstpaddr m) + (unat (as_npages1 old) + unat (as_npages2 old) + 12) * 4096 \<le> unat (lastpaddr m)"
  shows "\<exists>new m'. as_copy True old m = Some (Inr new, m') \<and> as_ok new \<and> ram_ok m' \<and>
    as_frames_from new (unat (firstpaddr m)) \<and> as_frames_below new (unat (firstpaddr m')) \<and>
    (\<forall>a. unat a < unat (firstpaddr m) \<longrightarrow> pmem m' a = pmem m a) \<and>
    (\<forall>va. case as_translate old va of
        None \<Rightarrow> as_translate new va = None
      | Some pa \<Rightarrow> \<exists>pa'. as_translate new va = Some pa' \<and> pmem m' (of_nat pa') = pmem m (of_nat pa))"
  using assms by (rule as_copy_contents)


section \<open>Witnesses\<close>

definition as_example :: addrspace where
  "as_example = \<lparr>as_vbase1 = 0x400000, as_pbase1 = 0x20000, as_npages1 = 2, as_vbase2 = 0x10000000,
     as_pbase2 = 0x22000, as_npages2 = 1, as_stackpbase = 0x23000\<rparr>"

definition machine_example :: machine where
  "machine_example = \<lparr>curspl = 0, firstpaddr = 0x2f000, lastpaddr = 0x80000, tlb = tlb_empty,
     pmem = (\<lambda>a. ucast a)\<rparr>"

lemma as_example_ok: "as_ok as_example"
  by (simp add: as_ok_def as_asserts_def as_example_def)

lemma machine_example_ok: "ram_ok machine_example" "as_frames_below as_example (unat (firstpaddr machine_example))"
  by (simp_all add: ram_ok_def machine_example_def as_frames_below_def as_example_def)

theorem vm_fault_correct_witness:
  "\<exists>es. vm_fault (Some as_example) VM_FAULT_READ 0x401234 machine_example =
      Some (Inr (), machine_example\<lparr>tlb := es\<rparr>) \<and> tlb_lookup es 0x401234 = Some 0x21234"
proof -
  have "tlb_consistent as_example (tlb machine_example)"
    by (simp add: machine_example_def tlb_consistent_empty)
  moreover have "\<not> list_all tlb_valid (tlb machine_example)"
    by (auto simp: machine_example_def tlb_empty_def tlb_invalid_def tlb_valid_def list_all_iff
      intro: exI [of _ 0])
  moreover have "as_translate as_example (unat (0x401234 :: 32 word)) = Some 0x21234"
    by (simp add: as_translate_def as_example_def in_region_def)
  ultimately show ?thesis
    using vm_fault_correct [OF as_example_ok, where m = machine_example and ft = VM_FAULT_READ
      and fa = "0x401234"] by auto
qed

theorem as_copy_correct_witness:
  "\<exists>new m'. as_copy True as_example machine_example = Some (Inr new, m') \<and> as_ok new \<and>
    as_frames_from new 0x2f000"
proof -
  have "unat (firstpaddr machine_example) + (unat (as_npages1 as_example) + unat (as_npages2 as_example) + 12) * 4096
      \<le> unat (lastpaddr machine_example)"
    by (simp add: machine_example_def as_example_def)
  from as_copy_correct [OF as_example_ok machine_example_ok this] show ?thesis
    by (auto simp: machine_example_def)
qed


end
