(* ===== verification/Kern_State.thy ===== *)
theory Kern_State
  imports Kern_Array Kern_Queue Kern_VM
begin

text \<open>
  The state of the thread system: thread structures, the process list, semaphores and locks, the
  table of sleepers, the zombies and the run queue (\<^verbatim>\<open>kern/include/thread.h\<close>,
  \<^verbatim>\<open>kern/include/synch.h\<close> and the globals of \<^verbatim>\<open>kern/thread/thread.c\<close>). It extends the
  machine state. Addresses of structures are natural numbers that are handed out once.

  A thread that is not running has a saved context. Its part that the C code of the kernel
  determines is the function it will resume in: this is the datatype \<open>kont\<close>.
\<close>

section \<open>Threads\<close>

type_synonym tid = nat

text \<open>Sleep addresses: the address of a semaphore, a lock, a condition variable, or \<open>lbolt\<close>.\<close>

datatype chan = SemA nat | LockA nat | CvA nat | LboltA

text \<open>
  Where a switched-out thread resumes, with the values of its local variables: in the loop of \<open>P\<close>,
  in the loop of \<open>lock_acquire\<close> (the levels to restore one after the other: its own and, inside
  \<open>cv_wait\<close>, that of the caller), after the \<open>thread_sleep\<close> of \<open>cv_wait\<close>, in \<open>thread_yield\<close>, in
  \<open>thread_yield\<close> called by the timer interrupt, in the loop of \<open>clocksleep\<close>, or at the start of
  \<open>mi_threadstart\<close>.
\<close>

datatype kont =
    K_P nat int
  | K_Acquire nat "int list"
  | K_CvWait nat nat int
  | K_Yield int
  | K_Preempt int int int
  | K_Clock int int
  | K_Start

abbreviation MAX_CHILD :: nat where "MAX_CHILD \<equiv> 100"

record thread =
  t_name :: string
  t_sleepaddr :: "chan option"
  t_stack :: "8 word list option"
  t_vmspace :: "nat option"
  t_cwd :: "nat option"
  t_pid :: int
  t_child :: "tid option list"
  t_parent :: "tid option"
  t_wait :: "nat option"
  t_kont :: "kont option"
  pcb_ininterrupt :: int

record pnode =
  p_thread :: "tid option"
  p_excode :: int
  p_exited :: int
  p_pid :: int
  p_parentpid :: int
  p_waited :: int

record kern = machine +
  in_interrupt :: int
  curthread :: "tid option"
  threads :: "tid \<Rightarrow> thread option"
  sleepers :: "tid karray option"
  zombies :: "tid karray option"
  runqueue :: "tid queue option"
  numthreads :: int
  max_pid :: int
  plist :: "pnode list option"
  sems :: "nat \<Rightarrow> int option"
  locks :: "nat \<Rightarrow> tid option option"
  cvs :: "nat set"
  lock_sem :: "nat option"
  lbolt_counter :: int
  vnrefs :: "nat \<Rightarrow> int"
  spaces :: "nat \<Rightarrow> addrspace option"
  next_id :: nat
  k_mem :: "nat \<Rightarrow> tid kmem"
  k_nalloc :: nat

section \<open>Allocation\<close>

text \<open>
  The answers of \<open>kmalloc\<close> are numbered; each call consumes one. A structure gets the next unused
  address.
\<close>

definition kmalloc_ask :: "kern \<Rightarrow> tid kmem \<times> kern" where
  "kmalloc_ask s = (k_mem s (k_nalloc s), s\<lparr>k_nalloc := Suc (k_nalloc s)\<rparr>)"

definition kmalloc_struct :: "kern \<Rightarrow> nat option \<times> kern" where
  "kmalloc_struct s =
     (let (a, s) = kmalloc_ask s in
      if a [] = None then (None, s) else (Some (next_id s), s\<lparr>next_id := Suc (next_id s)\<rparr>))"

definition upd_thread :: "tid \<Rightarrow> (thread \<Rightarrow> thread) \<Rightarrow> kern \<Rightarrow> kern option" where
  "upd_thread t f s = do { x \<leftarrow> threads s t; Some (s\<lparr>threads := (threads s)(t \<mapsto> f x)\<rparr>) }"

section \<open>The process list\<close>

text \<open>
  The list behind the dummy node \<open>phead\<close>, first node first. Each function walks it from the
  front to the first node with the process number.
\<close>

definition plist_init :: "kern \<Rightarrow> kern" where
  "plist_init s = s\<lparr>plist := Some []\<rparr>"

text \<open>The parent's number of a new node is not initialised: \<open>junk\<close> is what the memory held.\<close>

definition insert_to_plist :: "tid \<Rightarrow> kern \<Rightarrow> kern option" where
  "insert_to_plist t s = do {
     let (a, s) = kmalloc_ask s;
     g \<leftarrow> a [];
     x \<leftarrow> threads s t;
     ps \<leftarrow> plist s;
     Some (s\<lparr>plist := Some (ps @ [\<lparr>p_thread = Some t, p_excode = - 1, p_exited = 0, p_pid = t_pid x,
                                     p_parentpid = int (g 0), p_waited = 0\<rparr>])\<rparr>) }"

primrec plist_delete :: "int \<Rightarrow> pnode list \<Rightarrow> pnode list" where
  "plist_delete pid [] = []"
| "plist_delete pid (n # ns) = (if p_pid n = pid then ns else n # plist_delete pid ns)"

primrec plist_modify :: "int \<Rightarrow> (pnode \<Rightarrow> pnode) \<Rightarrow> pnode list \<Rightarrow> pnode list" where
  "plist_modify pid f [] = []"
| "plist_modify pid f (n # ns) = (if p_pid n = pid then f n # ns else n # plist_modify pid f ns)"

primrec plist_find :: "int \<Rightarrow> pnode list \<Rightarrow> pnode option" where
  "plist_find pid [] = None"
| "plist_find pid (n # ns) = (if p_pid n = pid then Some n else plist_find pid ns)"

definition delete_from_plist :: "int \<Rightarrow> kern \<Rightarrow> kern option" where
  "delete_from_plist pid s = do { ps \<leftarrow> plist s; Some (s\<lparr>plist := Some (plist_delete pid ps)\<rparr>) }"

definition get_exited :: "int \<Rightarrow> kern \<Rightarrow> int option" where
  "get_exited pid s = do {
     ps \<leftarrow> plist s;
     Some (case plist_find pid ps of None \<Rightarrow> - 1 | Some n \<Rightarrow> p_exited n) }"

definition get_excode :: "int \<Rightarrow> kern \<Rightarrow> int option" where
  "get_excode pid s = do {
     ps \<leftarrow> plist s;
     Some (case plist_find pid ps of None \<Rightarrow> - 1 | Some n \<Rightarrow> p_excode n) }"

definition set_excode :: "int \<Rightarrow> int \<Rightarrow> kern \<Rightarrow> kern option" where
  "set_excode pid exitcode s = do {
     ps \<leftarrow> plist s;
     Some (s\<lparr>plist := Some (plist_modify pid (\<lambda>n. n\<lparr>p_excode := exitcode, p_exited := 1\<rparr>) ps)\<rparr>) }"

definition set_exited :: "int \<Rightarrow> kern \<Rightarrow> kern option" where
  "set_exited pid s = do {
     ps \<leftarrow> plist s;
     Some (s\<lparr>plist := Some (plist_modify pid (\<lambda>n. n\<lparr>p_exited := 1\<rparr>) ps)\<rparr>) }"

definition set_waited :: "int \<Rightarrow> kern \<Rightarrow> kern option" where
  "set_waited pid s = do {
     ps \<leftarrow> plist s;
     Some (s\<lparr>plist := Some (plist_modify pid (\<lambda>n. n\<lparr>p_waited := 1\<rparr>) ps)\<rparr>) }"

definition find_thread_by_pid :: "int \<Rightarrow> kern \<Rightarrow> tid option option" where
  "find_thread_by_pid pid s = do {
     ps \<leftarrow> plist s;
     Some (case plist_find pid ps of None \<Rightarrow> None | Some n \<Rightarrow> p_thread n) }"

text \<open>\<open>set_parentpid\<close> does not stop at the first match.\<close>

definition set_parentpid :: "int \<Rightarrow> int \<Rightarrow> kern \<Rightarrow> kern option" where
  "set_parentpid parent current s = do {
     ps \<leftarrow> plist s;
     Some (s\<lparr>plist := Some (map (\<lambda>n. if p_pid n = current then n\<lparr>p_parentpid := parent\<rparr> else n) ps)\<rparr>) }"

definition check_parent_child_relationship :: "int \<Rightarrow> int \<Rightarrow> kern \<Rightarrow> int option" where
  "check_parent_child_relationship parent current s = do {
     ps \<leftarrow> plist s;
     Some (case plist_find current ps of
             None \<Rightarrow> 0
           | Some n \<Rightarrow> if p_parentpid n = parent then 1 else 0) }"

definition check_waited_by_pid :: "int \<Rightarrow> kern \<Rightarrow> int option" where
  "check_waited_by_pid pid s = do {
     ps \<leftarrow> plist s;
     Some (case plist_find pid ps of None \<Rightarrow> 0 | Some n \<Rightarrow> if p_waited n = 1 then 1 else 0) }"

text \<open>
  \<open>thread_detach_child\<close> dereferences every child slot, \<open>find_child_index_by_pid\<close> exactly the
  empty ones: \<open>None\<close> at a null pointer.
\<close>

primrec detach_children :: "nat list \<Rightarrow> tid \<Rightarrow> kern \<Rightarrow> kern option" where
  "detach_children [] t s = Some s"
| "detach_children (i # is) t s = do {
     x \<leftarrow> threads s t;
     c \<leftarrow> rd (t_child x) (int i);
     child \<leftarrow> c;
     s \<leftarrow> upd_thread child (\<lambda>y. y\<lparr>t_parent := None\<rparr>) s;
     s \<leftarrow> upd_thread t (\<lambda>y. y\<lparr>t_child := (t_child y)[i := None]\<rparr>) s;
     detach_children is t s }"

definition thread_detach_child :: "tid \<Rightarrow> kern \<Rightarrow> kern option" where
  "thread_detach_child t s = detach_children [0..<MAX_CHILD] t s"

primrec find_child_from :: "nat list \<Rightarrow> int \<Rightarrow> thread \<Rightarrow> kern \<Rightarrow> int option" where
  "find_child_from [] pid x s = Some (- 1)"
| "find_child_from (i # is) pid x s = do {
     c \<leftarrow> rd (t_child x) (int i);
     if c = None then do { child \<leftarrow> c; y \<leftarrow> threads s child;
                           if t_pid y = pid then Some (int i) else find_child_from is pid x s }
     else find_child_from is pid x s }"

definition find_child_index_by_pid :: "int \<Rightarrow> tid \<Rightarrow> kern \<Rightarrow> int option" where
  "find_child_index_by_pid pid t s = do {
     x \<leftarrow> threads s t;
     find_child_from [0..<MAX_CHILD] pid x s }"

section \<open>Lemmas on the process list\<close>

lemma plist_find_update_same:
  assumes "\<And>n. p_pid (f n) = p_pid n"
  shows "plist_find pid (plist_modify pid f ns) = map_option f (plist_find pid ns)"
  by (induction ns) (auto simp: assms)

lemma plist_find_update_other:
  assumes "\<And>n. p_pid (f n) = p_pid n" "pid \<noteq> pid'"
  shows "plist_find pid (plist_modify pid' f ns) = plist_find pid ns"
  using assms by (induction ns) auto

lemma plist_find_append:
  "plist_find pid (xs @ ys) = (case plist_find pid xs of None \<Rightarrow> plist_find pid ys | Some n \<Rightarrow> Some n)"
  by (induction xs) auto

lemma plist_find_None_iff: "plist_find pid ns = None \<longleftrightarrow> pid \<notin> p_pid ` set ns"
  by (induction ns) auto

lemma plist_find_SomeD: "plist_find pid ns = Some n \<Longrightarrow> n \<in> set ns \<and> p_pid n = pid"
  by (induction ns) (auto split: if_splits)

lemma plist_find_delete:
  assumes "distinct (map p_pid ns)"
  shows "plist_find pid (plist_delete pid' ns) = (if pid = pid' then None else plist_find pid ns)"
  using assms by (induction ns) (auto simp: plist_find_None_iff)

lemma map_pid_update:
  "(\<And>n. p_pid (f n) = p_pid n) \<Longrightarrow> map p_pid (plist_modify pid f ns) = map p_pid ns"
  by (induction ns) auto

text \<open>A search for a child stops the kernel whenever the first child slots are free.\<close>

lemma find_child_index_by_pid_null:
  assumes "threads s t = Some x" "length (t_child x) = MAX_CHILD" "t_child x ! 0 = None"
  shows "find_child_index_by_pid pid t s = None"
proof -
  have "[0..<MAX_CHILD] = 0 # [1..<MAX_CHILD]" by (simp add: upt_conv_Cons)
  then show ?thesis using assms by (simp only: find_child_index_by_pid_def) simp
qed

end
