(* ===== verification/Kern_Sched.thy ===== *)
theory Kern_Sched
  imports Kern_State
begin

text \<open>
  The scheduler (\<^verbatim>\<open>kern/thread/scheduler.c\<close>) and the switching core of
  \<^verbatim>\<open>kern/thread/thread.c\<close>: \<open>mi_switch\<close>, sleeping, waking, yielding and the disposal of
  zombies.

  \<open>mi_switch\<close> is cut at its two switch points. \<open>mi_switch_out\<close> runs until the call of the
  scheduler; \<open>mi_dispatch\<close> is one round of the scheduler's loop and the assignment of
  \<open>curthread\<close>; \<open>mi_switch_in\<close> is what the chosen thread runs behind \<open>md_switch\<close>. While
  \<open>curthread\<close> is null the processor is in the scheduler.
\<close>

section \<open>The scheduler\<close>

definition scheduler_bootstrap :: "kern \<Rightarrow> kern option" where
  "scheduler_bootstrap s = do {
     let (a, s) = kmalloc_ask s;
     let (b, s) = kmalloc_ask s;
     q \<leftarrow> q_create (a [] \<noteq> None) (b []) 32;
     Some (s\<lparr>runqueue := Some q\<rparr>) }"

definition scheduler_preallocate :: "int \<Rightarrow> kern \<Rightarrow> ((errno + unit) \<times> kern) option" where
  "scheduler_preallocate nthreads s = do {
     kassert (0 < curspl s);
     q \<leftarrow> runqueue s;
     let (a, s) = kmalloc_ask s;
     (r, q') \<leftarrow> q_preallocate a q nthreads;
     Some (r, s\<lparr>runqueue := Some q'\<rparr>) }"

partial_function (option) q_drain :: "(tid \<Rightarrow> thread option) \<Rightarrow> tid queue \<Rightarrow> tid queue option" where
  "q_drain th q =
     (if q_empty q then Some q
      else do { (t, q') \<leftarrow> q_remhead q; x \<leftarrow> th t; q_drain th q' })"

definition scheduler_killall :: "kern \<Rightarrow> kern option" where
  "scheduler_killall s = do {
     kassert (0 < curspl s);
     q \<leftarrow> runqueue s;
     q' \<leftarrow> q_drain (threads s) q;
     Some (s\<lparr>runqueue := Some q'\<rparr>) }"

definition scheduler_shutdown :: "kern \<Rightarrow> kern option" where
  "scheduler_shutdown s = do {
     s \<leftarrow> scheduler_killall s;
     kassert (0 < curspl s);
     q \<leftarrow> runqueue s;
     q_destroy q;
     Some (s\<lparr>runqueue := None\<rparr>) }"

text \<open>One round of the loop of \<open>scheduler\<close>: no thread is chosen when \<open>cpu_idle\<close> is called.\<close>

definition scheduler :: "kern \<Rightarrow> (tid option \<times> kern) option" where
  "scheduler s = do {
     kassert (0 < curspl s);
     q \<leftarrow> runqueue s;
     if q_empty q then Some (None, s)
     else do { (t, q') \<leftarrow> q_remhead q; Some (Some t, s\<lparr>runqueue := Some q'\<rparr>) } }"

definition make_runnable :: "tid \<Rightarrow> kern \<Rightarrow> ((errno + unit) \<times> kern) option" where
  "make_runnable t s = do {
     kassert (0 < curspl s);
     q \<leftarrow> runqueue s;
     let (a, s) = kmalloc_ask s;
     (r, q') \<leftarrow> q_addtail a q t;
     Some (r, s\<lparr>runqueue := Some q'\<rparr>) }"

text \<open>\<open>print_run_queue\<close>, as the list of the threads it prints.\<close>

partial_function (option) print_loop :: "tid queue \<Rightarrow> int \<Rightarrow> tid list option" where
  "print_loop q i =
     (if i = q_getend q then Some []
      else do {
        t \<leftarrow> q_getguy q i;
        ts \<leftarrow> print_loop q ((i + 1) smod q_getsize q);
        Some (t # ts) })"

definition print_run_queue :: "kern \<Rightarrow> (tid list \<times> kern) option" where
  "print_run_queue s = do {
     let (spl, s) = splhigh s;
     q \<leftarrow> runqueue s;
     ts \<leftarrow> print_loop q (q_getstart q);
     Some (ts, snd (splx spl s)) }"

section \<open>Switching\<close>

text \<open>The states of a thread.\<close>

datatype threadstate = S_RUN | S_READY | S_SLEEP | S_ZOMB

definition thread_destroy :: "tid \<Rightarrow> kern \<Rightarrow> kern option" where
  "thread_destroy t s = do {
     kassert (curthread s \<noteq> Some t);
     x \<leftarrow> threads s t;
     kassert (t_vmspace x = None);
     kassert (t_cwd x = None);
     Some (s\<lparr>threads := (threads s)(t := None)\<rparr>) }"

primrec destroy_zombies :: "nat list \<Rightarrow> tid karray \<Rightarrow> kern \<Rightarrow> kern option" where
  "destroy_zombies [] zs s = Some s"
| "destroy_zombies (i # is) zs s = do {
     z \<leftarrow> array_getguy zs (int i);
     kassert (curthread s \<noteq> Some z);
     s \<leftarrow> thread_destroy z s;
     destroy_zombies is zs s }"

definition exorcise :: "kern \<Rightarrow> kern option" where
  "exorcise s = do {
     kassert (0 < curspl s);
     zs \<leftarrow> zombies s;
     s \<leftarrow> destroy_zombies [0..<nat (array_getnum zs)] zs s;
     let (a, s) = kmalloc_ask s;
     (r, zs') \<leftarrow> array_setsize (a []) zs 0;
     kassert (r = Inr ());
     Some (s\<lparr>zombies := Some zs'\<rparr>) }"

text \<open>The magic number at the bottom end of a stack.\<close>

definition stack_magic :: "8 word list" where
  "stack_magic = [0xae, 0x11, 0xda, 0x33]"

definition stack_intact :: "thread \<Rightarrow> bool" where
  "stack_intact x \<longleftrightarrow> (case t_stack x of None \<Rightarrow> True | Some b \<Rightarrow> take 4 b = stack_magic)"

definition sleepers_add :: "tid \<Rightarrow> kern \<Rightarrow> ((errno + unit) \<times> kern) option" where
  "sleepers_add t s = do {
     sl \<leftarrow> sleepers s;
     let (a, s) = kmalloc_ask s;
     (r, sl') \<leftarrow> array_add (a []) sl t;
     Some (r, s\<lparr>sleepers := Some sl'\<rparr>) }"

definition zombies_add :: "tid \<Rightarrow> kern \<Rightarrow> ((errno + unit) \<times> kern) option" where
  "zombies_add t s = do {
     zs \<leftarrow> zombies s;
     let (a, s) = kmalloc_ask s;
     (r, zs') \<leftarrow> array_add (a []) zs t;
     Some (r, s\<lparr>zombies := Some zs'\<rparr>) }"

text \<open>
  The part of \<open>md_switch\<close> that saves the state of the old thread. The interrupt flag belongs to
  the thread; while the processor idles in the scheduler every interrupt restores it.
\<close>

definition md_switch_save :: "tid \<Rightarrow> thread \<Rightarrow> kern \<Rightarrow> kern" where
  "md_switch_save cur x s =
     s\<lparr>curthread := None, threads := (threads s)(cur \<mapsto> x\<lparr>pcb_ininterrupt := in_interrupt s\<rparr>)\<rparr>"

text \<open>\<open>mi_switch\<close> up to the call of the scheduler; without a current thread it returns at once.\<close>

definition mi_switch_out :: "threadstate \<Rightarrow> kern \<Rightarrow> kern option" where
  "mi_switch_out nextstate s = do {
     kassert (0 < curspl s);
     (case curthread s of
        None \<Rightarrow> Some s
      | Some cur \<Rightarrow> do {
          x \<leftarrow> threads s cur;
          kassert (stack_intact x);
          let s = md_switch_save cur x s;
          (r, s) \<leftarrow> (case nextstate of
              S_READY \<Rightarrow> make_runnable cur s
            | S_SLEEP \<Rightarrow> sleepers_add cur s
            | S_ZOMB \<Rightarrow> zombies_add cur s
            | S_RUN \<Rightarrow> None);
          kassert (r = Inr ());
          Some s }) }"

definition mi_dispatch :: "kern \<Rightarrow> kern option" where
  "mi_dispatch s = do {
     (r, s) \<leftarrow> scheduler s;
     (case r of
        None \<Rightarrow> Some s
      | Some next \<Rightarrow> do {
          y \<leftarrow> threads s next;
          Some (s\<lparr>curthread := Some next, in_interrupt := pcb_ininterrupt y\<rparr>) }) }"

definition mi_switch_in :: "kern \<Rightarrow> kern option" where
  "mi_switch_in s = do {
     s \<leftarrow> exorcise s;
     t \<leftarrow> curthread s;
     x \<leftarrow> threads s t;
     Some (if t_vmspace x \<noteq> None then as_activate s else s) }"

text \<open>\<open>thread_yield\<close> up to its switch; the timer may call it while the scheduler is running.\<close>

definition thread_yield :: "kern \<Rightarrow> kern option" where
  "thread_yield s = do {
     let (spl, s) = splhigh s;
     kassert (sleepers s \<noteq> None);
     (case curthread s of
        None \<Rightarrow> do { s \<leftarrow> mi_switch_out S_READY s; Some (snd (splx spl s)) }
      | Some t \<Rightarrow> do {
          s \<leftarrow> upd_thread t (\<lambda>x. x\<lparr>t_kont := Some (K_Yield spl)\<rparr>) s;
          mi_switch_out S_READY s }) }"

text \<open>\<open>thread_sleep\<close> up to its switch; \<open>k\<close> is the point where its caller resumes.\<close>

definition thread_sleep :: "chan \<Rightarrow> kont \<Rightarrow> kern \<Rightarrow> kern option" where
  "thread_sleep addr k s = do {
     kassert (in_interrupt s = 0);
     t \<leftarrow> curthread s;
     s \<leftarrow> upd_thread t (\<lambda>x. x\<lparr>t_sleepaddr := Some addr, t_kont := Some k\<rparr>) s;
     mi_switch_out S_SLEEP s }"

text \<open>The rest of \<open>thread_sleep\<close>, once the thread runs again.\<close>

definition thread_sleep_end :: "kern \<Rightarrow> kern option" where
  "thread_sleep_end s = do {
     t \<leftarrow> curthread s;
     upd_thread t (\<lambda>x. x\<lparr>t_sleepaddr := None\<rparr>) s }"

partial_function (option) wakeup_from :: "chan \<Rightarrow> int \<Rightarrow> kern \<Rightarrow> kern option" where
  "wakeup_from addr i s = do {
     sl \<leftarrow> sleepers s;
     if i < array_getnum sl then do {
       t \<leftarrow> array_getguy sl i;
       x \<leftarrow> threads s t;
       if t_sleepaddr x = Some addr then do {
         sl' \<leftarrow> array_remove sl i;
         (r, s') \<leftarrow> make_runnable t (s\<lparr>sleepers := Some sl'\<rparr>);
         kassert (r = Inr ());
         wakeup_from addr i s' }
       else wakeup_from addr (i + 1) s }
     else Some s }"

definition thread_wakeup :: "chan \<Rightarrow> kern \<Rightarrow> kern option" where
  "thread_wakeup addr s = do {
     kassert (0 < curspl s);
     wakeup_from addr 0 s }"

text \<open>Reading the sleep address of a sleeper, for the search loops.\<close>

definition sleeper_chan :: "kern \<Rightarrow> tid karray \<Rightarrow> int \<Rightarrow> chan option option" where
  "sleeper_chan s sl i = do { t \<leftarrow> array_getguy sl i; x \<leftarrow> threads s t; Some (t_sleepaddr x) }"

definition thread_wakeup_one :: "chan \<Rightarrow> kern \<Rightarrow> kern option" where
  "thread_wakeup_one addr s = do {
     kassert (0 < curspl s);
     sl \<leftarrow> sleepers s;
     r \<leftarrow> array_scan (sleeper_chan s sl) (\<lambda>c. c = Some addr) 0 (nat (array_getnum sl));
     (case r of
        None \<Rightarrow> Some s
      | Some i \<Rightarrow> do {
          t \<leftarrow> array_getguy sl (int i);
          sl' \<leftarrow> array_remove sl (int i);
          (r, s') \<leftarrow> make_runnable t (s\<lparr>sleepers := Some sl'\<rparr>);
          kassert (r = Inr ());
          Some s' }) }"

text \<open>\<open>thread_hassleepers\<close>: the early return leaves the interrupt level high.\<close>

definition thread_hassleepers :: "chan \<Rightarrow> kern \<Rightarrow> (int \<times> kern) option" where
  "thread_hassleepers addr s = do {
     let (spl, s) = splhigh s;
     kassert (0 < curspl s);
     sl \<leftarrow> sleepers s;
     r \<leftarrow> array_scan (sleeper_chan s sl) (\<lambda>c. c = Some addr) 0 (nat (array_getnum sl));
     (case r of
        Some _ \<Rightarrow> Some (1, s)
      | None \<Rightarrow> Some (0, snd (splx spl s))) }"

text \<open>\<open>thread_killall\<close>: every sleeper's name is printed, then the table is emptied.\<close>

primrec name_sleepers :: "nat list \<Rightarrow> tid karray \<Rightarrow> kern \<Rightarrow> string list option" where
  "name_sleepers [] sl s = Some []"
| "name_sleepers (i # is) sl s = do {
     t \<leftarrow> array_getguy sl (int i);
     x \<leftarrow> threads s t;
     ns \<leftarrow> name_sleepers is sl s;
     Some (t_name x # ns) }"

definition thread_killall :: "kern \<Rightarrow> kern option" where
  "thread_killall s = do {
     kassert (0 < curspl s);
     sl \<leftarrow> sleepers s;
     ns \<leftarrow> name_sleepers [0..<nat (array_getnum sl)] sl s;
     let (a, s) = kmalloc_ask s;
     (r, sl') \<leftarrow> array_setsize (a []) sl 0;
     kassert (r = Inr ());
     Some (s\<lparr>sleepers := Some sl'\<rparr>) }"

definition thread_panic :: "kern \<Rightarrow> kern option" where
  "thread_panic s = do {
     kassert (0 < curspl s);
     s \<leftarrow> thread_killall s;
     scheduler_killall s }"

section \<open>The tables as lists\<close>

definition asleep :: "kern \<Rightarrow> tid list" where
  "asleep s = (case sleepers s of None \<Rightarrow> [] | Some sl \<Rightarrow> guys sl)"

definition dead :: "kern \<Rightarrow> tid list" where
  "dead s = (case zombies s of None \<Rightarrow> [] | Some zs \<Rightarrow> guys zs)"

definition ready :: "kern \<Rightarrow> tid list" where
  "ready s = (case runqueue s of None \<Rightarrow> [] | Some q \<Rightarrow> q_items q)"

definition running :: "kern \<Rightarrow> tid list" where
  "running s = (case curthread s of None \<Rightarrow> [] | Some t \<Rightarrow> [t])"

text \<open>How many threads the run queue holds without allocating.\<close>

definition rq_cap :: "kern \<Rightarrow> int" where
  "rq_cap s = (case runqueue s of None \<Rightarrow> 0 | Some q \<Rightarrow> q_size q - 1)"

definition sl_cap :: "kern \<Rightarrow> int" where
  "sl_cap s = (case sleepers s of None \<Rightarrow> 0 | Some sl \<Rightarrow> a_max sl)"

definition tables_ok :: "kern \<Rightarrow> bool" where
  "tables_ok s \<longleftrightarrow>
     (case sleepers s of None \<Rightarrow> False | Some sl \<Rightarrow> array_ok sl) \<and>
     (case zombies s of None \<Rightarrow> False | Some zs \<Rightarrow> array_ok zs) \<and>
     (case runqueue s of None \<Rightarrow> False | Some q \<Rightarrow> q_ok q)"

lemmas table_defs = asleep_def dead_def ready_def running_def rq_cap_def sl_cap_def tables_ok_def

text \<open>\<open>s'\<close> is \<open>s\<close> with other sleepers and another run queue.\<close>

definition moved :: "kern \<Rightarrow> kern \<Rightarrow> bool" where
  "moved s s' \<longleftrightarrow>
     (\<exists>sl q n. s' = s\<lparr>sleepers := Some sl, runqueue := Some q, k_nalloc := n\<rparr>)"

lemma moved_refl: "tables_ok s \<Longrightarrow> moved s s"
proof -
  assume "tables_ok s"
  then obtain sl q where "sleepers s = Some sl" "runqueue s = Some q"
    by (auto simp: tables_ok_def split: option.splits)
  then have "s = s\<lparr>sleepers := Some sl, runqueue := Some q, k_nalloc := k_nalloc s\<rparr>" by simp
  then show ?thesis unfolding moved_def by blast
qed

lemma moved_trans: "moved s s' \<Longrightarrow> moved s' s'' \<Longrightarrow> moved s s''"
proof -
  assume "moved s s'" "moved s' s''"
  then obtain sl q n sl' q' n' where
    "s' = s\<lparr>sleepers := Some sl, runqueue := Some q, k_nalloc := n\<rparr>"
    "s'' = s'\<lparr>sleepers := Some sl', runqueue := Some q', k_nalloc := n'\<rparr>"
    by (auto simp: moved_def)
  then have "s'' = s\<lparr>sleepers := Some sl', runqueue := Some q', k_nalloc := n'\<rparr>" by simp
  then show ?thesis unfolding moved_def by blast
qed

lemma moved_simps:
  assumes "moved s s'"
  shows "threads s' = threads s" "curspl s' = curspl s" "curthread s' = curthread s"
    "zombies s' = zombies s" "dead s' = dead s" "running s' = running s" "numthreads s' = numthreads s"
    "sems s' = sems s" "locks s' = locks s" "cvs s' = cvs s" "in_interrupt s' = in_interrupt s"
    "plist s' = plist s" "max_pid s' = max_pid s" "next_id s' = next_id s" "k_mem s' = k_mem s"
    "lock_sem s' = lock_sem s" "spaces s' = spaces s" "vnrefs s' = vnrefs s"
    "lbolt_counter s' = lbolt_counter s"
  using assms by (auto simp: moved_def dead_def running_def)

text \<open>
  Making a thread runnable appends it to the run queue; it fails only if the queue is full and no
  memory is left.
\<close>

lemma make_runnable_cases:
  assumes "tables_ok s" "0 < curspl s" "length (ready s) < 2 ^ 28"
  shows "(\<exists>s'. make_runnable t s = Some (Inr (), s') \<and> tables_ok s' \<and> moved s s' \<and>
      asleep s' = asleep s \<and> ready s' = ready s @ [t] \<and> sl_cap s' = sl_cap s \<and> rq_cap s \<le> rq_cap s') \<or>
    (int (length (ready s)) = rq_cap s \<and> k_mem s (k_nalloc s) [] = None \<and>
      (\<exists>s'. make_runnable t s = Some (Inl ENOMEM, s')))"
proof -
  obtain sl zs q where tab: "sleepers s = Some sl" "zombies s = Some zs" "runqueue s = Some q"
    "array_ok sl" "array_ok zs" "q_ok q"
    using assms(1) by (auto simp: tables_ok_def split: option.splits)
  let ?a = "k_mem s (k_nalloc s)" and ?s = "s\<lparr>k_nalloc := Suc (k_nalloc s)\<rparr>"
  have len: "length (q_items q) < 2 ^ 28" using assms(3) tab by (simp add: ready_def)
  have run: "make_runnable t s = do { (r, q') \<leftarrow> q_addtail ?a q t; Some (r, ?s\<lparr>runqueue := Some q'\<rparr>) }"
    using assms(2) tab by (simp add: make_runnable_def kmalloc_ask_def)
  have "(\<exists>q'. q_addtail ?a q t = Some (Inr (), q') \<and> q_ok q' \<and> q_items q' = q_items q @ [t] \<and>
      q_size q \<le> q_size q') \<or>
    (int (length (q_items q)) = q_size q - 1 \<and> ?a [] = None \<and> q_addtail ?a q t = Some (Inl ENOMEM, q))"
  proof (cases "int (length (q_items q)) < q_size q - 1")
    case True
    then show ?thesis using kq.addtail_room [OF tab(6), of ?a t] by auto
  next
    case False
    then have "q_size q - 1 < 2 ^ 29 - 1" using len by simp
    then show ?thesis using kq.addtail_cases [OF tab(6), of ?a t] by auto
  qed
  then show ?thesis
  proof (elim disjE exE conjE)
    fix q' assume q': "q_addtail ?a q t = Some (Inr (), q')" "q_ok q'" "q_items q' = q_items q @ [t]"
      "q_size q \<le> q_size q'"
    let ?s' = "s\<lparr>k_nalloc := Suc (k_nalloc s), runqueue := Some q'\<rparr>"
    have "?s' = s\<lparr>sleepers := Some sl, runqueue := Some q', k_nalloc := Suc (k_nalloc s)\<rparr>"
      using tab(1) by simp
    then have "moved s ?s'" unfolding moved_def by blast
    then show ?thesis using run q' tab by (auto simp: table_defs)
  next
    assume "int (length (q_items q)) = q_size q - 1" "?a [] = None" "q_addtail ?a q t = Some (Inl ENOMEM, q)"
    then show ?thesis using run tab by (simp add: table_defs)
  qed
qed

section \<open>Waking\<close>

definition waits_on :: "kern \<Rightarrow> chan \<Rightarrow> tid \<Rightarrow> bool" where
  "waits_on s addr t \<longleftrightarrow> (case threads s t of None \<Rightarrow> False | Some x \<Rightarrow> t_sleepaddr x = Some addr)"

definition mem_fails :: "kern \<Rightarrow> bool" where
  "mem_fails s \<longleftrightarrow> (\<exists>n. k_mem s n [] = None)"

lemma moved_waits: "moved s s' \<Longrightarrow> waits_on s' = waits_on s" "moved s s' \<Longrightarrow> mem_fails s' = mem_fails s"
  by (auto simp: waits_on_def mem_fails_def moved_simps fun_eq_iff)

text \<open>Taking one sleeper off the table.\<close>

lemma remove_sleeper:
  assumes "tables_ok s" "asleep s = pre @ t # ts"
  shows "\<exists>sl sl'. sleepers s = Some sl \<and> array_getnum sl = int (length (asleep s)) \<and>
    array_getguy sl (int (length pre)) = Some t \<and> array_remove sl (int (length pre)) = Some sl' \<and>
    tables_ok (s\<lparr>sleepers := Some sl'\<rparr>) \<and> moved s (s\<lparr>sleepers := Some sl'\<rparr>) \<and>
    asleep (s\<lparr>sleepers := Some sl'\<rparr>) = pre @ ts \<and> sl_cap (s\<lparr>sleepers := Some sl'\<rparr>) = sl_cap s"
proof -
  obtain sl zs q where tab: "sleepers s = Some sl" "zombies s = Some zs" "runqueue s = Some q"
    "array_ok sl" "array_ok zs" "q_ok q"
    using assms(1) by (auto simp: tables_ok_def split: option.splits)
  have g: "guys sl = pre @ t # ts" using assms(2) tab by (simp add: asleep_def)
  then have i: "length pre < length (guys sl)" by simp
  obtain sl' where sl': "array_remove sl (int (length pre)) = Some sl'" "array_ok sl'"
    "guys sl' = del_at (length pre) (guys sl)" "a_max sl' = a_max sl"
    using karr.remove [OF tab(4) i] by blast
  have "s\<lparr>sleepers := Some sl'\<rparr> =
      s\<lparr>sleepers := Some sl', runqueue := Some q, k_nalloc := k_nalloc s\<rparr>" using tab by simp
  then have "moved s (s\<lparr>sleepers := Some sl'\<rparr>)" unfolding moved_def by blast
  then show ?thesis
    using tab sl' g karr.getnum [OF tab(4)] karr.getguy [OF tab(4) i]
    by (simp add: table_defs del_at_append)
qed

lemma wakeup_from_cases:
  assumes "tables_ok s" "0 < curspl s" "asleep s = pre @ rest" "\<forall>t \<in> set rest. threads s t \<noteq> None"
    "length (ready s) + length rest < 2 ^ 28"
  shows "(\<exists>s'. wakeup_from addr (int (length pre)) s = Some s' \<and> tables_ok s' \<and> moved s s' \<and>
      asleep s' = pre @ filter (\<lambda>t. \<not> waits_on s addr t) rest \<and>
      ready s' = ready s @ filter (waits_on s addr) rest \<and> sl_cap s' = sl_cap s \<and> rq_cap s \<le> rq_cap s') \<or>
    (rq_cap s < int (length (ready s) + length (filter (waits_on s addr) rest)) \<and> mem_fails s \<and>
      wakeup_from addr (int (length pre)) s = None)"
  using assms
proof (induction rest arbitrary: s pre)
  case Nil
  obtain sl where sl: "sleepers s = Some sl" "array_ok sl"
    using Nil.prems(1) by (auto simp: tables_ok_def split: option.splits)
  then have "array_getnum sl = int (length pre)"
    using Nil.prems(3) karr.getnum [of sl] by (simp add: asleep_def)
  then have "wakeup_from addr (int (length pre)) s = Some s"
    using sl by (subst wakeup_from.simps) simp
  then show ?case using Nil.prems(1,3) moved_refl by auto
next
  case (Cons t ts)
  obtain x where x: "threads s t = Some x" using Cons.prems(4) by auto
  obtain sl sl' where sl: "sleepers s = Some sl" "array_getnum sl = int (length (asleep s))"
    "array_getguy sl (int (length pre)) = Some t" "array_remove sl (int (length pre)) = Some sl'"
    and s1: "tables_ok (s\<lparr>sleepers := Some sl'\<rparr>)" "moved s (s\<lparr>sleepers := Some sl'\<rparr>)"
      "asleep (s\<lparr>sleepers := Some sl'\<rparr>) = pre @ ts" "sl_cap (s\<lparr>sleepers := Some sl'\<rparr>) = sl_cap s"
    using remove_sleeper [OF Cons.prems(1,3)] by blast
  let ?s1 = "s\<lparr>sleepers := Some sl'\<rparr>"
  have r1: "ready ?s1 = ready s" "rq_cap ?s1 = rq_cap s" by (simp_all add: table_defs)
  note m1 = moved_waits [OF s1(2)] moved_simps [OF s1(2)]
  have lt: "int (length pre) < array_getnum sl" using sl(2) Cons.prems(3) by simp
  show ?case
  proof (cases "waits_on s addr t")
    case True
    then have adr: "t_sleepaddr x = Some addr" using x by (simp add: waits_on_def)
    have run: "wakeup_from addr (int (length pre)) s =
        do { (r, s') \<leftarrow> make_runnable t ?s1; kassert (r = Inr ()); wakeup_from addr (int (length pre)) s' }"
      using sl x adr lt by (subst wakeup_from.simps) simp
    have "0 < curspl ?s1" "length (ready ?s1) < 2 ^ 28" using Cons.prems(2,5) r1 by simp_all
    from make_runnable_cases [OF s1(1) this, of t] show ?thesis
    proof (elim disjE exE conjE)
      fix s2 assume s2: "make_runnable t ?s1 = Some (Inr (), s2)" "tables_ok s2" "moved ?s1 s2"
        "asleep s2 = asleep ?s1" "ready s2 = ready ?s1 @ [t]" "sl_cap s2 = sl_cap ?s1" "rq_cap ?s1 \<le> rq_cap s2"
      note m2 = moved_trans [OF s1(2) s2(3)]
      have "(\<exists>s'. wakeup_from addr (int (length pre)) s2 = Some s' \<and> tables_ok s' \<and> moved s2 s' \<and>
          asleep s' = pre @ filter (\<lambda>t. \<not> waits_on s2 addr t) ts \<and>
          ready s' = ready s2 @ filter (waits_on s2 addr) ts \<and> sl_cap s' = sl_cap s2 \<and> rq_cap s2 \<le> rq_cap s') \<or>
        (rq_cap s2 < int (length (ready s2) + length (filter (waits_on s2 addr) ts)) \<and> mem_fails s2 \<and>
          wakeup_from addr (int (length pre)) s2 = None)"
        using Cons.prems s2 s1(3) r1 moved_simps [OF m2] by (intro Cons.IH) auto
      then show ?thesis
        using run s2 True r1 s1(4) moved_waits [OF m2] moved_trans [OF m2] by auto
    next
      fix s2 assume f: "int (length (ready ?s1)) = rq_cap ?s1" "k_mem ?s1 (k_nalloc ?s1) [] = None"
        "make_runnable t ?s1 = Some (Inl ENOMEM, s2)"
      then have "mem_fails s" unfolding mem_fails_def by auto
      with f True r1 run show ?thesis by simp
    qed
  next
    case False
    then have adr: "t_sleepaddr x \<noteq> Some addr" using x by (simp add: waits_on_def)
    have run: "wakeup_from addr (int (length pre)) s = wakeup_from addr (int (length (pre @ [t]))) s"
      using sl x adr lt by (subst wakeup_from.simps) (simp add: add.commute)
    show ?thesis
      using Cons.IH [of s "pre @ [t]"] Cons.prems False unfolding run by simp
  qed
qed

lemma thread_wakeup_cases:
  assumes "tables_ok s" "0 < curspl s" "\<forall>t \<in> set (asleep s). threads s t \<noteq> None"
    "length (ready s) + length (asleep s) < 2 ^ 28"
  shows "(\<exists>s'. thread_wakeup addr s = Some s' \<and> tables_ok s' \<and> moved s s' \<and>
      asleep s' = filter (\<lambda>t. \<not> waits_on s addr t) (asleep s) \<and>
      ready s' = ready s @ filter (waits_on s addr) (asleep s) \<and> sl_cap s' = sl_cap s \<and> rq_cap s \<le> rq_cap s') \<or>
    (rq_cap s < int (length (ready s) + length (filter (waits_on s addr) (asleep s))) \<and> mem_fails s \<and>
      thread_wakeup addr s = None)"
  using wakeup_from_cases [of s "[]" "asleep s" addr] assms by (simp add: thread_wakeup_def)

text \<open>The loops that look for one sleeper.\<close>

lemma scan_sleepers:
  assumes "tables_ok s" "sleepers s = Some sl" "\<forall>t \<in> set (asleep s). threads s t \<noteq> None"
  shows "array_scan (sleeper_chan s sl) (\<lambda>c. c = Some addr) 0 (nat (array_getnum sl)) =
    Some (if \<exists>t \<in> set (asleep s). waits_on s addr t
          then Some (length (takeWhile (\<lambda>t. \<not> waits_on s addr t) (asleep s))) else None)"
proof -
  have ok: "array_ok sl" and g: "guys sl = asleep s"
    using assms(1,2) by (simp_all add: tables_ok_def asleep_def)
  define f where "f t = (case threads s t of None \<Rightarrow> None | Some x \<Rightarrow> t_sleepaddr x)" for t
  have h: "do { x \<leftarrow> threads s t; Some (t_sleepaddr x) } = Some (f t)" if "t \<in> set (guys sl)" for t
    using that assms(3) g by (auto simp: f_def)
  have w: "waits_on s addr t \<longleftrightarrow> f t = Some addr" for t
    by (simp add: waits_on_def f_def split: option.splits)
  have "sleeper_chan s sl = (\<lambda>i. do { t \<leftarrow> array_getguy sl i; do { x \<leftarrow> threads s t; Some (t_sleepaddr x) } })"
    by (rule ext) (simp add: sleeper_chan_def)
  moreover have "nat (array_getnum sl) = length (guys sl)" using karr.getnum [OF ok] by simp
  ultimately show ?thesis
    using karr.scan_elems [OF ok h, where p = "\<lambda>c. c = Some addr"] g w by simp
qed

lemma thread_wakeup_one_cases:
  assumes "tables_ok s" "0 < curspl s" "\<forall>t \<in> set (asleep s). threads s t \<noteq> None"
    "length (ready s) < 2 ^ 28"
  shows "if \<exists>t \<in> set (asleep s). waits_on s addr t
    then (\<exists>s' xs t ys. asleep s = xs @ t # ys \<and> waits_on s addr t \<and> (\<forall>y \<in> set xs. \<not> waits_on s addr y) \<and>
        thread_wakeup_one addr s = Some s' \<and> tables_ok s' \<and> moved s s' \<and>
        asleep s' = xs @ ys \<and> ready s' = ready s @ [t] \<and> sl_cap s' = sl_cap s \<and> rq_cap s \<le> rq_cap s') \<or>
      (int (length (ready s)) = rq_cap s \<and> mem_fails s)
    else thread_wakeup_one addr s = Some s"
proof -
  obtain sl where sl: "sleepers s = Some sl"
    using assms(1) by (auto simp: tables_ok_def split: option.splits)
  note sc = scan_sleepers [OF assms(1) sl assms(3), of addr]
  show ?thesis
  proof (cases "\<exists>t \<in> set (asleep s). waits_on s addr t")
    case False
    then show ?thesis using sc sl assms(2) by (simp add: thread_wakeup_one_def)
  next
    case True
    then obtain xs t ys where sp: "asleep s = xs @ t # ys" "waits_on s addr t"
      "\<forall>y \<in> set xs. \<not> waits_on s addr y"
      using split_list_first_prop by metis
    then have tw: "takeWhile (\<lambda>t. \<not> waits_on s addr t) (asleep s) = xs" by simp
    obtain sl' where s1: "array_getguy sl (int (length xs)) = Some t"
      "array_remove sl (int (length xs)) = Some sl'" "tables_ok (s\<lparr>sleepers := Some sl'\<rparr>)"
      "moved s (s\<lparr>sleepers := Some sl'\<rparr>)" "asleep (s\<lparr>sleepers := Some sl'\<rparr>) = xs @ ys"
      "sl_cap (s\<lparr>sleepers := Some sl'\<rparr>) = sl_cap s"
      using remove_sleeper [OF assms(1) sp(1)] sl by auto
    let ?s1 = "s\<lparr>sleepers := Some sl'\<rparr>"
    have r1: "ready ?s1 = ready s" "rq_cap ?s1 = rq_cap s" by (simp_all add: table_defs)
    have run: "thread_wakeup_one addr s =
        do { (r, s') \<leftarrow> make_runnable t ?s1; kassert (r = Inr ()); Some s' }"
      using sc sl assms(2) True tw s1(1,2) by (simp add: thread_wakeup_one_def)
    have "0 < curspl ?s1" "length (ready ?s1) < 2 ^ 28" using assms(2,4) r1 by simp_all
    from make_runnable_cases [OF s1(3) this, of t] show ?thesis
    proof (elim disjE exE conjE)
      fix s2 assume s2: "make_runnable t ?s1 = Some (Inr (), s2)" "tables_ok s2" "moved ?s1 s2"
        "asleep s2 = asleep ?s1" "ready s2 = ready ?s1 @ [t]" "sl_cap s2 = sl_cap ?s1" "rq_cap ?s1 \<le> rq_cap s2"
      then have "\<exists>s' xs t ys. asleep s = xs @ t # ys \<and> waits_on s addr t \<and> (\<forall>y \<in> set xs. \<not> waits_on s addr y) \<and>
        thread_wakeup_one addr s = Some s' \<and> tables_ok s' \<and> moved s s' \<and>
        asleep s' = xs @ ys \<and> ready s' = ready s @ [t] \<and> sl_cap s' = sl_cap s \<and> rq_cap s \<le> rq_cap s'"
        using run sp s1(5,6) r1 moved_trans [OF s1(4) s2(3)]
        by (intro exI [of _ s2] exI [of _ xs] exI [of _ t] exI [of _ ys]) simp
      then show ?thesis using True by simp
    next
      assume "int (length (ready ?s1)) = rq_cap ?s1" "k_mem ?s1 (k_nalloc ?s1) [] = None"
      then show ?thesis using True r1 unfolding mem_fails_def by auto
    qed
  qed
qed

lemma thread_hassleepers_eq:
  assumes "tables_ok s" "\<forall>t \<in> set (asleep s). threads s t \<noteq> None"
  shows "thread_hassleepers addr s =
    (if \<exists>t \<in> set (asleep s). waits_on s addr t then Some (1, s\<lparr>curspl := SPL_HIGH\<rparr>) else Some (0, s))"
proof -
  let ?s = "s\<lparr>curspl := SPL_HIGH\<rparr>"
  obtain sl where sl: "sleepers s = Some sl"
    using assms(1) by (auto simp: tables_ok_def split: option.splits)
  have e: "asleep ?s = asleep s" "waits_on ?s = waits_on s" "tables_ok ?s" "sleepers ?s = Some sl"
    using assms(1) sl by (auto simp: table_defs waits_on_def fun_eq_iff)
  then show ?thesis
    using scan_sleepers [OF e(3,4), of addr] assms(2) by (auto simp: thread_hassleepers_def)
qed

section \<open>Switching\<close>

lemma upd_thread_Some: "threads s t = Some x \<Longrightarrow> upd_thread t f s = Some (s\<lparr>threads := (threads s)(t \<mapsto> f x)\<rparr>)"
  by (simp add: upd_thread_def)

lemma destroy_zombies_eq:
  assumes "array_ok zs" "\<forall>i \<in> set is. i < length (guys zs)" "distinct (map ((!) (guys zs)) is)"
    "\<forall>i \<in> set is. \<exists>x. threads s (guys zs ! i) = Some x \<and> t_vmspace x = None \<and> t_cwd x = None"
    "\<forall>i \<in> set is. curthread s \<noteq> Some (guys zs ! i)"
  shows "destroy_zombies is zs s =
    Some (s\<lparr>threads := (\<lambda>t. if t \<in> (!) (guys zs) ` set is then None else threads s t)\<rparr>)"
  using assms(2-5)
proof (induction "is" arbitrary: s)
  case Nil
  then show ?case by simp
next
  case (Cons i "is")
  let ?z = "guys zs ! i" and ?s = "s\<lparr>threads := (threads s)(guys zs ! i := None)\<rparr>"
  have "array_getguy zs (int i) = Some ?z" using Cons.prems(1) karr.getguy [OF assms(1)] by simp
  then have "destroy_zombies (i # is) zs s = destroy_zombies is zs ?s"
    using Cons.prems(3,4) by (auto simp: thread_destroy_def)
  also have "\<dots> = Some (?s\<lparr>threads := (\<lambda>t. if t \<in> (!) (guys zs) ` set is then None else threads ?s t)\<rparr>)"
    using Cons.prems by (intro Cons.IH) (auto simp: image_iff)
  also have "\<dots> = Some (s\<lparr>threads := (\<lambda>t. if t \<in> (!) (guys zs) ` set (i # is) then None else threads s t)\<rparr>)"
    by (auto simp: fun_eq_iff)
  finally show ?case .
qed

lemma exorcise_eq:
  assumes "tables_ok s" "0 < curspl s" "distinct (dead s)"
    "\<forall>z \<in> set (dead s). \<exists>x. threads s z = Some x \<and> t_vmspace x = None \<and> t_cwd x = None"
    "\<forall>z \<in> set (dead s). curthread s \<noteq> Some z"
  shows "\<exists>zs. array_ok zs \<and> guys zs = [] \<and> exorcise s =
    Some (s\<lparr>threads := (\<lambda>t. if t \<in> set (dead s) then None else threads s t),
            zombies := Some zs, k_nalloc := Suc (k_nalloc s)\<rparr>)"
proof -
  obtain zs where zs: "zombies s = Some zs" "array_ok zs"
    using assms(1) by (auto simp: tables_ok_def split: option.splits)
  then have g: "dead s = guys zs" by (simp add: dead_def)
  have nth: "map ((!) (guys zs)) [0..<length (guys zs)] = guys zs" by (rule map_nth)
  have im: "(!) (guys zs) ` set [0..<length (guys zs)] = set (guys zs)"
    using arg_cong [OF nth, of set] by (simp only: set_map)
  have n: "nat (array_getnum zs) = length (guys zs)" using karr.getnum [OF zs(2)] by simp
  let ?s = "s\<lparr>threads := (\<lambda>t. if t \<in> set (guys zs) then None else threads s t)\<rparr>"
  have "destroy_zombies [0..<length (guys zs)] zs s =
    Some (s\<lparr>threads := (\<lambda>t. if t \<in> (!) (guys zs) ` set [0..<length (guys zs)] then None else threads s t)\<rparr>)"
    using assms(3,4,5) g nth by (intro destroy_zombies_eq [OF zs(2)]) auto
  then have d: "destroy_zombies [0..<nat (array_getnum zs)] zs s = Some ?s"
    by (simp only: n im)
  obtain zs' where "array_setsize (k_mem s (k_nalloc s) []) zs 0 = Some (Inr (), zs')" "array_ok zs'" "guys zs' = []"
    using array_setsize_0 [OF zs(2)] by blast
  then show ?thesis
    using zs assms(2) d g by (auto simp: exorcise_def kmalloc_ask_def)
qed

text \<open>
  Going to sleep appends the current thread to the sleepers; within the capacity of the table this
  works whatever the allocator answers.
\<close>

lemma array_add_cases:
  assumes "array_ok a" "length (guys a) < 2 ^ 28"
  shows "(\<exists>a'. array_add mem a x = Some (Inr (), a') \<and> array_ok a' \<and> guys a' = guys a @ [x] \<and> a_max a \<le> a_max a') \<or>
    (mem = None \<and> a_max a = int (length (guys a)) \<and> array_add mem a x = Some (Inl ENOMEM, a))"
proof (cases "a_num a < a_max a")
  case True
  then show ?thesis using array_add_room [OF assms(1), of mem x] by auto
next
  case False
  then have full: "a_num a = a_max a" "a_num a + 1 < 2 ^ 29" "a_max a = int (length (guys a))"
    using assms length_guys [OF assms(1)] by (auto simp: array_ok_def)
  show ?thesis
  proof (cases mem)
    case None
    then show ?thesis using array_add_full [OF assms(1) full(1,2), of mem x] full(3) by auto
  next
    case (Some g)
    then obtain a' where a': "array_add mem a x = Some (Inr (), a')" "array_ok a'" "guys a' = guys a @ [x]"
      "a_num a' = a_num a + 1" using array_add_full [OF assms(1) full(1,2), of mem x] by auto
    then have "a_max a \<le> a_max a'" using full(1) by (simp add: array_ok_def)
    then show ?thesis using a' by auto
  qed
qed

lemma mi_switch_sleep_cases:
  assumes "tables_ok s" "0 < curspl s" "curthread s = Some t" "threads s t = Some x" "stack_intact x"
    "length (asleep s) < 2 ^ 28"
  shows "(\<exists>sl. array_ok sl \<and> guys sl = asleep s @ [t] \<and> sl_cap s \<le> a_max sl \<and>
      mi_switch_out S_SLEEP s = Some ((md_switch_save t x s)\<lparr>sleepers := Some sl, k_nalloc := Suc (k_nalloc s)\<rparr>)) \<or>
    (mem_fails s \<and> sl_cap s = int (length (asleep s)) \<and> mi_switch_out S_SLEEP s = None)"
proof -
  obtain sl where sl: "sleepers s = Some sl" "array_ok sl" "asleep s = guys sl"
    using assms(1) by (auto simp: table_defs split: option.splits)
  let ?a = "k_mem s (k_nalloc s) []"
  have "length (guys sl) < 2 ^ 28" using assms(6) sl(3) by simp
  from array_add_cases [OF sl(2) this, of ?a t] show ?thesis
  proof (elim disjE exE conjE)
    fix sl' assume "array_add ?a sl t = Some (Inr (), sl')" "array_ok sl'" "guys sl' = guys sl @ [t]"
      "a_max sl \<le> a_max sl'"
    then have "array_ok sl' \<and> guys sl' = asleep s @ [t] \<and> sl_cap s \<le> a_max sl' \<and> mi_switch_out S_SLEEP s =
        Some ((md_switch_save t x s)\<lparr>sleepers := Some sl', k_nalloc := Suc (k_nalloc s)\<rparr>)"
      using assms sl by (simp add: mi_switch_out_def sleepers_add_def kmalloc_ask_def md_switch_save_def sl_cap_def)
    then show ?thesis by blast
  next
    assume "?a = None" "array_add ?a sl t = Some (Inl ENOMEM, sl)" "a_max sl = int (length (guys sl))"
    then show ?thesis
      using assms sl unfolding mem_fails_def
      by (auto simp: mi_switch_out_def sleepers_add_def kmalloc_ask_def md_switch_save_def sl_cap_def)
  qed
qed

lemma mi_switch_ready_cases:
  assumes "tables_ok s" "0 < curspl s" "curthread s = Some t" "threads s t = Some x" "stack_intact x"
    "length (ready s) < 2 ^ 28"
  shows "(\<exists>s'. mi_switch_out S_READY s = Some s' \<and> tables_ok s' \<and> moved (md_switch_save t x s) s' \<and>
      asleep s' = asleep s \<and> ready s' = ready s @ [t] \<and> sl_cap s' = sl_cap s \<and> rq_cap s \<le> rq_cap s') \<or>
    (int (length (ready s)) = rq_cap s \<and> mem_fails s \<and> mi_switch_out S_READY s = None)"
proof -
  let ?s = "md_switch_save t x s"
  have e: "tables_ok ?s = tables_ok s" "curspl ?s = curspl s" "ready ?s = ready s" "asleep ?s = asleep s"
    "sl_cap ?s = sl_cap s" "rq_cap ?s = rq_cap s" "k_mem ?s = k_mem s"
    by (simp_all add: table_defs md_switch_save_def)
  have "tables_ok ?s" "0 < curspl ?s" "length (ready ?s) < 2 ^ 28"
    using assms(1,2,6) e by simp_all
  from make_runnable_cases [OF this, of t] show ?thesis
    using assms(2-5) e unfolding mem_fails_def by (auto simp: mi_switch_out_def)
qed

lemma mi_switch_zomb_cases:
  assumes "tables_ok s" "0 < curspl s" "curthread s = Some t" "threads s t = Some x" "stack_intact x"
    "length (dead s) < 2 ^ 28"
  shows "(\<exists>zs. array_ok zs \<and> guys zs = dead s @ [t] \<and>
      mi_switch_out S_ZOMB s = Some ((md_switch_save t x s)\<lparr>zombies := Some zs, k_nalloc := Suc (k_nalloc s)\<rparr>)) \<or>
    (mem_fails s \<and> mi_switch_out S_ZOMB s = None)"
proof -
  obtain zs where zs: "zombies s = Some zs" "array_ok zs" "dead s = guys zs"
    using assms(1) by (auto simp: table_defs split: option.splits)
  let ?a = "k_mem s (k_nalloc s) []"
  have "length (guys zs) < 2 ^ 28" using assms(6) zs(3) by simp
  from array_add_cases [OF zs(2) this, of ?a t] show ?thesis
  proof (elim disjE exE conjE)
    fix zs' assume "array_add ?a zs t = Some (Inr (), zs')" "array_ok zs'" "guys zs' = guys zs @ [t]"
    then have "array_ok zs' \<and> guys zs' = dead s @ [t] \<and> mi_switch_out S_ZOMB s =
        Some ((md_switch_save t x s)\<lparr>zombies := Some zs', k_nalloc := Suc (k_nalloc s)\<rparr>)"
      using assms zs by (simp add: mi_switch_out_def zombies_add_def kmalloc_ask_def md_switch_save_def)
    then show ?thesis by blast
  next
    assume "?a = None" "array_add ?a zs t = Some (Inl ENOMEM, zs)"
    then show ?thesis
      using assms zs unfolding mem_fails_def
      by (auto simp: mi_switch_out_def zombies_add_def kmalloc_ask_def md_switch_save_def)
  qed
qed

text \<open>The dispatcher takes the thread that has been ready the longest.\<close>

lemma mi_dispatch_cases:
  assumes "tables_ok s" "0 < curspl s" "\<forall>t \<in> set (ready s). threads s t \<noteq> None"
  shows "case ready s of
      [] \<Rightarrow> mi_dispatch s = Some s
    | t # ts \<Rightarrow> \<exists>q y. q_ok q \<and> q_items q = ts \<and> q_size q - 1 = rq_cap s \<and> threads s t = Some y \<and>
        mi_dispatch s = Some (s\<lparr>runqueue := Some q, curthread := Some t, in_interrupt := pcb_ininterrupt y\<rparr>)"
proof -
  obtain q where q: "runqueue s = Some q" "q_ok q"
    using assms(1) by (auto simp: tables_ok_def split: option.splits)
  show ?thesis
  proof (cases "ready s")
    case Nil
    then show ?thesis
      using q assms(2) kq.empty [OF q(2)] by (simp add: mi_dispatch_def scheduler_def ready_def)
  next
    case (Cons t ts)
    then obtain q' where "q_remhead q = Some (t, q')" "q_ok q'" "q_items q' = ts" "q_size q' - 1 = q_size q - 1"
      using kq.remhead [OF q(2), of t ts] q(1) by (auto simp: ready_def)
    moreover obtain y where "threads s t = Some y" using assms(3) Cons by auto
    ultimately show ?thesis
      using Cons q assms(2) kq.empty [OF q(2)]
      by (auto simp: mi_dispatch_def scheduler_def ready_def rq_cap_def)
  qed
qed

end
