(* ===== verification/Kern_Synch.thy ===== *)
theory Kern_Synch
  imports Kern_Sched
begin

text \<open>
  Semaphores, locks and condition variables (\<^verbatim>\<open>kern/thread/synch.c\<close>) and the clock
  (\<^verbatim>\<open>kern/thread/hardclock.c\<close>). An operation that blocks ends in \<open>thread_sleep\<close>, with the
  point where it resumes in the thread's saved context; \<open>resume\<close> continues a thread that has been
  dispatched. A pointer that does not point to a live structure, the null pointer included, has
  no entry in the corresponding map.
\<close>

section \<open>Semaphores\<close>

definition sem_create :: "int \<Rightarrow> kern \<Rightarrow> (nat option \<times> kern) option" where
  "sem_create initial_count s = do {
     kassert (0 \<le> initial_count);
     let (p, s) = kmalloc_struct s;
     (case p of
        None \<Rightarrow> Some (None, s)
      | Some sem \<Rightarrow> do {
          let (b, s) = kmalloc_ask s;
          if b [] = None then Some (None, s)
          else Some (Some sem, s\<lparr>sems := (sems s)(sem \<mapsto> initial_count)\<rparr>) }) }"

definition sem_destroy :: "nat \<Rightarrow> kern \<Rightarrow> kern option" where
  "sem_destroy sem s = do {
     c \<leftarrow> sems s sem;
     let (spl, s) = splhigh s;
     (r, s) \<leftarrow> thread_hassleepers (SemA sem) s;
     kassert (r = 0);
     let s = snd (splx spl s);
     Some (s\<lparr>sems := (sems s)(sem := None)\<rparr>) }"

text \<open>The loop of \<open>P\<close> and what follows it, entered with interrupts off.\<close>

definition P_loop :: "nat \<Rightarrow> int \<Rightarrow> kern \<Rightarrow> kern option" where
  "P_loop sem spl s = do {
     c \<leftarrow> sems s sem;
     if c = 0 then thread_sleep (SemA sem) (K_P sem spl) s
     else do {
       kassert (0 < c);
       Some (snd (splx spl (s\<lparr>sems := (sems s)(sem \<mapsto> c - 1)\<rparr>))) } }"

definition sem_P :: "nat \<Rightarrow> kern \<Rightarrow> kern option" where
  "sem_P sem s = do {
     c \<leftarrow> sems s sem;
     kassert (in_interrupt s = 0);
     let (spl, s) = splhigh s;
     P_loop sem spl s }"

definition sem_V :: "nat \<Rightarrow> kern \<Rightarrow> kern option" where
  "sem_V sem s = do {
     c \<leftarrow> sems s sem;
     let (spl, s) = splhigh s;
     n \<leftarrow> cint (c + 1);
     kassert (0 < n);
     s \<leftarrow> thread_wakeup (SemA sem) (s\<lparr>sems := (sems s)(sem \<mapsto> n)\<rparr>);
     Some (snd (splx spl s)) }"

section \<open>Locks\<close>

definition lock_create :: "kern \<Rightarrow> (nat option \<times> kern) option" where
  "lock_create s = do {
     let (p, s) = kmalloc_struct s;
     (case p of
        None \<Rightarrow> Some (None, s)
      | Some l \<Rightarrow> do {
          let (b, s) = kmalloc_ask s;
          if b [] = None then Some (None, s)
          else Some (Some l, s\<lparr>locks := (locks s)(l \<mapsto> None)\<rparr>) }) }"

definition lock_destroy :: "nat \<Rightarrow> kern \<Rightarrow> kern option" where
  "lock_destroy l s = do {
     holder \<leftarrow> locks s l;
     let (spl, s) = splhigh s;
     kassert (holder = None);
     let s = snd (splx spl s);
     Some (s\<lparr>locks := (locks s)(l := None)\<rparr>) }"

text \<open>The loop of \<open>lock_acquire\<close>; \<open>spls\<close> are the levels that are restored one after the other.\<close>

definition acquire_loop :: "nat \<Rightarrow> int list \<Rightarrow> kern \<Rightarrow> kern option" where
  "acquire_loop l spls s = do {
     holder \<leftarrow> locks s l;
     if holder \<noteq> None then thread_sleep (LockA l) (K_Acquire l spls) s
     else Some (fold (\<lambda>spl s. snd (splx spl s)) spls (s\<lparr>locks := (locks s)(l \<mapsto> curthread s)\<rparr>)) }"

definition lock_acquire :: "int list \<Rightarrow> nat \<Rightarrow> kern \<Rightarrow> kern option" where
  "lock_acquire outer l s = do {
     holder \<leftarrow> locks s l;
     kassert (in_interrupt s = 0);
     let (spl, s) = splhigh s;
     acquire_loop l (spl # outer) s }"

definition lock_do_i_hold :: "nat \<Rightarrow> kern \<Rightarrow> (int \<times> kern) option" where
  "lock_do_i_hold l s = do {
     holder \<leftarrow> locks s l;
     let (spl, s) = splhigh s;
     if holder = curthread s then Some (1, snd (splx spl s)) else Some (0, snd (splx spl s)) }"

definition lock_release :: "nat \<Rightarrow> kern \<Rightarrow> kern option" where
  "lock_release l s = do {
     let (spl, s) = splhigh s;
     (r, s) \<leftarrow> lock_do_i_hold l s;
     s \<leftarrow> (if r \<noteq> 0 then thread_wakeup_one (LockA l) (s\<lparr>locks := (locks s)(l \<mapsto> None)\<rparr>) else Some s);
     Some (snd (splx spl s)) }"

section \<open>Condition variables\<close>

definition cv_create :: "kern \<Rightarrow> (nat option \<times> kern) option" where
  "cv_create s = do {
     let (p, s) = kmalloc_struct s;
     (case p of
        None \<Rightarrow> Some (None, s)
      | Some cv \<Rightarrow> do {
          let (b, s) = kmalloc_ask s;
          if b [] = None then Some (None, s)
          else Some (Some cv, s\<lparr>cvs := insert cv (cvs s)\<rparr>) }) }"

definition cv_destroy :: "nat \<Rightarrow> kern \<Rightarrow> kern option" where
  "cv_destroy cv s = do {
     kassert (cv \<in> cvs s);
     let (spl, s) = splhigh s;
     (r, s) \<leftarrow> thread_hassleepers (CvA cv) s;
     kassert (r = 0);
     let s = snd (splx spl s);
     Some (s\<lparr>cvs := cvs s - {cv}\<rparr>) }"

definition cv_wait :: "nat \<Rightarrow> nat \<Rightarrow> kern \<Rightarrow> kern option" where
  "cv_wait cv l s = do {
     let (spl, s) = splhigh s;
     kassert (cv \<in> cvs s);
     s \<leftarrow> lock_release l s;
     thread_sleep (CvA cv) (K_CvWait cv l spl) s }"

definition cv_signal :: "nat \<Rightarrow> nat \<Rightarrow> kern \<Rightarrow> kern option" where
  "cv_signal cv l s = do {
     let (spl, s) = splhigh s;
     kassert (cv \<in> cvs s);
     s \<leftarrow> thread_wakeup_one (CvA cv) s;
     s \<leftarrow> lock_release l s;
     Some (snd (splx spl s)) }"

definition cv_broadcast :: "nat \<Rightarrow> nat \<Rightarrow> kern \<Rightarrow> kern option" where
  "cv_broadcast cv l s = do {
     let (spl, s) = splhigh s;
     kassert (cv \<in> cvs s);
     s \<leftarrow> thread_wakeup (CvA cv) s;
     s \<leftarrow> lock_release l s;
     Some (snd (splx spl s)) }"

section \<open>The clock\<close>

abbreviation HZ :: int where "HZ \<equiv> 100"

text \<open>The loop of \<open>clocksleep\<close> with \<open>num_secs\<close> seconds to go.\<close>

definition clock_loop :: "int \<Rightarrow> int \<Rightarrow> kern \<Rightarrow> kern option" where
  "clock_loop num_secs spl s =
     (if 0 < num_secs then thread_sleep LboltA (K_Clock num_secs spl) s
      else Some (snd (splx spl s)))"

definition clocksleep :: "int \<Rightarrow> kern \<Rightarrow> kern option" where
  "clocksleep num_secs s = (let (spl, s) = splhigh s in clock_loop num_secs spl s)"

text \<open>\<open>hardclock\<close> before its call of \<open>thread_yield\<close>.\<close>

definition hardclock_tick :: "kern \<Rightarrow> kern option" where
  "hardclock_tick s = do {
     n \<leftarrow> cint (lbolt_counter s + 1);
     if HZ \<le> n then thread_wakeup LboltA (s\<lparr>lbolt_counter := 0\<rparr>)
     else Some (s\<lparr>lbolt_counter := n\<rparr>) }"

text \<open>
  A timer interrupt: the entry of \<open>mips_trap\<close> and \<open>mips_interrupt\<close>, \<open>hardclock\<close> with the switch of
  its \<open>thread_yield\<close>, and, when the processor was idle, the exit path.
\<close>

definition irq_exit :: "int \<Rightarrow> int \<Rightarrow> kern \<Rightarrow> kern" where
  "irq_exit old_in savespl s = s\<lparr>in_interrupt := old_in, curspl := savespl\<rparr>"

definition timer_irq :: "kern \<Rightarrow> kern option" where
  "timer_irq s = do {
     let savespl = curspl s;
     let old_in = in_interrupt s;
     s \<leftarrow> hardclock_tick (s\<lparr>curspl := SPL_HIGH, in_interrupt := 1\<rparr>);
     let (spl, s) = splhigh s;
     kassert (sleepers s \<noteq> None);
     (case curthread s of
        None \<Rightarrow> do { s \<leftarrow> mi_switch_out S_READY s; Some (irq_exit old_in savespl (snd (splx spl s))) }
      | Some t \<Rightarrow> do {
          s \<leftarrow> upd_thread t (\<lambda>x. x\<lparr>t_kont := Some (K_Preempt spl old_in savespl)\<rparr>) s;
          mi_switch_out S_READY s }) }"

text \<open>A device interrupt whose handler signals a semaphore, as those of the disk and the console do.\<close>

definition device_irq :: "nat \<Rightarrow> kern \<Rightarrow> kern option" where
  "device_irq sem s = do {
     let savespl = curspl s;
     let old_in = in_interrupt s;
     s \<leftarrow> sem_V sem (s\<lparr>curspl := SPL_HIGH, in_interrupt := 1\<rparr>);
     Some (irq_exit old_in savespl s) }"

section \<open>Resuming\<close>

text \<open>The start of \<open>mi_threadstart\<close>: the address space, then interrupts on.\<close>

definition mi_threadstart :: "kern \<Rightarrow> kern option" where
  "mi_threadstart s = do {
     t \<leftarrow> curthread s;
     x \<leftarrow> threads s t;
     Some (snd (spl0 (if t_vmspace x \<noteq> None then as_activate s else s))) }"

text \<open>What a dispatched thread does up to its return to the caller of the blocking function.\<close>

definition resume :: "kern \<Rightarrow> kern option" where
  "resume s = do {
     t \<leftarrow> curthread s;
     x \<leftarrow> threads s t;
     k \<leftarrow> t_kont x;
     s \<leftarrow> upd_thread t (\<lambda>x. x\<lparr>t_kont := None\<rparr>) s;
     (case k of
        K_Start \<Rightarrow> mi_threadstart s
      | K_Yield spl \<Rightarrow> do { s \<leftarrow> mi_switch_in s; Some (snd (splx spl s)) }
      | K_Preempt spl old_in savespl \<Rightarrow> do {
          s \<leftarrow> mi_switch_in s;
          Some (irq_exit old_in savespl (snd (splx spl s))) }
      | K_P sem spl \<Rightarrow> do { s \<leftarrow> mi_switch_in s; s \<leftarrow> thread_sleep_end s; P_loop sem spl s }
      | K_Acquire l spls \<Rightarrow> do { s \<leftarrow> mi_switch_in s; s \<leftarrow> thread_sleep_end s; acquire_loop l spls s }
      | K_CvWait cv l spl \<Rightarrow> do { s \<leftarrow> mi_switch_in s; s \<leftarrow> thread_sleep_end s; lock_acquire [spl] l s }
      | K_Clock n spl \<Rightarrow> do { s \<leftarrow> mi_switch_in s; s \<leftarrow> thread_sleep_end s; clock_loop (n - 1) spl s }) }"

end
