(* ===== verification/Kern_Inv.thy ===== *)
theory Kern_Inv
  imports Kern_Synch
begin

text \<open>
  The invariant of the thread system and that the operations of \<^verbatim>\<open>synch.c\<close>, the dispatcher and
  the interrupts keep it. It says that every thread is in exactly one place, that the counts and
  the preallocated tables agree, that a switched-out thread resumes in a place that fits, and that
  no wake-up is lost: nobody sleeps on a semaphore with a positive count, and when somebody sleeps
  on a free lock another thread is on its way to take it.
\<close>

section \<open>The invariant\<close>

text \<open>The sleep address a thread that resumes at \<open>k\<close> has slept on.\<close>

fun kont_chan :: "kont \<Rightarrow> chan option" where
  "kont_chan (K_P sem spl) = Some (SemA sem)"
| "kont_chan (K_Acquire l spls) = Some (LockA l)"
| "kont_chan (K_CvWait cv l spl) = Some (CvA cv)"
| "kont_chan (K_Clock n spl) = Some LboltA"
| "kont_chan _ = None"

text \<open>
  Only the timer interrupt switches inside an interrupt handler; the handler interrupted no other
  one. The structures a thread will look at when it resumes exist.
\<close>

fun kont_ok :: "kern \<Rightarrow> int \<Rightarrow> kont option \<Rightarrow> bool" where
  "kont_ok s flag None \<longleftrightarrow> True"
| "kont_ok s flag (Some (K_Preempt spl old_in savespl)) \<longleftrightarrow> old_in = 0"
| "kont_ok s flag (Some (K_P sem spl)) \<longleftrightarrow> flag = 0 \<and> sems s sem \<noteq> None"
| "kont_ok s flag (Some (K_Acquire l spls)) \<longleftrightarrow> flag = 0 \<and> locks s l \<noteq> None"
| "kont_ok s flag (Some (K_CvWait cv l spl)) \<longleftrightarrow> flag = 0 \<and> locks s l \<noteq> None"
| "kont_ok s flag (Some k) \<longleftrightarrow> flag = 0"

definition thr_ok :: "kern \<Rightarrow> (thread \<Rightarrow> bool) \<Rightarrow> tid \<Rightarrow> bool" where
  "thr_ok s Q t \<longleftrightarrow> (case threads s t of None \<Rightarrow> False | Some x \<Rightarrow> stack_intact x \<and> Q x)"

definition running_ok :: "kern \<Rightarrow> thread \<Rightarrow> bool" where
  "running_ok s x \<longleftrightarrow> kont_ok s (in_interrupt s) (t_kont x)"

definition ready_ok :: "kern \<Rightarrow> thread \<Rightarrow> bool" where
  "ready_ok s x \<longleftrightarrow> t_kont x \<noteq> None \<and> kont_ok s (pcb_ininterrupt x) (t_kont x)"

definition asleep_ok :: "kern \<Rightarrow> thread \<Rightarrow> bool" where
  "asleep_ok s x \<longleftrightarrow>
     (case t_kont x of None \<Rightarrow> False | Some k \<Rightarrow> kont_chan k \<noteq> None \<and> t_sleepaddr x = kont_chan k) \<and>
     kont_ok s (pcb_ininterrupt x) (t_kont x)"

definition dead_ok :: "thread \<Rightarrow> bool" where
  "dead_ok x \<longleftrightarrow> t_vmspace x = None \<and> t_cwd x = None"

definition threads_ok :: "kern \<Rightarrow> bool" where
  "threads_ok s \<longleftrightarrow>
     list_all (thr_ok s (running_ok s)) (running s) \<and>
     list_all (thr_ok s (ready_ok s)) (ready s) \<and>
     list_all (thr_ok s (asleep_ok s)) (asleep s) \<and>
     list_all (thr_ok s dead_ok) (dead s)"

definition counts_ok :: "kern \<Rightarrow> bool" where
  "counts_ok s \<longleftrightarrow>
     distinct (running s @ ready s @ asleep s @ dead s) \<and>
     numthreads s = int (length (running s) + length (ready s) + length (asleep s)) \<and>
     (numthreads s \<le> 1 \<or> numthreads s \<le> sl_cap s) \<and> numthreads s \<le> rq_cap s + 1 \<and>
     numthreads s + int (length (dead s)) < 2 ^ 27"

text \<open>Interrupts are off while the scheduler runs and until a dispatched thread has resumed.\<close>

definition switching :: "kern \<Rightarrow> bool" where
  "switching s \<longleftrightarrow>
     (case curthread s of
        None \<Rightarrow> True
      | Some t \<Rightarrow> (case threads s t of None \<Rightarrow> False | Some x \<Rightarrow> t_kont x \<noteq> None))"

definition kinv0 :: "kern \<Rightarrow> bool" where
  "kinv0 s \<longleftrightarrow> tables_ok s \<and> threads_ok s \<and> counts_ok s \<and> (switching s \<longrightarrow> 0 < curspl s)"

definition sem_ok :: "kern \<Rightarrow> nat \<Rightarrow> bool" where
  "sem_ok s m \<longleftrightarrow>
     (case sems s m of
        None \<Rightarrow> True
      | Some c \<Rightarrow> 0 \<le> c \<and> (0 < c \<longrightarrow> list_all (\<lambda>t. \<not> waits_on s (SemA m) t) (asleep s)))"

text \<open>A thread that will look at the lock again as soon as it runs.\<close>

definition acquiring :: "kern \<Rightarrow> nat \<Rightarrow> tid \<Rightarrow> bool" where
  "acquiring s l t \<longleftrightarrow>
     (case threads s t of
        None \<Rightarrow> False
      | Some x \<Rightarrow> (case t_kont x of Some (K_Acquire l' spls) \<Rightarrow> l' = l | _ \<Rightarrow> False))"

definition lock_ok :: "kern \<Rightarrow> nat \<Rightarrow> bool" where
  "lock_ok s l \<longleftrightarrow>
     (locks s l = Some None \<longrightarrow> list_ex (waits_on s (LockA l)) (asleep s) \<longrightarrow>
      list_ex (acquiring s l) (running s @ ready s))"

text \<open>The invariant with the condition on the locks in \<open>L\<close> left open.\<close>

definition kinv_but :: "nat set \<Rightarrow> kern \<Rightarrow> bool" where
  "kinv_but L s \<longleftrightarrow> kinv0 s \<and> (\<forall>m. sem_ok s m) \<and> (\<forall>l. l \<notin> L \<longrightarrow> lock_ok s l)"

text \<open>A thread that runs is not inside an interrupt handler.\<close>

definition flag_ok :: "kern \<Rightarrow> bool" where
  "flag_ok s \<longleftrightarrow> (\<not> switching s \<longrightarrow> in_interrupt s = 0)"

definition kinv :: "kern \<Rightarrow> bool" where
  "kinv s \<longleftrightarrow> kinv_but {} s \<and> flag_ok s"

section \<open>General lemmas\<close>

lemma thr_okD: "thr_ok s Q t \<Longrightarrow> \<exists>x. threads s t = Some x \<and> stack_intact x \<and> Q x"
  by (auto simp: thr_ok_def split: option.splits)

lemma kinv0_asleep_exist: "kinv0 s \<Longrightarrow> \<forall>t \<in> set (asleep s). threads s t \<noteq> None"
  by (auto simp: kinv0_def threads_ok_def list_all_iff thr_ok_def split: option.splits)

lemma kinv0_ready_exist: "kinv0 s \<Longrightarrow> \<forall>t \<in> set (ready s). threads s t \<noteq> None"
  by (auto simp: kinv0_def threads_ok_def list_all_iff thr_ok_def split: option.splits)

lemma kinv0_lengths:
  assumes "kinv0 s"
  shows "length (ready s) + length (asleep s) < 2 ^ 28" "length (ready s) < 2 ^ 28"
    "length (dead s) < 2 ^ 28"
  using assms by (auto simp: kinv0_def counts_ok_def)

text \<open>With a thread running, the run queue has room for all the others.\<close>

lemma kinv0_room:
  assumes "kinv0 s" "curthread s = Some t"
  shows "int (length (ready s) + length (asleep s)) \<le> rq_cap s"
  using assms by (auto simp: kinv0_def counts_ok_def running_def)

lemma filter_length_le: "length (filter P xs) \<le> length xs" by simp

lemma kinv0_running:
  assumes "kinv0 s" "curthread s = Some t"
  shows "\<exists>x. threads s t = Some x \<and> stack_intact x \<and> running_ok s x"
  using assms by (auto simp: kinv0_def threads_ok_def running_def intro: thr_okD)

text \<open>Fields that the invariant does not mention.\<close>

lemma waits_on_cong: "threads s' = threads s \<Longrightarrow> waits_on s' = waits_on s"
  by (simp add: waits_on_def fun_eq_iff)

lemma acquiring_cong: "threads s' = threads s \<Longrightarrow> acquiring s' = acquiring s"
  by (simp add: acquiring_def fun_eq_iff)

lemma kont_ok_cong:
  assumes "\<And>m. sems s m \<noteq> None \<Longrightarrow> sems s' m \<noteq> None" "\<And>l. locks s l \<noteq> None \<Longrightarrow> locks s' l \<noteq> None"
    "kont_ok s f k"
  shows "kont_ok s' f k"
  using assms by (cases "(s, f, k)" rule: kont_ok.cases) auto

lemma switching_cong:
  "threads s' = threads s \<Longrightarrow> curthread s' = curthread s \<Longrightarrow> switching s' = switching s"
  by (auto simp: switching_def split: option.splits)

text \<open>Structures are created, not removed.\<close>

definition keeps :: "kern \<Rightarrow> kern \<Rightarrow> bool" where
  "keeps s s' \<longleftrightarrow> (\<forall>m. sems s m \<noteq> None \<longrightarrow> sems s' m \<noteq> None) \<and> (\<forall>l. locks s l \<noteq> None \<longrightarrow> locks s' l \<noteq> None)"

lemma keepsI: "dom (sems s) \<subseteq> dom (sems s') \<Longrightarrow> dom (locks s) \<subseteq> dom (locks s') \<Longrightarrow> keeps s s'"
  by (auto simp: keeps_def)

lemma keeps_kont_ok: "keeps s s' \<Longrightarrow> kont_ok s f k \<Longrightarrow> kont_ok s' f k"
  using kont_ok_cong by (auto simp: keeps_def)

lemma keeps_ok:
  assumes "keeps s s'"
  shows "in_interrupt s' = in_interrupt s \<Longrightarrow> running_ok s x \<Longrightarrow> running_ok s' x"
    "ready_ok s x \<Longrightarrow> ready_ok s' x" "asleep_ok s x \<Longrightarrow> asleep_ok s' x"
  using keeps_kont_ok [OF assms] by (auto simp: running_ok_def ready_ok_def asleep_ok_def)

lemma thr_ok_mono:
  "thr_ok s Q t \<Longrightarrow> threads s' t = threads s t \<Longrightarrow> (\<And>x. Q x \<Longrightarrow> Q' x) \<Longrightarrow> thr_ok s' Q' t"
  by (auto simp: thr_ok_def split: option.splits)

lemma list_thr_ok_mono:
  "list_all (thr_ok s Q) ts \<Longrightarrow> (\<And>t. t \<in> set ts \<Longrightarrow> threads s' t = threads s t) \<Longrightarrow>
    (\<And>x. Q x \<Longrightarrow> Q' x) \<Longrightarrow> list_all (thr_ok s' Q') ts"
  by (auto simp: list_all_iff intro: thr_ok_mono)

lemma keep_running:
  assumes "keeps s s'" "in_interrupt s' = in_interrupt s" "\<And>t. t \<in> set ts \<Longrightarrow> threads s' t = threads s t"
  shows "list_all (thr_ok s (running_ok s)) ts \<Longrightarrow> list_all (thr_ok s' (running_ok s')) ts"
  by (erule list_thr_ok_mono) (simp_all add: assms(3) keeps_ok(1) [OF assms(1,2)])

lemma keep_ready:
  assumes "keeps s s'" "\<And>t. t \<in> set ts \<Longrightarrow> threads s' t = threads s t"
  shows "list_all (thr_ok s (ready_ok s)) ts \<Longrightarrow> list_all (thr_ok s' (ready_ok s')) ts"
  by (erule list_thr_ok_mono) (simp_all add: assms(2) keeps_ok(2) [OF assms(1)])

lemma keep_asleep:
  assumes "keeps s s'" "\<And>t. t \<in> set ts \<Longrightarrow> threads s' t = threads s t"
  shows "list_all (thr_ok s (asleep_ok s)) ts \<Longrightarrow> list_all (thr_ok s' (asleep_ok s')) ts"
  by (erule list_thr_ok_mono) (simp_all add: assms(2) keeps_ok(3) [OF assms(1)])

lemma keep_dead:
  assumes "\<And>t. t \<in> set ts \<Longrightarrow> threads s' t = threads s t"
  shows "list_all (thr_ok s dead_ok) ts \<Longrightarrow> list_all (thr_ok s' dead_ok) ts"
  by (erule list_thr_ok_mono) (simp_all add: assms)

text \<open>
  Steps that change only semaphore counts, lock holders, the interrupt level and fields outside
  the invariant.
\<close>

definition same_places :: "kern \<Rightarrow> kern \<Rightarrow> bool" where
  "same_places s s' \<longleftrightarrow> sleepers s' = sleepers s \<and> zombies s' = zombies s \<and> runqueue s' = runqueue s \<and>
     curthread s' = curthread s \<and> numthreads s' = numthreads s"

lemma same_places_simps:
  assumes "same_places s s'"
  shows "running s' = running s" "ready s' = ready s" "asleep s' = asleep s" "dead s' = dead s"
    "tables_ok s' = tables_ok s" "sl_cap s' = sl_cap s" "rq_cap s' = rq_cap s" "curthread s' = curthread s"
    "counts_ok s' = counts_ok s"
  using assms by (simp_all add: same_places_def table_defs counts_ok_def)

lemma kinv0_same_places:
  assumes "kinv0 s" "same_places s s'" "threads s' = threads s" "in_interrupt s' = in_interrupt s"
    "switching s \<Longrightarrow> 0 < curspl s'" "keeps s s'"
  shows "kinv0 s'"
proof -
  note sp = same_places_simps [OF assms(2)]
  have "threads_ok s"
    using assms(1) by (simp add: kinv0_def)
  then have "threads_ok s'"
    unfolding threads_ok_def sp
    using keep_running [OF assms(6,4)] keep_ready [OF assms(6)] keep_asleep [OF assms(6)] keep_dead
    by (simp add: assms(3))
  moreover have "switching s' = switching s" by (rule switching_cong) (simp_all add: assms(3) sp)
  ultimately show ?thesis using assms(1,5) by (simp add: kinv0_def sp)
qed

text \<open>Waking threads.\<close>

lemma kinv0_wake:
  assumes inv: "kinv0 s" and mv: "moved s s'" "tables_ok s'"
    and lists: "asleep s' = filter (\<lambda>t. \<not> Q t) (asleep s)" "ready s' = ready s @ filter Q (asleep s)"
    and caps: "sl_cap s' = sl_cap s" "rq_cap s \<le> rq_cap s'"
  shows "kinv0 s'"
proof -
  note ms = moved_simps [OF mv(1)]
  have k: "keeps s s'" "in_interrupt s' = in_interrupt s" by (simp_all add: keeps_def ms)
  have all: "list_all (thr_ok s (running_ok s)) (running s)" "list_all (thr_ok s (ready_ok s)) (ready s)"
    "list_all (thr_ok s (asleep_ok s)) (asleep s)" "list_all (thr_ok s dead_ok) (dead s)"
    using inv by (auto simp: kinv0_def threads_ok_def)
  have "asleep_ok s x \<Longrightarrow> ready_ok s x" for x
    by (auto simp: asleep_ok_def ready_ok_def split: option.splits)
  then have "list_all (thr_ok s (ready_ok s)) (asleep s)"
    using list_thr_ok_mono [OF all(3)] by blast
  then have woken: "list_all (thr_ok s (ready_ok s)) (ready s @ filter Q (asleep s))"
    using all(2) by (auto simp: list_all_iff)
  have rest: "list_all (thr_ok s (asleep_ok s)) (filter (\<lambda>t. \<not> Q t) (asleep s))"
    using all(3) by (auto simp: list_all_iff)
  have "threads_ok s'"
    unfolding threads_ok_def lists ms
    using keep_running [OF k, of "running s"] keep_ready [OF k(1), of "ready s @ filter Q (asleep s)"]
      keep_asleep [OF k(1), of "filter (\<lambda>t. \<not> Q t) (asleep s)"] keep_dead [of "dead s" s' s] all woken rest
    by (simp only: ms simp_thms)
  moreover have "counts_ok s'"
  proof -
    have len: "length (filter Q (asleep s)) + length (filter (\<lambda>t. \<not> Q t) (asleep s)) = length (asleep s)"
      by (rule sum_length_filter_compl)
    have "distinct (running s @ ready s @ asleep s @ dead s)" using inv by (simp add: kinv0_def counts_ok_def)
    then have "distinct (running s' @ ready s' @ asleep s' @ dead s')"
      by (auto simp: lists ms)
    then show ?thesis using inv caps len by (auto simp: kinv0_def counts_ok_def lists ms)
  qed
  moreover have "switching s' = switching s" by (rule switching_cong) (simp_all add: ms)
  ultimately show ?thesis using inv mv(2) by (simp add: kinv0_def ms)
qed

text \<open>Putting the running thread to sleep.\<close>

definition set_asleep :: "tid \<Rightarrow> thread \<Rightarrow> chan \<Rightarrow> kont \<Rightarrow> kern \<Rightarrow> kern \<Rightarrow> bool" where
  "set_asleep t x addr k s s' \<longleftrightarrow>
     (\<exists>sl n. s' = s\<lparr>curthread := None, sleepers := Some sl, k_nalloc := n,
                    threads := (threads s)(t \<mapsto> x\<lparr>t_sleepaddr := Some addr, t_kont := Some k,
                                                  pcb_ininterrupt := in_interrupt s\<rparr>)\<rparr> \<and>
             array_ok sl \<and> guys sl = asleep s @ [t] \<and> sl_cap s \<le> a_max sl)"

text \<open>
  The table of the sleepers has room for every thread once it has been preallocated, which the first
  fork does. Before that the only thread may find no memory to go to sleep.
\<close>

definition sleep_fails :: "kern \<Rightarrow> bool" where
  "sleep_fails s \<longleftrightarrow> mem_fails s \<and> sl_cap s < numthreads s"

lemma thread_sleep_eq:
  assumes inv: "kinv0 s" and cur: "curthread s = Some t" "threads s t = Some x" and "0 < curspl s" "in_interrupt s = 0"
  shows "(\<exists>s'. thread_sleep addr k s = Some s' \<and> set_asleep t x addr k s s') \<or>
    (thread_sleep addr k s = None \<and> sleep_fails s)"
proof -
  let ?x = "x\<lparr>t_sleepaddr := Some addr, t_kont := Some k\<rparr>"
  let ?s = "s\<lparr>threads := (threads s)(t \<mapsto> ?x)\<rparr>"
  have "stack_intact x" using kinv0_running [OF inv cur(1)] cur(2) by auto
  then have st: "stack_intact ?x" by (simp add: stack_intact_def)
  have tab: "tables_ok ?s" "asleep ?s = asleep s" "sl_cap ?s = sl_cap s" "mem_fails ?s = mem_fails s"
    using inv by (simp_all add: kinv0_def table_defs mem_fails_def)
  have cnt: "int (length (asleep s)) < numthreads s" "length (asleep s) < 2 ^ 28"
    using inv cur by (auto simp: kinv0_def counts_ok_def running_def)
  have e: "thread_sleep addr k s = mi_switch_out S_SLEEP ?s"
    using assms by (simp add: thread_sleep_def upd_thread_Some)
  have "0 < curspl ?s" "curthread ?s = Some t" "threads ?s t = Some ?x" "length (asleep ?s) < 2 ^ 28"
    using assms cnt tab by simp_all
  from mi_switch_sleep_cases [OF tab(1) this(1-3) st this(4)] show ?thesis
  proof (elim disjE exE conjE)
    fix sl assume sl: "array_ok sl" "guys sl = asleep ?s @ [t]" "sl_cap ?s \<le> a_max sl"
      "mi_switch_out S_SLEEP ?s = Some ((md_switch_save t ?x ?s)\<lparr>sleepers := Some sl, k_nalloc := Suc (k_nalloc ?s)\<rparr>)"
    have "set_asleep t x addr k s ((md_switch_save t ?x ?s)\<lparr>sleepers := Some sl, k_nalloc := Suc (k_nalloc ?s)\<rparr>)"
      unfolding set_asleep_def using sl(1-3) tab
      by (intro exI [of _ sl] exI [of _ "Suc (k_nalloc s)"]) (simp add: md_switch_save_def)
    then show ?thesis using e sl(4) by auto
  next
    assume "mem_fails ?s" "sl_cap ?s = int (length (asleep ?s))" "mi_switch_out S_SLEEP ?s = None"
    then show ?thesis using e tab cnt by (simp add: sleep_fails_def)
  qed
qed

lemma set_asleep_simps:
  assumes "set_asleep t x addr k s s'" "curthread s = Some t" "kinv0 s"
  shows "asleep s' = asleep s @ [t]" "ready s' = ready s" "dead s' = dead s" "running s' = []"
    "curthread s' = None" "sems s' = sems s" "locks s' = locks s" "curspl s' = curspl s" "cvs s' = cvs s"
    "threads s' = (threads s)(t \<mapsto> x\<lparr>t_sleepaddr := Some addr, t_kont := Some k, pcb_ininterrupt := in_interrupt s\<rparr>)"
    "numthreads s' = numthreads s" "sl_cap s \<le> sl_cap s'" "rq_cap s' = rq_cap s" "tables_ok s'"
    "in_interrupt s' = in_interrupt s"
  using assms by (auto simp: set_asleep_def table_defs kinv0_def)

lemma not_in_places:
  assumes "kinv0 s" "curthread s = Some t"
  shows "t \<notin> set (ready s)" "t \<notin> set (asleep s)" "t \<notin> set (dead s)"
  using assms by (auto simp: kinv0_def counts_ok_def running_def)

lemma kinv0_set_asleep:
  assumes inv: "kinv0 s" and cur: "curthread s = Some t" "threads s t = Some x"
    and "set_asleep t x addr k s s'" and chan: "kont_chan k = Some addr" "kont_ok s (in_interrupt s) (Some k)"
    and spl: "0 < curspl s"
  shows "kinv0 s'"
proof -
  note ss = set_asleep_simps [OF assms(4) cur(1) inv]
  note nin = not_in_places [OF inv cur(1)]
  have k: "keeps s s'" by (simp add: keeps_def ss)
  have all: "list_all (thr_ok s (ready_ok s)) (ready s)" "list_all (thr_ok s (asleep_ok s)) (asleep s)"
    "list_all (thr_ok s dead_ok) (dead s)" and "stack_intact x"
    using inv cur kinv0_running [OF inv cur(1)] by (auto simp: kinv0_def threads_ok_def)
  then have "thr_ok s' (asleep_ok s') t"
    using chan keeps_kont_ok [OF k chan(2)] by (simp add: thr_ok_def ss asleep_ok_def stack_intact_def)
  moreover have "list_all (thr_ok s' (ready_ok s')) (ready s)"
    using nin all(1) by (intro keep_ready [OF k]) (auto simp: ss)
  moreover have "list_all (thr_ok s' (asleep_ok s')) (asleep s)"
    using nin all(2) by (intro keep_asleep [OF k]) (auto simp: ss)
  moreover have "list_all (thr_ok s' dead_ok) (dead s)"
    using nin all(3) by (intro keep_dead [of _ s' s]) (auto simp: ss)
  ultimately have "threads_ok s'" by (simp add: threads_ok_def ss)
  moreover have "counts_ok s'"
    using inv cur(1) nin ss(12) by (auto simp: kinv0_def counts_ok_def ss(1-11,13-) running_def)
  ultimately show ?thesis using spl ss by (simp add: kinv0_def)
qed

section \<open>Semaphores and locks under waking and sleeping\<close>

lemma sem_ok_wake:
  assumes "moved s s'" "asleep s' = filter (\<lambda>t. \<not> Q t) (asleep s)" "sem_ok s m"
  shows "sem_ok s' m"
  using assms by (auto simp: sem_ok_def moved_simps moved_waits list_all_iff split: option.splits)

lemma lock_ok_wake:
  assumes "moved s s'" "asleep s' = filter (\<lambda>t. \<not> Q t) (asleep s)" "ready s' = ready s @ filter Q (asleep s)"
    "lock_ok s l"
  shows "lock_ok s' l"
proof -
  have "acquiring s' = acquiring s" using moved_simps(1) [OF assms(1)] by (rule acquiring_cong)
  then show ?thesis
    using assms by (auto simp: lock_ok_def moved_simps moved_waits list_ex_iff)
qed

lemma waits_on_fun_upd:
  "threads s' = (threads s)(t \<mapsto> y) \<Longrightarrow> waits_on s' a u \<longleftrightarrow> (if u = t then t_sleepaddr y = Some a else waits_on s a u)"
  by (simp add: waits_on_def)

lemma acquiring_fun_upd:
  "threads s' = (threads s)(t \<mapsto> y) \<Longrightarrow> u \<noteq> t \<Longrightarrow> acquiring s' l u = acquiring s l u"
  by (simp add: acquiring_def)

lemma sem_ok_set_asleep:
  assumes "set_asleep t x addr k s s'" "curthread s = Some t" "kinv0 s" "sem_ok s m"
    "addr = SemA m \<Longrightarrow> sems s m = Some 0"
  shows "sem_ok s' m"
proof -
  note ss = set_asleep_simps [OF assms(1,2,3)]
  have "t \<notin> set (asleep s)" using not_in_places [OF assms(3,2)] by simp
  then have "waits_on s' (SemA m) u = waits_on s (SemA m) u" if "u \<in> set (asleep s)" for u
    using that waits_on_fun_upd [OF ss(10)] by auto
  moreover have "waits_on s' (SemA m) t \<longleftrightarrow> addr = SemA m"
    using waits_on_fun_upd [OF ss(10)] by simp
  ultimately show ?thesis
    using assms(4,5) by (auto simp: sem_ok_def ss list_all_iff split: option.splits)
qed

lemma lock_ok_set_asleep:
  assumes "set_asleep t x addr k s s'" "curthread s = Some t" "kinv0 s" "lock_ok s l"
    "threads s t = Some x" "t_kont x = None" "addr = LockA l \<Longrightarrow> locks s l \<noteq> Some None"
  shows "lock_ok s' l"
proof -
  note ss = set_asleep_simps [OF assms(1,2,3)]
  have nin: "t \<notin> set (asleep s)" "t \<notin> set (ready s)" using not_in_places [OF assms(3,2)] by simp_all
  have w: "waits_on s' (LockA l) u = waits_on s (LockA l) u" if "u \<in> set (asleep s)" for u
    using that nin waits_on_fun_upd [OF ss(10)] by auto
  have a: "acquiring s' l u = acquiring s l u" if "u \<in> set (ready s)" for u
    by (intro acquiring_fun_upd [OF ss(10)]) (use that nin in auto)
  have t: "waits_on s' (LockA l) t \<longleftrightarrow> addr = LockA l" "\<not> acquiring s l t"
    using waits_on_fun_upd [OF ss(10)] assms(5,6) by (simp_all add: acquiring_def)
  show ?thesis
  proof (unfold lock_ok_def, intro impI)
    assume free: "locks s' l = Some None" and "list_ex (waits_on s' (LockA l)) (asleep s')"
    then obtain u where "u \<in> set (asleep s)" "waits_on s (LockA l) u"
      using assms(7) t w by (auto simp: list_ex_iff ss)
    then obtain v where "v \<in> set (running s @ ready s)" "acquiring s l v"
      using assms(4) free by (auto simp: lock_ok_def list_ex_iff ss)
    then show "list_ex (acquiring s' l) (running s' @ ready s')"
      using t(2) assms(2) a by (auto simp: list_ex_iff ss running_def)
  qed
qed

lemma kinvD: "kinv s \<Longrightarrow> kinv_but {} s" "kinv s \<Longrightarrow> kinv0 s" "kinv s \<Longrightarrow> flag_ok s"
  by (simp_all add: kinv_def kinv_but_def)

lemma kinvI: "kinv_but {} s \<Longrightarrow> in_interrupt s = 0 \<Longrightarrow> kinv s"
  by (simp add: kinv_def flag_ok_def)

lemma kinv_but_mono: "kinv_but L s \<Longrightarrow> L \<subseteq> M \<Longrightarrow> kinv_but M s"
  by (auto simp: kinv_but_def)

lemma kinv_kinv0: "kinv_but L s \<Longrightarrow> kinv0 s"
  by (simp add: kinv_but_def)

lemma kinv_but_wake:
  assumes "kinv_but L s" "moved s s'" "tables_ok s'" "asleep s' = filter (\<lambda>t. \<not> Q t) (asleep s)"
    "ready s' = ready s @ filter Q (asleep s)" "sl_cap s' = sl_cap s" "rq_cap s \<le> rq_cap s'"
  shows "kinv_but L s'"
  using assms sem_ok_wake [OF assms(2,4)] lock_ok_wake [OF assms(2,4,5)]
    kinv0_wake [OF kinv_kinv0 [OF assms(1)] assms(2-7)]
  by (auto simp: kinv_but_def)

lemma kinv_but_set_asleep:
  assumes inv: "kinv_but L s" and cur: "curthread s = Some t" "threads s t = Some x" "t_kont x = None"
    and st: "set_asleep t x addr k s s'"
    and k: "kont_chan k = Some addr" "kont_ok s (in_interrupt s) (Some k)" "0 < curspl s"
    and sem: "\<And>m. addr = SemA m \<Longrightarrow> sems s m = Some 0"
    and lock: "\<And>l. addr = LockA l \<Longrightarrow> locks s l \<noteq> Some None"
  shows "kinv_but L s'"
proof -
  note i0 = kinv_kinv0 [OF inv]
  have "kinv0 s'" using kinv0_set_asleep [OF i0 cur(1,2) st k] .
  moreover have "sem_ok s' m" for m
    using inv sem_ok_set_asleep [OF st cur(1) i0] sem by (simp add: kinv_but_def)
  moreover have "lock_ok s' l" if "l \<notin> L" for l
    using inv that lock_ok_set_asleep [OF st cur(1) i0 _ cur(2,3)] lock by (simp add: kinv_but_def)
  ultimately show ?thesis by (simp add: kinv_but_def)
qed

text \<open>The threads for which \<open>Q\<close> holds leave the sleepers and join the run queue, in their order.\<close>

definition woken :: "(tid \<Rightarrow> bool) \<Rightarrow> kern \<Rightarrow> kern \<Rightarrow> bool" where
  "woken Q s s' \<longleftrightarrow> moved s s' \<and> tables_ok s' \<and> asleep s' = filter (\<lambda>t. \<not> Q t) (asleep s) \<and>
     ready s' = ready s @ filter Q (asleep s) \<and> sl_cap s' = sl_cap s \<and> rq_cap s \<le> rq_cap s'"

lemma woken_simps:
  assumes "woken Q s s'"
  shows "asleep s' = filter (\<lambda>t. \<not> Q t) (asleep s)" "ready s' = ready s @ filter Q (asleep s)"
    "threads s' = threads s" "curspl s' = curspl s" "curthread s' = curthread s" "running s' = running s"
    "dead s' = dead s" "sems s' = sems s" "locks s' = locks s" "cvs s' = cvs s"
    "in_interrupt s' = in_interrupt s" "numthreads s' = numthreads s" "waits_on s' = waits_on s"
    "mem_fails s' = mem_fails s" "lbolt_counter s' = lbolt_counter s" "zombies s' = zombies s"
    "plist s' = plist s" "lock_sem s' = lock_sem s" "max_pid s' = max_pid s" "next_id s' = next_id s"
    "spaces s' = spaces s" "vnrefs s' = vnrefs s" "k_mem s' = k_mem s"
  using assms moved_simps [of s s'] moved_waits [of s s'] by (simp_all add: woken_def)

lemma woken_inv:
  assumes "woken Q s s'"
  shows "kinv0 s \<Longrightarrow> kinv0 s'" "kinv_but L s \<Longrightarrow> kinv_but L s'" "sem_ok s m \<Longrightarrow> sem_ok s' m"
    "lock_ok s l \<Longrightarrow> lock_ok s' l"
  using assms kinv0_wake [of s s' Q] kinv_but_wake [of L s s' Q] sem_ok_wake [of s s' Q m]
    lock_ok_wake [of s s' Q l]
  by (simp_all add: woken_def)

lemma wakeup_woken:
  assumes "kinv0 s" "0 < curspl s"
  shows "(\<exists>s'. thread_wakeup addr s = Some s' \<and> woken (waits_on s addr) s s') \<or>
    (mem_fails s \<and> rq_cap s < int (length (ready s) + length (asleep s)) \<and> thread_wakeup addr s = None)"
proof -
  have "tables_ok s" using assms(1) by (simp add: kinv0_def)
  from thread_wakeup_cases [OF this assms(2) kinv0_asleep_exist [OF assms(1)] kinv0_lengths(1) [OF assms(1)], of addr]
  show ?thesis
  proof (elim disjE exE conjE)
    assume f: "rq_cap s < int (length (ready s) + length (filter (waits_on s addr) (asleep s)))" "mem_fails s"
      "thread_wakeup addr s = None"
    then have "rq_cap s < int (length (ready s) + length (asleep s))"
      using filter_length_le [of "waits_on s addr" "asleep s"] by linarith
    with f(2,3) show ?thesis by simp
  qed (auto simp: woken_def)
qed

lemma filter_single:
  assumes "distinct (xs @ t # ys)"
  shows "filter (\<lambda>u. u = t) (xs @ t # ys) = [t]" "filter (\<lambda>u. u \<noteq> t) (xs @ t # ys) = xs @ ys"
proof -
  have "filter (\<lambda>u. u = t) xs = []" "filter (\<lambda>u. u = t) ys = []"
    "filter (\<lambda>u. u \<noteq> t) xs = xs" "filter (\<lambda>u. u \<noteq> t) ys = ys"
    using assms by (auto simp: filter_empty_conv filter_id_conv)
  then show "filter (\<lambda>u. u = t) (xs @ t # ys) = [t]" "filter (\<lambda>u. u \<noteq> t) (xs @ t # ys) = xs @ ys"
    by simp_all
qed

text \<open>\<open>thread_wakeup_one\<close> wakes the first sleeper on the address, if there is one.\<close>

lemma wakeup_one_woken:
  assumes "kinv0 s" "0 < curspl s"
  shows "if list_ex (waits_on s addr) (asleep s)
    then (\<exists>s' t. thread_wakeup_one addr s = Some s' \<and> waits_on s addr t \<and> t \<in> set (asleep s) \<and>
        find (waits_on s addr) (asleep s) = Some t \<and> woken (\<lambda>u. u = t) s s') \<or>
      (mem_fails s \<and> rq_cap s < int (length (ready s) + length (asleep s)))
    else thread_wakeup_one addr s = Some s"
proof -
  have tab: "tables_ok s" and d: "distinct (asleep s)"
    using assms(1) by (auto simp: kinv0_def counts_ok_def)
  note c = thread_wakeup_one_cases [OF tab assms(2) kinv0_asleep_exist [OF assms(1)]
    kinv0_lengths(2) [OF assms(1)], of addr]
  show ?thesis
  proof (cases "list_ex (waits_on s addr) (asleep s)")
    case False
    then show ?thesis using c by (auto simp: list_ex_iff)
  next
    case True
    then have ex: "\<exists>t \<in> set (asleep s). waits_on s addr t" by (simp add: list_ex_iff)
    then have len: "0 < length (asleep s)" by auto
    from c ex have "(\<exists>s' xs t ys. asleep s = xs @ t # ys \<and> waits_on s addr t \<and> (\<forall>y \<in> set xs. \<not> waits_on s addr y) \<and>
        thread_wakeup_one addr s = Some s' \<and> tables_ok s' \<and> moved s s' \<and>
        asleep s' = xs @ ys \<and> ready s' = ready s @ [t] \<and> sl_cap s' = sl_cap s \<and> rq_cap s \<le> rq_cap s') \<or>
      (int (length (ready s)) = rq_cap s \<and> mem_fails s)" by simp
    then show ?thesis
    proof (elim disjE exE conjE)
      fix s' xs t ys assume w: "asleep s = xs @ t # ys" "waits_on s addr t" "\<forall>y \<in> set xs. \<not> waits_on s addr y"
        "thread_wakeup_one addr s = Some s'" "tables_ok s'" "moved s s'" "asleep s' = xs @ ys"
        "ready s' = ready s @ [t]" "sl_cap s' = sl_cap s" "rq_cap s \<le> rq_cap s'"
      have "find (waits_on s addr) xs = None" using w(3) by (simp add: find_None_iff)
      then have f: "find (waits_on s addr) (asleep s) = Some t"
        unfolding w(1) using w(2,3) by (induction xs) auto
      have "woken (\<lambda>u. u = t) s s'"
        using w d filter_single [of xs t ys] by (simp add: woken_def)
      with w f True show ?thesis by auto
    qed (use True len in auto)
  qed
qed

text \<open>Changes outside the tables.\<close>

lemma sem_ok_same:
  assumes "same_places s s'" "threads s' = threads s" "sems s' m = sems s m"
  shows "sem_ok s' m = sem_ok s m"
  unfolding sem_ok_def waits_on_cong [OF assms(2)] assms(3) same_places_simps [OF assms(1)] ..

lemma lock_ok_same:
  assumes "same_places s s'" "threads s' = threads s" "locks s' l = locks s l"
  shows "lock_ok s' l = lock_ok s l"
  unfolding lock_ok_def waits_on_cong [OF assms(2)] acquiring_cong [OF assms(2)] assms(3)
    same_places_simps [OF assms(1)] ..


lemma kinv_but_spl:
  assumes "kinv_but L s" "switching s \<Longrightarrow> 0 < n"
  shows "kinv_but L (s\<lparr>curspl := n\<rparr>)"
proof -
  have "kinv0 (s\<lparr>curspl := n\<rparr>)"
    using assms by (intro kinv0_same_places [OF kinv_kinv0 [OF assms(1)]]) (simp_all add: same_places_def keeps_def)
  moreover have "sem_ok (s\<lparr>curspl := n\<rparr>) m = sem_ok s m" "lock_ok (s\<lparr>curspl := n\<rparr>) l = lock_ok s l" for m l
    by (rule sem_ok_same lock_ok_same; simp add: same_places_def)+
  ultimately show ?thesis using assms(1) by (simp add: kinv_but_def)
qed

section \<open>P and V\<close>

text \<open>A thread that runs kernel or user code of its own.\<close>

definition runs :: "kern \<Rightarrow> tid \<Rightarrow> thread \<Rightarrow> bool" where
  "runs s t x \<longleftrightarrow> curthread s = Some t \<and> threads s t = Some x \<and> t_kont x = None"

lemma runsD:
  assumes "runs s t x"
  shows "curthread s = Some t" "threads s t = Some x" "t_kont x = None" "\<not> switching s"
  using assms by (simp_all add: runs_def switching_def)

lemma runs_flag: "kinv s \<Longrightarrow> runs s t x \<Longrightarrow> in_interrupt s = 0"
  using runsD(4) [of s t x] by (simp add: kinv_def flag_ok_def)

lemma P_loop_correct:
  assumes inv: "kinv_but L s" and run: "runs s t x" and spl: "0 < curspl s" and fl: "in_interrupt s = 0"
    and c: "sems s m = Some c"
  shows "if c = 0
    then (\<exists>s'. P_loop m spl s = Some s' \<and> set_asleep t x (SemA m) (K_P m spl) s s' \<and> kinv_but L s') \<or>
      (P_loop m spl s = None \<and> sleep_fails s)
    else P_loop m spl s = Some (s\<lparr>sems := (sems s)(m \<mapsto> c - 1), curspl := spl\<rparr>) \<and>
      kinv_but L (s\<lparr>sems := (sems s)(m \<mapsto> c - 1), curspl := spl\<rparr>)"
proof (cases "c = 0")
  case True
  note i0 = kinv_kinv0 [OF inv] and r = runsD [OF run]
  have "kinv_but L s'" if "set_asleep t x (SemA m) (K_P m spl) s s'" for s'
    using fl c True spl by (intro kinv_but_set_asleep [OF inv r(1-3) that]) auto
  then show ?thesis
    using thread_sleep_eq [OF i0 r(1,2) spl fl, of "SemA m" "K_P m spl"] c True by (auto simp: P_loop_def)
next
  case False
  have sem: "sem_ok s k" for k using inv by (simp add: kinv_but_def)
  have pos: "0 < c" using sem [of m] c False by (simp add: sem_ok_def)
  let ?s = "s\<lparr>sems := (sems s)(m \<mapsto> c - 1), curspl := spl\<rparr>"
  have sp: "same_places s ?s" "threads ?s = threads s" by (simp_all add: same_places_def)
  have "kinv0 ?s"
    using runsD(4) [OF run] by (intro kinv0_same_places [OF kinv_kinv0 [OF inv] sp]) (auto simp: keeps_def)
  moreover have "sem_ok ?s k" for k
  proof (cases "k = m")
    case True
    then show ?thesis
      using sem [of m] c pos
      by (simp add: sem_ok_def same_places_simps [OF sp(1)] waits_on_cong [OF sp(2)])
  next
    case False
    then show ?thesis using sem [of k] sem_ok_same [OF sp, of k] by simp
  qed
  moreover have "lock_ok ?s l" if "l \<notin> L" for l
    using inv that lock_ok_same [OF sp, of l] by (simp add: kinv_but_def)
  ultimately show ?thesis using c False pos by (simp add: kinv_but_def P_loop_def)
qed

text \<open>\<open>V\<close> in a state in which no more threads can wake than the run queue has room for.\<close>

lemma sem_V_cases:
  assumes inv: "kinv_but L s" and c: "sems s m = Some c" "c < INT_MAX"
  shows "(\<exists>s'. sem_V m s = Some s' \<and> kinv_but L s' \<and> sems s' = (sems s)(m \<mapsto> c + 1) \<and>
      locks s' = locks s \<and> threads s' = threads s \<and> curthread s' = curthread s \<and> curspl s' = curspl s \<and>
      in_interrupt s' = in_interrupt s \<and> dead s' = dead s \<and> numthreads s' = numthreads s \<and> cvs s' = cvs s \<and>
      next_id s' = next_id s \<and> plist s' = plist s \<and> lock_sem s' = lock_sem s \<and> mem_fails s' = mem_fails s \<and>
      asleep s' = filter (\<lambda>t. \<not> waits_on s (SemA m) t) (asleep s) \<and>
      ready s' = ready s @ filter (waits_on s (SemA m)) (asleep s)) \<or>
    (mem_fails s \<and> rq_cap s < int (length (ready s) + length (asleep s)) \<and> sem_V m s = None)"
proof -
  have sem: "sem_ok s k" for k using inv by (simp add: kinv_but_def)
  have nn: "0 \<le> c" using sem [of m] c by (simp add: sem_ok_def)
  let ?s = "s\<lparr>curspl := SPL_HIGH, sems := (sems s)(m \<mapsto> c + 1)\<rparr>"
  have sp: "same_places s ?s" "threads ?s = threads s" by (simp_all add: same_places_def)
  note sps = same_places_simps [OF sp(1)]
  have i0: "kinv0 ?s"
    by (intro kinv0_same_places [OF kinv_kinv0 [OF inv] sp]) (auto simp: keeps_def)
  have run: "sem_V m s = do { s1 \<leftarrow> thread_wakeup (SemA m) ?s; Some (s1\<lparr>curspl := curspl s\<rparr>) }"
    using c nn by (simp add: sem_V_def)
  have "0 < curspl ?s" by simp
  from wakeup_woken [OF i0 this, of "SemA m"] show ?thesis
  proof (elim disjE exE conjE)
    fix s1 assume w: "thread_wakeup (SemA m) ?s = Some s1" "woken (waits_on ?s (SemA m)) ?s s1"
    note ws = woken_simps [OF w(2)] and wc = waits_on_cong [OF sp(2)]
    have s1: "sem_ok s1 k" for k
    proof (cases "k = m")
      case True
      then show ?thesis using nn by (auto simp: sem_ok_def ws list_all_iff)
    next
      case False
      then have "sem_ok ?s k" using sem [of k] sem_ok_same [OF sp, of k] by simp
      then show ?thesis by (rule woken_inv(3) [OF w(2)])
    qed
    have l1: "lock_ok s1 l" if "l \<notin> L" for l
    proof -
      have "lock_ok ?s l" using inv that lock_ok_same [OF sp, of l] by (simp add: kinv_but_def)
      then show ?thesis by (rule woken_inv(4) [OF w(2)])
    qed
    have "kinv_but L s1" using woken_inv(1) [OF w(2) i0] s1 l1 by (simp add: kinv_but_def)
    moreover have "switching s1 = switching s" by (rule switching_cong) (simp_all add: ws)
    moreover have "switching s \<Longrightarrow> 0 < curspl s" using kinv_kinv0 [OF inv] by (simp add: kinv0_def)
    ultimately have "kinv_but L (s1\<lparr>curspl := curspl s\<rparr>)" by (intro kinv_but_spl) auto
    moreover have "sem_V m s = Some (s1\<lparr>curspl := curspl s\<rparr>)" using run w(1) by simp
    moreover have "asleep (s1\<lparr>curspl := curspl s\<rparr>) = asleep s1" "ready (s1\<lparr>curspl := curspl s\<rparr>) = ready s1"
      "dead (s1\<lparr>curspl := curspl s\<rparr>) = dead s1" "mem_fails (s1\<lparr>curspl := curspl s\<rparr>) = mem_fails s"
      using ws by (simp_all add: table_defs mem_fails_def)
    ultimately show ?thesis using ws sps wc by auto
  next
    assume f: "mem_fails ?s" "rq_cap ?s < int (length (ready ?s) + length (asleep ?s))"
      "thread_wakeup (SemA m) ?s = None"
    have "mem_fails s" "sem_V m s = None" using f(1,3) run by (simp_all add: mem_fails_def)
    with f(2) show ?thesis unfolding sps by simp
  qed
qed

section \<open>Locks and condition variables\<close>

definition first_waiter :: "kern \<Rightarrow> chan \<Rightarrow> tid option" where
  "first_waiter s addr = find (waits_on s addr) (asleep s)"

lemma woken_none: "tables_ok s \<Longrightarrow> woken (\<lambda>u. False) s s"
  by (simp add: woken_def moved_refl)

text \<open>With a thread running, waking never depends on the allocator.\<close>

lemma wakeup_running:
  assumes "kinv0 s" "0 < curspl s" "curthread s = Some t"
  shows "\<exists>s'. thread_wakeup addr s = Some s' \<and> woken (waits_on s addr) s s'"
    "\<exists>s'. thread_wakeup_one addr s = Some s' \<and> woken (\<lambda>u. first_waiter s addr = Some u) s s'"
proof -
  note room = kinv0_room [OF assms(1,3)]
  then show "\<exists>s'. thread_wakeup addr s = Some s' \<and> woken (waits_on s addr) s s'"
    using wakeup_woken [OF assms(1,2), of addr] by auto
  show "\<exists>s'. thread_wakeup_one addr s = Some s' \<and> woken (\<lambda>u. first_waiter s addr = Some u) s s'"
  proof (cases "list_ex (waits_on s addr) (asleep s)")
    case True
    then obtain s' u where "thread_wakeup_one addr s = Some s'" "first_waiter s addr = Some u"
      "woken (\<lambda>v. v = u) s s'"
      using wakeup_one_woken [OF assms(1,2), of addr] room by (auto simp: first_waiter_def)
    moreover have "(\<lambda>v. v = u) = (\<lambda>v. first_waiter s addr = Some v)" using calculation(2) by auto
    ultimately show ?thesis by auto
  next
    case False
    then have "first_waiter s addr = None" by (auto simp: first_waiter_def find_None_iff list_ex_iff)
    then have "woken (\<lambda>u. first_waiter s addr = Some u) s s"
      using woken_none [of s] assms(1) by (simp add: kinv0_def)
    then show ?thesis using False wakeup_one_woken [OF assms(1,2), of addr] by auto
  qed
qed

lemma fold_splx: "fold (\<lambda>spl s. snd (splx spl s)) spls s = s\<lparr>curspl := last (curspl s # spls)\<rparr>"
  by (induction spls arbitrary: s) auto

lemma acquire_loop_correct:
  assumes inv: "kinv_but {l} s" and run: "runs s t x" and spl: "0 < curspl s" and fl: "in_interrupt s = 0"
    and h: "locks s l = Some h"
  shows "if h = None
    then acquire_loop l spls s =
        Some (s\<lparr>locks := (locks s)(l \<mapsto> Some t), curspl := last (curspl s # spls)\<rparr>) \<and>
      kinv (s\<lparr>locks := (locks s)(l \<mapsto> Some t), curspl := last (curspl s # spls)\<rparr>)
    else (\<exists>s'. acquire_loop l spls s = Some s' \<and> set_asleep t x (LockA l) (K_Acquire l spls) s s' \<and> kinv s') \<or>
      (acquire_loop l spls s = None \<and> sleep_fails s)"
proof (cases "h = None")
  case True
  let ?s = "s\<lparr>locks := (locks s)(l \<mapsto> Some t), curspl := last (curspl s # spls)\<rparr>"
  have sp: "same_places s ?s" "threads ?s = threads s" by (simp_all add: same_places_def)
  have "kinv0 ?s"
    using runsD(4) [OF run] by (intro kinv0_same_places [OF kinv_kinv0 [OF inv] sp]) (auto simp: keeps_def)
  moreover have "sem_ok ?s m" for m
    using inv sem_ok_same [OF sp, of m] by (simp add: kinv_but_def)
  moreover have "lock_ok ?s k" for k
  proof (cases "k = l")
    case False
    then show ?thesis using inv lock_ok_same [OF sp, of k] by (simp add: kinv_but_def)
  qed (simp add: lock_ok_def)
  moreover have "acquire_loop l spls s = Some ?s"
    unfolding acquire_loop_def fold_splx using True h runsD [OF run] by simp
  moreover have "kinv ?s" using calculation fl by (intro kinvI) (simp_all add: kinv_but_def)
  ultimately show ?thesis using True by simp
next
  case False
  note i0 = kinv_kinv0 [OF inv] and r = runsD [OF run]
  have "kinv s'" if s': "set_asleep t x (LockA l) (K_Acquire l spls) s s'" for s'
  proof -
    have "kinv_but {l} s'"
      using fl h False spl by (intro kinv_but_set_asleep [OF inv r(1-3) s']) auto
    moreover have "lock_ok s' l"
      using h False set_asleep_simps(7) [OF s' r(1) i0] by (auto simp: lock_ok_def)
    ultimately show ?thesis
      using fl set_asleep_simps(15) [OF s' r(1) i0] by (intro kinvI) (auto simp: kinv_but_def)
  qed
  then show ?thesis
    using thread_sleep_eq [OF i0 r(1,2) spl fl, of "LockA l" "K_Acquire l spls"] h False by (auto simp: acquire_loop_def)
qed

text \<open>A sleeper on a lock resumes in \<open>lock_acquire\<close>.\<close>

lemma lock_sleeper_acquiring:
  assumes "kinv0 s" "u \<in> set (asleep s)" "waits_on s (LockA l) u"
  shows "acquiring s l u"
proof -
  obtain x where x: "threads s u = Some x" "asleep_ok s x"
    using assms(1,2) by (auto simp: kinv0_def threads_ok_def list_all_iff dest!: thr_okD)
  then obtain k where "t_kont x = Some k" "kont_chan k = Some (LockA l)"
    using assms(3) by (auto simp: asleep_ok_def waits_on_def split: option.splits)
  then show ?thesis using x(1) by (cases k) (auto simp: acquiring_def)
qed

text \<open>The state behind the release of a lock by its holder.\<close>

definition released :: "nat \<Rightarrow> kern \<Rightarrow> kern \<Rightarrow> bool" where
  "released l s s' \<longleftrightarrow> locks s' = (locks s)(l \<mapsto> None) \<and>
     asleep s' = filter (\<lambda>u. first_waiter s (LockA l) \<noteq> Some u) (asleep s) \<and>
     ready s' = ready s @ filter (\<lambda>u. first_waiter s (LockA l) = Some u) (asleep s) \<and>
     threads s' = threads s \<and> curthread s' = curthread s \<and> curspl s' = curspl s \<and> sems s' = sems s \<and>
     cvs s' = cvs s \<and> dead s' = dead s \<and> in_interrupt s' = in_interrupt s \<and> numthreads s' = numthreads s \<and>
     sleep_fails s' = sleep_fails s"

lemma woken_sleep_fails:
  assumes "woken Q s s'"
  shows "sleep_fails s' = sleep_fails s"
  using assms by (simp add: sleep_fails_def woken_simps [OF assms]) (simp add: woken_def)

lemma sleep_fails_spl [simp]: "sleep_fails (s\<lparr>curspl := n\<rparr>) = sleep_fails s"
  by (simp add: sleep_fails_def mem_fails_def sl_cap_def)

lemma lock_release_correct:
  assumes inv: "kinv s" and run: "runs s t x" and h: "locks s l = Some h"
  shows "if h = Some t then \<exists>s'. lock_release l s = Some s' \<and> kinv s' \<and> released l s s'
    else lock_release l s = Some s"
proof (cases "h = Some t")
  case False
  then show ?thesis
    using h runsD [OF run] by (simp add: lock_release_def lock_do_i_hold_def)
next
  case True
  let ?s = "s\<lparr>curspl := SPL_HIGH, locks := (locks s)(l \<mapsto> None)\<rparr>"
  have sp: "same_places s ?s" "threads ?s = threads s" by (simp_all add: same_places_def)
  note r = runsD [OF run] and sps = same_places_simps [OF sp(1)]
  have "kinv0 ?s" using kinvD(2) [OF inv] by (intro kinv0_same_places [OF _ sp]) (auto simp: keeps_def)
  then have i: "kinv_but {l} ?s"
    using kinvD(1) [OF inv] sem_ok_same [OF sp] lock_ok_same [OF sp] by (simp add: kinv_but_def)
  have fw: "first_waiter ?s (LockA l) = first_waiter s (LockA l)"
    by (simp add: first_waiter_def sps waits_on_cong [OF sp(2)])
  obtain s1 where s1: "thread_wakeup_one (LockA l) ?s = Some s1"
    "woken (\<lambda>u. first_waiter s (LockA l) = Some u) ?s s1"
    using wakeup_running(2) [OF kinv_kinv0 [OF i], of t "LockA l"] r(1) fw by auto
  note ws = woken_simps [OF s1(2)]
  have "lock_ok s1 l"
  proof (unfold lock_ok_def, intro impI)
    assume "list_ex (waits_on s1 (LockA l)) (asleep s1)"
    then have "\<exists>v \<in> set (asleep s). waits_on s (LockA l) v"
      by (auto simp: list_ex_iff ws sps waits_on_cong [OF sp(2)])
    then have "first_waiter s (LockA l) \<noteq> None"
      unfolding first_waiter_def find_None_iff by blast
    then obtain u where u: "first_waiter s (LockA l) = Some u" by blast
    then have us: "u \<in> set (asleep s)" "waits_on s (LockA l) u"
      using find_SomeD unfolding first_waiter_def by fast+
    then have "acquiring s l u" using kinvD(2) [OF inv] lock_sleeper_acquiring by blast
    then have "acquiring s1 l u" using acquiring_cong [of s1 s] ws(3) by simp
    moreover have "u \<in> set (ready s1)" using u us by (simp add: ws sps)
    ultimately show "list_ex (acquiring s1 l) (running s1 @ ready s1)" by (auto simp: list_ex_iff)
  qed
  then have "kinv_but {} s1" using woken_inv(2) [OF s1(2) i] by (auto simp: kinv_but_def)
  moreover have "switching s1 = switching s" by (rule switching_cong) (simp_all add: ws)
  ultimately have "kinv (s1\<lparr>curspl := curspl s\<rparr>)"
    using r(4) kinv_but_spl runs_flag [OF inv run] ws by (intro kinvI) auto
  moreover have "lock_release l s = Some (s1\<lparr>curspl := curspl s\<rparr>)"
    using True h r(1) s1(1) by (simp add: lock_release_def lock_do_i_hold_def)
  moreover have "sleep_fails ?s = sleep_fails s" by (simp add: sleep_fails_def mem_fails_def sl_cap_def)
  then have "released l s (s1\<lparr>curspl := curspl s\<rparr>)"
    using ws sps woken_sleep_fails [OF s1(2)] unfolding released_def by (simp add: table_defs)
  ultimately show ?thesis using True by auto
qed

text \<open>Waiting on a condition variable: the lock is released and the thread sleeps, in one step.\<close>

lemma runs_released: "released l s s' \<Longrightarrow> runs s t x \<Longrightarrow> runs s' t x"
  by (simp add: released_def runs_def)

lemma cv_wait_correct:
  assumes inv: "kinv s" and run: "runs s t x" and cv: "cv \<in> cvs s" and h: "locks s l = Some (Some t)"
  shows "(\<exists>s1 s'. cv_wait cv l s = Some s' \<and> kinv s' \<and> released l (s\<lparr>curspl := SPL_HIGH\<rparr>) s1 \<and>
      set_asleep t x (CvA cv) (K_CvWait cv l (curspl s)) s1 s') \<or>
    (cv_wait cv l s = None \<and> sleep_fails s)"
proof -
  let ?s = "s\<lparr>curspl := SPL_HIGH\<rparr>"
  have i: "kinv ?s"
    using kinv_but_spl [OF kinvD(1) [OF inv], of SPL_HIGH] runs_flag [OF inv run] by (intro kinvI) auto
  have r: "runs ?s t x" using run by (simp add: runs_def)
  have "locks ?s l = Some (Some t)" using h by simp
  from lock_release_correct [OF i r this] obtain s1 where
    s1: "lock_release l ?s = Some s1" "kinv s1" "released l ?s s1" by auto
  have r1: "runs s1 t x" by (rule runs_released [OF s1(3) r])
  note i1 = kinvD(1,2) [OF s1(2)]
  have spl: "0 < curspl s1" using s1(3) by (simp add: released_def)
  note fl = runs_flag [OF s1(2) r1]
  have "locks s1 l \<noteq> None" using s1(3) by (simp add: released_def)
  then have "kinv_but {} s'" if "set_asleep t x (CvA cv) (K_CvWait cv l (curspl s)) s1 s'" for s'
    using fl spl by (intro kinv_but_set_asleep [OF i1(1) runsD(1-3) [OF r1] that]) auto
  then have k: "kinv s'" if "set_asleep t x (CvA cv) (K_CvWait cv l (curspl s)) s1 s'" for s'
    using that fl set_asleep_simps(15) [OF that runsD(1) [OF r1] i1(2)] by (intro kinvI) auto
  have "sleep_fails s1 = sleep_fails s" using s1(3) by (simp add: released_def)
  then show ?thesis
    using thread_sleep_eq [OF i1(2) runsD(1,2) [OF r1] spl fl, of "CvA cv" "K_CvWait cv l (curspl s)"] k s1 cv
    by (auto simp: cv_wait_def)
qed

text \<open>Signalling wakes the first waiter, broadcasting all of them; both then release the lock.\<close>

lemma cv_wake_correct:
  assumes inv: "kinv s" and run: "runs s t x" and cv: "cv \<in> cvs s" and h: "locks s l = Some h"
  shows "\<exists>s1 s2. cv_signal cv l s = Some (s2\<lparr>curspl := curspl s\<rparr>) \<and> kinv (s2\<lparr>curspl := curspl s\<rparr>) \<and>
      woken (\<lambda>u. first_waiter s (CvA cv) = Some u) (s\<lparr>curspl := SPL_HIGH\<rparr>) s1 \<and>
      (if h = Some t then released l s1 s2 else s2 = s1)"
    "\<exists>s1 s2. cv_broadcast cv l s = Some (s2\<lparr>curspl := curspl s\<rparr>) \<and> kinv (s2\<lparr>curspl := curspl s\<rparr>) \<and>
      woken (waits_on s (CvA cv)) (s\<lparr>curspl := SPL_HIGH\<rparr>) s1 \<and>
      (if h = Some t then released l s1 s2 else s2 = s1)"
proof -
  let ?s = "s\<lparr>curspl := SPL_HIGH\<rparr>"
  have i: "kinv_but {} ?s" using kinv_but_spl [OF kinvD(1) [OF inv], of SPL_HIGH] by simp
  note r = runsD [OF run] and fl = runs_flag [OF inv run]
  have release: "\<exists>s2. lock_release l s1 = Some s2 \<and> kinv (s2\<lparr>curspl := curspl s\<rparr>) \<and>
      (if h = Some t then released l s1 s2 else s2 = s1)" if "woken Q ?s s1" for Q s1
  proof -
    note ws = woken_simps [OF that]
    have k1: "kinv s1" using woken_inv(2) [OF that i] fl by (intro kinvI) (simp_all add: ws)
    have r1: "runs s1 t x" using run by (simp add: runs_def ws)
    have h1: "locks s1 l = Some h" using h by (simp add: ws)
    then obtain s2 where s2: "lock_release l s1 = Some s2" "kinv s2"
      "if h = Some t then released l s1 s2 else s2 = s1"
      using lock_release_correct [OF k1 r1 h1] k1 by (cases "h = Some t") auto
    have "runs s2 t x" using s2(3) runs_released [OF _ r1] r1 by (auto split: if_splits)
    then have "\<not> switching s2" "in_interrupt s2 = 0" using runsD(4) runs_flag [OF s2(2)] by blast+
    then have "kinv (s2\<lparr>curspl := curspl s\<rparr>)"
      using kinv_but_spl [OF kinvD(1) [OF s2(2)], of "curspl s"] by (intro kinvI) auto
    then show ?thesis using s2 by auto
  qed
  have "0 < curspl ?s" "curthread ?s = Some t" using r by simp_all
  note wk = wakeup_running [OF kinv_kinv0 [OF i] this, of "CvA cv"]
  have w: "waits_on ?s = waits_on s" "asleep ?s = asleep s" by (auto simp: waits_on_def table_defs fun_eq_iff)
  then have f: "first_waiter ?s a = first_waiter s a" for a by (simp add: first_waiter_def)
  obtain s1 where s1: "thread_wakeup_one (CvA cv) ?s = Some s1"
    "woken (\<lambda>u. first_waiter s (CvA cv) = Some u) ?s s1" using wk(2) f by auto
  with release [OF s1(2)] cv
  show "\<exists>s1 s2. cv_signal cv l s = Some (s2\<lparr>curspl := curspl s\<rparr>) \<and> kinv (s2\<lparr>curspl := curspl s\<rparr>) \<and>
      woken (\<lambda>u. first_waiter s (CvA cv) = Some u) ?s s1 \<and>
      (if h = Some t then released l s1 s2 else s2 = s1)" by (fastforce simp: cv_signal_def)
  obtain s3 where s3: "thread_wakeup (CvA cv) ?s = Some s3" "woken (waits_on s (CvA cv)) ?s s3"
    using wk(1) w by auto
  with release [OF s3(2)] cv
  show "\<exists>s1 s2. cv_broadcast cv l s = Some (s2\<lparr>curspl := curspl s\<rparr>) \<and> kinv (s2\<lparr>curspl := curspl s\<rparr>) \<and>
      woken (waits_on s (CvA cv)) ?s s1 \<and>
      (if h = Some t then released l s1 s2 else s2 = s1)" by (fastforce simp: cv_broadcast_def)
qed

section \<open>Resuming a thread\<close>

text \<open>Replacing the structure of the current thread.\<close>

lemma kinv0_set_running:
  assumes inv: "kinv0 s" and cur: "curthread s = Some t"
    and y: "stack_intact y" "kont_ok s f (t_kont y)" "t_kont y \<noteq> None \<Longrightarrow> 0 < curspl s"
  shows "kinv0 (s\<lparr>threads := (threads s)(t \<mapsto> y), in_interrupt := f\<rparr>)" (is "kinv0 ?s")
proof -
  have sp: "same_places s ?s" by (simp add: same_places_def)
  note sps = same_places_simps [OF sp] and nin = not_in_places [OF inv cur]
  have k: "keeps s ?s" by (simp add: keeps_def)
  have all: "list_all (thr_ok s (ready_ok s)) (ready s)" "list_all (thr_ok s (asleep_ok s)) (asleep s)"
    "list_all (thr_ok s dead_ok) (dead s)"
    using inv by (auto simp: kinv0_def threads_ok_def)
  have "thr_ok ?s (running_ok ?s) t"
    using y(1) keeps_kont_ok [OF k y(2)] by (simp add: thr_ok_def running_ok_def)
  then have "list_all (thr_ok ?s (running_ok ?s)) (running s)" using cur by (simp add: running_def)
  moreover have "list_all (thr_ok ?s (ready_ok ?s)) (ready s)"
    using nin all(1) by (intro keep_ready [OF k]) auto
  moreover have "list_all (thr_ok ?s (asleep_ok ?s)) (asleep s)"
    using nin all(2) by (intro keep_asleep [OF k]) auto
  moreover have "list_all (thr_ok ?s dead_ok) (dead s)"
    using nin all(3) by (intro keep_dead [of _ ?s s]) auto
  ultimately have "threads_ok ?s" by (simp add: threads_ok_def sps)
  moreover have "switching ?s \<longleftrightarrow> t_kont y \<noteq> None" using cur by (simp add: switching_def)
  ultimately show ?thesis using inv y(3) by (simp add: kinv0_def sps)
qed

lemma sem_ok_set_running:
  assumes "kinv0 s" "curthread s = Some t" "sem_ok s m"
  shows "sem_ok (s\<lparr>threads := (threads s)(t \<mapsto> y), in_interrupt := f\<rparr>) m"
proof -
  have "t \<notin> set (asleep s)" using not_in_places [OF assms(1,2)] by simp
  then show ?thesis
    using assms(3) by (auto simp: sem_ok_def waits_on_def asleep_def list_all_iff split: option.splits)
qed

lemma lock_ok_set_running:
  assumes "kinv0 s" "curthread s = Some t" "lock_ok s l" "acquiring s l t \<Longrightarrow> False"
  shows "lock_ok (s\<lparr>threads := (threads s)(t \<mapsto> y), in_interrupt := f\<rparr>) l" (is "lock_ok ?s l")
proof -
  have sp: "same_places s ?s" by (simp add: same_places_def)
  note sps = same_places_simps [OF sp] and nin = not_in_places [OF assms(1,2)]
  have w: "waits_on ?s (LockA l) u = waits_on s (LockA l) u" if "u \<in> set (asleep s)" for u
    using that nin by (auto simp: waits_on_def)
  have a: "acquiring ?s l u = acquiring s l u" if "u \<in> set (ready s)" for u
    using that nin by (auto simp: acquiring_def)
  show ?thesis
    using assms(2,3,4) w a by (auto simp: lock_ok_def sps list_ex_iff running_def)
qed

lemma kinv_pop:
  assumes inv: "kinv s" and cur: "curthread s = Some t" "threads s t = Some x" "t_kont x = Some k"
  shows "kinv_but (case k of K_Acquire l spls \<Rightarrow> {l} | _ \<Rightarrow> {})
    (s\<lparr>threads := (threads s)(t \<mapsto> x\<lparr>t_kont := None\<rparr>), in_interrupt := 0\<rparr>)" (is "kinv_but ?L ?s")
proof -
  note i0 = kinvD(2) [OF inv]
  obtain "stack_intact x" using kinv0_running [OF i0 cur(1)] cur(2) by auto
  then have "kinv0 ?s"
    by (intro kinv0_set_running [OF i0 cur(1)]) (simp_all add: stack_intact_def)
  moreover have "sem_ok ?s m" for m
    using kinvD(1) [OF inv] by (intro sem_ok_set_running [OF i0 cur(1)]) (simp add: kinv_but_def)
  moreover have "lock_ok ?s l" if "l \<notin> ?L" for l
  proof (intro lock_ok_set_running [OF i0 cur(1)])
    show "lock_ok s l" using kinvD(1) [OF inv] by (simp add: kinv_but_def)
    show "acquiring s l t \<Longrightarrow> False" using cur that by (cases k) (auto simp: acquiring_def)
  qed
  ultimately show ?thesis by (simp add: kinv_but_def)
qed

text \<open>The disposal of the zombies.\<close>

definition cleaned :: "kern \<Rightarrow> kern \<Rightarrow> bool" where
  "cleaned s s' \<longleftrightarrow>
     (\<exists>zs tl. s' = s\<lparr>threads := (\<lambda>u. if u \<in> set (dead s) then None else threads s u), zombies := Some zs,
                     k_nalloc := Suc (k_nalloc s), tlb := tl\<rparr> \<and> array_ok zs \<and> guys zs = [])"

lemma mi_switch_in_cleaned:
  assumes "tables_ok s" "0 < curspl s" "curthread s = Some t" "threads s t = Some x" "t \<notin> set (dead s)"
    "distinct (dead s)" "list_all (thr_ok s dead_ok) (dead s)"
  shows "\<exists>s'. mi_switch_in s = Some s' \<and> cleaned s s'"
proof -
  have "\<forall>z \<in> set (dead s). \<exists>x. threads s z = Some x \<and> t_vmspace x = None \<and> t_cwd x = None"
    using assms(7) by (auto simp: list_all_iff dead_ok_def dest!: thr_okD)
  moreover have "\<forall>z \<in> set (dead s). curthread s \<noteq> Some z" using assms(3,5) by auto
  ultimately obtain zs where zs: "array_ok zs" "guys zs = []" "exorcise s =
    Some (s\<lparr>threads := (\<lambda>t. if t \<in> set (dead s) then None else threads s t),
            zombies := Some zs, k_nalloc := Suc (k_nalloc s)\<rparr>)"
    using exorcise_eq [OF assms(1,2,6)] by blast
  let ?s = "s\<lparr>threads := (\<lambda>t. if t \<in> set (dead s) then None else threads s t),
    zombies := Some zs, k_nalloc := Suc (k_nalloc s)\<rparr>"
  have "mi_switch_in s = Some (if t_vmspace x \<noteq> None then as_activate ?s else ?s)"
    using zs(3) assms(3,4,5) by (simp add: mi_switch_in_def)
  moreover have "cleaned s ?s"
    unfolding cleaned_def using zs(1,2) by (intro exI [of _ zs] exI [of _ "tlb s"]) simp
  moreover have "cleaned s (as_activate ?s)"
    unfolding cleaned_def using zs(1,2) by (intro exI [of _ zs] exI [of _ tlb_empty]) (simp add: as_activate_def)
  ultimately show ?thesis by simp
qed

lemma cleaned_simps:
  assumes "cleaned s s'"
  shows "threads s' = (\<lambda>u. if u \<in> set (dead s) then None else threads s u)" "curspl s' = curspl s"
    "curthread s' = curthread s" "running s' = running s" "ready s' = ready s" "asleep s' = asleep s"
    "dead s' = []" "sems s' = sems s" "locks s' = locks s" "cvs s' = cvs s" "in_interrupt s' = in_interrupt s"
    "numthreads s' = numthreads s" "sl_cap s' = sl_cap s" "rq_cap s' = rq_cap s"
    "tables_ok s \<Longrightarrow> tables_ok s'"
  using assms by (auto simp: cleaned_def table_defs)

lemma kinv_but_cleaned:
  assumes inv: "kinv_but L s" and cl: "cleaned s s'"
  shows "kinv_but L s'"
proof -
  note cs = cleaned_simps [OF cl] and i0 = kinv_kinv0 [OF inv]
  have d: "set (running s) \<inter> set (dead s) = {}" "set (ready s) \<inter> set (dead s) = {}"
    "set (asleep s) \<inter> set (dead s) = {}"
    using i0 by (auto simp: kinv0_def counts_ok_def)
  have th: "threads s' u = threads s u" if "u \<notin> set (dead s)" for u using that by (simp add: cs)
  have k: "keeps s s'" "in_interrupt s' = in_interrupt s" by (simp_all add: keeps_def cs)
  have all: "list_all (thr_ok s (running_ok s)) (running s)" "list_all (thr_ok s (ready_ok s)) (ready s)"
    "list_all (thr_ok s (asleep_ok s)) (asleep s)"
    using i0 by (auto simp: kinv0_def threads_ok_def)
  have "list_all (thr_ok s' (running_ok s')) (running s)"
    using d all(1) by (intro keep_running [OF k] th) auto
  moreover have "list_all (thr_ok s' (ready_ok s')) (ready s)"
    using d all(2) by (intro keep_ready [OF k(1)] th) auto
  moreover have "list_all (thr_ok s' (asleep_ok s')) (asleep s)"
    using d all(3) by (intro keep_asleep [OF k(1)] th) auto
  ultimately have "threads_ok s'" by (simp add: threads_ok_def cs)
  moreover have "counts_ok s'" using i0 by (auto simp: kinv0_def counts_ok_def cs)
  moreover have "switching s' \<Longrightarrow> switching s"
    using d(1) by (auto simp: switching_def cs running_def split: option.splits if_splits)
  ultimately have "kinv0 s'" using i0 by (auto simp: kinv0_def cs)
  moreover have "sem_ok s' m" for m
    using inv d(3) th by (auto simp: kinv_but_def sem_ok_def cs list_all_iff waits_on_def split: option.splits)
  moreover have "lock_ok s' l" if "l \<notin> L" for l
  proof -
    have "waits_on s' a u = waits_on s a u" if "u \<in> set (asleep s)" for a u
    proof -
      have "threads s' u = threads s u" using that d(3) th by blast
      then show ?thesis by (simp add: waits_on_def)
    qed
    moreover have "acquiring s' l u = acquiring s l u" if "u \<in> set (running s @ ready s)" for u
    proof -
      have "threads s' u = threads s u" using that d(1,2) th by auto
      then show ?thesis by (simp add: acquiring_def)
    qed
    ultimately show ?thesis
      using inv that by (auto simp: kinv_but_def lock_ok_def cs list_ex_iff)
  qed
  ultimately show ?thesis by (simp add: kinv_but_def)
qed

end
