(* ===== verification/Kern_Steps.thy ===== *)
theory Kern_Steps
  imports Kern_Inv
begin

text \<open>
  The remaining steps of the thread system: a dispatched thread resumes, the scheduler dispatches,
  a thread yields, the timer and the devices interrupt. All of them keep the invariant.
\<close>

section \<open>Frames\<close>

text \<open>
  Steps that leave every thread where it is and leave the structures of the threads in the tables
  alone. The tables may grow, threads that are in no table may come and go, and new semaphores and
  locks may appear.
\<close>

definition places :: "kern \<Rightarrow> tid set" where
  "places s = set (running s) \<union> set (ready s) \<union> set (asleep s) \<union> set (dead s)"

definition frame :: "kern \<Rightarrow> kern \<Rightarrow> bool" where
  "frame s s' \<longleftrightarrow>
     curthread s' = curthread s \<and> ready s' = ready s \<and> asleep s' = asleep s \<and> dead s' = dead s \<and>
     (tables_ok s \<longrightarrow> tables_ok s') \<and> sl_cap s \<le> sl_cap s' \<and> rq_cap s \<le> rq_cap s' \<and>
     numthreads s' = numthreads s \<and> curspl s' = curspl s \<and> in_interrupt s' = in_interrupt s \<and>
     (\<forall>u \<in> places s. threads s' u = threads s u) \<and>
     (\<forall>m. sems s' m = sems s m \<or> (sems s m = None \<and> (\<forall>c. sems s' m = Some c \<longrightarrow> 0 \<le> c))) \<and>
     (\<forall>l. locks s' l = locks s l \<or> locks s l = None)"

lemma frame_same_places:
  assumes "same_places s s'" "threads s' = threads s" "sems s' = sems s" "locks s' = locks s" "curspl s' = curspl s"
    "in_interrupt s' = in_interrupt s"
  shows "frame s s'"
  using assms by (simp add: frame_def same_places_simps) (simp add: same_places_def)

lemma frame_refl: "frame s s" by (simp add: frame_def)

lemma frame_places: "frame s s' \<Longrightarrow> places s' = places s"
  by (simp add: frame_def places_def running_def)

lemma frame_trans:
  assumes "frame a b" "frame b c"
  shows "frame a c"
proof -
  note p = frame_places [OF assms(1)]
  have "(\<forall>m. sems c m = sems a m \<or> (sems a m = None \<and> (\<forall>k. sems c m = Some k \<longrightarrow> 0 \<le> k)))"
    using assms unfolding frame_def by metis
  moreover have "(\<forall>l. locks c l = locks a l \<or> locks a l = None)" using assms unfolding frame_def by metis
  ultimately show ?thesis using assms p unfolding frame_def by auto
qed

text \<open>A sleeper on a semaphore or a lock sleeps on one that exists.\<close>

lemma asleep_exists:
  assumes "kinv0 s" "u \<in> set (asleep s)"
  shows "waits_on s (SemA m) u \<Longrightarrow> sems s m \<noteq> None" "waits_on s (LockA l) u \<Longrightarrow> locks s l \<noteq> None"
proof -
  obtain x where x: "threads s u = Some x" "asleep_ok s x"
    using assms by (auto simp: kinv0_def threads_ok_def list_all_iff dest!: thr_okD)
  then show "waits_on s (SemA m) u \<Longrightarrow> sems s m \<noteq> None" "waits_on s (LockA l) u \<Longrightarrow> locks s l \<noteq> None"
    by (cases "t_kont x"; auto simp: asleep_ok_def waits_on_def elim!: kont_chan.elims)+
qed

lemma kinv_but_frame:
  assumes inv: "kinv_but L s" and fr: "frame s s'"
  shows "kinv_but L s'"
proof -
  note i0 = kinv_kinv0 [OF inv]
  have f: "curthread s' = curthread s" "ready s' = ready s" "asleep s' = asleep s" "dead s' = dead s"
    "running s' = running s" "curspl s' = curspl s" "in_interrupt s' = in_interrupt s" "numthreads s' = numthreads s"
    using fr by (simp_all add: frame_def running_def)
  have th: "threads s' u = threads s u" if "u \<in> places s" for u using fr that by (simp add: frame_def)
  have sm: "sems s' m = sems s m \<or> (sems s m = None \<and> (\<forall>c. sems s' m = Some c \<longrightarrow> 0 \<le> c))" for m
    using fr by (simp add: frame_def)
  have lk: "locks s' l = locks s l \<or> locks s l = None" for l using fr by (simp add: frame_def)
  have k: "keeps s s'" using sm lk by (auto simp: keeps_def) (metis option.distinct(1))+
  have "threads_ok s" using i0 by (simp add: kinv0_def)
  then have "threads_ok s'"
    unfolding threads_ok_def f
    using keep_running [OF k f(7), of "running s"] keep_ready [OF k, of "ready s"] keep_asleep [OF k, of "asleep s"]
      keep_dead [of "dead s" s' s] th by (simp add: places_def)
  moreover have "counts_ok s'" using i0 fr f by (auto simp: kinv0_def counts_ok_def frame_def)
  moreover have "switching s' = switching s"
    using th by (auto simp: switching_def f places_def running_def split: option.splits)
  ultimately have k0: "kinv0 s'" using i0 fr f by (auto simp: kinv0_def frame_def)
  have w: "waits_on s' a u = waits_on s a u" if "u \<in> set (asleep s)" for a u
    using th [of u] that by (simp add: waits_on_def places_def)
  have "sem_ok s' m" for m
  proof -
    consider "sems s' m = sems s m" | "sems s m = None" "\<forall>c. sems s' m = Some c \<longrightarrow> 0 \<le> c" using sm [of m] by auto
    then show ?thesis
    proof cases
      case 1
      then show ?thesis using inv w by (auto simp: kinv_but_def sem_ok_def f list_all_iff split: option.splits)
    next
      case 2
      then show ?thesis
        using asleep_exists(1) [OF i0, of _ m] w by (auto simp: sem_ok_def f list_all_iff split: option.splits)
    qed
  qed
  moreover have "lock_ok s' l" if "l \<notin> L" for l
  proof (cases "locks s l")
    case None
    then show ?thesis using asleep_exists(2) [OF i0, of _ l] w by (auto simp: lock_ok_def f list_ex_iff)
  next
    case (Some h)
    have "acquiring s' l u = acquiring s l u" if "u \<in> set (running s @ ready s)" for u
      using th [of u] that by (auto simp: acquiring_def places_def)
    then show ?thesis
      using inv \<open>l \<notin> L\<close> w lk [of l] Some by (auto simp: kinv_but_def lock_ok_def f list_ex_iff)
  qed
  ultimately show ?thesis using k0 by (simp add: kinv_but_def)
qed

section \<open>Resuming\<close>

lemma kinv_but_tlb: "kinv_but L s \<Longrightarrow> kinv_but L (s\<lparr>tlb := tb\<rparr>)"
  by (erule kinv_but_frame) (rule frame_same_places; simp add: same_places_def)

lemma kinv_spl_running:
  assumes "kinv_but L s" "runs s t x"
  shows "kinv_but L (s\<lparr>curspl := n\<rparr>)" "runs (s\<lparr>curspl := n\<rparr>) t x"
  using kinv_but_spl [OF assms(1)] runsD(4) [OF assms(2)] assms(2) by (simp_all add: runs_def)

lemma kinv_but_set_running:
  assumes "kinv_but L s" "runs s t x" "stack_intact y" "t_kont y = None"
  shows "kinv_but L (s\<lparr>threads := (threads s)(t \<mapsto> y)\<rparr>)" "runs (s\<lparr>threads := (threads s)(t \<mapsto> y)\<rparr>) t y"
proof -
  let ?s = "s\<lparr>threads := (threads s)(t \<mapsto> y), in_interrupt := in_interrupt s\<rparr>"
  note i0 = kinv_kinv0 [OF assms(1)] and r = runsD [OF assms(2)]
  have e: "?s = s\<lparr>threads := (threads s)(t \<mapsto> y)\<rparr>"
    by (intro kern.equality) simp_all
  have "kinv0 ?s" using assms(3,4) by (intro kinv0_set_running [OF i0 r(1)]) simp_all
  moreover have "sem_ok ?s m" for m
    using assms(1) by (intro sem_ok_set_running [OF i0 r(1)]) (simp add: kinv_but_def)
  moreover have "lock_ok ?s l" if "l \<notin> L" for l
    using assms(1) that r by (intro lock_ok_set_running [OF i0 r(1)]) (auto simp: kinv_but_def acquiring_def)
  ultimately have "kinv_but L ?s" by (simp add: kinv_but_def)
  then show "kinv_but L (s\<lparr>threads := (threads s)(t \<mapsto> y)\<rparr>)" by (simp only: e)
  show "runs (s\<lparr>threads := (threads s)(t \<mapsto> y)\<rparr>) t y" using r assms(4) by (simp add: runs_def)
qed

text \<open>The common start of every resumption but the first.\<close>

definition popped :: "tid \<Rightarrow> thread \<Rightarrow> kern \<Rightarrow> kern" where
  "popped t x s = s\<lparr>threads := (threads s)(t \<mapsto> x\<lparr>t_kont := None\<rparr>)\<rparr>"

lemma popped_switch_in:
  assumes inv: "kinv s" and cur: "curthread s = Some t" "threads s t = Some x" "t_kont x = Some k"
  shows "\<exists>s1. mi_switch_in (popped t x s) = Some s1 \<and>
    kinv_but (case k of K_Acquire l spls \<Rightarrow> {l} | _ \<Rightarrow> {}) (s1\<lparr>in_interrupt := 0\<rparr>) \<and>
    runs s1 t (x\<lparr>t_kont := None\<rparr>) \<and> curspl s1 = curspl s \<and> 0 < curspl s \<and> in_interrupt s1 = in_interrupt s \<and>
    sems s1 = sems s \<and> locks s1 = locks s \<and> sleep_fails s1 = sleep_fails s"
proof -
  let ?p = "popped t x s" and ?z = "(popped t x s)\<lparr>in_interrupt := 0\<rparr>"
  note kp = kinv_pop [OF inv cur, folded popped_def]
  note i0 = kinvD(2) [OF inv]
  have spl: "0 < curspl s" using i0 cur by (simp add: kinv0_def switching_def)
  have nin: "t \<notin> set (dead s)" using not_in_places [OF i0 cur(1)] by simp
  have d: "dead ?p = dead s" "tables_ok ?p = tables_ok s" by (simp_all add: popped_def table_defs)
  have "list_all (thr_ok s dead_ok) (dead s)" using i0 by (simp add: kinv0_def threads_ok_def)
  then have "list_all (thr_ok ?p dead_ok) (dead s)"
    using nin by (intro keep_dead [of _ ?p s]) (auto simp: popped_def)
  then obtain s1 where s1: "mi_switch_in ?p = Some s1" "cleaned ?p s1"
    using mi_switch_in_cleaned [of ?p t "x\<lparr>t_kont := None\<rparr>"] spl nin i0 cur
    by (auto simp: d kinv0_def counts_ok_def) (auto simp: popped_def)
  obtain zs tb where e: "s1 = ?p\<lparr>threads := (\<lambda>u. if u \<in> set (dead ?p) then None else threads ?p u),
      zombies := Some zs, k_nalloc := Suc (k_nalloc ?p), tlb := tb\<rparr>" "array_ok zs" "guys zs = []"
    using s1(2) by (auto simp: cleaned_def)
  have d0: "dead ?z = dead ?p" by (simp add: table_defs)
  have "s1\<lparr>in_interrupt := 0\<rparr> = ?z\<lparr>threads := (\<lambda>u. if u \<in> set (dead ?z) then None else threads ?z u),
      zombies := Some zs, k_nalloc := Suc (k_nalloc ?z), tlb := tb\<rparr>"
    unfolding e(1) d0 by (intro kern.equality) (simp_all add: fun_eq_iff)
  then have "cleaned ?z (s1\<lparr>in_interrupt := 0\<rparr>)" unfolding cleaned_def using e(2,3) by blast
  then have "kinv_but (case k of K_Acquire l spls \<Rightarrow> {l} | _ \<Rightarrow> {}) (s1\<lparr>in_interrupt := 0\<rparr>)"
    using kinv_but_cleaned kp by (simp add: popped_def)
  moreover have "runs s1 t (x\<lparr>t_kont := None\<rparr>)"
    using cur nin cleaned_simps [OF s1(2)] by (simp add: runs_def popped_def d [unfolded popped_def])
  moreover have "sleep_fails s1 = sleep_fails s"
    using cleaned_simps [OF s1(2)] unfolding sleep_fails_def by (simp add: e(1) mem_fails_def popped_def sl_cap_def)
  ultimately show ?thesis using s1 spl cleaned_simps [OF s1(2)] by (simp add: popped_def)
qed

lemma thread_sleep_end_correct:
  assumes "kinv_but L s" "runs s t x"
  shows "\<exists>s' y. thread_sleep_end s = Some s' \<and> kinv_but L s' \<and> runs s' t y \<and> curspl s' = curspl s \<and>
    in_interrupt s' = in_interrupt s \<and> sems s' = sems s \<and> locks s' = locks s \<and> sleep_fails s' = sleep_fails s"
proof -
  note r = runsD [OF assms(2)]
  let ?y = "x\<lparr>t_sleepaddr := None\<rparr>"
  have "stack_intact ?y"
    using kinv0_running [OF kinv_kinv0 [OF assms(1)] r(1)] r(2) by (simp add: stack_intact_def)
  from kinv_but_set_running [OF assms this] r show ?thesis
    by (auto simp: thread_sleep_end_def upd_thread_def sleep_fails_def mem_fails_def sl_cap_def)
qed

text \<open>
  An operation that may block returns to a state with the invariant, unless the only thread of a
  system that has never forked runs out of memory on its way to the sleepers.
\<close>

definition returns_ok :: "kern option \<Rightarrow> kern \<Rightarrow> bool" where
  "returns_ok r s \<longleftrightarrow> (\<exists>s'. r = Some s' \<and> kinv s') \<or> (r = None \<and> sleep_fails s)"

lemma returns_okD: "returns_ok (Some s') s \<Longrightarrow> kinv s'"
  by (simp add: returns_ok_def)

lemma P_loop_inv:
  assumes "kinv_but {} s" "runs s t x" "0 < curspl s" "in_interrupt s = 0" "sems s m = Some c"
  shows "returns_ok (P_loop m spl s) s"
proof (cases "c = 0")
  case True
  have "in_interrupt s' = 0" if "set_asleep t x (SemA m) (K_P m spl) s s'" for s'
    using assms(4) set_asleep_simps(15) [OF that runsD(1) [OF assms(2)] kinv_kinv0 [OF assms(1)]] by simp
  then show ?thesis
    using P_loop_correct [OF assms, of spl] True kinvI unfolding returns_ok_def by auto
next
  case False
  then show ?thesis
    using P_loop_correct [OF assms, of spl] assms(4) by (auto simp: returns_ok_def intro: kinvI)
qed

lemma acquire_loop_inv:
  assumes "kinv_but {l} s" "runs s t x" "0 < curspl s" "in_interrupt s = 0" "locks s l = Some h"
  shows "returns_ok (acquire_loop l spls s) s"
  using acquire_loop_correct [OF assms, of spls] by (auto simp: returns_ok_def split: if_splits)

lemma lock_acquire_inv:
  assumes "kinv_but {} s" "runs s t x" "in_interrupt s = 0" "locks s l = Some h"
  shows "returns_ok (lock_acquire outer l s) s"
proof -
  let ?s = "s\<lparr>curspl := SPL_HIGH\<rparr>"
  note k = kinv_spl_running [OF assms(1,2), of SPL_HIGH]
  have "locks ?s l = Some h" "0 < curspl ?s" "in_interrupt ?s = 0" using assms(3,4) by simp_all
  note a = acquire_loop_inv [OF kinv_but_mono [OF k(1)] k(2) this(2,3,1), of "curspl s # outer"]
  have "lock_acquire outer l s = acquire_loop l (curspl s # outer) ?s"
    using assms(3,4) by (simp add: lock_acquire_def)
  then show ?thesis using a by (simp add: returns_ok_def)
qed

lemma clock_loop_inv:
  assumes "kinv_but {} s" "runs s t x" "0 < curspl s" and fl: "in_interrupt s = 0"
  shows "returns_ok (clock_loop n spl s) s"
proof (cases "0 < n")
  case True
  note i0 = kinv_kinv0 [OF assms(1)] and r = runsD [OF assms(2)]
  have "kinv s'" if s': "set_asleep t x LboltA (K_Clock n spl) s s'" for s'
  proof -
    have "kinv_but {} s'"
      using fl assms(3) by (intro kinv_but_set_asleep [OF assms(1) r(1-3) s']) auto
    then show ?thesis using fl set_asleep_simps(15) [OF s' r(1) i0] by (intro kinvI) auto
  qed
  then show ?thesis
    using thread_sleep_eq [OF i0 r(1,2) assms(3) fl, of LboltA "K_Clock n spl"] True
    by (auto simp: clock_loop_def returns_ok_def)
next
  case False
  then show ?thesis
    using kinvI [OF kinv_spl_running(1) [OF assms(1,2), of spl]] fl by (simp add: clock_loop_def returns_ok_def)
qed

text \<open>The return from the switch and the end of \<open>thread_sleep\<close>, for a thread that has slept.\<close>

lemma sleeper_returns:
  assumes inv: "kinv s" and cur: "curthread s = Some t" "threads s t = Some x" "t_kont x = Some k" and fl: "in_interrupt s = 0"
  shows "\<exists>s1 s2 y. mi_switch_in (popped t x s) = Some s1 \<and> thread_sleep_end s1 = Some s2 \<and>
    kinv_but (case k of K_Acquire l spls \<Rightarrow> {l} | _ \<Rightarrow> {}) s2 \<and> runs s2 t y \<and> 0 < curspl s2 \<and> in_interrupt s2 = 0 \<and>
    sems s2 = sems s \<and> locks s2 = locks s \<and> sleep_fails s2 = sleep_fails s"
proof -
  let ?L = "case k of K_Acquire l spls \<Rightarrow> {l} | _ \<Rightarrow> {}"
  obtain s1 where s1: "mi_switch_in (popped t x s) = Some s1" "kinv_but ?L (s1\<lparr>in_interrupt := 0\<rparr>)"
    "runs s1 t (x\<lparr>t_kont := None\<rparr>)" "curspl s1 = curspl s" "0 < curspl s" "in_interrupt s1 = in_interrupt s"
    "sems s1 = sems s" "locks s1 = locks s" "sleep_fails s1 = sleep_fails s"
    using popped_switch_in [OF inv cur] by blast
  have "s1\<lparr>in_interrupt := 0\<rparr> = s1" using fl s1(6) by (intro kern.equality) simp_all
  then have "kinv_but ?L s1" using s1(2) by (simp only:)
  from thread_sleep_end_correct [OF this s1(3)] show ?thesis using s1 fl by auto
qed

lemma resume_slept_inv:
  assumes inv: "kinv s" and cur: "curthread s = Some t" "threads s t = Some x" "t_kont x = Some k"
    and k: "kont_ok s (in_interrupt s) (Some k)" "kont_chan k \<noteq> None"
  shows "returns_ok (resume s) s"
proof -
  have fl: "in_interrupt s = 0" using k by (cases k) auto
  from sleeper_returns [OF inv cur fl] obtain s1 s2 y where
    s2: "mi_switch_in (popped t x s) = Some s1" "thread_sleep_end s1 = Some s2"
      "kinv_but (case k of K_Acquire l spls \<Rightarrow> {l} | _ \<Rightarrow> {}) s2" "runs s2 t y" "0 < curspl s2" "in_interrupt s2 = 0"
      "sems s2 = sems s" "locks s2 = locks s" "sleep_fails s2 = sleep_fails s" by blast
  have ret: "returns_ok r s2 = returns_ok r s" for r using s2(9) by (simp add: returns_ok_def)
  have res: "resume s = (case k of
        K_P sem spl \<Rightarrow> P_loop sem spl s2
      | K_Acquire l spls \<Rightarrow> acquire_loop l spls s2
      | K_CvWait cv l spl \<Rightarrow> lock_acquire [spl] l s2
      | K_Clock n spl \<Rightarrow> clock_loop (n - 1) spl s2
      | _ \<Rightarrow> resume s)"
    using cur s2(1,2) by (cases k) (simp_all add: resume_def upd_thread_def popped_def)
  show ?thesis
  proof (cases k)
    case (K_P sem spl)
    then obtain c where "sems s2 sem = Some c" using k s2(7) by auto
    then show ?thesis using P_loop_inv [OF _ s2(4,5,6)] s2(3) K_P res ret by simp
  next
    case (K_Acquire l spls)
    then obtain h where "locks s2 l = Some h" using k s2(8) by auto
    then show ?thesis using acquire_loop_inv [OF _ s2(4,5,6)] s2(3) K_Acquire res ret by simp
  next
    case (K_CvWait cv l spl)
    then obtain h where "locks s2 l = Some h" using k s2(8) by auto
    then show ?thesis using lock_acquire_inv [OF _ s2(4,6)] s2(3) K_CvWait res ret by simp
  next
    case (K_Clock n spl)
    then show ?thesis using clock_loop_inv [OF _ s2(4,5,6)] s2(3) res ret by simp
  qed (use k in simp_all)
qed

lemma resume_inv:
  assumes inv: "kinv s" and cur: "curthread s = Some t" "threads s t = Some x" "t_kont x = Some k"
  shows "returns_ok (resume s) s"
proof (cases "kont_chan k")
  case (Some a)
  have "kont_ok s (in_interrupt s) (Some k)"
    using kinv0_running [OF kinvD(2) [OF inv] cur(1)] cur by (auto simp: running_ok_def)
  then show ?thesis using resume_slept_inv [OF inv cur] Some by simp
next
  case None
  have res: "resume s = (case k of
        K_Start \<Rightarrow> mi_threadstart (popped t x s)
      | K_Yield spl \<Rightarrow> do { s \<leftarrow> mi_switch_in (popped t x s); Some (snd (splx spl s)) }
      | K_Preempt spl old_in savespl \<Rightarrow> do {
          s \<leftarrow> mi_switch_in (popped t x s);
          Some (irq_exit old_in savespl (snd (splx spl s))) }
      | _ \<Rightarrow> resume s)"
    using cur by (cases k) (simp_all add: resume_def upd_thread_def popped_def)
  have ko: "kont_ok s (in_interrupt s) (Some k)"
    using kinv0_running [OF kinvD(2) [OF inv] cur(1)] cur by (auto simp: running_ok_def)
  obtain s1 where s1: "mi_switch_in (popped t x s) = Some s1"
    "kinv_but (case k of K_Acquire l spls \<Rightarrow> {l} | _ \<Rightarrow> {}) (s1\<lparr>in_interrupt := 0\<rparr>)"
    "runs s1 t (x\<lparr>t_kont := None\<rparr>)" "in_interrupt s1 = in_interrupt s"
    using popped_switch_in [OF inv cur] by blast
  have r: "runs (s1\<lparr>in_interrupt := 0\<rparr>) t (x\<lparr>t_kont := None\<rparr>)" using s1(3) by (simp add: runs_def)
  have "\<exists>s'. resume s = Some s' \<and> kinv s'"
  proof (cases k)
    case K_Start
    then have e: "(popped t x s)\<lparr>in_interrupt := 0\<rparr> = popped t x s"
      using ko by (intro kern.equality) (simp_all add: popped_def)
    have rp: "runs (popped t x s) t (x\<lparr>t_kont := None\<rparr>)" using cur by (simp add: runs_def popped_def)
    have kp: "kinv_but {} (popped t x s)"
      using kinv_pop [OF inv cur, folded popped_def] K_Start e by simp
    have r': "runs ((popped t x s)\<lparr>tlb := tlb_empty\<rparr>) t (x\<lparr>t_kont := None\<rparr>)"
      using rp by (simp add: runs_def)
    have "as_activate (popped t x s) = (popped t x s)\<lparr>tlb := tlb_empty\<rparr>" by (simp add: as_activate_def)
    moreover have "in_interrupt (popped t x s) = 0" using ko K_Start by (simp add: popped_def)
    ultimately show ?thesis
      using K_Start res runsD [OF rp] kinvI [OF kinv_spl_running(1) [OF kp rp, of 0]]
        kinvI [OF kinv_spl_running(1) [OF kinv_but_tlb [OF kp] r', of 0]]
      by (simp add: mi_threadstart_def)
  next
    case (K_Preempt spl old_in savespl)
    have e: "irq_exit 0 savespl (s1\<lparr>curspl := spl\<rparr>) = s1\<lparr>in_interrupt := 0\<rparr>\<lparr>curspl := savespl\<rparr>"
      by (intro kern.equality) (simp_all add: irq_exit_def)
    show ?thesis
      using K_Preempt res ko s1(1,2) kinvI [OF kinv_spl_running(1) [OF _ r, of "{}" savespl]] e by simp
  next
    case (K_Yield spl)
    have e: "s1\<lparr>curspl := spl\<rparr> = s1\<lparr>in_interrupt := 0\<rparr>\<lparr>curspl := spl\<rparr>"
      using K_Yield ko s1(4) by (intro kern.equality) simp_all
    show ?thesis
      using K_Yield res s1(1,2) kinvI [OF kinv_spl_running(1) [OF _ r, of "{}" spl]] by (simp add: e)
  qed (use None in simp_all)
  then show ?thesis by (simp add: returns_ok_def)
qed

section \<open>Dispatching\<close>

lemma dispatch_inv:
  assumes inv: "kinv s" and cur: "curthread s = None"
  shows "\<exists>s'. mi_dispatch s = Some s' \<and> kinv s'"
proof -
  note i0 = kinvD(2) [OF inv] and ib = kinvD(1) [OF inv]
  have spl: "0 < curspl s" using i0 cur by (simp add: kinv0_def switching_def)
  have tab: "tables_ok s" using i0 by (simp add: kinv0_def)
  note md = mi_dispatch_cases [OF tab spl kinv0_ready_exist [OF i0]]
  show ?thesis
  proof (cases "ready s")
    case Nil
    then show ?thesis using md inv by simp
  next
    case (Cons t ts)
    then obtain q y where q: "q_ok q" "q_items q = ts" "q_size q - 1 = rq_cap s" "threads s t = Some y"
      "mi_dispatch s = Some (s\<lparr>runqueue := Some q, curthread := Some t, in_interrupt := pcb_ininterrupt y\<rparr>)"
      using md by auto
    let ?s = "s\<lparr>runqueue := Some q, curthread := Some t, in_interrupt := pcb_ininterrupt y\<rparr>"
    have f: "running ?s = [t]" "ready ?s = ts" "asleep ?s = asleep s" "dead ?s = dead s" "running s = []"
      "rq_cap ?s = rq_cap s" "sl_cap ?s = sl_cap s" "tables_ok ?s"
      using q tab cur by (auto simp: table_defs)
    have k: "keeps s ?s" "threads ?s = threads s" by (simp_all add: keeps_def)
    have all: "thr_ok s (ready_ok s) t" "list_all (thr_ok s (ready_ok s)) ts"
      "list_all (thr_ok s (asleep_ok s)) (asleep s)" "list_all (thr_ok s dead_ok) (dead s)"
      using i0 Cons by (auto simp: kinv0_def threads_ok_def)
    have y: "stack_intact y" "t_kont y \<noteq> None" "kont_ok s (pcb_ininterrupt y) (t_kont y)"
      using thr_okD [OF all(1)] q(4) by (auto simp: ready_ok_def)
    have "thr_ok ?s (running_ok ?s) t"
      using y keeps_kont_ok [OF k(1) y(3)] q(4) by (simp add: thr_ok_def running_ok_def)
    moreover have "list_all (thr_ok ?s (ready_ok ?s)) ts" using all(2) by (intro keep_ready [OF k(1)]) simp_all
    moreover have "list_all (thr_ok ?s (asleep_ok ?s)) (asleep s)"
      using all(3) by (intro keep_asleep [OF k(1)]) simp_all
    moreover have "list_all (thr_ok ?s dead_ok) (dead s)" using all(4) by (intro keep_dead [of _ ?s s]) simp_all
    ultimately have "threads_ok ?s" by (simp add: threads_ok_def f)
    moreover have "counts_ok ?s" using i0 f Cons by (auto simp: kinv0_def counts_ok_def)
    ultimately have "kinv0 ?s" using f spl by (simp add: kinv0_def)
    moreover have w: "waits_on ?s = waits_on s" "acquiring ?s = acquiring s"
      using waits_on_cong [OF k(2)] acquiring_cong [OF k(2)] by simp_all
    then have "sem_ok ?s m" for m
      using ib f by (auto simp: kinv_but_def sem_ok_def split: option.splits)
    moreover have "lock_ok ?s l" for l
      using ib f w Cons by (auto simp: kinv_but_def lock_ok_def)
    moreover have "flag_ok ?s" using y(2) q(4) by (simp add: flag_ok_def switching_def)
    ultimately have "kinv ?s" by (auto simp: kinv_def kinv_but_def)
    then show ?thesis using q(5) by blast
  qed
qed

section \<open>Yielding and interrupts\<close>

text \<open>The running thread goes to the end of the run queue.\<close>

lemma kinv_to_ready:
  assumes inv: "kinv_but {} b" and run: "runs b t x"
    and th: "threads s' = (threads b)(t \<mapsto> y)" "stack_intact y" "t_kont y = Some k"
      "kont_ok b (pcb_ininterrupt y) (Some k)"
    and lists: "curthread s' = None" "ready s' = ready b @ [t]" "asleep s' = asleep b" "dead s' = dead b"
    and rest: "tables_ok s'" "sl_cap s' = sl_cap b" "rq_cap b \<le> rq_cap s'" "numthreads s' = numthreads b"
      "sems s' = sems b" "locks s' = locks b" "0 < curspl s'"
  shows "kinv s'"
proof -
  note i0 = kinv_kinv0 [OF inv] and r = runsD [OF run]
  note nin = not_in_places [OF i0 r(1)]
  have run': "running s' = []" "running b = [t]" using lists(1) r(1) by (simp_all add: running_def)
  have k: "keeps b s'" by (simp add: keeps_def rest)
  have all: "list_all (thr_ok b (ready_ok b)) (ready b)" "list_all (thr_ok b (asleep_ok b)) (asleep b)"
    "list_all (thr_ok b dead_ok) (dead b)"
    using i0 by (auto simp: kinv0_def threads_ok_def)
  have "thr_ok s' (ready_ok s') t"
    using th keeps_kont_ok [OF k th(4)] by (simp add: thr_ok_def ready_ok_def)
  moreover have "list_all (thr_ok s' (ready_ok s')) (ready b)"
    using nin all(1) by (intro keep_ready [OF k]) (auto simp: th(1))
  moreover have "list_all (thr_ok s' (asleep_ok s')) (asleep b)"
    using nin all(2) by (intro keep_asleep [OF k]) (auto simp: th(1))
  moreover have "list_all (thr_ok s' dead_ok) (dead b)"
    using nin all(3) by (intro keep_dead [of _ s' b]) (auto simp: th(1))
  ultimately have "threads_ok s'" by (simp add: threads_ok_def lists run')
  moreover have "counts_ok s'" using i0 nin rest(3) by (auto simp: kinv0_def counts_ok_def lists run' rest(2,4))
  ultimately have "kinv0 s'" using rest by (simp add: kinv0_def)
  moreover have w: "waits_on s' a u = waits_on b a u" if "u \<in> set (asleep b)" for a u
    using that nin waits_on_fun_upd [OF th(1)] by auto
  then have "sem_ok s' m" for m
    using inv by (auto simp: kinv_but_def sem_ok_def lists rest list_all_iff split: option.splits)
  moreover have "lock_ok s' l" for l
  proof -
    have "acquiring s' l u = acquiring b l u" if "u \<in> set (ready b)" for u
      by (intro acquiring_fun_upd [OF th(1)]) (use that nin in auto)
    moreover have "\<not> acquiring b l t" using r by (simp add: acquiring_def)
    ultimately show ?thesis
      using inv w by (auto simp: kinv_but_def lock_ok_def lists rest run' list_ex_iff)
  qed
  moreover have "flag_ok s'" by (simp add: flag_ok_def switching_def lists)
  ultimately show ?thesis by (simp add: kinv_def kinv_but_def)
qed

text \<open>The switch of \<open>thread_yield\<close>, whoever calls it, from a thread \<open>t\<close> that resumes at \<open>k\<close>.\<close>

lemma switch_ready_inv:
  assumes inv: "kinv_but {} b" and run: "runs b t x" and spl: "0 < curspl b"
    and k: "kont_ok b (in_interrupt b) (Some k)"
  defines "c \<equiv> b\<lparr>threads := (threads b)(t \<mapsto> x\<lparr>t_kont := Some k\<rparr>)\<rparr>"
  shows "(\<exists>s'. mi_switch_out S_READY c = Some s' \<and> kinv s' \<and> ready s' = ready b @ [t] \<and>
      asleep s' = asleep b \<and> curthread s' = None \<and> sems s' = sems b \<and> locks s' = locks b \<and>
      threads s' = (threads b)(t \<mapsto> x\<lparr>t_kont := Some k, pcb_ininterrupt := in_interrupt b\<rparr>)) \<or>
    (mi_switch_out S_READY c = None \<and> mem_fails b \<and> int (length (ready b)) = rq_cap b)"
proof -
  note i0 = kinv_kinv0 [OF inv] and r = runsD [OF run]
  let ?x = "x\<lparr>t_kont := Some k\<rparr>"
  have st: "stack_intact ?x"
    using kinv0_running [OF i0 r(1)] r(2) by (simp add: stack_intact_def)
  have f: "tables_ok c = tables_ok b" "ready c = ready b" "asleep c = asleep b" "rq_cap c = rq_cap b"
    "sl_cap c = sl_cap b" "dead c = dead b" "curspl c = curspl b" "curthread c = curthread b"
    "mem_fails c = mem_fails b" "threads c t = Some ?x"
    by (simp_all add: c_def table_defs mem_fails_def)
  have "tables_ok b" using i0 by (simp add: kinv0_def)
  with mi_switch_ready_cases [of c t ?x] st spl r kinv0_lengths [OF i0]
  have "(\<exists>s'. mi_switch_out S_READY c = Some s' \<and> tables_ok s' \<and> moved (md_switch_save t ?x c) s' \<and>
      asleep s' = asleep b \<and> ready s' = ready b @ [t] \<and> sl_cap s' = sl_cap b \<and> rq_cap b \<le> rq_cap s') \<or>
    (int (length (ready b)) = rq_cap b \<and> mem_fails b \<and> mi_switch_out S_READY c = None)"
    by (simp add: f)
  then show ?thesis
  proof (elim disjE exE conjE)
    fix s' assume s': "mi_switch_out S_READY c = Some s'" "tables_ok s'" "moved (md_switch_save t ?x c) s'"
      "asleep s' = asleep b" "ready s' = ready b @ [t]" "sl_cap s' = sl_cap b" "rq_cap b \<le> rq_cap s'"
    let ?y = "?x\<lparr>pcb_ininterrupt := in_interrupt b\<rparr>"
    note ms = moved_simps [OF s'(3)]
    have th: "threads s' = (threads b)(t \<mapsto> ?y)" by (simp add: ms md_switch_save_def c_def)
    then have "kinv s'"
      using s' spl st k by (intro kinv_to_ready [OF inv run, where y = ?y and k = k])
        (auto simp: ms md_switch_save_def c_def stack_intact_def dead_def)
    then show ?thesis using s' th by (simp add: ms md_switch_save_def c_def)
  qed simp
qed

lemma kinv0_sleepers: "kinv0 s \<Longrightarrow> sleepers s \<noteq> None"
  by (cases "sleepers s") (simp_all add: kinv0_def tables_ok_def)

lemma yield_inv:
  assumes inv: "kinv s" and run: "runs s t x"
  shows "(\<exists>s'. thread_yield s = Some s' \<and> kinv s' \<and> ready s' = ready s @ [t] \<and> asleep s' = asleep s \<and>
      curthread s' = None) \<or>
    (thread_yield s = None \<and> mem_fails s \<and> int (length (ready s)) = rq_cap s)"
proof -
  let ?b = "s\<lparr>curspl := SPL_HIGH\<rparr>"
  note b = kinv_spl_running [OF kinvD(1) [OF inv] run, of SPL_HIGH] and r = runsD [OF run]
  have k: "0 < curspl ?b" "kont_ok ?b (in_interrupt ?b) (Some (K_Yield (curspl s)))"
    using runs_flag [OF inv run] by simp_all
  have "sleepers s \<noteq> None" using kinv0_sleepers [OF kinvD(2) [OF inv]] .
  then have "thread_yield s =
    mi_switch_out S_READY (?b\<lparr>threads := (threads ?b)(t \<mapsto> x\<lparr>t_kont := Some (K_Yield (curspl s))\<rparr>)\<rparr>)"
    using r by (simp add: thread_yield_def upd_thread_def)
  moreover have "ready ?b = ready s" "asleep ?b = asleep s" "rq_cap ?b = rq_cap s" "mem_fails ?b = mem_fails s"
    by (simp_all add: table_defs mem_fails_def)
  ultimately show ?thesis using switch_ready_inv [OF b k] by auto
qed

text \<open>Entering and leaving an interrupt handler.\<close>

lemma kinv_but_flag:
  assumes inv: "kinv_but L s" and run: "curthread s = None \<or> runs s t x"
  shows "kinv_but L (s\<lparr>in_interrupt := f\<rparr>)"
proof -
  let ?s = "s\<lparr>in_interrupt := f\<rparr>"
  note i0 = kinv_kinv0 [OF inv]
  have sp: "same_places s ?s" "threads ?s = threads s" by (simp_all add: same_places_def)
  have "kinv0 ?s"
  proof (cases "curthread s")
    case None
    have k: "keeps s ?s" by (simp add: keeps_def)
    have "threads_ok s" using i0 by (simp add: kinv0_def)
    then have "threads_ok ?s"
      unfolding threads_ok_def same_places_simps [OF sp(1)]
      using None keep_ready [OF k] keep_asleep [OF k] keep_dead by (simp add: running_def)
    moreover have "switching ?s = switching s" by (rule switching_cong) simp_all
    ultimately show ?thesis using i0 by (simp add: kinv0_def same_places_simps [OF sp(1)])
  next
    case (Some u)
    then have run': "runs s t x" using run by simp
    note r = runsD [OF run']
    obtain "stack_intact x" using kinv0_running [OF i0 r(1)] r(2) by auto
    then have "kinv0 (s\<lparr>threads := (threads s)(t \<mapsto> x), in_interrupt := f\<rparr>)"
      using r by (intro kinv0_set_running [OF i0 r(1)]) simp_all
    moreover have "s\<lparr>threads := (threads s)(t \<mapsto> x), in_interrupt := f\<rparr> = ?s"
      using r(2) by (intro kern.equality) (simp_all add: fun_upd_idem)
    ultimately show ?thesis by simp
  qed
  moreover have "sem_ok ?s m = sem_ok s m" "lock_ok ?s l = lock_ok s l" for m l
    by (rule sem_ok_same [OF sp] lock_ok_same [OF sp]; simp)+
  ultimately show ?thesis using inv by (simp add: kinv_but_def)
qed

lemma kinv_but_lbolt: "kinv_but L s \<Longrightarrow> kinv_but L (s\<lparr>lbolt_counter := n\<rparr>)"
  by (erule kinv_but_frame) (rule frame_same_places; simp add: same_places_def)

text \<open>
  The handler of a timer interrupt up to its \<open>thread_yield\<close>: every hundredth tick wakes the threads
  that wait for the lightning bolt.
\<close>

definition ticked :: "kern \<Rightarrow> kern \<Rightarrow> bool" where
  "ticked s b \<longleftrightarrow> (\<exists>Q n. woken Q (s\<lparr>lbolt_counter := n\<rparr>) b)"

lemma tick_cases:
  assumes inv: "kinv_but {} s" and spl: "0 < curspl s" and n: "cint (lbolt_counter s + 1) = Some (lbolt_counter s + 1)"
  shows "(\<exists>b. hardclock_tick s = Some b \<and> kinv_but {} b \<and> ticked s b) \<or>
    (mem_fails s \<and> rq_cap s < int (length (ready s) + length (asleep s)) \<and> hardclock_tick s = None)"
proof (cases "HZ \<le> lbolt_counter s + 1")
  case True
  let ?a = "s\<lparr>lbolt_counter := 0\<rparr>"
  note a = kinv_but_lbolt [OF inv, of 0]
  have e: "hardclock_tick s = thread_wakeup LboltA ?a" using True n by (simp add: hardclock_tick_def)
  have "0 < curspl ?a" using spl by simp
  from wakeup_woken [OF kinv_kinv0 [OF a] this, of LboltA] show ?thesis
  proof (elim disjE exE conjE)
    fix b assume "thread_wakeup LboltA ?a = Some b" "woken (waits_on ?a LboltA) ?a b"
    then show ?thesis using e woken_inv(2) [OF _ a] by (auto simp: ticked_def)
  qed (use e in \<open>auto simp: table_defs mem_fails_def\<close>)
next
  case False
  let ?a = "s\<lparr>lbolt_counter := lbolt_counter s + 1\<rparr>"
  note a = kinv_but_lbolt [OF inv, of "lbolt_counter s + 1"]
  have "woken (\<lambda>u. False) ?a ?a" using kinv_kinv0 [OF a] by (intro woken_none) (simp add: kinv0_def)
  then have "ticked s ?a" by (auto simp: ticked_def)
  then show ?thesis using a False n by (simp add: hardclock_tick_def)
qed

lemma ticked_simps:
  assumes "ticked s b"
  shows "threads b = threads s" "curthread b = curthread s" "curspl b = curspl s" "in_interrupt b = in_interrupt s"
    "mem_fails b = mem_fails s" "running b = running s" "locks b = locks s" "sems b = sems s"
  using assms by (auto simp: ticked_def woken_simps mem_fails_def running_def)

lemma timer_inv:
  assumes inv: "kinv s" and run: "runs s t x" and n: "cint (lbolt_counter s + 1) = Some (lbolt_counter s + 1)"
  shows "(\<exists>s'. timer_irq s = Some s' \<and> kinv s' \<and> curthread s' = None \<and>
      threads s' = (threads s)(t \<mapsto> x\<lparr>t_kont := Some (K_Preempt SPL_HIGH 0 (curspl s)), pcb_ininterrupt := 1\<rparr>)) \<or>
    (timer_irq s = None \<and> mem_fails s)"
proof -
  let ?a = "s\<lparr>curspl := SPL_HIGH, in_interrupt := 1\<rparr>"
  note r = runsD [OF run] and fl = runs_flag [OF inv run]
  have a: "kinv_but {} ?a" "runs ?a t x"
    using kinv_but_flag [OF kinv_spl_running(1) [OF kinvD(1) [OF inv] run]] run
    by (auto simp: runs_def)
  have room: "int (length (ready ?a) + length (asleep ?a)) \<le> rq_cap ?a"
    using kinv0_room [OF kinv_kinv0 [OF a(1)]] r(1) by simp
  have "0 < curspl ?a" "cint (lbolt_counter ?a + 1) = Some (lbolt_counter ?a + 1)" using n by simp_all
  from tick_cases [OF a(1) this] room obtain b where
    b: "hardclock_tick ?a = Some b" "kinv_but {} b" "ticked ?a b" by auto
  note ts = ticked_simps [OF b(3)]
  have rb: "runs b t x" "0 < curspl b" using a(2) by (simp_all add: runs_def ts)
  let ?b = "b\<lparr>curspl := SPL_HIGH\<rparr>"
  note kb = kinv_spl_running [OF b(2) rb(1), of SPL_HIGH]
  let ?k = "K_Preempt SPL_HIGH 0 (curspl s)"
  have k: "0 < curspl ?b" "kont_ok ?b (in_interrupt ?b) (Some ?k)" by simp_all
  let ?c = "?b\<lparr>threads := (threads ?b)(t \<mapsto> x\<lparr>t_kont := Some ?k\<rparr>)\<rparr>"
  have e: "timer_irq s = mi_switch_out S_READY ?c"
    using b(1) kinv0_sleepers [OF kinv_kinv0 [OF kb(1)]] r fl
    by (simp add: timer_irq_def ts upd_thread_def)
  from switch_ready_inv [OF kb k] show ?thesis
  proof (elim disjE exE conjE)
    fix s' assume "mi_switch_out S_READY ?c = Some s'" "kinv s'" "curthread s' = None"
      "threads s' = (threads ?b)(t \<mapsto> x\<lparr>t_kont := Some ?k, pcb_ininterrupt := in_interrupt ?b\<rparr>)"
    then show ?thesis using e by (simp add: ts)
  next
    assume "mi_switch_out S_READY ?c = None" "mem_fails ?b"
    then show ?thesis using e ts by (simp add: mem_fails_def)
  qed
qed

text \<open>While the processor idles, the handler returns to the scheduler.\<close>

lemma timer_idle_inv:
  assumes inv: "kinv s" and idle: "curthread s = None" and n: "cint (lbolt_counter s + 1) = Some (lbolt_counter s + 1)"
  shows "(\<exists>s' b. timer_irq s = Some s' \<and> kinv s' \<and> ticked (s\<lparr>curspl := SPL_HIGH, in_interrupt := 1\<rparr>) b \<and>
      s' = b\<lparr>curspl := curspl s, in_interrupt := in_interrupt s\<rparr>) \<or> (mem_fails s \<and> timer_irq s = None)"
proof -
  let ?a = "s\<lparr>curspl := SPL_HIGH, in_interrupt := 1\<rparr>"
  have spl: "0 < curspl s" using kinvD(2) [OF inv] idle by (simp add: kinv0_def switching_def)
  have "kinv_but {} (s\<lparr>curspl := SPL_HIGH\<rparr>)" by (intro kinv_but_spl [OF kinvD(1) [OF inv]]) simp
  then have a: "kinv_but {} ?a" using idle by (intro kinv_but_flag) simp_all
  have "0 < curspl ?a" "cint (lbolt_counter ?a + 1) = Some (lbolt_counter ?a + 1)" using n by simp_all
  from tick_cases [OF a this] show ?thesis
  proof (elim disjE exE conjE)
    fix b assume b: "hardclock_tick ?a = Some b" "kinv_but {} b" "ticked ?a b"
    note ts = ticked_simps [OF b(3)]
    let ?s = "b\<lparr>curspl := curspl s, in_interrupt := in_interrupt s\<rparr>"
    have e: "b\<lparr>curspl := SPL_HIGH\<rparr> = b" by (intro kern.equality) (simp_all add: ts)
    have "timer_irq s = Some (irq_exit (in_interrupt s) (curspl s) (b\<lparr>curspl := SPL_HIGH\<rparr>))"
      using b(1) kinv0_sleepers [OF kinv_kinv0 [OF b(2)]] idle
      by (simp add: timer_irq_def ts mi_switch_out_def)
    also have "irq_exit (in_interrupt s) (curspl s) (b\<lparr>curspl := SPL_HIGH\<rparr>) = ?s"
      by (intro kern.equality) (simp_all add: irq_exit_def)
    finally have "timer_irq s = Some ?s" .
    moreover have "kinv_but {} ?s"
      using kinv_but_flag [OF kinv_but_spl [OF b(2), of "curspl s"]] spl idle by (simp add: ts)
    then have "kinv ?s" using idle by (simp add: kinv_def flag_ok_def switching_def ts)
    ultimately show ?thesis using b(3) by blast
  qed (simp add: mem_fails_def timer_irq_def)
qed

lemma device_inv:
  assumes inv: "kinv s" and run: "curthread s = None \<or> runs s t x" and c: "sems s m = Some c" "c < INT_MAX"
  shows "(\<exists>s'. device_irq m s = Some s' \<and> kinv s' \<and> sems s' = (sems s)(m \<mapsto> c + 1) \<and> locks s' = locks s \<and>
      threads s' = threads s \<and> curthread s' = curthread s \<and> curspl s' = curspl s \<and>
      ready s' = ready s @ filter (waits_on s (SemA m)) (asleep s)) \<or>
    (mem_fails s \<and> curthread s = None \<and> device_irq m s = None)"
proof -
  let ?a = "s\<lparr>curspl := SPL_HIGH, in_interrupt := 1\<rparr>"
  have "kinv_but {} (s\<lparr>curspl := SPL_HIGH\<rparr>)" by (intro kinv_but_spl [OF kinvD(1) [OF inv]]) simp
  then have a: "kinv_but {} ?a" using run by (intro kinv_but_flag [where t = t and x = x]) (auto simp: runs_def)
  have ac: "sems ?a m = Some c" using c by simp
  have f: "ready ?a = ready s" "asleep ?a = asleep s" "rq_cap ?a = rq_cap s" "mem_fails ?a = mem_fails s"
    "waits_on ?a = waits_on s"
    by (simp_all add: table_defs mem_fails_def waits_on_def fun_eq_iff)
  from sem_V_cases [OF a ac c(2)] show ?thesis
  proof (elim disjE exE conjE)
    fix b assume b: "sem_V m ?a = Some b" "kinv_but {} b" "sems b = (sems ?a)(m \<mapsto> c + 1)"
      "locks b = locks ?a" "threads b = threads ?a" "curthread b = curthread ?a"
      "ready b = ready ?a @ filter (waits_on ?a (SemA m)) (asleep ?a)"
    let ?s = "b\<lparr>curspl := curspl s, in_interrupt := in_interrupt s\<rparr>"
    have e: "device_irq m s = Some ?s"
      using b(1) by (simp add: device_irq_def irq_exit_def)
    have sw: "switching b = switching s" by (rule switching_cong) (simp_all add: b(5,6))
    have "kinv_but {} (b\<lparr>curspl := curspl s\<rparr>)"
      using kinvD(2) [OF inv] sw by (intro kinv_but_spl [OF b(2)]) (simp add: kinv0_def)
    then have "kinv_but {} ?s"
      using run b(5,6) by (intro kinv_but_flag [where t = t and x = x]) (auto simp: runs_def)
    moreover have "switching ?s = switching s" by (rule switching_cong) (simp_all add: b(5,6))
    ultimately have "kinv ?s" using kinvD(3) [OF inv] by (simp add: kinv_def flag_ok_def)
    moreover have "ready ?s = ready b" by (simp add: ready_def)
    ultimately show ?thesis using e b f by simp
  next
    assume m: "mem_fails ?a" "rq_cap ?a < int (length (ready ?a) + length (asleep ?a))" "sem_V m ?a = None"
    then have "curthread s = None"
      using kinv0_room [OF kinvD(2) [OF inv]] f by (cases "curthread s") auto
    then show ?thesis using m(1,3) f by (simp add: device_irq_def)
  qed
qed

end
