(* ===== verification/Kern_Thread.thy ===== *)
theory Kern_Thread
  imports Kern_Steps
begin

text \<open>
  Creation and end of threads (\<^verbatim>\<open>kern/thread/thread.c\<close>): \<open>thread_create\<close>, \<open>thread_bootstrap\<close>,
  \<open>thread_fork\<close>, \<open>thread_exit\<close>, \<open>thread_shutdown\<close>, with the process list and the child slots they
  maintain.

  A vnode is known here by its reference count only: \<open>vnode_incref\<close> and \<open>vnode_decref\<close> run their
  critical section on a free \<open>vn_countlock\<close>. Memory that a structure has left is not handed out
  again, so that a pointer to a freed thread is a dangling one for ever.
\<close>

section \<open>Vnode counts\<close>

definition vnode_incref :: "nat \<Rightarrow> kern \<Rightarrow> kern option" where
  "vnode_incref vn s = do {
     n \<leftarrow> cint (vnrefs s vn + 1);
     Some (s\<lparr>vnrefs := (vnrefs s)(vn := n)\<rparr>) }"

text \<open>With the flag that says whether the caller goes on to \<open>VOP_RECLAIM\<close>.\<close>

definition vnode_decref :: "nat \<Rightarrow> kern \<Rightarrow> (bool \<times> kern) option" where
  "vnode_decref vn s = do {
     kassert (0 < vnrefs s vn);
     Some (if 1 < vnrefs s vn then (False, s\<lparr>vnrefs := (vnrefs s)(vn := vnrefs s vn - 1)\<rparr>) else (True, s)) }"

section \<open>Creation\<close>

definition thread_init :: "tid \<Rightarrow> kern \<Rightarrow> kern option" where
  "thread_init t s = do {
     s \<leftarrow> upd_thread t (\<lambda>x. x\<lparr>t_pid := - 1, t_parent := None\<rparr>) s;
     (w, s) \<leftarrow> sem_create 0 s;
     upd_thread t (\<lambda>x. x\<lparr>t_wait := w, t_child := replicate MAX_CHILD None\<rparr>) s }"

definition thread_create :: "string \<Rightarrow> kern \<Rightarrow> (tid option \<times> kern) option" where
  "thread_create name s = do {
     let (p, s) = kmalloc_struct s;
     (case p of
        None \<Rightarrow> Some (None, s)
      | Some t \<Rightarrow> do {
          let (b, s) = kmalloc_ask s;
          if b [] = None then Some (None, s)
          else do {
            let x = \<lparr>t_name = name, t_sleepaddr = None, t_stack = None, t_vmspace = None, t_cwd = None,
                     t_pid = 0, t_child = [], t_parent = None, t_wait = None,
                     t_kont = None, pcb_ininterrupt = 0\<rparr>;
            s \<leftarrow> thread_init t (s\<lparr>threads := (threads s)(t \<mapsto> x)\<rparr>);
            let pid = max_pid s;
            s \<leftarrow> upd_thread t (\<lambda>x. x\<lparr>t_pid := pid\<rparr>) s;
            n \<leftarrow> cint (max_pid s + 1);
            s \<leftarrow> insert_to_plist t (s\<lparr>max_pid := n\<rparr>);
            Some (Some t, s) } }) }"

definition thread_bootstrap :: "kern \<Rightarrow> (tid \<times> kern) option" where
  "thread_bootstrap s = do {
     let (a, s) = kmalloc_ask s;
     g \<leftarrow> a [];
     let s = plist_init s;
     (l, s) \<leftarrow> sem_create 0 s;
     let s = s\<lparr>lock_sem := l\<rparr>;
     let (b, s) = kmalloc_ask s;
     sl \<leftarrow> array_create (b [] \<noteq> None);
     let s = s\<lparr>sleepers := Some sl\<rparr>;
     let (b, s) = kmalloc_ask s;
     zs \<leftarrow> array_create (b [] \<noteq> None);
     let s = s\<lparr>zombies := Some zs\<rparr>;
     (p, s) \<leftarrow> thread_create ''<boot/menu>'' s;
     me \<leftarrow> p;
     s \<leftarrow> upd_thread me (\<lambda>x. x\<lparr>pcb_ininterrupt := 0\<rparr>) s;
     Some (me, s\<lparr>curthread := Some me, numthreads := 1\<rparr>) }"

definition thread_shutdown :: "kern \<Rightarrow> kern option" where
  "thread_shutdown s = do {
     sl \<leftarrow> sleepers s;
     zs \<leftarrow> zombies s;
     Some (s\<lparr>sleepers := None, zombies := None\<rparr>) }"

section \<open>Forking\<close>

text \<open>A new stack of 4096 bytes with the magic number at its low end.\<close>

definition new_stack :: "(nat \<Rightarrow> nat) \<Rightarrow> 8 word list" where
  "new_stack g = stack_magic @ map (\<lambda>i. of_nat (g i)) [4..<4096]"

text \<open>The new thread starts in \<open>mips_threadstart\<close>.\<close>

definition md_initpcb :: "tid \<Rightarrow> kern \<Rightarrow> kern option" where
  "md_initpcb t s = upd_thread t (\<lambda>x. x\<lparr>t_kont := Some K_Start, pcb_ininterrupt := 0\<rparr>) s"

text \<open>The first free slot; \<open>MAX_CHILD\<close>, which is out of range, when there is none.\<close>

primrec child_slot :: "nat list \<Rightarrow> thread \<Rightarrow> nat option" where
  "child_slot [] x = Some MAX_CHILD"
| "child_slot (i # is) x = do {
     c \<leftarrow> rd (t_child x) (int i);
     if c = None then Some i else child_slot is x }"

definition add_child :: "tid \<Rightarrow> kern \<Rightarrow> kern option" where
  "add_child newguy s = do {
     cur \<leftarrow> curthread s;
     x \<leftarrow> threads s cur;
     i \<leftarrow> child_slot [0..<MAX_CHILD] x;
     s \<leftarrow> (if i < MAX_CHILD then upd_thread cur (\<lambda>x. x\<lparr>t_child := (t_child x)[i := Some newguy]\<rparr>) s else Some s);
     x \<leftarrow> threads s cur;
     c \<leftarrow> rd (t_child x) (int i);
     s \<leftarrow> upd_thread newguy (\<lambda>y. y\<lparr>t_parent := Some cur\<rparr>) s;
     y \<leftarrow> threads s newguy;
     set_parentpid (t_pid x) (t_pid y) s }"

definition sleepers_preallocate :: "int \<Rightarrow> kern \<Rightarrow> ((errno + unit) \<times> kern) option" where
  "sleepers_preallocate n s = do {
     sl \<leftarrow> sleepers s;
     let (a, s) = kmalloc_ask s;
     (r, sl') \<leftarrow> array_preallocate (a []) sl n;
     Some (r, s\<lparr>sleepers := Some sl'\<rparr>) }"

definition zombies_preallocate :: "int \<Rightarrow> kern \<Rightarrow> ((errno + unit) \<times> kern) option" where
  "zombies_preallocate n s = do {
     zs \<leftarrow> zombies s;
     let (a, s) = kmalloc_ask s;
     (r, zs') \<leftarrow> array_preallocate (a []) zs n;
     Some (r, s\<lparr>zombies := Some zs'\<rparr>) }"

text \<open>The four calls that may fail; the first that fails ends them.\<close>

definition fork_reserve :: "tid \<Rightarrow> kern \<Rightarrow> ((errno + unit) \<times> kern) option" where
  "fork_reserve newguy s = do {
     n \<leftarrow> cint (numthreads s + 1);
     (r, s) \<leftarrow> sleepers_preallocate n s;
     if r \<noteq> Inr () then Some (r, s)
     else do {
       (r, s) \<leftarrow> zombies_preallocate n s;
       if r \<noteq> Inr () then Some (r, s)
       else do {
         (r, s) \<leftarrow> scheduler_preallocate n s;
         if r \<noteq> Inr () then Some (r, s)
         else make_runnable newguy s } } }"

definition inherit_cwd :: "tid \<Rightarrow> kern \<Rightarrow> kern option" where
  "inherit_cwd newguy s = do {
     cur \<leftarrow> curthread s;
     x \<leftarrow> threads s cur;
     (case t_cwd x of
        None \<Rightarrow> Some s
      | Some v \<Rightarrow> do {
          s \<leftarrow> vnode_incref v s;
          upd_thread newguy (\<lambda>y. y\<lparr>t_cwd := Some v\<rparr>) s }) }"

definition fork_fail :: "tid \<Rightarrow> kern \<Rightarrow> kern option" where
  "fork_fail newguy s = do {
     y \<leftarrow> threads s newguy;
     s \<leftarrow> (case t_cwd y of None \<Rightarrow> Some s | Some v \<Rightarrow> do { (b, s) \<leftarrow> vnode_decref v s; Some s });
     Some (s\<lparr>threads := (threads s)(newguy := None)\<rparr>) }"

definition thread_fork :: "string \<Rightarrow> kern \<Rightarrow> ((errno + tid) \<times> kern) option" where
  "thread_fork name s = do {
     (p, s) \<leftarrow> thread_create name s;
     (case p of
        None \<Rightarrow> Some (Inl ENOMEM, s)
      | Some newguy \<Rightarrow> do {
          let (a, s) = kmalloc_ask s;
          (case a [] of
             None \<Rightarrow> Some (Inl ENOMEM, s\<lparr>threads := (threads s)(newguy := None)\<rparr>)
           | Some g \<Rightarrow> do {
               s \<leftarrow> upd_thread newguy (\<lambda>x. x\<lparr>t_stack := Some (new_stack g)\<rparr>) s;
               s \<leftarrow> inherit_cwd newguy s;
               s \<leftarrow> md_initpcb newguy s;
               s \<leftarrow> add_child newguy s;
               let (spl, s) = splhigh s;
               (r, s) \<leftarrow> fork_reserve newguy s;
               (case r of
                  Inr u \<Rightarrow> do {
                    n \<leftarrow> cint (numthreads s + 1);
                    Some (Inr newguy, snd (splx spl (s\<lparr>numthreads := n\<rparr>))) }
                | Inl e \<Rightarrow> do {
                    s \<leftarrow> fork_fail newguy (snd (splx spl s));
                    Some (Inl e, s) }) }) }) }"

section \<open>Exit\<close>

text \<open>\<open>as_destroy\<close> frees the structure only.\<close>

definition exit_vmspace :: "tid \<Rightarrow> kern \<Rightarrow> kern option" where
  "exit_vmspace t s = do {
     x \<leftarrow> threads s t;
     (case t_vmspace x of
        None \<Rightarrow> Some s
      | Some a \<Rightarrow> do {
          s \<leftarrow> upd_thread t (\<lambda>x. x\<lparr>t_vmspace := None\<rparr>) s;
          Some (s\<lparr>spaces := (spaces s)(a := None)\<rparr>) }) }"

definition exit_cwd :: "tid \<Rightarrow> kern \<Rightarrow> kern option" where
  "exit_cwd t s = do {
     x \<leftarrow> threads s t;
     (case t_cwd x of
        None \<Rightarrow> Some s
      | Some v \<Rightarrow> do {
          (b, s) \<leftarrow> vnode_decref v s;
          upd_thread t (\<lambda>x. x\<lparr>t_cwd := None\<rparr>) s }) }"

definition thread_exit :: "kern \<Rightarrow> kern option" where
  "thread_exit s = do {
     t \<leftarrow> curthread s;
     s \<leftarrow> upd_thread t (\<lambda>x. x\<lparr>t_parent := None\<rparr>) s;
     x \<leftarrow> threads s t;
     s \<leftarrow> set_exited (t_pid x) s;
     w \<leftarrow> t_wait x;
     s \<leftarrow> sem_V w s;
     l \<leftarrow> lock_sem s;
     s \<leftarrow> sem_V l s;
     kassert (stack_intact x);
     let (spl, s) = splhigh s;
     s \<leftarrow> exit_vmspace t s;
     s \<leftarrow> exit_cwd t s;
     kassert (0 < numthreads s);
     mi_switch_out S_ZOMB (s\<lparr>numthreads := numthreads s - 1\<rparr>) }"

section \<open>Fresh identifiers\<close>

text \<open>Addresses from \<open>next_id\<close> on are unused.\<close>

definition ids_ok :: "kern \<Rightarrow> bool" where
  "ids_ok s \<longleftrightarrow> (\<forall>i. next_id s \<le> i \<longrightarrow> threads s i = None \<and> sems s i = None \<and> locks s i = None)"

lemma ids_ok_mono:
  assumes "ids_ok s" "next_id s' = next_id s" "dom (threads s') \<subseteq> dom (threads s)" "dom (sems s') \<subseteq> dom (sems s)"
    "dom (locks s') \<subseteq> dom (locks s)"
  shows "ids_ok s'"
  unfolding ids_ok_def assms(2)
proof (intro allI impI)
  fix i assume "next_id s \<le> i"
  then have "i \<notin> dom (threads s)" "i \<notin> dom (sems s)" "i \<notin> dom (locks s)" using assms(1) by (auto simp: ids_ok_def)
  then have "i \<notin> dom (threads s')" "i \<notin> dom (sems s')" "i \<notin> dom (locks s')" using assms(3-5) by blast+
  then show "threads s' i = None \<and> sems s' i = None \<and> locks s' i = None" by (simp add: domIff)
qed

lemma placed_exists:
  assumes "kinv0 s" "u \<in> places s"
  shows "threads s u \<noteq> None"
  using assms by (auto simp: kinv0_def threads_ok_def places_def list_all_iff dest!: thr_okD)

lemma fresh_not_placed: "kinv0 s \<Longrightarrow> ids_ok s \<Longrightarrow> next_id s \<le> n \<Longrightarrow> n \<notin> places s"
  using placed_exists [of s n] by (auto simp: ids_ok_def)

text \<open>What the kernel looks like after the creation of thread \<open>n\<close>.\<close>

definition created :: "string \<Rightarrow> tid \<Rightarrow> nat option \<Rightarrow> kern \<Rightarrow> kern \<Rightarrow> bool" where
  "created name n w s s' \<longleftrightarrow>
     n = next_id s \<and> next_id s < next_id s' \<and> same_places s s' \<and> curspl s' = curspl s \<and>
     in_interrupt s' = in_interrupt s \<and> locks s' = locks s \<and> k_mem s' = k_mem s \<and> vnrefs s' = vnrefs s \<and>
     threads s' = (threads s)(n \<mapsto>
       \<lparr>t_name = name, t_sleepaddr = None, t_stack = None, t_vmspace = None, t_cwd = None, t_pid = max_pid s,
        t_child = replicate MAX_CHILD None, t_parent = None, t_wait = w, t_kont = None, pcb_ininterrupt = 0\<rparr>) \<and>
     (case w of None \<Rightarrow> sems s' = sems s
      | Some m \<Rightarrow> n < m \<and> m < next_id s' \<and> sems s' = (sems s)(m \<mapsto> 0)) \<and>
     max_pid s' = max_pid s + 1 \<and> lock_sem s' = lock_sem s \<and>
     (\<exists>ps junk. plist s = Some ps \<and>
       plist s' = Some (ps @ [\<lparr>p_thread = Some n, p_excode = - 1, p_exited = 0, p_pid = max_pid s,
                              p_parentpid = junk, p_waited = 0\<rparr>]))"

lemma cint_SomeD: "cint n = Some m \<Longrightarrow> m = n" by (simp add: cint_def split: if_splits)

definition asked :: "kern \<Rightarrow> kern \<Rightarrow> bool" where
  "asked s s' \<longleftrightarrow> (\<exists>k i. s' = s\<lparr>k_nalloc := k, next_id := i\<rparr> \<and> next_id s \<le> i)"

lemma asked_simps:
  "asked s (s\<lparr>k_nalloc := k\<rparr>)"
  "next_id s \<le> i \<Longrightarrow> asked s (s\<lparr>k_nalloc := k, next_id := i\<rparr>)"
  "next_id s \<le> i \<Longrightarrow> asked s (s\<lparr>next_id := i, k_nalloc := k\<rparr>)"
  unfolding asked_def
  by (rule exI [of _ k], rule exI [of _ "next_id s"], simp)
    (rule exI [of _ k], rule exI [of _ i], simp)+

lemma asked_fields:
  assumes "asked s s'"
  shows "threads s' = threads s" "sems s' = sems s" "locks s' = locks s" "same_places s s'" "curspl s' = curspl s"
    "in_interrupt s' = in_interrupt s" "k_mem s' = k_mem s" "vnrefs s' = vnrefs s" "max_pid s' = max_pid s"
    "lock_sem s' = lock_sem s" "plist s' = plist s" "next_id s \<le> next_id s'"
  using assms by (auto simp: asked_def same_places_def)

lemma sem_create_cases:
  assumes "sem_create c s = Some (p, s')"
  shows "case p of
      None \<Rightarrow> asked s s'
    | Some m \<Rightarrow> m = next_id s \<and> 0 \<le> c \<and> (\<exists>k. s' = s\<lparr>k_nalloc := k, next_id := Suc m, sems := (sems s)(m \<mapsto> c)\<rparr>)"
proof (cases "k_mem s (k_nalloc s) []")
  case None
  then show ?thesis
    using assms by (auto simp: sem_create_def kmalloc_struct_def kmalloc_ask_def bind_eq_Some_conv asked_simps)
next
  case (Some g)
  show ?thesis
  proof (cases "k_mem s (Suc (k_nalloc s)) []")
    case None
    then show ?thesis
      using Some assms
      by (auto simp: sem_create_def kmalloc_struct_def kmalloc_ask_def bind_eq_Some_conv asked_simps)
  next
    case (Some h)
    then have "p = Some (next_id s)" "0 \<le> c" "s' = s\<lparr>next_id := Suc (next_id s), k_nalloc := Suc (Suc (k_nalloc s)),
        sems := (sems s)(next_id s \<mapsto> c)\<rparr>"
      using \<open>k_mem s (k_nalloc s) [] = Some g\<close> assms
      by (auto simp: sem_create_def kmalloc_struct_def kmalloc_ask_def bind_eq_Some_conv)
    then show ?thesis by (auto intro!: exI [of _ "Suc (Suc (k_nalloc s))"])
  qed
qed

definition inited :: "tid \<Rightarrow> thread \<Rightarrow> nat option \<Rightarrow> kern \<Rightarrow> kern \<Rightarrow> bool" where
  "inited n x w s s' \<longleftrightarrow>
     same_places s s' \<and> curspl s' = curspl s \<and> in_interrupt s' = in_interrupt s \<and> locks s' = locks s \<and>
     k_mem s' = k_mem s \<and> vnrefs s' = vnrefs s \<and> max_pid s' = max_pid s \<and> lock_sem s' = lock_sem s \<and>
     plist s' = plist s \<and> next_id s \<le> next_id s' \<and>
     threads s' = (threads s)(n \<mapsto> x\<lparr>t_pid := - 1, t_parent := None, t_wait := w,
           t_child := replicate MAX_CHILD None\<rparr>) \<and>
     (case w of None \<Rightarrow> sems s' = sems s
      | Some m \<Rightarrow> n < m \<and> m < next_id s' \<and> sems s' = (sems s)(m \<mapsto> 0))"

lemma thread_init_fields:
  assumes "thread_init n s = Some s'" "threads s n = Some x" "n < next_id s"
  shows "\<exists>w. inited n x w s s'"
proof -
  let ?a = "s\<lparr>threads := (threads s)(n \<mapsto> x\<lparr>t_pid := - 1, t_parent := None\<rparr>)\<rparr>"
  obtain w b where b: "sem_create 0 ?a = Some (w, b)"
    "upd_thread n (\<lambda>x. x\<lparr>t_wait := w, t_child := replicate MAX_CHILD None\<rparr>) b = Some s'"
    using assms(1,2) by (auto simp: thread_init_def upd_thread_def bind_eq_Some_conv)
  have e: "s' = b\<lparr>threads := (threads b)(n \<mapsto> x\<lparr>t_pid := - 1, t_parent := None, t_wait := w,
      t_child := replicate MAX_CHILD None\<rparr>)\<rparr>" if "threads b = threads ?a"
    using b(2) that by (auto simp: upd_thread_def bind_eq_Some_conv)
  note sc = sem_create_cases [OF b(1)]
  have "inited n x w s s'"
  proof (cases w)
    case None
    then show ?thesis using sc e by (auto simp: inited_def asked_def same_places_def)
  next
    case (Some m)
    then obtain k where "m = next_id s" "b = ?a\<lparr>k_nalloc := k, next_id := Suc m, sems := (sems s)(m \<mapsto> 0)\<rparr>"
      using sc by auto
    then show ?thesis using e assms(3) Some by (simp add: inited_def same_places_def)
  qed
  then show ?thesis ..
qed

lemma thread_create_cases:
  assumes "thread_create name s = Some (p, s')"
  shows "case p of None \<Rightarrow> asked s s' | Some n \<Rightarrow> \<exists>w. created name n w s s'"
proof (cases "k_mem s (k_nalloc s) [] = None \<or> k_mem s (Suc (k_nalloc s)) [] = None")
  case True
  then show ?thesis
    using assms
    by (auto simp: thread_create_def kmalloc_struct_def kmalloc_ask_def asked_simps split: if_splits)
next
  case False
  let ?n = "next_id s"
  let ?x = "\<lparr>t_name = name, t_sleepaddr = None, t_stack = None, t_vmspace = None, t_cwd = None,
    t_pid = 0, t_child = [], t_parent = None, t_wait = None, t_kont = None, pcb_ininterrupt = 0\<rparr>"
  let ?a = "s\<lparr>next_id := Suc ?n, k_nalloc := Suc (Suc (k_nalloc s)), threads := (threads s)(?n \<mapsto> ?x)\<rparr>"
  obtain b c d where b: "thread_init ?n ?a = Some b" "upd_thread ?n (\<lambda>x. x\<lparr>t_pid := max_pid b\<rparr>) b = Some c"
    "insert_to_plist ?n (c\<lparr>max_pid := max_pid c + 1\<rparr>) = Some s'" and p: "p = Some ?n"
    using assms False
    by (auto simp: thread_create_def kmalloc_struct_def kmalloc_ask_def bind_eq_Some_conv Let_def
      dest: cint_SomeD split: if_splits)
  obtain w where w: "inited ?n ?x w ?a b" using thread_init_fields [OF b(1), of ?x] by auto
  have "created name ?n w s s'"
    using b(2,3) w
    by (auto simp: inited_def created_def upd_thread_def insert_to_plist_def kmalloc_ask_def bind_eq_Some_conv
      same_places_def split: option.splits)
  then show ?thesis using p by auto
qed

lemma created_frame:
  assumes "created name n w s s'" "ids_ok s" "kinv0 s"
  shows "frame s s'" "ids_ok s'" "n \<notin> places s"
proof -
  have sp: "same_places s s'" and n: "n = next_id s" using assms(1) by (simp_all add: created_def)
  show nin: "n \<notin> places s" using fresh_not_placed [OF assms(3,2)] n by simp
  have "\<forall>m. sems s' m = sems s m \<or> (sems s m = None \<and> (\<forall>c. sems s' m = Some c \<longrightarrow> 0 \<le> c))"
    using assms(1,2) by (auto simp: created_def ids_ok_def split: option.splits)
  then show "frame s s'"
    using assms(1) nin by (simp add: frame_def same_places_simps [OF sp]) (auto simp: created_def same_places_def)
  show "ids_ok s'"
    using assms(1,2) by (auto simp: created_def ids_ok_def split: option.splits)
qed

section \<open>Reserving room\<close>

text \<open>The tables have grown, with the same contents.\<close>

definition grown :: "kern \<Rightarrow> kern \<Rightarrow> bool" where
  "grown s s' \<longleftrightarrow> frame s s' \<and>
     (\<exists>sl zs q k. s' = s\<lparr>sleepers := sl, zombies := zs, runqueue := q, k_nalloc := k\<rparr>)"

lemma grown_fields:
  assumes "grown s s'"
  shows "frame s s'" "threads s' = threads s" "sems s' = sems s" "locks s' = locks s" "next_id s' = next_id s"
    "numthreads s' = numthreads s" "curspl s' = curspl s" "plist s' = plist s" "vnrefs s' = vnrefs s"
    "curthread s' = curthread s" "in_interrupt s' = in_interrupt s" "max_pid s' = max_pid s"
    "lock_sem s' = lock_sem s" "k_mem s' = k_mem s"
  using assms by (auto simp: grown_def)

lemma grown_trans:
  assumes "grown a b" "grown b c"
  shows "grown a c"
proof -
  obtain sl zs q k where b: "b = a\<lparr>sleepers := sl, zombies := zs, runqueue := q, k_nalloc := k\<rparr>"
    using assms(1) by (auto simp: grown_def)
  obtain sl' zs' q' k' where "c = b\<lparr>sleepers := sl', zombies := zs', runqueue := q', k_nalloc := k'\<rparr>"
    using assms(2) by (auto simp: grown_def)
  then have "c = a\<lparr>sleepers := sl', zombies := zs', runqueue := q', k_nalloc := k'\<rparr>" by (simp add: b)
  then show ?thesis using frame_trans assms unfolding grown_def by blast
qed

lemma grownI:
  assumes "tables_ok s" "s' = s\<lparr>sleepers := Some sl, zombies := Some zs, runqueue := Some q, k_nalloc := k\<rparr>"
    "array_ok sl" "array_ok zs" "q_ok q" "guys sl = asleep s" "guys zs = dead s" "q_items q = ready s"
    "sl_cap s \<le> a_max sl" "rq_cap s \<le> q_size q - 1"
  shows "grown s s'"
  using assms unfolding grown_def frame_def by (auto simp: table_defs)

lemma sleepers_preallocate_cases:
  assumes "tables_ok s" "n < 2 ^ 29"
  shows "\<exists>r s'. sleepers_preallocate n s = Some (r, s') \<and> grown s s' \<and>
    (r = Inl ENOMEM \<and> mem_fails s \<or> r = Inr () \<and> n \<le> sl_cap s')"
proof -
  obtain sl zs q where t: "sleepers s = Some sl" "zombies s = Some zs" "runqueue s = Some q"
    "array_ok sl" "array_ok zs" "q_ok q"
    using assms(1) by (auto simp: tables_ok_def split: option.splits)
  let ?m = "k_mem s (k_nalloc s) []"
  obtain r sl' where sl': "array_preallocate ?m sl n = Some (r, sl')" "array_ok sl'" "guys sl' = guys sl"
    "a_max sl \<le> a_max sl'" "r = Inl ENOMEM \<and> ?m = None \<or> r = Inr () \<and> n \<le> a_max sl'"
    using array_preallocate_ok [OF t(4) assms(2), of ?m] t(4) by (cases ?m) auto
  let ?s = "s\<lparr>sleepers := Some sl', k_nalloc := Suc (k_nalloc s)\<rparr>"
  have "grown s ?s"
    using t sl' by (intro grownI [OF assms(1), where sl = sl' and zs = zs and q = q and k = "Suc (k_nalloc s)"])
      (simp_all add: table_defs)
  moreover have "sleepers_preallocate n s = Some (r, ?s)"
    using t sl'(1) by (simp add: sleepers_preallocate_def kmalloc_ask_def)
  ultimately show ?thesis
    using sl'(5) unfolding mem_fails_def by (intro exI [of _ r] exI [of _ ?s]) (auto simp: table_defs)
qed

lemma zombies_preallocate_cases:
  assumes "tables_ok s" "n < 2 ^ 29"
  shows "\<exists>r s'. zombies_preallocate n s = Some (r, s') \<and> grown s s' \<and> (r = Inl ENOMEM \<and> mem_fails s \<or> r = Inr ())"
proof -
  obtain sl zs q where t: "sleepers s = Some sl" "zombies s = Some zs" "runqueue s = Some q"
    "array_ok sl" "array_ok zs" "q_ok q"
    using assms(1) by (auto simp: tables_ok_def split: option.splits)
  let ?m = "k_mem s (k_nalloc s) []"
  obtain r zs' where zs': "array_preallocate ?m zs n = Some (r, zs')" "array_ok zs'" "guys zs' = guys zs"
    "r = Inl ENOMEM \<and> ?m = None \<or> r = Inr ()"
    using array_preallocate_ok [OF t(5) assms(2), of ?m] t(5) by (cases ?m) auto
  let ?s = "s\<lparr>zombies := Some zs', k_nalloc := Suc (k_nalloc s)\<rparr>"
  have "grown s ?s"
    using t zs' by (intro grownI [OF assms(1), where sl = sl and zs = zs' and q = q and k = "Suc (k_nalloc s)"])
      (simp_all add: table_defs)
  moreover have "zombies_preallocate n s = Some (r, ?s)"
    using t zs'(1) by (simp add: zombies_preallocate_def kmalloc_ask_def)
  ultimately show ?thesis using zs'(4) unfolding mem_fails_def by blast
qed

lemma scheduler_preallocate_cases:
  assumes "tables_ok s" "n < 2 ^ 29" "0 < curspl s"
  shows "\<exists>r s'. scheduler_preallocate n s = Some (r, s') \<and> grown s s' \<and>
    (r = Inl ENOMEM \<and> mem_fails s \<or> r = Inr () \<and> n \<le> rq_cap s' + 1)"
proof -
  obtain sl zs q where t: "sleepers s = Some sl" "zombies s = Some zs" "runqueue s = Some q"
    "array_ok sl" "array_ok zs" "q_ok q"
    using assms(1) by (auto simp: tables_ok_def split: option.splits)
  let ?m = "k_mem s (k_nalloc s)"
  have "n \<le> 2 ^ 29" using assms(2) by simp
  from q_preallocate_items [OF t(6) this, of ?m] t(6)
  obtain r q' where q': "q_preallocate ?m q n = Some (r, q')" "q_ok q'" "q_items q' = q_items q"
    "q_size q \<le> q_size q'" "r = Inl ENOMEM \<and> ?m [] = None \<or> r = Inr () \<and> n \<le> q_size q'"
    by (cases "q_size q < n \<and> ?m [] = None") auto
  let ?s = "s\<lparr>runqueue := Some q', k_nalloc := Suc (k_nalloc s)\<rparr>"
  have "grown s ?s"
    using t q' by (intro grownI [OF assms(1), where sl = sl and zs = zs and q = q' and k = "Suc (k_nalloc s)"])
      (simp_all add: table_defs)
  moreover have "scheduler_preallocate n s = Some (r, ?s)"
    using t q'(1) assms(3) by (simp add: scheduler_preallocate_def kmalloc_ask_def)
  ultimately show ?thesis
    using q'(5) unfolding mem_fails_def by (intro exI [of _ r] exI [of _ ?s]) (auto simp: table_defs)
qed

lemma grown_tables: "grown s s' \<Longrightarrow> tables_ok s \<Longrightarrow> tables_ok s'"
  using grown_fields(1) by (simp add: frame_def)

text \<open>With the room reserved the new thread always fits into the run queue.\<close>

lemma fork_reserve_cases:
  assumes inv: "kinv0 s" and cur: "curthread s = Some t" and spl: "0 < curspl s"
  shows "(\<exists>s'. fork_reserve n s = Some (Inl ENOMEM, s') \<and> grown s s' \<and> mem_fails s) \<or>
    (\<exists>a s'. fork_reserve n s = Some (Inr (), s') \<and> grown s a \<and> numthreads s + 1 \<le> sl_cap a \<and>
      numthreads s \<le> rq_cap a \<and> tables_ok s' \<and> moved a s' \<and> asleep s' = asleep s \<and> ready s' = ready s @ [n] \<and>
      sl_cap s' = sl_cap a \<and> rq_cap a \<le> rq_cap s')"
proof -
  have tab: "tables_ok s" and cnt: "numthreads s = 1 + int (length (ready s) + length (asleep s))"
    "numthreads s < 2 ^ 27" "1 \<le> numthreads s"
    using inv cur by (auto simp: kinv0_def counts_ok_def running_def)
  let ?m = "numthreads s + 1"
  have m: "?m < 2 ^ 29" "cint ?m = Some ?m" using cnt by (simp_all add: cint_def)
  obtain r1 a where a: "sleepers_preallocate ?m s = Some (r1, a)" "grown s a"
    "r1 = Inl ENOMEM \<and> mem_fails s \<or> r1 = Inr () \<and> ?m \<le> sl_cap a"
    using sleepers_preallocate_cases [OF tab m(1)] by blast
  note ta = grown_tables [OF a(2) tab]
  obtain r2 b where b: "zombies_preallocate ?m a = Some (r2, b)" "grown a b"
    "r2 = Inl ENOMEM \<and> mem_fails a \<or> r2 = Inr ()"
    using zombies_preallocate_cases [OF ta m(1)] by blast
  note tb = grown_tables [OF b(2) ta] and gb = grown_trans [OF a(2) b(2)]
  have "0 < curspl b" using spl by (simp add: grown_fields [OF gb])
  then obtain r3 c where c: "scheduler_preallocate ?m b = Some (r3, c)" "grown b c"
    "r3 = Inl ENOMEM \<and> mem_fails b \<or> r3 = Inr () \<and> ?m \<le> rq_cap c + 1"
    using scheduler_preallocate_cases [OF tb m(1)] by blast
  note tc = grown_tables [OF c(2) tb] and gc = grown_trans [OF gb c(2)]
  have mf: "mem_fails a = mem_fails s" "mem_fails b = mem_fails s"
    using grown_fields(14) [OF a(2)] grown_fields(14) [OF gb] by (simp_all add: mem_fails_def)
  consider "r1 = Inl ENOMEM" | "r1 = Inr ()" "r2 = Inl ENOMEM" | "r1 = Inr ()" "r2 = Inr ()" "r3 = Inl ENOMEM"
    | "r1 = Inr ()" "r2 = Inr ()" "r3 = Inr ()"
    using a(3) b(3) c(3) by blast
  then show ?thesis
  proof cases
    case 4
    have rc: "ready c = ready s" "asleep c = asleep s" using grown_fields(1) [OF gc] by (simp_all add: frame_def)
    have cap: "sl_cap a \<le> sl_cap c" using grown_fields(1) [OF grown_trans [OF b(2) c(2)]] by (simp add: frame_def)
    have "0 < curspl c" "length (ready c) < 2 ^ 28" using spl cnt rc by (simp_all add: grown_fields [OF gc])
    note mr = make_runnable_cases [OF tc this, of n]
    have "int (length (ready c)) < rq_cap c" using c(3) 4 cnt rc by auto
    with mr obtain s' where s': "make_runnable n c = Some (Inr (), s')" "tables_ok s'" "moved c s'"
      "asleep s' = asleep c" "ready s' = ready c @ [n]" "sl_cap s' = sl_cap c" "rq_cap c \<le> rq_cap s'" by auto
    have "fork_reserve n s = Some (Inr (), s')" using 4 a b c s'(1) m(2) by (simp add: fork_reserve_def)
    then show ?thesis using s' gc rc cap a(3) c(3) 4 by (intro disjI2 exI [of _ c] exI [of _ s']) auto
  qed (use a b c gb gc m mf in \<open>auto simp: fork_reserve_def\<close>)
qed

lemma kinv_add_ready:
  assumes inv: "kinv_but {} a" and run: "runs a t x" and new: "n \<notin> places a" "threads a n = Some y"
      "stack_intact y" "t_kont y = Some K_Start" "pcb_ininterrupt y = 0"
    and mv: "moved a b" "tables_ok b" "asleep b = asleep a" "ready b = ready a @ [n]" "sl_cap b = sl_cap a"
      "rq_cap a \<le> rq_cap b"
    and room: "numthreads a + 1 \<le> sl_cap a" "numthreads a \<le> rq_cap a" "numthreads a + int (length (dead a)) + 1 < 2 ^ 27"
  shows "kinv_but {} (b\<lparr>numthreads := numthreads a + 1\<rparr>)" (is "kinv_but {} ?s")
proof -
  note ms = moved_simps [OF mv(1)] and i0 = kinv_kinv0 [OF inv]
  have f: "running ?s = running a" "ready ?s = ready a @ [n]" "asleep ?s = asleep a" "dead ?s = dead a"
    "tables_ok ?s" "sl_cap ?s = sl_cap a" "rq_cap ?s = rq_cap b"
    using mv ms by (simp_all add: table_defs)
  have k: "keeps a ?s" "in_interrupt ?s = in_interrupt a" by (simp_all add: keeps_def ms)
  have all: "list_all (thr_ok a (running_ok a)) (running a)" "list_all (thr_ok a (ready_ok a)) (ready a)"
    "list_all (thr_ok a (asleep_ok a)) (asleep a)" "list_all (thr_ok a dead_ok) (dead a)"
    using i0 by (auto simp: kinv0_def threads_ok_def)
  have "thr_ok a (ready_ok a) n" using new by (simp add: thr_ok_def ready_ok_def)
  then have "list_all (thr_ok a (ready_ok a)) (ready a @ [n])" using all(2) by simp
  then have "threads_ok ?s"
    unfolding threads_ok_def f
    using keep_running [OF k _ all(1)] keep_ready [OF k(1), of "ready a @ [n]"] keep_asleep [OF k(1) _ all(3)]
      keep_dead [OF _ all(4)] by (simp add: ms)
  moreover have "counts_ok ?s"
  proof -
    have "counts_ok a" using i0 by (simp add: kinv0_def)
    then show ?thesis using new(1) room mv(6) unfolding counts_ok_def f places_def by auto
  qed
  moreover have "switching ?s = switching a" by (rule switching_cong) (simp_all add: ms)
  ultimately have "kinv0 ?s" using i0 f(5) by (simp add: kinv0_def ms)
  moreover have w: "waits_on ?s = waits_on a" "acquiring ?s = acquiring a"
    using waits_on_cong [of ?s a] acquiring_cong [of ?s a] by (simp_all add: ms)
  then have "sem_ok ?s m" "lock_ok ?s l" for m l
    using inv by (auto simp: kinv_but_def sem_ok_def lock_ok_def f ms split: option.splits)
  ultimately show ?thesis by (simp add: kinv_but_def)
qed

section \<open>Forking keeps the invariant\<close>

text \<open>The state of \<open>thread_fork\<close> between the creation of \<open>n\<close> and its first appearance in a table.\<close>

definition forking :: "tid \<Rightarrow> tid \<Rightarrow> thread \<Rightarrow> kern \<Rightarrow> kern \<Rightarrow> bool" where
  "forking t n y s s' \<longleftrightarrow>
     kinv_but {} s' \<and> (\<exists>x. runs s' t x) \<and> n \<noteq> t \<and> n \<notin> places s' \<and> threads s' n = Some y \<and> ids_ok s' \<and>
     ready s' = ready s \<and> asleep s' = asleep s \<and> dead s' = dead s \<and> numthreads s' = numthreads s \<and>
     in_interrupt s' = in_interrupt s \<and> curspl s' = curspl s \<and> locks s' = locks s \<and> k_mem s' = k_mem s"

lemma frame_upd_other:
  "n \<notin> places s \<Longrightarrow> frame s (s\<lparr>threads := (threads s)(n := y)\<rparr>)"
  by (auto simp: frame_def table_defs)

lemma forking_frame:
  assumes "forking t n y s a" "frame a b" "threads b = threads a" "sems b = sems a" "locks b = locks a"
    "next_id b = next_id a" "k_mem b = k_mem a"
  shows "forking t n y s b"
  using assms kinv_but_frame [OF _ assms(2), of "{}"] frame_places [OF assms(2)]
  by (auto simp: forking_def ids_ok_def runs_def frame_def)

lemma forking_upd_new:
  assumes "forking t n y s a" "upd_thread n f a = Some b"
  shows "forking t n (f y) s b"
proof -
  have b: "b = a\<lparr>threads := (threads a)(n \<mapsto> f y)\<rparr>" using assms by (auto simp: upd_thread_def forking_def)
  have fr: "frame a b" unfolding b using assms(1) by (intro frame_upd_other) (simp add: forking_def)
  have "ids_ok b" using assms(1) by (auto simp: ids_ok_def forking_def b)
  then show ?thesis
    using assms(1) kinv_but_frame [OF _ fr, of "{}"] frame_places [OF fr] fr
    by (auto simp: forking_def runs_def b frame_def)
qed

lemma forking_upd_cur:
  assumes "forking t n y s a" "upd_thread t f a = Some b" "\<And>x. t_stack (f x) = t_stack x" "\<And>x. t_kont (f x) = t_kont x"
  shows "forking t n y s b"
proof -
  obtain x where r: "runs a t x" using assms(1) by (auto simp: forking_def)
  have b: "b = a\<lparr>threads := (threads a)(t \<mapsto> f x)\<rparr>" using assms(2) r by (auto simp: upd_thread_def runs_def)
  have inv: "kinv_but {} a" using assms(1) by (simp add: forking_def)
  have "stack_intact (f x)"
    using kinv0_running [OF kinv_kinv0 [OF inv] runsD(1) [OF r]] runsD(2) [OF r] assms(3)
    by (auto simp: stack_intact_def)
  moreover have "t_kont (f x) = None" using assms(4) runsD(3) [OF r] by simp
  ultimately have k: "kinv_but {} b" "runs b t (f x)"
    using kinv_but_set_running [OF inv r] b by auto
  have "ids_ok b" using assms(1) r by (auto simp: ids_ok_def forking_def b runs_def)
  moreover have sp: "same_places a b" by (simp add: b same_places_def)
  ultimately show ?thesis
    using assms(1) k unfolding forking_def places_def same_places_simps [OF sp] by (auto simp: b)
qed

lemma forking_inherit:
  assumes "forking t n y s a" "inherit_cwd n a = Some b"
  shows "\<exists>v. forking t n (y\<lparr>t_cwd := v\<rparr>) s b"
proof -
  obtain x where r: "runs a t x" using assms(1) by (auto simp: forking_def)
  show ?thesis
  proof (cases "t_cwd x")
    case None
    then have "b = a" "y\<lparr>t_cwd := t_cwd y\<rparr> = y" using assms(2) runsD [OF r] by (simp_all add: inherit_cwd_def)
    then show ?thesis using assms(1) by metis
  next
    case (Some v)
    then obtain m where m: "upd_thread n (\<lambda>y. y\<lparr>t_cwd := Some v\<rparr>) (a\<lparr>vnrefs := (vnrefs a)(v := m)\<rparr>) = Some b"
      using assms(2) runsD [OF r] by (auto simp: inherit_cwd_def vnode_incref_def bind_eq_Some_conv)
    have "frame a (a\<lparr>vnrefs := (vnrefs a)(v := m)\<rparr>)" by (rule frame_same_places) (simp_all add: same_places_def)
    then have "forking t n y s (a\<lparr>vnrefs := (vnrefs a)(v := m)\<rparr>)" by (rule forking_frame [OF assms(1)]) simp_all
    from forking_upd_new [OF this m] show ?thesis by blast
  qed
qed

lemma forking_add_child:
  assumes "forking t n y s a" "add_child n a = Some b"
  shows "\<exists>u. forking t n (y\<lparr>t_parent := u\<rparr>) s b"
proof -
  obtain x where r: "runs a t x" using assms(1) by (auto simp: forking_def)
  obtain i a1 where a1: "(if i < MAX_CHILD then upd_thread t (\<lambda>x. x\<lparr>t_child := (t_child x)[i := Some n]\<rparr>) a
      else Some a) = Some a1" "do {
        x \<leftarrow> threads a1 t;
        c \<leftarrow> rd (t_child x) (int i);
        s \<leftarrow> upd_thread n (\<lambda>y. y\<lparr>t_parent := Some t\<rparr>) a1;
        y \<leftarrow> threads s n;
        set_parentpid (t_pid x) (t_pid y) s } = Some b"
    using assms(2) runsD [OF r] by (auto simp: add_child_def bind_eq_Some_conv)
  have "forking t n y s a1"
    using a1(1) assms(1) forking_upd_cur [OF assms(1)] by (auto split: if_splits)
  moreover obtain a2 ps where a2: "upd_thread n (\<lambda>y. y\<lparr>t_parent := Some t\<rparr>) a1 = Some a2" "b = a2\<lparr>plist := ps\<rparr>"
    using a1(2) by (auto simp: set_parentpid_def bind_eq_Some_conv)
  ultimately have f: "forking t n (y\<lparr>t_parent := Some t\<rparr>) s a2" using forking_upd_new by blast
  have "frame a2 b" unfolding a2(2) by (rule frame_same_places) (simp_all add: same_places_def)
  then have "forking t n (y\<lparr>t_parent := Some t\<rparr>) s b" by (rule forking_frame [OF f]) (simp_all add: a2(2))
  then show ?thesis by blast
qed

lemma forking_init:
  assumes "kinv s" "ids_ok s" "runs s t x" "created name n w s a"
  shows "\<exists>y. forking t n y s a \<and> t_stack y = None \<and> t_vmspace y = None \<and> pcb_ininterrupt y = 0"
proof -
  note cf = created_frame [OF assms(4,2) kinvD(2) [OF assms(1)]] and r = runsD [OF assms(3)]
  have t: "t \<in> places s" using r(1) by (simp add: places_def running_def)
  then have nt: "n \<noteq> t" using cf(3) by auto
  have "runs a t x" using assms(3,4) nt by (auto simp: runs_def created_def same_places_def)
  moreover have "kinv_but {} a" using kinv_but_frame [OF kinvD(1) [OF assms(1)] cf(1)] .
  ultimately show ?thesis
    using assms(4) cf nt frame_places [OF cf(1)] by (auto simp: forking_def frame_def created_def)
qed

lemma fork_fail_inv:
  assumes "forking t n y s a" "fork_fail n a = Some b"
  shows "kinv_but {} b \<and> (\<exists>x. runs b t x) \<and> ids_ok b \<and> ready b = ready s \<and> asleep b = asleep s \<and> dead b = dead s \<and>
    numthreads b = numthreads s \<and> in_interrupt b = in_interrupt s \<and> curspl b = curspl s \<and> locks b = locks s"
proof -
  obtain rf where b: "b = a\<lparr>vnrefs := rf, threads := (threads a)(n := None)\<rparr>"
    using assms
    by (auto simp: fork_fail_def forking_def vnode_decref_def bind_eq_Some_conv split: option.splits if_splits)
      (metis kern.surjective kern.update_convs(15))+
  have nin: "n \<notin> places a" using assms(1) by (simp add: forking_def)
  have fr: "frame a b" unfolding b using nin by (auto simp: frame_def table_defs)
  have "runs b t x" if "runs a t x" for x using that assms(1) by (auto simp: runs_def b forking_def)
  moreover have "ids_ok b" using assms(1) by (auto simp: ids_ok_def b forking_def)
  ultimately show ?thesis
    using assms(1) kinv_but_frame [OF _ fr, of "{}"] fr by (auto simp: forking_def frame_def b)
qed

text \<open>What a fork does to the tables, in the two outcomes.\<close>

definition forked :: "tid \<Rightarrow> errno + tid \<Rightarrow> kern \<Rightarrow> kern \<Rightarrow> bool" where
  "forked t r s s' \<longleftrightarrow>
     kinv_but {} s' \<and> (\<exists>x. runs s' t x) \<and> ids_ok s' \<and> asleep s' = asleep s \<and> dead s' = dead s \<and>
     in_interrupt s' = in_interrupt s \<and> curspl s' = curspl s \<and> locks s' = locks s \<and>
     (case r of
        Inl e \<Rightarrow> e = ENOMEM \<and> ready s' = ready s \<and> numthreads s' = numthreads s
      | Inr n \<Rightarrow> n \<notin> places s \<and> ready s' = ready s @ [n] \<and> numthreads s' = numthreads s + 1 \<and>
          (\<exists>y. threads s' n = Some y \<and> t_kont y = Some K_Start))"

lemma forked_reserved:
  assumes f: "forking t n y s a" and n: "n \<notin> places s"
    and y: "stack_intact y" "t_kont y = Some K_Start" "pcb_ininterrupt y = 0"
    and b: "fork_reserve n (a\<lparr>curspl := SPL_HIGH\<rparr>) = Some (Inr (), b)"
    and room: "numthreads s + int (length (dead s)) + 1 < 2 ^ 27"
  shows "forked t (Inr n) s (b\<lparr>numthreads := numthreads b + 1, curspl := curspl a\<rparr>)"
proof -
  let ?a = "a\<lparr>curspl := SPL_HIGH\<rparr>"
  obtain x where r: "runs a t x" using f by (auto simp: forking_def)
  have inv: "kinv_but {} a" and nin: "n \<notin> places a" and yn: "threads a n = Some y" "ids_ok a"
    using f by (simp_all add: forking_def)
  note ka = kinv_spl_running [OF inv r, of SPL_HIGH]
  have "curthread ?a = Some t" "0 < curspl ?a" using runsD(1) [OF r] by simp_all
  from fork_reserve_cases [OF kinv_kinv0 [OF ka(1)] this, of n] b obtain c where
    c: "grown ?a c" "numthreads ?a + 1 \<le> sl_cap c" "numthreads ?a \<le> rq_cap c" "tables_ok b" "moved c b"
      "asleep b = asleep ?a" "ready b = ready ?a @ [n]" "sl_cap b = sl_cap c" "rq_cap c \<le> rq_cap b" by auto
  note g = grown_fields [OF c(1)] and ms = moved_simps [OF c(5)]
  have fc: "asleep c = asleep a" "ready c = ready a" "dead c = dead a" "places c = places a"
    using g(1) frame_places [OF g(1)] by (simp_all add: frame_def table_defs places_def)
  have e: "asleep ?a = asleep a" "ready ?a = ready a" by (simp_all add: table_defs)
  have rc: "runs c t x" using r by (simp add: runs_def g)
  have "kinv_but {} (b\<lparr>numthreads := numthreads c + 1\<rparr>)"
    using nin yn y c g f fc room e
    by (intro kinv_add_ready [OF kinv_but_frame [OF ka(1) g(1)] rc, of n y]) (simp_all add: forking_def)
  then have k: "kinv_but {} (b\<lparr>numthreads := numthreads b + 1\<rparr>)" by (simp add: ms)
  have rb: "runs (b\<lparr>numthreads := numthreads b + 1\<rparr>) t x" using rc by (simp add: runs_def ms)
  let ?s = "b\<lparr>numthreads := numthreads b + 1, curspl := curspl a\<rparr>"
  have "kinv_but {} ?s" "runs ?s t x" using kinv_spl_running [OF k rb, of "curspl a"] by simp_all
  moreover have "ids_ok ?s" using yn(2) by (simp add: ids_ok_def ms g)
  moreover have "asleep ?s = asleep b" "ready ?s = ready b" "dead ?s = dead b" by (simp_all add: table_defs)
  moreover have "threads ?s n = Some y" using yn(1) by (simp add: ms g)
  ultimately show ?thesis
    using f n c(6,7) e fc y(2) by (auto simp: forked_def forking_def ms g)
qed

lemma forked_failed:
  assumes f: "forking t n y s a"
    and b: "fork_reserve n (a\<lparr>curspl := SPL_HIGH\<rparr>) = Some (Inl e, b)" "fork_fail n (b\<lparr>curspl := curspl a\<rparr>) = Some s'"
  shows "forked t (Inl e) s s'"
proof -
  let ?a = "a\<lparr>curspl := SPL_HIGH\<rparr>"
  obtain x where r: "runs a t x" using f by (auto simp: forking_def)
  have inv: "kinv_but {} a" using f by (simp add: forking_def)
  note ka = kinv_spl_running [OF inv r, of SPL_HIGH]
  have "curthread ?a = Some t" "0 < curspl ?a" using runsD(1) [OF r] by simp_all
  from fork_reserve_cases [OF kinv_kinv0 [OF ka(1)] this, of n] b(1) have
    g: "grown ?a b" and e: "e = ENOMEM" by auto
  note gf = grown_fields [OF g]
  have rb: "runs b t x" using r by (simp add: runs_def gf)
  let ?b = "b\<lparr>curspl := curspl a\<rparr>"
  have "kinv_but {} ?b" "runs ?b t x"
    using kinv_spl_running [OF kinv_but_frame [OF ka(1) gf(1)] rb, of "curspl a"] by simp_all
  moreover have "ids_ok ?b" using f by (auto simp: ids_ok_def gf forking_def)
  moreover have "asleep ?b = asleep a" "ready ?b = ready a" "dead ?b = dead a" "places ?b = places a"
    using gf(1) frame_places [OF gf(1)] by (simp_all add: frame_def table_defs places_def)
  ultimately have "forking t n y s ?b" using f by (auto simp: forking_def gf)
  from fork_fail_inv [OF this b(2)] show ?thesis using e by (auto simp: forked_def)
qed

lemma new_stack_magic: "take 4 (new_stack g) = stack_magic"
  by (simp add: new_stack_def stack_magic_def)

lemma thread_fork_inv:
  assumes inv: "kinv s" "ids_ok s" and run: "runs s t x"
    and room: "numthreads s + int (length (dead s)) + 1 < 2 ^ 27"
    and fk: "thread_fork name s = Some (r, s')"
  shows "forked t r s s'"
proof -
  obtain p a where a: "thread_create name s = Some (p, a)" using fk by (auto simp: thread_fork_def bind_eq_Some_conv)
  show ?thesis
  proof (cases p)
    case None
    then have "asked s a" "r = Inl ENOMEM" "s' = a"
      using thread_create_cases [OF a] fk a by (simp_all add: thread_fork_def)
    note af = asked_fields [OF this(1)]
    have fr: "frame s a" by (rule frame_same_places) (simp_all add: af)
    have "kinv_but {} a" by (rule kinv_but_frame [OF kinvD(1) [OF inv(1)] fr])
    moreover have "runs a t x" using run af(4) by (simp add: runs_def af same_places_def)
    moreover have "ids_ok a" using inv(2) af(12) by (auto simp: ids_ok_def af(1-3))
    ultimately show ?thesis
      using fr \<open>r = Inl ENOMEM\<close> \<open>s' = a\<close> af by (auto simp: forked_def frame_def)
  next
    case (Some n)
    then obtain w where cr: "created name n w s a" using thread_create_cases [OF a] by auto
    from forking_init [OF inv run cr] obtain y where
      y: "forking t n y s a" "t_stack y = None" "pcb_ininterrupt y = 0" by blast
    have nin: "n \<notin> places s" by (rule created_frame(3) [OF cr inv(2) kinvD(2) [OF inv(1)]])
    let ?k = "a\<lparr>k_nalloc := Suc (k_nalloc a)\<rparr>"
    have "frame a ?k" by (rule frame_same_places) (simp_all add: same_places_def)
    then have fk1: "forking t n y s ?k" by (rule forking_frame [OF y(1)]) simp_all
    show ?thesis
    proof (cases "k_mem a (k_nalloc a) []")
      case None
      then have "r = Inl ENOMEM" "s' = ?k\<lparr>threads := (threads ?k)(n := None)\<rparr>"
        using fk a Some by (simp_all add: thread_fork_def kmalloc_ask_def)
      moreover have "frame ?k s'" unfolding calculation(2)
        by (rule frame_upd_other) (use fk1 in \<open>simp add: forking_def\<close>)
      moreover have "runs s' t z" if "runs ?k t z" for z using that fk1 by (auto simp: runs_def forking_def calculation(2))
      moreover have "ids_ok s'" using fk1 by (auto simp: ids_ok_def forking_def calculation(2))
      ultimately show ?thesis
        using fk1 kinv_but_frame [of "{}" ?k s'] unfolding forked_def forking_def frame_def by auto
    next
      case (Some g)
      obtain b c d e u v where st: "upd_thread n (\<lambda>x. x\<lparr>t_stack := Some (new_stack g)\<rparr>) ?k = Some b"
        "inherit_cwd n b = Some c" "md_initpcb n c = Some d" "add_child n d = Some e"
        "fork_reserve n (e\<lparr>curspl := SPL_HIGH\<rparr>) = Some (u, v)"
        "(case u of
            Inr z \<Rightarrow> do {
              m \<leftarrow> cint (numthreads v + 1);
              Some (Inr n, snd (splx (curspl e) (v\<lparr>numthreads := m\<rparr>))) }
          | Inl er \<Rightarrow> do { w \<leftarrow> fork_fail n (snd (splx (curspl e) v)); Some (Inl er, w) }) = Some (r, s')"
        using fk a \<open>p = Some n\<close> Some
        by (auto simp: thread_fork_def kmalloc_ask_def bind_eq_Some_conv)
      obtain cw pa where "forking t n (y\<lparr>t_stack := Some (new_stack g), t_cwd := cw, t_kont := Some K_Start,
          pcb_ininterrupt := 0, t_parent := pa\<rparr>) s e"
        using forking_add_child [OF _ st(4)] forking_upd_new [OF _ st(3) [unfolded md_initpcb_def]]
          forking_inherit [OF forking_upd_new [OF fk1 st(1)] st(2)] by blast
      then show ?thesis
        using st(5,6) nin room forked_reserved [where a = e and n = n and t = t] forked_failed [where a = e and n = n and t = t]
        by (cases u) (auto simp: bind_eq_Some_conv stack_intact_def new_stack_magic dest!: cint_SomeD)
    qed
  qed
qed

section \<open>Exit keeps the invariant\<close>

lemma kinv_to_zombie:
  assumes inv: "kinv_but {} b" and run: "runs b t x"
    and th: "threads s' = (threads b)(t \<mapsto> y)" "stack_intact y" "dead_ok y"
    and lists: "curthread s' = None" "ready s' = ready b" "asleep s' = asleep b" "dead s' = dead b @ [t]"
    and rest: "tables_ok s'" "sl_cap s' = sl_cap b" "rq_cap s' = rq_cap b" "numthreads s' = numthreads b - 1"
      "sems s' = sems b" "locks s' = locks b" "0 < curspl s'"
  shows "kinv s'"
proof -
  note i0 = kinv_kinv0 [OF inv] and r = runsD [OF run]
  note nin = not_in_places [OF i0 r(1)]
  have run': "running s' = []" "running b = [t]" using lists(1) r(1) by (simp_all add: running_def)
  have k: "keeps b s'" by (simp add: keeps_def rest)
  have all: "list_all (thr_ok b (ready_ok b)) (ready b)" "list_all (thr_ok b (asleep_ok b)) (asleep b)"
    "list_all (thr_ok b dead_ok) (dead b)"
    using i0 by (auto simp: kinv0_def threads_ok_def)
  have "thr_ok s' dead_ok t" using th by (simp add: thr_ok_def)
  moreover have "list_all (thr_ok s' (ready_ok s')) (ready b)"
    using nin all(1) by (intro keep_ready [OF k]) (auto simp: th(1))
  moreover have "list_all (thr_ok s' (asleep_ok s')) (asleep b)"
    using nin all(2) by (intro keep_asleep [OF k]) (auto simp: th(1))
  moreover have "list_all (thr_ok s' dead_ok) (dead b)"
    using nin all(3) by (intro keep_dead [of _ s' b]) (auto simp: th(1))
  ultimately have "threads_ok s'" by (simp add: threads_ok_def lists run')
  moreover have "counts_ok s'" using i0 nin by (auto simp: kinv0_def counts_ok_def lists run' rest)
  ultimately have "kinv0 s'" using rest by (simp add: kinv0_def)
  moreover have w: "waits_on s' a u = waits_on b a u" if "u \<in> set (asleep b)" for a u
    using that nin waits_on_fun_upd [OF th(1)] by auto
  then have "sem_ok s' m" for m
    using inv by (auto simp: kinv_but_def sem_ok_def lists rest list_all_iff split: option.splits)
  moreover have "lock_ok s' l" for l
  proof -
    have "acquiring s' l u = acquiring b l u" if "u \<in> set (ready b)" for u
      by (intro acquiring_fun_upd [OF th(1)]) (use that nin in auto)
    moreover have "\<not> acquiring b l t" using r by (simp add: acquiring_def)
    ultimately show ?thesis
      using inv w by (auto simp: kinv_but_def lock_ok_def lists rest run' list_ex_iff)
  qed
  moreover have "flag_ok s'" by (simp add: flag_ok_def switching_def lists)
  ultimately show ?thesis by (simp add: kinv_def kinv_but_def)
qed

text \<open>The last step: the switch out of a thread that has given back its resources.\<close>

lemma exit_switch_inv:
  assumes inv: "kinv_but {} b" and run: "runs b t x" "dead_ok x" and spl: "0 < curspl b"
  defines "c \<equiv> b\<lparr>numthreads := numthreads b - 1\<rparr>"
  shows "(\<exists>s'. mi_switch_out S_ZOMB c = Some s' \<and> kinv s' \<and> dead s' = dead b @ [t] \<and> ready s' = ready b \<and>
      asleep s' = asleep b \<and> curthread s' = None \<and> sems s' = sems b \<and> locks s' = locks b \<and>
      next_id s' = next_id b \<and> dom (threads s') = dom (threads b)) \<or>
    (mi_switch_out S_ZOMB c = None \<and> mem_fails b)"
proof -
  note i0 = kinv_kinv0 [OF inv] and r = runsD [OF run(1)]
  have st: "stack_intact x" using kinv0_running [OF i0 r(1)] r(2) by auto
  have c: "tables_ok c" "0 < curspl c" "curthread c = Some t" "threads c t = Some x" "length (dead c) < 2 ^ 28"
    using i0 spl r kinv0_lengths(3) [OF i0] by (simp_all add: c_def table_defs kinv0_def)
  from mi_switch_zomb_cases [OF c(1-4) st c(5)] show ?thesis
  proof (elim disjE exE conjE)
    fix zs assume zs: "array_ok zs" "guys zs = dead c @ [t]"
      "mi_switch_out S_ZOMB c = Some ((md_switch_save t x c)\<lparr>zombies := Some zs, k_nalloc := Suc (k_nalloc c)\<rparr>)"
    let ?s = "(md_switch_save t x c)\<lparr>zombies := Some zs, k_nalloc := Suc (k_nalloc c)\<rparr>"
    let ?y = "x\<lparr>pcb_ininterrupt := in_interrupt b\<rparr>"
    have l: "ready ?s = ready b" "asleep ?s = asleep b" "dead ?s = dead b @ [t]" "tables_ok ?s"
      "sl_cap ?s = sl_cap b" "rq_cap ?s = rq_cap b"
      using zs(1,2) c(1) by (simp_all add: table_defs md_switch_save_def c_def)
    have "kinv ?s"
      using l st run(2) spl by (intro kinv_to_zombie [OF inv run(1), where y = ?y])
        (simp_all add: md_switch_save_def c_def stack_intact_def dead_ok_def)
    then show ?thesis using zs(3) l r by (auto simp: md_switch_save_def c_def)
  qed (simp add: c_def mem_fails_def)
qed

lemma exit_resources_inv:
  assumes "kinv_but {} b" "runs b t x" "exit_vmspace t b = Some c" "exit_cwd t c = Some d"
  shows "\<exists>y. kinv_but {} d \<and> runs d t y \<and> dead_ok y \<and> curspl d = curspl b \<and> ready d = ready b \<and> asleep d = asleep b \<and>
    dead d = dead b \<and> sems d = sems b \<and> locks d = locks b \<and> next_id d = next_id b \<and> mem_fails d = mem_fails b \<and>
    dom (threads d) = dom (threads b) \<and> numthreads d = numthreads b \<and> plist d = plist b"
proof -
  note r = runsD [OF assms(2)]
  have st: "stack_intact x" using kinv0_running [OF kinv_kinv0 [OF assms(1)] r(1)] r(2) by auto
  let ?y = "x\<lparr>t_vmspace := None, t_cwd := None\<rparr>"
  obtain sp where c: "c = b\<lparr>threads := (threads b)(t \<mapsto> x\<lparr>t_vmspace := None\<rparr>), spaces := sp\<rparr>"
  proof (cases "t_vmspace x")
    case None
    then have "c = b" "x\<lparr>t_vmspace := None\<rparr> = x" using assms(3) r by (simp_all add: exit_vmspace_def)
    then show ?thesis using that [of "spaces b"] r by (simp add: fun_upd_idem)
  next
    case (Some a)
    then show ?thesis using assms(3) r that by (auto simp: exit_vmspace_def upd_thread_def)
  qed
  obtain rf where d: "d = b\<lparr>threads := (threads b)(t \<mapsto> ?y)\<rparr>\<lparr>spaces := sp, vnrefs := rf\<rparr>"
  proof (cases "t_cwd x")
    case None
    then have "d = c" "?y = x\<lparr>t_vmspace := None\<rparr>"
      using assms(4) r by (simp_all add: exit_cwd_def c)
    then have "d = b\<lparr>threads := (threads b)(t \<mapsto> ?y)\<rparr>\<lparr>spaces := sp, vnrefs := vnrefs b\<rparr>" by (simp only: c) simp
    then show ?thesis by (rule that)
  next
    case (Some v)
    then obtain z where "vnode_decref v c = Some z" "upd_thread t (\<lambda>x. x\<lparr>t_cwd := None\<rparr>) (snd z) = Some d"
      using assms(4) r by (auto simp: exit_cwd_def bind_eq_Some_conv c)
    moreover from this(1) obtain rf where "snd z = c\<lparr>vnrefs := rf\<rparr>"
    proof (cases "1 < vnrefs c v")
      case False
      with \<open>vnode_decref v c = Some z\<close> show ?thesis
        using that [of "vnrefs c"] by (auto simp: vnode_decref_def bind_eq_Some_conv)
    qed (auto simp: vnode_decref_def bind_eq_Some_conv that)
    ultimately show ?thesis using that [of rf] by (auto simp: upd_thread_def c)
  qed
  let ?b = "b\<lparr>threads := (threads b)(t \<mapsto> ?y)\<rparr>"
  have "stack_intact ?y" "t_kont ?y = None" using st r by (simp_all add: stack_intact_def)
  note k = kinv_but_set_running [OF assms(1,2) this]
  have fr: "frame ?b d" unfolding d by (rule frame_same_places) (simp_all add: same_places_def)
  have "kinv_but {} d" by (rule kinv_but_frame [OF k(1) fr])
  moreover have "runs d t ?y" using r by (simp add: runs_def d)
  moreover have "dead_ok ?y" by (simp add: dead_ok_def)
  moreover have "ready d = ready b" "asleep d = asleep b" "dead d = dead b" "mem_fails d = mem_fails b"
    by (simp_all add: d table_defs mem_fails_def)
  ultimately show ?thesis using r by (intro exI [of _ ?y]) (auto simp: d)
qed

lemma sem_V_inv:
  assumes inv: "kinv_but {} e" and cur: "curthread e = Some t" and v: "sem_V m e = Some e'"
  shows "kinv_but {} e' \<and> sems e' = (sems e)(m \<mapsto> the (sems e m) + 1) \<and> sems e m \<noteq> None \<and> locks e' = locks e \<and>
    threads e' = threads e \<and> curthread e' = curthread e \<and> dead e' = dead e \<and> next_id e' = next_id e \<and>
    in_interrupt e' = in_interrupt e"
proof -
  obtain c where c: "sems e m = Some c" "c < INT_MAX"
    using v by (auto simp: sem_V_def bind_eq_Some_conv cint_def split: if_splits)
  have "\<not> rq_cap e < int (length (ready e) + length (asleep e))"
    using kinv0_room [OF kinv_kinv0 [OF inv] cur] by simp
  then show ?thesis using sem_V_cases [OF inv c] v c by auto
qed

lemma thread_exit_inv:
  assumes inv: "kinv s" "ids_ok s" and run: "runs s t x"
    and ex: "thread_exit s = Some s'"
  shows "kinv s' \<and> ids_ok s' \<and> dead s' = dead s @ [t] \<and> curthread s' = None \<and> locks s' = locks s"
proof -
  note r = runsD [OF run] and k = kinvD(1) [OF inv(1)]
  let ?x = "x\<lparr>t_parent := None\<rparr>"
  obtain ps w a l b c d where st:
    "sem_V w (s\<lparr>threads := (threads s)(t \<mapsto> ?x), plist := Some ps\<rparr>) = Some a" "sem_V l a = Some b"
    "exit_vmspace t (b\<lparr>curspl := SPL_HIGH\<rparr>) = Some c" "exit_cwd t c = Some d"
    "mi_switch_out S_ZOMB (d\<lparr>numthreads := numthreads d - 1\<rparr>) = Some s'"
    using ex r by (auto simp: thread_exit_def upd_thread_def set_exited_def bind_eq_Some_conv)
  have "stack_intact ?x" "t_kont ?x = None"
    using kinv0_running [OF kinv_kinv0 [OF k] r(1)] r by (simp_all add: stack_intact_def)
  note k1 = kinv_but_set_running [OF k run this]
  let ?s0 = "s\<lparr>threads := (threads s)(t \<mapsto> ?x)\<rparr>" and ?s1 = "s\<lparr>threads := (threads s)(t \<mapsto> ?x), plist := Some ps\<rparr>"
  have "frame ?s0 ?s1" by (rule frame_same_places) (simp_all add: same_places_def)
  note ks = kinv_but_frame [OF k1(1) this]
  have ck: "curthread ?s1 = Some t" using r by simp
  note v1 = sem_V_inv [OF ks ck st(1)]
  have ca: "curthread a = Some t" using v1 r by simp
  note v2 = sem_V_inv [OF conjunct1 [OF v1] ca st(2)]
  have rb: "runs b t ?x" using v1 v2 k1(2) by (simp add: runs_def)
  note kb = kinv_spl_running [OF conjunct1 [OF v2] rb, of SPL_HIGH]
  from exit_resources_inv [OF kb st(3,4)] obtain y where
    d: "kinv_but {} d" "runs d t y" "dead_ok y" "curspl d = SPL_HIGH" "dead d = dead b" "sems d = sems b"
      "locks d = locks b" "next_id d = next_id b" "dom (threads d) = dom (threads b)"
    by (auto simp: table_defs)
  have "0 < curspl d" using d(4) by simp
  from exit_switch_inv [OF d(1-3) this] st(5) have
    s': "kinv s'" "dead s' = dead d @ [t]" "curthread s' = None" "sems s' = sems d" "locks s' = locks d"
      "next_id s' = next_id d" "dom (threads s') = dom (threads d)" by auto
  have dd: "dead ?s1 = dead s" by (simp add: table_defs)
  have "dom (threads s') = dom (threads s)" using s'(7) d(9) v1 v2 r by auto
  moreover have "dom (sems s') = dom (sems s)"
  proof -
    have "dom (sems a) = dom (sems s)" "dom (sems b) = dom (sems a)" using v1 v2 by auto
    then show ?thesis by (simp only: s'(4) d(6))
  qed
  moreover have "locks s' = locks s" "next_id s' = next_id s" using s' d v1 v2 by simp_all
  ultimately have "ids_ok s'" using ids_ok_mono [OF inv(2)] by simp
  then show ?thesis using s' d(5) v1 v2 dd \<open>locks s' = locks s\<close> by simp
qed

section \<open>Forking succeeds\<close>

lemma mem_okD: "\<not> mem_fails s \<Longrightarrow> \<exists>g. k_mem s n [] = Some g"
  by (auto simp: mem_fails_def)

lemma thread_create_succeeds:
  assumes mem: "\<not> mem_fails s" and ps: "plist s = Some ps" and pid: "cint (max_pid s + 1) = Some (max_pid s + 1)"
  shows "\<exists>s'. thread_create name s = Some (Some (next_id s), s')"
proof -
  let ?n = "next_id s"
  let ?x = "\<lparr>t_name = name, t_sleepaddr = None, t_stack = None, t_vmspace = None, t_cwd = None,
    t_pid = 0, t_child = [], t_parent = None, t_wait = None, t_kont = None, pcb_ininterrupt = 0\<rparr>"
  let ?a = "s\<lparr>next_id := Suc ?n, k_nalloc := Suc (Suc (k_nalloc s)), threads := (threads s)(?n \<mapsto> ?x)\<rparr>"
  obtain g1 g2 g3 g4 g5 where g: "k_mem s (k_nalloc s) [] = Some g1" "k_mem s (Suc (k_nalloc s)) [] = Some g2"
    "k_mem s (Suc (Suc (k_nalloc s))) [] = Some g3" "k_mem s (Suc (Suc (Suc (k_nalloc s)))) [] = Some g4"
    "k_mem s (Suc (Suc (Suc (Suc (k_nalloc s))))) [] = Some g5"
    using mem_okD [OF mem] by metis
  have "thread_create name s = do {
      b \<leftarrow> thread_init ?n ?a;
      c \<leftarrow> upd_thread ?n (\<lambda>x. x\<lparr>t_pid := max_pid b\<rparr>) b;
      m \<leftarrow> cint (max_pid c + 1);
      d \<leftarrow> insert_to_plist ?n (c\<lparr>max_pid := m\<rparr>);
      Some (Some ?n, d) }"
    using g by (simp add: thread_create_def kmalloc_struct_def kmalloc_ask_def)
  also have "\<exists>d. \<dots> = Some (Some ?n, d)"
    using g ps pid
    by (simp add: thread_init_def upd_thread_def sem_create_def kmalloc_struct_def kmalloc_ask_def insert_to_plist_def)
  finally show ?thesis .
qed

lemma child_slot_free:
  assumes "length (t_child x) = MAX_CHILD" "\<forall>i \<in> set is. i < MAX_CHILD" "\<exists>i \<in> set is. t_child x ! i = None"
  shows "\<exists>i. child_slot is x = Some i \<and> i < MAX_CHILD \<and> t_child x ! i = None"
  using assms(2,3)
proof (induction "is")
  case (Cons i "is")
  have "rd (t_child x) (int i) = Some (t_child x ! i)" using Cons.prems(1) assms(1) by (simp add: rd_def)
  then show ?case using Cons by (cases "t_child x ! i") auto
qed simp

text \<open>What \<open>thread_fork\<close> leaves in the process list and in the two thread structures.\<close>

definition fork_linked :: "tid \<Rightarrow> thread \<Rightarrow> tid \<Rightarrow> kern \<Rightarrow> kern \<Rightarrow> bool" where
  "fork_linked t x n s s' \<longleftrightarrow>
     (\<exists>i y ps junk. i < MAX_CHILD \<and> t_child x ! i = None \<and>
        threads s' t = Some (x\<lparr>t_child := (t_child x)[i := Some n]\<rparr>) \<and>
        threads s' n = Some y \<and> t_pid y = max_pid s \<and> t_parent y = Some t \<and> t_cwd y = t_cwd x \<and> t_vmspace y = None \<and>
        t_kont y = Some K_Start \<and> stack_intact y \<and>
        plist s = Some ps \<and>
        plist s' = Some (map (\<lambda>p. if p_pid p = max_pid s then p\<lparr>p_parentpid := t_pid x\<rparr> else p)
          (ps @ [\<lparr>p_thread = Some n, p_excode = - 1, p_exited = 0, p_pid = max_pid s, p_parentpid = junk, p_waited = 0\<rparr>])))"

lemma fork_prepare:
  assumes inv: "kinv s" "ids_ok s" and run: "runs s t x" and mem: "\<not> mem_fails s"
    and ps: "plist s = Some ps" and pid: "cint (max_pid s + 1) = Some (max_pid s + 1)"
    and ch: "length (t_child x) = MAX_CHILD" "None \<in> set (t_child x)"
    and cwd: "\<And>v. t_cwd x = Some v \<Longrightarrow> cint (vnrefs s v + 1) = Some (vnrefs s v + 1)"
  shows "\<exists>a g b c d e. thread_create name s = Some (Some (next_id s), a) \<and> k_mem a (k_nalloc a) [] = Some g \<and>
    upd_thread (next_id s) (\<lambda>x. x\<lparr>t_stack := Some (new_stack g)\<rparr>) (a\<lparr>k_nalloc := Suc (k_nalloc a)\<rparr>) = Some b \<and>
    inherit_cwd (next_id s) b = Some c \<and> md_initpcb (next_id s) c = Some d \<and> add_child (next_id s) d = Some e \<and>
    fork_linked t x (next_id s) s e"
proof -
  let ?n = "next_id s"
  note r = runsD [OF run]
  obtain a where a: "thread_create name s = Some (Some ?n, a)" using thread_create_succeeds [OF mem ps pid] by blast
  then obtain w where cr: "created name ?n w s a" using thread_create_cases by fastforce
  have nt: "?n \<noteq> t"
    using created_frame(3) [OF cr inv(2) kinvD(2) [OF inv(1)]] r(1) by (auto simp: places_def running_def)
  obtain y junk where y: "threads a = (threads s)(?n \<mapsto> y)" "t_pid y = max_pid s" "t_cwd y = None" "t_vmspace y = None"
    "curthread a = Some t" "vnrefs a = vnrefs s" "k_mem a = k_mem s"
    "plist a = Some (ps @ [\<lparr>p_thread = Some ?n, p_excode = - 1, p_exited = 0, p_pid = max_pid s, p_parentpid = junk, p_waited = 0\<rparr>])"
    using cr ps r(1) by (auto simp: created_def same_places_def)
  obtain g where g: "k_mem a (k_nalloc a) [] = Some g" using mem y(7) by (auto simp: mem_fails_def)
  obtain j where "j < MAX_CHILD" "t_child x ! j = None" using ch by (metis in_set_conv_nth)
  then have "\<exists>i \<in> set [0..<MAX_CHILD]. t_child x ! i = None" by (intro bexI [of _ j]) simp_all
  then obtain i where i: "child_slot [0..<MAX_CHILD] x = Some i" "i < MAX_CHILD" "t_child x ! i = None"
    using child_slot_free [OF ch(1), of "[0..<MAX_CHILD]"] by auto
  have rdi: "rd ((t_child x)[i := Some ?n]) (int i) = Some (Some ?n)" using i(2) ch(1) by (simp add: rd_def)
  let ?k = "a\<lparr>k_nalloc := Suc (k_nalloc a)\<rparr>"
  let ?y = "y\<lparr>t_stack := Some (new_stack g)\<rparr>"
  let ?b = "?k\<lparr>threads := (threads s)(?n \<mapsto> ?y)\<rparr>"
  have b: "upd_thread ?n (\<lambda>x. x\<lparr>t_stack := Some (new_stack g)\<rparr>) ?k = Some ?b" using y(1) by (simp add: upd_thread_def)
  obtain c u where c: "inherit_cwd ?n ?b = Some c" "threads c = (threads s)(?n \<mapsto> u)" "curthread c = Some t"
    "plist c = plist a" "t_cwd u = t_cwd x" "t_stack u = Some (new_stack g)" "t_pid u = max_pid s" "t_vmspace u = None"
  proof (cases "t_cwd x")
    case None
    show ?thesis
      by (rule that [where c = ?b and u = ?y]) (use y g r nt None in \<open>simp_all add: inherit_cwd_def\<close>)
  next
    case (Some v)
    show ?thesis
      by (rule that [where u = "?y\<lparr>t_cwd := Some v\<rparr>" and
            c = "?b\<lparr>vnrefs := (vnrefs s)(v := vnrefs s v + 1), threads := (threads s)(?n \<mapsto> ?y\<lparr>t_cwd := Some v\<rparr>)\<rparr>"])
        (use y g r nt cwd [OF Some] Some in \<open>simp_all add: inherit_cwd_def vnode_incref_def upd_thread_def\<close>)
  qed
  let ?z = "u\<lparr>t_kont := Some K_Start, pcb_ininterrupt := 0\<rparr>"
  let ?d = "c\<lparr>threads := (threads s)(?n \<mapsto> ?z)\<rparr>"
  have d: "md_initpcb ?n c = Some ?d" using c(2) by (simp add: md_initpcb_def upd_thread_def)
  let ?e = "?d\<lparr>threads := (threads s)(?n \<mapsto> ?z\<lparr>t_parent := Some t\<rparr>, t \<mapsto> x\<lparr>t_child := (t_child x)[i := Some ?n]\<rparr>),
    plist := Some (map (\<lambda>p. if p_pid p = max_pid s then p\<lparr>p_parentpid := t_pid x\<rparr> else p)
      (ps @ [\<lparr>p_thread = Some ?n, p_excode = - 1, p_exited = 0, p_pid = max_pid s, p_parentpid = junk, p_waited = 0\<rparr>]))\<rparr>"
  have "add_child ?n ?d = Some ?e"
    using c i rdi r nt y(8)
    by (simp add: add_child_def upd_thread_def set_parentpid_def fun_upd_twist del: upt_rec_numeral)
  moreover have "fork_linked t x ?n s ?e"
    unfolding fork_linked_def using i nt c ps
    by (intro exI [of _ i] exI [of _ "?z\<lparr>t_parent := Some t\<rparr>"] exI [of _ ps] exI [of _ junk])
      (simp add: stack_intact_def new_stack_magic)
  ultimately show ?thesis using a g b c(1) d by blast
qed

lemma fork_linked_threads:
  assumes "fork_linked t x n s e" "threads s' = threads e" "plist s' = plist e"
  shows "fork_linked t x n s s'"
  using assms by (simp add: fork_linked_def)

lemma thread_fork_succeeds:
  assumes inv: "kinv s" "ids_ok s" and run: "runs s t x" and mem: "\<not> mem_fails s"
    and ps: "plist s = Some ps" and pid: "cint (max_pid s + 1) = Some (max_pid s + 1)"
    and ch: "length (t_child x) = MAX_CHILD" "None \<in> set (t_child x)"
    and cwd: "\<And>v. t_cwd x = Some v \<Longrightarrow> cint (vnrefs s v + 1) = Some (vnrefs s v + 1)"
    and room: "numthreads s + int (length (dead s)) + 1 < 2 ^ 27"
  shows "\<exists>s'. thread_fork name s = Some (Inr (next_id s), s') \<and> fork_linked t x (next_id s) s s' \<and>
    forked t (Inr (next_id s)) s s'"
proof -
  let ?n = "next_id s"
  from fork_prepare [OF inv run mem ps pid ch cwd] obtain a g b c d e where
    a: "thread_create name s = Some (Some ?n, a)" and st: "k_mem a (k_nalloc a) [] = Some g"
    "upd_thread ?n (\<lambda>x. x\<lparr>t_stack := Some (new_stack g)\<rparr>) (a\<lparr>k_nalloc := Suc (k_nalloc a)\<rparr>) = Some b"
    "inherit_cwd ?n b = Some c" "md_initpcb ?n c = Some d" "add_child ?n d = Some e" and ln: "fork_linked t x ?n s e"
    by blast
  let ?k = "a\<lparr>k_nalloc := Suc (k_nalloc a)\<rparr>"
  obtain w where cr: "created name ?n w s a" using thread_create_cases [OF a] by auto
  from forking_init [OF inv run cr] obtain y where y: "forking t ?n y s a" by blast
  have "frame a ?k" by (rule frame_same_places) (simp_all add: same_places_def)
  then have fk1: "forking t ?n y s ?k" by (rule forking_frame [OF y(1)]) simp_all
  obtain z where z: "forking t ?n z s e"
    using forking_add_child [OF _ st(5)] forking_upd_new [OF _ st(4) [unfolded md_initpcb_def]]
      forking_inherit [OF forking_upd_new [OF fk1 st(2)] st(3)] by blast
  let ?e = "e\<lparr>curspl := SPL_HIGH\<rparr>"
  obtain x' where r: "runs e t x'" and ke: "kinv_but {} e" and mf: "\<not> mem_fails ?e"
    using z mem by (auto simp: forking_def mem_fails_def)
  note he = kinv_spl_running [OF ke r, of SPL_HIGH]
  have "curthread ?e = Some t" "0 < curspl ?e" using runsD(1) [OF r] by simp_all
  from fork_reserve_cases [OF kinv_kinv0 [OF he(1)] this, of ?n] mf obtain c' v where
    v: "fork_reserve ?n ?e = Some (Inr (), v)" "grown ?e c'" "moved c' v" by auto
  note gv = grown_fields [OF v(2)] moved_simps [OF v(3)]
  have "numthreads v = numthreads s" using z by (simp add: gv forking_def)
  then have ck: "cint (numthreads v + 1) = Some (numthreads v + 1)"
    using room kinvD(2) [OF inv(1)] by (auto simp: cint_def kinv0_def counts_ok_def)
  let ?s = "v\<lparr>numthreads := numthreads v + 1, curspl := curspl e\<rparr>"
  have fk: "thread_fork name s = Some (Inr ?n, ?s)"
    using a st v(1) ck by (simp add: thread_fork_def kmalloc_ask_def)
  moreover have "fork_linked t x ?n s ?s" by (rule fork_linked_threads [OF ln]) (simp_all add: gv)
  moreover have "forked t (Inr ?n) s ?s" by (rule thread_fork_inv [OF inv run room fk])
  ultimately show ?thesis by blast
qed

end
