(* ===== verification/Kern_Reach.thy ===== *)
theory Kern_Reach
  imports Kern_Thread
begin

text \<open>
  The thread system as a transition system. A step is a call of an operation by the running thread,
  one round of the dispatcher, the resumption of a dispatched thread, or an interrupt. Every
  reachable state satisfies the invariant, whatever the allocator answers and in whatever order the
  threads run; the theorems on lost wake-ups and on mutual exclusion follow.
\<close>

section \<open>What the operations leave alone\<close>

text \<open>No new structures appear, and the holders of the locks do not change.\<close>

definition same_ids :: "kern \<Rightarrow> kern \<Rightarrow> bool" where
  "same_ids s s' \<longleftrightarrow> next_id s' = next_id s \<and> dom (threads s') \<subseteq> dom (threads s) \<and> dom (sems s') = dom (sems s) \<and>
     dom (locks s') = dom (locks s)"

definition quiet :: "kern \<Rightarrow> kern \<Rightarrow> bool" where
  "quiet s s' \<longleftrightarrow> same_ids s s' \<and> locks s' = locks s"

lemma ids_ok_same: "ids_ok s \<Longrightarrow> same_ids s s' \<Longrightarrow> ids_ok s'"
  using ids_ok_mono [of s s'] by (simp add: same_ids_def)

lemma quiet_trans: "quiet a b \<Longrightarrow> quiet b c \<Longrightarrow> quiet a c"
  unfolding quiet_def same_ids_def by (metis subset_trans)

lemma quiet_refl [simp]: "quiet s s"
  by (simp add: quiet_def same_ids_def)

lemma quiet_upd [simp]:
  "quiet s (s'\<lparr>curspl := a\<rparr>) = quiet s s'" "quiet (s\<lparr>curspl := a\<rparr>) s' = quiet s s'"
  "quiet s (s'\<lparr>sleepers := b\<rparr>) = quiet s s'" "quiet (s\<lparr>sleepers := b\<rparr>) s' = quiet s s'"
  "quiet s (s'\<lparr>zombies := b\<rparr>) = quiet s s'" "quiet (s\<lparr>zombies := b\<rparr>) s' = quiet s s'"
  "quiet s (s'\<lparr>runqueue := c\<rparr>) = quiet s s'" "quiet (s\<lparr>runqueue := c\<rparr>) s' = quiet s s'"
  "quiet s (s'\<lparr>k_nalloc := n\<rparr>) = quiet s s'" "quiet (s\<lparr>k_nalloc := n\<rparr>) s' = quiet s s'"
  "quiet s (s'\<lparr>curthread := t\<rparr>) = quiet s s'" "quiet (s\<lparr>curthread := t\<rparr>) s' = quiet s s'"
  "quiet s (s'\<lparr>in_interrupt := i\<rparr>) = quiet s s'" "quiet (s\<lparr>in_interrupt := i\<rparr>) s' = quiet s s'"
  "quiet s (s'\<lparr>lbolt_counter := i\<rparr>) = quiet s s'" "quiet (s\<lparr>lbolt_counter := i\<rparr>) s' = quiet s s'"
  "quiet s (s'\<lparr>tlb := tb\<rparr>) = quiet s s'"
  by (simp_all add: quiet_def same_ids_def)

lemma quiet_sems [simp]: "sems s m \<noteq> None \<Longrightarrow> quiet s (s\<lparr>sems := (sems s)(m \<mapsto> c)\<rparr>)"
  by (auto simp: quiet_def same_ids_def)

lemma quiet_sems_l [simp]: "sems s m = Some b \<Longrightarrow> quiet (s\<lparr>sems := (sems s)(m \<mapsto> c)\<rparr>) s' = quiet s s'"
  by (simp add: quiet_def same_ids_def insert_absorb domI)

lemma quiet_sems_spl [simp]:
  "sems s m = Some b \<Longrightarrow> quiet (s\<lparr>curspl := n, sems := (sems s)(m \<mapsto> c)\<rparr>) s' = quiet s s'"
  by (simp add: quiet_def same_ids_def insert_absorb domI)

lemma quiet_threads [simp]: "threads s t \<noteq> None \<Longrightarrow> quiet s (s\<lparr>threads := (threads s)(t \<mapsto> x)\<rparr>)"
  "quiet s (s\<lparr>threads := (threads s)(t := None)\<rparr>)"
  by (auto simp: quiet_def same_ids_def)

lemma upd_thread_quiet: "upd_thread t f s = Some s' \<Longrightarrow> quiet s s'"
  by (auto simp: upd_thread_def bind_eq_Some_conv)

lemma make_runnable_quiet: "make_runnable t s = Some (r, s') \<Longrightarrow> quiet s s'"
  by (auto simp: make_runnable_def kmalloc_ask_def bind_eq_Some_conv)

lemma wakeup_from_quiet: "wakeup_from addr i s = Some s' \<Longrightarrow> quiet s s'"
proof (induction rule: wakeup_from.raw_induct [rotated, consumes 1])
  case (1 wk a i s s')
  show ?case
    using 1(2)
    by (auto simp: bind_eq_Some_conv split: if_splits dest!: make_runnable_quiet 1(1)) (blast intro: quiet_trans)+
qed

lemma thread_wakeup_quiet: "thread_wakeup addr s = Some s' \<Longrightarrow> quiet s s'"
  by (auto simp: thread_wakeup_def bind_eq_Some_conv dest: wakeup_from_quiet)

lemma thread_wakeup_one_quiet: "thread_wakeup_one addr s = Some s' \<Longrightarrow> quiet s s'"
  by (auto simp: thread_wakeup_one_def bind_eq_Some_conv split: option.splits dest!: make_runnable_quiet)

lemma table_add_quiet:
  "sleepers_add t s = Some (r, s') \<Longrightarrow> quiet s s'" "zombies_add t s = Some (r, s') \<Longrightarrow> quiet s s'"
  by (auto simp: sleepers_add_def zombies_add_def kmalloc_ask_def bind_eq_Some_conv)

lemma mi_switch_out_quiet: "mi_switch_out n s = Some s' \<Longrightarrow> quiet s s'"
proof (cases "curthread s")
  case (Some t)
  assume a: "mi_switch_out n s = Some s'"
  then obtain x r where x: "threads s t = Some x"
    "(case n of S_READY \<Rightarrow> make_runnable t (md_switch_save t x s) | S_SLEEP \<Rightarrow> sleepers_add t (md_switch_save t x s)
      | S_ZOMB \<Rightarrow> zombies_add t (md_switch_save t x s) | S_RUN \<Rightarrow> None) = Some (r, s')"
    using Some by (auto simp: mi_switch_out_def bind_eq_Some_conv Let_def)
  then have "quiet (md_switch_save t x s) s'"
    by (auto split: threadstate.splits dest: make_runnable_quiet table_add_quiet)
  moreover have "quiet s (md_switch_save t x s)" using x(1) by (auto simp: md_switch_save_def quiet_def same_ids_def)
  ultimately show ?thesis by (rule quiet_trans [rotated])
qed (auto simp: mi_switch_out_def bind_eq_Some_conv)

lemma thread_sleep_quiet: "thread_sleep addr k s = Some s' \<Longrightarrow> quiet s s'"
  by (auto simp: thread_sleep_def bind_eq_Some_conv
    dest!: upd_thread_quiet mi_switch_out_quiet intro: quiet_trans)

lemma thread_yield_quiet: "thread_yield s = Some s' \<Longrightarrow> quiet s s'"
  by (auto simp: thread_yield_def bind_eq_Some_conv split: option.splits
    dest!: upd_thread_quiet mi_switch_out_quiet intro: quiet_trans)

lemma P_loop_quiet: "P_loop m spl s = Some s' \<Longrightarrow> quiet s s'"
  by (auto simp: P_loop_def bind_eq_Some_conv split: if_splits dest: thread_sleep_quiet)

lemma sem_P_quiet: "sem_P m s = Some s' \<Longrightarrow> quiet s s'"
  by (auto simp: sem_P_def bind_eq_Some_conv dest!: P_loop_quiet)

lemma sem_V_quiet: "sem_V m s = Some s' \<Longrightarrow> quiet s s'"
  by (auto simp: sem_V_def bind_eq_Some_conv dest!: thread_wakeup_quiet)

lemma clock_quiet: "clock_loop n spl s = Some s' \<Longrightarrow> quiet s s'" "clocksleep n s = Some s' \<Longrightarrow> quiet s s'"
  by (auto simp: clocksleep_def clock_loop_def split: if_splits dest!: thread_sleep_quiet)

lemma hardclock_quiet: "hardclock_tick s = Some s' \<Longrightarrow> quiet s s'"
  by (auto simp: hardclock_tick_def bind_eq_Some_conv split: if_splits dest!: thread_wakeup_quiet)

lemma timer_quiet: "timer_irq s = Some s' \<Longrightarrow> quiet s s'"
  by (auto simp: timer_irq_def irq_exit_def bind_eq_Some_conv Let_def split: option.splits
    dest!: hardclock_quiet upd_thread_quiet mi_switch_out_quiet intro: quiet_trans) (blast intro: quiet_trans)

lemma device_quiet: "device_irq m s = Some s' \<Longrightarrow> quiet s s'"
  by (auto simp: device_irq_def irq_exit_def bind_eq_Some_conv dest!: sem_V_quiet)

lemma dispatch_quiet: "mi_dispatch s = Some s' \<Longrightarrow> quiet s s'"
  by (auto simp: mi_dispatch_def scheduler_def bind_eq_Some_conv split: option.splits if_splits)

lemma destroy_zombies_quiet: "destroy_zombies is zs s = Some s' \<Longrightarrow> quiet s s'"
proof (induction "is" arbitrary: s)
  case (Cons i "is")
  then obtain z where "destroy_zombies is zs (s\<lparr>threads := (threads s)(z := None)\<rparr>) = Some s'"
    by (auto simp: thread_destroy_def bind_eq_Some_conv)
  then show ?case using Cons.IH quiet_threads(2) [of s z] by (blast intro: quiet_trans)
qed simp

lemma switch_in_quiet: "mi_switch_in s = Some s' \<Longrightarrow> quiet s s'"
  by (auto simp: mi_switch_in_def exorcise_def kmalloc_ask_def as_activate_def bind_eq_Some_conv
    split: if_splits dest!: destroy_zombies_quiet)

lemma sleep_end_quiet: "thread_sleep_end s = Some s' \<Longrightarrow> quiet s s'"
  by (auto simp: thread_sleep_end_def bind_eq_Some_conv dest: upd_thread_quiet)

text \<open>A lock that somebody holds stays with its holder, unless the holder is \<open>t\<close>.\<close>

definition keeps_held :: "tid option \<Rightarrow> kern \<Rightarrow> kern \<Rightarrow> bool" where
  "keeps_held t s s' \<longleftrightarrow> same_ids s s' \<and> (\<forall>l u. locks s l = Some (Some u) \<and> t \<noteq> Some u \<longrightarrow> locks s' l = Some (Some u))"

lemma quiet_held: "quiet s s' \<Longrightarrow> keeps_held t s s'"
  by (simp add: quiet_def keeps_held_def)

lemma same_ids_trans: "same_ids a b \<Longrightarrow> same_ids b c \<Longrightarrow> same_ids a c"
  unfolding same_ids_def by (metis subset_trans)

lemma held_trans: "keeps_held t a b \<Longrightarrow> keeps_held t b c \<Longrightarrow> keeps_held t a c"
  using same_ids_trans [of a b c] by (auto simp: keeps_held_def)

lemma quiet_held_trans: "quiet a b \<Longrightarrow> keeps_held t b c \<Longrightarrow> keeps_held t a c" "keeps_held t a b \<Longrightarrow> quiet b c \<Longrightarrow> keeps_held t a c"
  using held_trans quiet_held by blast+

lemma held_upd [simp]:
  "keeps_held t s (s'\<lparr>curspl := a\<rparr>) = keeps_held t s s'" "keeps_held t (s\<lparr>curspl := a\<rparr>) s' = keeps_held t s s'"
  by (simp_all add: keeps_held_def same_ids_def)

lemma acquire_loop_held: "acquire_loop l spls s = Some s' \<Longrightarrow> keeps_held t s s'"
  unfolding acquire_loop_def fold_splx
  by (auto simp: bind_eq_Some_conv split: if_splits dest!: thread_sleep_quiet quiet_held)
    (auto simp: keeps_held_def same_ids_def)

lemma lock_acquire_held: "lock_acquire outer l s = Some s' \<Longrightarrow> keeps_held t s s'"
  by (auto simp: lock_acquire_def bind_eq_Some_conv dest!: acquire_loop_held)

lemma lock_release_held:
  assumes "lock_release l s = Some s'"
  shows "keeps_held (curthread s) s s'"
proof -
  obtain h where h: "locks s l = Some h" using assms by (auto simp: lock_release_def lock_do_i_hold_def bind_eq_Some_conv)
  show ?thesis
  proof (cases "h = curthread s")
    case True
    let ?s = "s\<lparr>curspl := SPL_HIGH, locks := (locks s)(l \<mapsto> None)\<rparr>"
    obtain a where a: "thread_wakeup_one (LockA l) ?s = Some a" "s' = a\<lparr>curspl := curspl s\<rparr>"
      using assms h True by (auto simp: lock_release_def lock_do_i_hold_def bind_eq_Some_conv)
    have "keeps_held (curthread s) s ?s" using h True by (auto simp: keeps_held_def same_ids_def)
    then show ?thesis using a thread_wakeup_one_quiet [OF a(1)] quiet_held_trans(2) by simp
  next
    case False
    then show ?thesis
      using assms h by (auto simp: lock_release_def lock_do_i_hold_def bind_eq_Some_conv quiet_held)
  qed
qed

lemma wakeup_one_curthread:
  "thread_wakeup_one addr s = Some s' \<Longrightarrow> curthread s' = curthread s"
  by (auto simp: thread_wakeup_one_def make_runnable_def kmalloc_ask_def bind_eq_Some_conv split: option.splits)

lemma wakeup_curthread: "thread_wakeup addr s = Some s' \<Longrightarrow> curthread s' = curthread s"
proof -
  have "wakeup_from addr i s = Some s' \<Longrightarrow> curthread s' = curthread s" for i
  proof (induction rule: wakeup_from.raw_induct [rotated, consumes 1])
    case (1 wk a i s s')
    show ?case
      using 1(2)
      by (auto simp: bind_eq_Some_conv make_runnable_def kmalloc_ask_def split: if_splits dest!: 1(1))
  qed
  then show "thread_wakeup addr s = Some s' \<Longrightarrow> ?thesis" by (auto simp: thread_wakeup_def bind_eq_Some_conv)
qed

lemma cv_held:
  "cv_wait cv l s = Some s' \<Longrightarrow> keeps_held (curthread s) s s'"
  "cv_signal cv l s = Some s' \<Longrightarrow> keeps_held (curthread s) s s'"
  "cv_broadcast cv l s = Some s' \<Longrightarrow> keeps_held (curthread s) s s'"
  by (auto simp: cv_wait_def cv_signal_def cv_broadcast_def bind_eq_Some_conv
    dest!: lock_release_held thread_sleep_quiet intro: quiet_held_trans)
    (auto dest!: thread_wakeup_one_quiet thread_wakeup_quiet simp: wakeup_one_curthread wakeup_curthread
      intro: quiet_held_trans)

lemma resume_held:
  assumes "resume s = Some s'"
  shows "keeps_held t s s'"
proof -
  obtain u x k a where a: "upd_thread u (\<lambda>x. x\<lparr>t_kont := None\<rparr>) s = Some a"
    "(case k of
        K_Start \<Rightarrow> mi_threadstart a
      | K_Yield spl \<Rightarrow> do { s \<leftarrow> mi_switch_in a; Some (snd (splx spl s)) }
      | K_Preempt spl old_in savespl \<Rightarrow> do {
          s \<leftarrow> mi_switch_in a;
          Some (irq_exit old_in savespl (snd (splx spl s))) }
      | K_P sem spl \<Rightarrow> do { s \<leftarrow> mi_switch_in a; s \<leftarrow> thread_sleep_end s; P_loop sem spl s }
      | K_Acquire l spls \<Rightarrow> do { s \<leftarrow> mi_switch_in a; s \<leftarrow> thread_sleep_end s; acquire_loop l spls s }
      | K_CvWait cv l spl \<Rightarrow> do { s \<leftarrow> mi_switch_in a; s \<leftarrow> thread_sleep_end s; lock_acquire [spl] l s }
      | K_Clock n spl \<Rightarrow> do { s \<leftarrow> mi_switch_in a; s \<leftarrow> thread_sleep_end s; clock_loop (n - 1) spl s }) = Some s'"
    using assms by (auto simp: resume_def bind_eq_Some_conv)
  have "keeps_held t a s'"
    using a(2)
    by (auto simp: bind_eq_Some_conv mi_threadstart_def irq_exit_def as_activate_def split: kont.splits if_splits
      dest!: switch_in_quiet sleep_end_quiet P_loop_quiet clock_quiet(1) acquire_loop_held [where t = t]
        lock_acquire_held [where t = t]
      intro: quiet_held quiet_held_trans quiet_trans)
  then show ?thesis using upd_thread_quiet [OF a(1)] quiet_held_trans(1) by blast
qed

section \<open>Transition systems\<close>

text \<open>The rule of invariance, for any transition system.\<close>

locale transition_system =
  fixes initial :: "'s \<Rightarrow> bool" and step :: "'s \<Rightarrow> 's \<Rightarrow> bool"
begin

inductive reachable :: "'s \<Rightarrow> bool" where
  reachable_init: "initial s \<Longrightarrow> reachable s"
| reachable_step: "reachable s \<Longrightarrow> step s s' \<Longrightarrow> reachable s'"

lemma reachable_invariant:
  assumes "reachable s" "\<And>s. initial s \<Longrightarrow> P s" "\<And>s s'. P s \<Longrightarrow> step s s' \<Longrightarrow> P s'"
  shows "P s"
  using assms(1) by (induction rule: reachable.induct) (auto intro: assms(2,3))

lemma reachable_steps:
  assumes "step\<^sup>*\<^sup>* s s'" "reachable s"
  shows "reachable s'"
  using assms by (induction rule: rtranclp_induct) (auto intro: reachable_step)

lemma steps_invariant:
  assumes "step\<^sup>*\<^sup>* s s'" "reachable s" "Q s" "\<And>a b. reachable a \<Longrightarrow> Q a \<Longrightarrow> step a b \<Longrightarrow> Q b"
  shows "Q s'"
  using assms(1-3)
proof (induction rule: rtranclp_induct)
  case (step a b)
  then show ?case using assms(4) reachable_steps by blast
qed

end

section \<open>The steps of the thread system\<close>

text \<open>The operations a running thread may call.\<close>

datatype kop =
    Op_P nat | Op_V nat
  | Op_Acquire nat | Op_Release nat
  | Op_Wait nat nat | Op_Signal nat nat | Op_Broadcast nat nat
  | Op_Yield | Op_Clocksleep int
  | Op_Fork string | Op_Exit
  | Op_SemCreate int | Op_LockCreate | Op_CvCreate
  | Op_Spl int

fun kcall :: "kop \<Rightarrow> kern \<Rightarrow> kern option" where
  "kcall (Op_P m) s = sem_P m s"
| "kcall (Op_V m) s = sem_V m s"
| "kcall (Op_Acquire l) s = lock_acquire [] l s"
| "kcall (Op_Release l) s = lock_release l s"
| "kcall (Op_Wait cv l) s = cv_wait cv l s"
| "kcall (Op_Signal cv l) s = cv_signal cv l s"
| "kcall (Op_Broadcast cv l) s = cv_broadcast cv l s"
| "kcall Op_Yield s = thread_yield s"
| "kcall (Op_Clocksleep n) s = clocksleep n s"
| "kcall (Op_Fork name) s = map_option snd (thread_fork name s)"
| "kcall Op_Exit s = thread_exit s"
| "kcall (Op_SemCreate c) s = map_option snd (sem_create c s)"
| "kcall Op_LockCreate s = map_option snd (lock_create s)"
| "kcall Op_CvCreate s = map_option snd (cv_create s)"
| "kcall (Op_Spl n) s = Some (snd (splx n s))"

text \<open>
  Contracts of the callers: a thread waits on a condition variable with the lock in its hands, and
  no more threads are created than there are stacks of 4096 bytes in the memory of the machine.
  Interrupts arrive when the level is zero or the processor idles.
\<close>

definition kcall_pre :: "kop \<Rightarrow> tid \<Rightarrow> kern \<Rightarrow> bool" where
  "kcall_pre op t s \<longleftrightarrow>
     (case op of
        Op_Wait cv l \<Rightarrow> locks s l = Some (Some t)
      | Op_Fork name \<Rightarrow> numthreads s + int (length (dead s)) < 2 ^ 20
      | _ \<Rightarrow> True)"

definition interruptible :: "kern \<Rightarrow> bool" where
  "interruptible s \<longleftrightarrow>
     (case curthread s of
        None \<Rightarrow> True
      | Some t \<Rightarrow> (case threads s t of None \<Rightarrow> False | Some x \<Rightarrow> t_kont x = None \<and> curspl s = 0))"

inductive kstep :: "kern \<Rightarrow> kern \<Rightarrow> bool" where
  step_call: "runs s t x \<Longrightarrow> kcall_pre op t s \<Longrightarrow> kcall op s = Some s' \<Longrightarrow> kstep s s'"
| step_dispatch: "curthread s = None \<Longrightarrow> mi_dispatch s = Some s' \<Longrightarrow> kstep s s'"
| step_resume: "switching s \<Longrightarrow> curthread s = Some t \<Longrightarrow> resume s = Some s' \<Longrightarrow> kstep s s'"
| step_timer: "interruptible s \<Longrightarrow> timer_irq s = Some s' \<Longrightarrow> kstep s s'"
| step_device: "interruptible s \<Longrightarrow> device_irq m s = Some s' \<Longrightarrow> kstep s s'"

inductive_cases kstepE: "kstep s s'"

text \<open>
  The system starts as \<open>boot\<close> leaves it: the static variables are zero before, and the scheduler
  and the first thread have been set up.
\<close>

definition boot_threads :: "kern \<Rightarrow> (tid \<times> kern) option" where
  "boot_threads s = do { s \<leftarrow> scheduler_bootstrap s; thread_bootstrap s }"

definition blank :: "kern \<Rightarrow> bool" where
  "blank s \<longleftrightarrow> threads s = (\<lambda>_. None) \<and> sems s = (\<lambda>_. None) \<and> locks s = (\<lambda>_. None) \<and> in_interrupt s = 0"

definition booted :: "kern \<Rightarrow> bool" where
  "booted s \<longleftrightarrow> (\<exists>s0 t. blank s0 \<and> boot_threads s0 = Some (t, s))"

interpretation ksys: transition_system booted kstep .

text \<open>The invariant of the whole system.\<close>

definition kern_ok :: "kern \<Rightarrow> bool" where
  "kern_ok s \<longleftrightarrow> kinv s \<and> ids_ok s"

section \<open>Every step keeps the invariant\<close>

lemma create_frame:
  assumes "sem_create c s = Some (p, s') \<or> lock_create s = Some (p, s') \<or> cv_create s = Some (p, s')" "ids_ok s"
  shows "frame s s' \<and> ids_ok s' \<and> runs s' = runs s"
proof -
  have k: "s' = s\<lparr>k_nalloc := k_nalloc s', next_id := next_id s', sems := sems s', locks := locks s', cvs := cvs s'\<rparr>"
    "next_id s \<le> next_id s'" "\<forall>i. sems s' i \<noteq> sems s i \<longrightarrow> i = next_id s \<and> next_id s < next_id s' \<and> (\<forall>v. sems s' i = Some v \<longrightarrow> 0 \<le> v)"
    "\<forall>i. locks s' i \<noteq> locks s i \<longrightarrow> i = next_id s \<and> next_id s < next_id s'"
    using assms(1)
    by (auto simp: sem_create_def lock_create_def cv_create_def kmalloc_struct_def kmalloc_ask_def
      bind_eq_Some_conv split: if_splits)
  have f: "threads s' = threads s" "same_places s s'" "curspl s' = curspl s" "in_interrupt s' = in_interrupt s"
    by (subst k(1), simp add: same_places_def)+
  have n: "sems s (next_id s) = None" "locks s (next_id s) = None" using assms(2) by (simp_all add: ids_ok_def)
  have "frame s s'"
    using k(3,4) n f by (simp add: frame_def same_places_simps [OF f(2)]) (metis f(2) same_places_def)
  moreover have "ids_ok s'"
    unfolding ids_ok_def
  proof (intro allI impI)
    fix i assume i: "next_id s' \<le> i"
    then have "sems s' i = sems s i" "locks s' i = locks s i" using k(3,4) by (metis not_le)+
    moreover have "next_id s \<le> i" using i k(2) by simp
    ultimately show "threads s' i = None \<and> sems s' i = None \<and> locks s' i = None"
      using assms(2) by (simp add: ids_ok_def f)
  qed
  moreover have "runs s' = runs s" using f(1,2) by (auto simp: runs_def same_places_def fun_eq_iff)
  ultimately show ?thesis by blast
qed

lemma frame_kinv:
  assumes "kinv s" "runs s t x" "frame s s'"
  shows "kinv s'"
  using kinv_but_frame [OF kinvD(1) [OF assms(1)] assms(3)] runs_flag [OF assms(1,2)] assms(3)
  by (auto intro: kinvI simp: frame_def)

lemma kcall_inv:
  assumes ok: "kern_ok s" and run: "runs s t x" and pre: "kcall_pre op t s" and call: "kcall op s = Some s'"
  shows "kern_ok s'"
proof -
  have inv: "kinv s" and ids: "ids_ok s" using ok by (simp_all add: kern_ok_def)
  note k = kinvD(1) [OF inv] and r = runsD [OF run] and fl = runs_flag [OF inv run]
  note hi = kinv_spl_running [OF k run, of SPL_HIGH]
  have quietI: "kern_ok s'" if "kinv s'" "quiet s s'"
    using that ids_ok_same [OF ids] by (simp add: kern_ok_def quiet_def)
  have heldI: "kern_ok s'" if "kinv s'" "keeps_held v s s'" for v
    using that ids_ok_same [OF ids] by (simp add: kern_ok_def keeps_held_def)
  show ?thesis
  proof (cases op)
    case (Op_P m)
    then obtain c where c: "sems s m = Some c" "P_loop m (curspl s) (s\<lparr>curspl := SPL_HIGH\<rparr>) = Some s'"
      using call by (auto simp: sem_P_def bind_eq_Some_conv)
    have "kinv s'" using P_loop_inv [OF hi, of m c "curspl s"] c fl returns_okD by auto
    then show ?thesis using call Op_P by (intro quietI) (auto dest: sem_P_quiet)
  next
    case (Op_V m)
    then have "kinv_but {} s' \<and> in_interrupt s' = in_interrupt s" using sem_V_inv [OF k r(1)] call by auto
    then show ?thesis using call Op_V fl by (intro quietI) (auto dest: sem_V_quiet intro: kinvI)
  next
    case (Op_Acquire l)
    then obtain h where "locks s l = Some h" using call by (auto simp: lock_acquire_def bind_eq_Some_conv)
    then have "kinv s'" using lock_acquire_inv [OF k run fl, of l h "[]"] call Op_Acquire returns_okD by auto
    then show ?thesis using call Op_Acquire by (intro heldI [of None]) (auto dest: lock_acquire_held)
  next
    case (Op_Release l)
    then obtain h where "locks s l = Some h"
      using call by (auto simp: lock_release_def lock_do_i_hold_def bind_eq_Some_conv)
    then have "kinv s'" using lock_release_correct [OF inv run] call Op_Release inv by (fastforce split: if_splits)
    then show ?thesis using call Op_Release by (intro heldI) (auto dest: lock_release_held)
  next
    case (Op_Wait cv l)
    then have "cv \<in> cvs s" "locks s l = Some (Some t)"
      using call pre by (auto simp: cv_wait_def bind_eq_Some_conv kcall_pre_def)
    then have "kinv s'" using cv_wait_correct [OF inv run, of cv l] call Op_Wait by auto
    then show ?thesis using call Op_Wait by (intro heldI) (auto dest: cv_held)
  next
    case (Op_Signal cv l)
    then obtain h where "cv \<in> cvs s" "locks s l = Some h"
      using call by (auto simp: cv_signal_def lock_release_def lock_do_i_hold_def bind_eq_Some_conv
        dest!: thread_wakeup_one_quiet simp: quiet_def)
    then have "kinv s'" using cv_wake_correct(1) [OF inv run, of cv l h] call Op_Signal by auto
    then show ?thesis using call Op_Signal by (intro heldI) (auto dest: cv_held)
  next
    case (Op_Broadcast cv l)
    then obtain h where "cv \<in> cvs s" "locks s l = Some h"
      using call by (auto simp: cv_broadcast_def lock_release_def lock_do_i_hold_def bind_eq_Some_conv
        dest!: thread_wakeup_quiet simp: quiet_def)
    then have "kinv s'" using cv_wake_correct(2) [OF inv run, of cv l h] call Op_Broadcast by auto
    then show ?thesis using call Op_Broadcast by (intro heldI) (auto dest: cv_held)
  next
    case Op_Yield
    then show ?thesis using yield_inv [OF inv run] call by (intro quietI) (auto dest: thread_yield_quiet)
  next
    case (Op_Clocksleep n)
    then have "clock_loop n (curspl s) (s\<lparr>curspl := SPL_HIGH\<rparr>) = Some s'" using call by (simp add: clocksleep_def)
    then have "kinv s'" using clock_loop_inv [OF hi, of n "curspl s"] fl returns_okD by simp
    then show ?thesis using call Op_Clocksleep by (intro quietI) (auto dest: clock_quiet)
  next
    case (Op_Fork name)
    then obtain z where z: "thread_fork name s = Some (z, s')" using call by auto
    have "numthreads s + int (length (dead s)) + 1 < 2 ^ 27" using pre Op_Fork by (simp add: kcall_pre_def)
    from thread_fork_inv [OF inv ids run this z] show ?thesis
      using fl by (auto simp: forked_def kern_ok_def intro: kinvI)
  next
    case Op_Exit
    then show ?thesis using thread_exit_inv [OF inv ids run] call by (simp add: kern_ok_def)
  next
    case (Op_SemCreate c)
    then show ?thesis using create_frame [OF _ ids, of c] frame_kinv [OF inv run] call by (fastforce simp: kern_ok_def)
  next
    case Op_LockCreate
    then show ?thesis using create_frame [OF _ ids] frame_kinv [OF inv run] call by (fastforce simp: kern_ok_def)
  next
    case Op_CvCreate
    then show ?thesis using create_frame [OF _ ids] frame_kinv [OF inv run] call by (fastforce simp: kern_ok_def)
  next
    case (Op_Spl n)
    then show ?thesis
      using call fl kinv_spl_running [OF k run, of n] by (intro quietI) (auto intro: kinvI)
  qed
qed

lemma interruptible_cases:
  "interruptible s \<Longrightarrow> curthread s = None \<or> (\<exists>t x. runs s t x)"
  by (auto simp: interruptible_def runs_def split: option.splits)

lemma timer_step_inv:
  assumes "kinv s" "interruptible s" "timer_irq s = Some s'"
  shows "kinv s'"
proof -
  have n: "cint (lbolt_counter s + 1) = Some (lbolt_counter s + 1)"
    using assms(3) cint_SomeD by (fastforce simp: timer_irq_def hardclock_tick_def Let_def bind_eq_Some_conv)
  consider "curthread s = None" | t x where "runs s t x" using interruptible_cases [OF assms(2)] by auto
  then show ?thesis
  proof cases
    case 1
    then show ?thesis using timer_idle_inv [OF assms(1) 1 n] assms(3) by auto
  next
    case 2
    then show ?thesis using timer_inv [OF assms(1) 2 n] assms(3) by auto
  qed
qed

lemma device_step_inv:
  assumes "kinv s" "interruptible s" "device_irq m s = Some s'"
  shows "kinv s'"
proof -
  obtain c where c: "sems s m = Some c" "c < INT_MAX"
    using assms(3) by (auto simp: device_irq_def sem_V_def Let_def bind_eq_Some_conv cint_def split: if_splits)
  obtain t x where "curthread s = None \<or> runs s t x" using interruptible_cases [OF assms(2)] by auto
  from device_inv [OF assms(1) this c] assms(3) show ?thesis by auto
qed

lemma kstep_ok:
  assumes "kern_ok s" "kstep s s'"
  shows "kern_ok s'"
  using assms(2)
proof (cases rule: kstep.cases)
  case (step_call t x op)
  then show ?thesis using kcall_inv [OF assms(1)] by simp
next
  case step_dispatch
  then show ?thesis
    using assms(1) dispatch_inv [of s] ids_ok_same [of s s'] dispatch_quiet [of s s'] by (auto simp: kern_ok_def quiet_def)
next
  case (step_resume t)
  then obtain x k where "threads s t = Some x" "t_kont x = Some k"
    by (auto simp: switching_def split: option.splits)
  then show ?thesis
    using assms(1) resume_inv [of s t x k] step_resume ids_ok_same [of s s'] resume_held [of s s']
    by (auto simp: kern_ok_def keeps_held_def dest: returns_okD)
next
  case step_timer
  then show ?thesis
    using assms(1) timer_step_inv [of s s'] ids_ok_same [of s s'] timer_quiet [of s s'] by (auto simp: kern_ok_def quiet_def)
next
  case (step_device m)
  then show ?thesis
    using assms(1) device_step_inv [of s m s'] ids_ok_same [of s s'] device_quiet [of m s s']
    by (auto simp: kern_ok_def quiet_def)
qed

section \<open>Boot\<close>

lemma boot_fields:
  assumes "boot_threads s0 = Some (t, s')" "blank s0"
  obtains x q sl zs where "curthread s' = Some t" "threads s' = (\<lambda>_. None)(t \<mapsto> x)" "t_kont x = None" "t_stack x = None"
    "runqueue s' = Some q" "q_ok q" "q_items q = []" "q_size q = 32" "sleepers s' = Some sl" "array_ok sl" "guys sl = []"
    "zombies s' = Some zs" "array_ok zs" "guys zs = []" "numthreads s' = 1" "in_interrupt s' = 0"
    "\<forall>m c. sems s' m = Some c \<longrightarrow> c = 0" "locks s' = (\<lambda>_. None)" "ids_ok s'"
proof -
  obtain a where a: "scheduler_bootstrap s0 = Some a" "thread_bootstrap a = Some (t, s')"
    using assms(1) by (auto simp: boot_threads_def bind_eq_Some_conv)
  obtain q k where q: "a = s0\<lparr>k_nalloc := k, runqueue := Some q\<rparr>" "q_ok q" "q_items q = []" "q_size q = 32"
  proof -
    obtain q where e: "q_create (k_mem s0 (k_nalloc s0) [] \<noteq> None) (k_mem s0 (Suc (k_nalloc s0)) []) 32 = Some q"
      "a = s0\<lparr>k_nalloc := Suc (Suc (k_nalloc s0)), runqueue := Some q\<rparr>"
      using a(1) by (auto simp: scheduler_bootstrap_def kmalloc_ask_def bind_eq_Some_conv)
    then obtain g where "q_create True (Some g) 32 = Some q" by (auto simp: q_create_def split: option.splits if_splits)
    then show ?thesis using q_create_items [of 32 g] e(2) that by auto
  qed
  let ?e = "\<lparr>a_num = 0, a_max = 0, a_v = None\<rparr> :: tid karray"
  have e: "array_ok ?e" "guys ?e = []" by (simp_all add: array_ok_def guys_def)
  obtain k1 l b k2 d where st: "sem_create 0 (plist_init (a\<lparr>k_nalloc := k1\<rparr>)) = Some (l, b)"
    "thread_create ''<boot/menu>'' (b\<lparr>lock_sem := l, sleepers := Some ?e, k_nalloc := k2, zombies := Some ?e\<rparr>) = Some (Some t, d)"
    "do { d \<leftarrow> upd_thread t (\<lambda>x. x\<lparr>pcb_ininterrupt := 0\<rparr>) d;
          Some (t, d\<lparr>curthread := Some t, numthreads := 1\<rparr>) } = Some (t, s')"
    using a(2)
    by (auto simp: thread_bootstrap_def kmalloc_ask_def bind_eq_Some_conv array_create_def split: if_splits)
  let ?b = "b\<lparr>lock_sem := l, sleepers := Some ?e, k_nalloc := k2, zombies := Some ?e\<rparr>"
  have sb: "threads ?b = (\<lambda>_. None)" "locks ?b = (\<lambda>_. None)" "runqueue ?b = Some q" "in_interrupt ?b = 0"
    "\<forall>m c. sems ?b m = Some c \<longrightarrow> c = 0 \<and> m < next_id ?b"
    using sem_create_cases [OF st(1)] assms(2)
    by (auto simp: q(1) blank_def plist_init_def asked_def split: option.splits if_splits)
  obtain w where w: "created ''<boot/menu>'' t w ?b d" using thread_create_cases [OF st(2)] by auto
  have "ids_ok ?b" using sb by (auto simp: ids_ok_def) (metis leD option.exhaust)
  then have "ids_ok d"
    using w by (auto simp: created_def ids_ok_def split: option.splits)
  moreover have "\<forall>m c. sems d m = Some c \<longrightarrow> c = 0"
    using w sb(5) by (auto simp: created_def split: option.splits if_splits)
  ultimately show ?thesis
    using st(3) w sb q e
    by (intro that) (auto simp: created_def same_places_def upd_thread_def ids_ok_def)
qed

lemma boot_ok:
  assumes "booted s"
  shows "kern_ok s"
proof -
  obtain s0 t where b: "boot_threads s0 = Some (t, s)" "blank s0" using assms by (auto simp: booted_def)
  from boot_fields [OF b] obtain x q sl zs where
    f: "curthread s = Some t" "threads s = (\<lambda>_. None)(t \<mapsto> x)" "t_kont x = None" "t_stack x = None"
    "runqueue s = Some q" "q_ok q" "q_items q = []" "q_size q = 32" "sleepers s = Some sl" "array_ok sl" "guys sl = []"
    "zombies s = Some zs" "array_ok zs" "guys zs = []" "numthreads s = 1" "in_interrupt s = 0"
    "\<forall>m c. sems s m = Some c \<longrightarrow> c = 0" "locks s = (\<lambda>_. None)" "ids_ok s" .
  have l: "running s = [t]" "ready s = []" "asleep s = []" "dead s = []" "tables_ok s" "rq_cap s = 31"
    using f by (simp_all add: table_defs)
  have "threads_ok s" using f by (simp add: threads_ok_def l thr_ok_def running_ok_def stack_intact_def)
  moreover have "counts_ok s" using f l by (simp add: counts_ok_def)
  moreover have "\<not> switching s" using f by (simp add: switching_def)
  ultimately have "kinv0 s" using l by (simp add: kinv0_def)
  moreover have "sem_ok s m" "lock_ok s l'" for m l'
    using f l by (auto simp: sem_ok_def lock_ok_def split: option.splits)
  ultimately show ?thesis using f by (simp add: kern_ok_def kinv_def kinv_but_def flag_ok_def)
qed

lemma reachable_ok: "ksys.reachable s \<Longrightarrow> kern_ok s"
  by (erule ksys.reachable_invariant) (auto intro: kstep_ok boot_ok)

end
