(* ===== verification/Kern_Props.thy ===== *)
theory Kern_Props
  imports Kern_Reach
begin

text \<open>
  The main theorems about the thread system: they hold in every state that is reachable from the
  boot of the kernel. A concrete boot serves as their witness.
\<close>

section \<open>An example\<close>

text \<open>The kernel before boot, with an allocator that never fails, and the state after boot.\<close>

definition kern0 :: kern where
  "kern0 = \<lparr>curspl = 0, firstpaddr = 0x10000, lastpaddr = 0x80000, tlb = tlb_empty, pmem = (\<lambda>_. 0),
     in_interrupt = 0, curthread = None, threads = (\<lambda>_. None), sleepers = None, zombies = None, runqueue = None,
     numthreads = 0, max_pid = 1, plist = None, sems = (\<lambda>_. None), locks = (\<lambda>_. None), cvs = {},
     lock_sem = None, lbolt_counter = 0, vnrefs = (\<lambda>_. 0), spaces = (\<lambda>_. None), next_id = 0,
     k_mem = (\<lambda>n p. Some (\<lambda>i. 0)), k_nalloc = 0\<rparr>"

definition boot_thread :: thread where
  "boot_thread = \<lparr>t_name = ''<boot/menu>'', t_sleepaddr = None, t_stack = None, t_vmspace = None,
     t_cwd = None, t_pid = 1, t_child = replicate MAX_CHILD None, t_parent = None, t_wait = Some 2,
     t_kont = None, pcb_ininterrupt = 0\<rparr>"

definition k_boot :: kern where
  "k_boot = kern0\<lparr>k_nalloc := 12, next_id := 3, curthread := Some 1, numthreads := 1, max_pid := 2, lock_sem := Some 0,
     runqueue := Some \<lparr>q_size = 32, q_nextwrite = 0, q_nextread = 0, q_data = fresh_cells (\<lambda>i. 0) 32\<rparr>,
     sleepers := Some \<lparr>a_num = 0, a_max = 0, a_v = None\<rparr>, zombies := Some \<lparr>a_num = 0, a_max = 0, a_v = None\<rparr>,
     sems := (\<lambda>_. None)(0 \<mapsto> 0, 2 \<mapsto> 0), threads := (\<lambda>_. None)(1 \<mapsto> boot_thread),
     plist := Some [\<lparr>p_thread = Some 1, p_excode = - 1, p_exited = 0, p_pid = 1, p_parentpid = 0, p_waited = 0\<rparr>]\<rparr>"

lemmas create_defs = kmalloc_ask_def kmalloc_struct_def thread_create_def thread_init_def upd_thread_def sem_create_def
  insert_to_plist_def cint_def

lemma k_boot_booted: "boot_threads kern0 = Some (1, k_boot)"
  by (simp add: boot_threads_def scheduler_bootstrap_def thread_bootstrap_def array_create_def q_create_def
      plist_init_def create_defs kern0_def k_boot_def boot_thread_def eval_nat_numeral)

lemma k_boot_reachable: "ksys.reachable k_boot"
proof (rule ksys.reachable_init)
  have "blank kern0" by (simp add: blank_def kern0_def)
  then show "booted k_boot" using k_boot_booted by (auto simp: booted_def)
qed

lemma k_boot_simps:
  "curthread k_boot = Some 1" "threads k_boot = (\<lambda>_. None)(1 \<mapsto> boot_thread)" "sems k_boot = (\<lambda>_. None)(0 \<mapsto> 0, 2 \<mapsto> 0)"
  "next_id k_boot = 3" "\<not> mem_fails k_boot" "in_interrupt k_boot = 0" "curspl k_boot = 0" "locks k_boot = (\<lambda>_. None)"
  "numthreads k_boot = 1" "asleep k_boot = []" "ready k_boot = []" "dead k_boot = []" "max_pid k_boot = 2"
  by (simp_all add: k_boot_def kern0_def mem_fails_def table_defs guys_def q_items_def ring_def ring_len_def)

lemma k_boot_runs: "runs k_boot 1 boot_thread"
  by (simp add: runs_def k_boot_simps boot_thread_def)

lemma reachable_call:
  "ksys.reachable s \<Longrightarrow> runs s t x \<Longrightarrow> kcall_pre op t s \<Longrightarrow> kcall op s = Some s' \<Longrightarrow> ksys.reachable s'"
  by (rule ksys.reachable_step) (auto intro: step_call)

lemma reachableD:
  assumes "ksys.reachable s"
  shows "kern_ok s" "kinv s" "kinv0 s" "ids_ok s" "kinv_but {} s"
  using reachable_ok [OF assms] kinvD by (auto simp: kern_ok_def)

text \<open>The boot thread creates lock 3, takes it and yields.\<close>

definition k_lock :: kern where
  "k_lock = k_boot\<lparr>k_nalloc := 14, next_id := 4, locks := (\<lambda>_. None)(3 \<mapsto> None)\<rparr>"

definition k_held :: kern where
  "k_held = k_lock\<lparr>locks := (\<lambda>_. None)(3 \<mapsto> Some 1)\<rparr>"

lemma k_lock_call: "kcall Op_LockCreate k_boot = Some k_lock"
  by (simp add: lock_create_def kmalloc_ask_def kmalloc_struct_def k_lock_def k_boot_def kern0_def eval_nat_numeral)

lemma k_held_call: "kcall (Op_Acquire 3) k_lock = Some k_held"
  by (simp add: lock_acquire_def acquire_loop_def k_held_def k_lock_def k_boot_def kern0_def)

lemma k_held_reachable: "ksys.reachable k_lock" "ksys.reachable k_held" "runs k_lock 1 boot_thread" "runs k_held 1 boot_thread"
proof -
  show r: "runs k_lock 1 boot_thread" "runs k_held 1 boot_thread"
    using k_boot_runs by (simp_all add: runs_def k_lock_def k_held_def)
  show "ksys.reachable k_lock"
    by (rule reachable_call [OF k_boot_reachable k_boot_runs _ k_lock_call]) (simp add: kcall_pre_def)
  then show "ksys.reachable k_held"
    by (rule reachable_call [OF _ r(1) _ k_held_call]) (simp add: kcall_pre_def)
qed

definition k_sem :: kern where
  "k_sem = k_boot\<lparr>k_nalloc := 14, next_id := 4, sems := (\<lambda>_. None)(0 \<mapsto> 0, 2 \<mapsto> 0, 3 \<mapsto> 5)\<rparr>"

lemma k_sem_reachable: "ksys.reachable k_sem" "runs k_sem 1 boot_thread"
proof -
  have "kcall (Op_SemCreate 5) k_boot = Some k_sem"
    by (simp add: sem_create_def kmalloc_ask_def kmalloc_struct_def k_sem_def k_boot_def kern0_def eval_nat_numeral)
  then show "ksys.reachable k_sem"
    by (rule reachable_call [OF k_boot_reachable k_boot_runs, rotated]) (simp add: kcall_pre_def)
  show "runs k_sem 1 boot_thread" using k_boot_runs by (simp add: runs_def k_sem_def)
qed

section \<open>Threads and wake-ups\<close>

text \<open>
  (C1) No wake-up is lost. In every reachable state a semaphore has a count that is not negative, and
  nobody sleeps on a semaphore with a positive count; and when somebody sleeps on a lock that nobody
  holds, some running or ready thread is on its way to take that lock.
\<close>

theorem reachable_no_lost_wakeup:
  assumes "ksys.reachable s"
  shows "(\<forall>m c. sems s m = Some c \<longrightarrow> 0 \<le> c \<and> (0 < c \<longrightarrow> (\<forall>t \<in> set (asleep s). \<not> waits_on s (SemA m) t))) \<and>
    (\<forall>l. locks s l = Some None \<longrightarrow> (\<exists>t \<in> set (asleep s). waits_on s (LockA l) t) \<longrightarrow>
      (\<exists>u \<in> set (running s @ ready s). acquiring s l u))"
proof -
  have "sem_ok s m" "lock_ok s l" for m l using reachableD(5) [OF assms] by (simp_all add: kinv_but_def)
  then show ?thesis
    by (force simp: sem_ok_def lock_ok_def list_all_iff list_ex_iff split: option.splits)
qed

theorem reachable_no_lost_wakeup_witness:
  "\<exists>s. ksys.reachable s \<and> sems s 3 = Some 5 \<and> (\<forall>t \<in> set (asleep s). \<not> waits_on s (SemA 3) t)"
proof -
  have "sems k_sem 3 = Some 5" by (simp add: k_sem_def)
  then show ?thesis using reachable_no_lost_wakeup [OF k_sem_reachable(1)] k_sem_reachable(1) by fastforce
qed

section \<open>Mutual exclusion\<close>

lemma create_call_frame:
  assumes "kcall op s = Some s'" "(\<exists>c. op = Op_SemCreate c) \<or> op = Op_LockCreate \<or> op = Op_CvCreate" "ids_ok s"
    "locks s l = Some h"
  shows "locks s' l = Some h"
proof -
  have "\<exists>p c. sem_create c s = Some (p, s') \<or> lock_create s = Some (p, s') \<or> cv_create s = Some (p, s')"
    using assms(1,2) by (elim disjE exE; clarsimp; blast)
  then have "frame s s'" using create_frame [OF _ assms(3)] by blast
  then have "locks s' l = locks s l \<or> locks s l = None" by (simp add: frame_def)
  then show ?thesis using assms(4) by simp
qed

lemma kstep_keeps_held:
  assumes ok: "kern_ok s" and st: "kstep s s'" and h: "locks s l = Some (Some t)" and cur: "curthread s \<noteq> Some t"
  shows "locks s' l = Some (Some t)"
proof -
  have held: "locks s' l = Some (Some t)" if "keeps_held (curthread s) s s'"
    using that h cur by (simp add: keeps_held_def)
  have inv: "kinv s" "ids_ok s" using ok by (simp_all add: kern_ok_def)
  from st show ?thesis
  proof (cases rule: kstep.cases)
    case (step_call u x op)
    show ?thesis
    proof (cases op)
      case (Op_Fork name)
      then obtain z where z: "thread_fork name s = Some (z, s')" using step_call by auto
      have "numthreads s + int (length (dead s)) + 1 < 2 ^ 27" using step_call Op_Fork by (simp add: kcall_pre_def)
      from thread_fork_inv [OF inv step_call(1) this z] show ?thesis using h by (simp add: forked_def)
    next
      case Op_Exit
      then show ?thesis using thread_exit_inv [OF inv step_call(1)] step_call h by simp
    next
      case (Op_SemCreate c)
      then show ?thesis using create_call_frame [OF step_call(3) _ inv(2) h] by simp
    next
      case Op_LockCreate
      then show ?thesis using create_call_frame [OF step_call(3) _ inv(2) h] by simp
    next
      case Op_CvCreate
      then show ?thesis using create_call_frame [OF step_call(3) _ inv(2) h] by simp
    qed (use step_call h in \<open>auto intro!: held intro: quiet_held lock_acquire_held lock_release_held cv_held
      dest: sem_P_quiet sem_V_quiet thread_yield_quiet clock_quiet(2)\<close>)
  qed (auto intro!: held intro: quiet_held resume_held dest: dispatch_quiet timer_quiet device_quiet)
qed

text \<open>
  (C2) Mutual exclusion. A lock that thread \<open>t\<close> holds stays with \<open>t\<close> through any sequence of steps
  in which \<open>t\<close> does not run, whatever operations the other threads call and whatever interrupts
  arrive in between.
\<close>

theorem lock_mutual_exclusion:
  assumes "ksys.reachable s" "locks s l = Some (Some t)" "(\<lambda>a b. kstep a b \<and> curthread a \<noteq> Some t)\<^sup>*\<^sup>* s s'"
  shows "locks s' l = Some (Some t)"
proof -
  have "ksys.reachable s' \<and> locks s' l = Some (Some t)"
    using assms(3)
  proof (induction rule: rtranclp_induct)
    case (step a b)
    then show ?case
      using kstep_keeps_held [OF reachable_ok, of a b l t] by (auto intro: ksys.reachable_step)
  qed (use assms in simp)
  then show ?thesis ..
qed

theorem lock_mutual_exclusion_witness:
  "\<exists>s s'. kcall Op_Yield k_held = Some s \<and> mi_dispatch s = Some s' \<and> curthread s' = Some 1 \<and> locks s' 3 = Some (Some 1)"
proof -
  have "\<not> mem_fails k_held" "ready k_held = []" by (simp_all add: k_held_def k_lock_def mem_fails_def k_boot_def kern0_def
    table_defs q_items_def ring_def ring_len_def)
  with yield_inv [OF reachableD(2) [OF k_held_reachable(2)] k_held_reachable(4)] obtain s where
    s: "thread_yield k_held = Some s" "kinv s" "ready s = [1]" "curthread s = None" by auto
  have rs: "ksys.reachable s"
    using s(1) by (intro reachable_call [OF k_held_reachable(2,4), of Op_Yield]) (simp_all add: kcall_pre_def)
  have l: "locks s 3 = Some (Some 1)" using thread_yield_quiet [OF s(1)] by (simp add: quiet_def k_held_def)
  note i0 = kinvD(2) [OF s(2)]
  have "0 < curspl s" using i0 s(4) by (simp add: kinv0_def switching_def)
  with mi_dispatch_cases [of s] i0 s(3) kinv0_ready_exist [OF i0] obtain s' where
    s': "mi_dispatch s = Some s'" "curthread s' = Some 1" by (auto simp: kinv0_def)
  have "kstep s s'" by (rule step_dispatch [OF s(4) s'(1)])
  then have "(\<lambda>a b. kstep a b \<and> curthread a \<noteq> Some 1)\<^sup>*\<^sup>* s s'" using s(4) by auto
  from lock_mutual_exclusion [OF rs l this] show ?thesis using s(1) s' by auto
qed

section \<open>The operations return\<close>

lemma sem_P_inv:
  assumes "kinv s" "runs s t x" "sems s m = Some c"
  shows "returns_ok (sem_P m s) s"
proof -
  note k = kinv_spl_running [OF kinvD(1) [OF assms(1)] assms(2), of SPL_HIGH] and fl = runs_flag [OF assms(1,2)]
  have "returns_ok (P_loop m (curspl s) (s\<lparr>curspl := SPL_HIGH\<rparr>)) (s\<lparr>curspl := SPL_HIGH\<rparr>)"
    by (rule P_loop_inv [OF k]) (use assms(3) fl in simp_all)
  then show ?thesis using assms(3) fl by (simp add: sem_P_def returns_ok_def)
qed

text \<open>
  (C7) The synchronisation operations do not panic. In every reachable state a running thread that
  calls \<open>P\<close>, \<open>V\<close> (below the largest count), \<open>lock_acquire\<close>, \<open>lock_release\<close>, \<open>cv_wait\<close>,
  \<open>cv_signal\<close> or \<open>cv_broadcast\<close> on existing structures gets through the call, asleep or not,
  even when the allocator has no memory left, once the table of the sleepers has room for all threads.
\<close>

theorem sync_never_panics:
  assumes "ksys.reachable s" "runs s t x" "numthreads s \<le> sl_cap s"
  shows "(\<forall>m c. sems s m = Some c \<longrightarrow> sem_P m s \<noteq> None \<and> (c < INT_MAX \<longrightarrow> sem_V m s \<noteq> None)) \<and>
    (\<forall>l. locks s l \<noteq> None \<longrightarrow> lock_acquire [] l s \<noteq> None \<and> lock_release l s \<noteq> None) \<and>
    (\<forall>cv l. cv \<in> cvs s \<longrightarrow> locks s l \<noteq> None \<longrightarrow> cv_signal cv l s \<noteq> None \<and> cv_broadcast cv l s \<noteq> None) \<and>
    (\<forall>cv l. cv \<in> cvs s \<longrightarrow> locks s l = Some (Some t) \<longrightarrow> cv_wait cv l s \<noteq> None)"
proof -
  note inv = reachableD(2) [OF assms(1)] and k = reachableD(5) [OF assms(1)] and r = runsD [OF assms(2)]
  note fl = runs_flag [OF inv assms(2)]
  have nf: "\<not> sleep_fails s" using assms(3) by (simp add: sleep_fails_def)
  have "sem_V m s \<noteq> None" if "sems s m = Some c" "c < INT_MAX" for m c
    using sem_V_cases [OF k that] kinv0_room [OF kinvD(2) [OF inv] r(1)] by auto
  moreover have "sem_P m s \<noteq> None" if "sems s m = Some c" for m c
    using sem_P_inv [OF inv assms(2) that] nf by (auto simp: returns_ok_def)
  moreover have "lock_acquire [] l s \<noteq> None \<and> lock_release l s \<noteq> None" if "locks s l \<noteq> None" for l
    using that lock_acquire_inv [OF k assms(2) fl, of l _ "[]"] nf lock_release_correct [OF inv assms(2), of l]
    by (auto simp: returns_ok_def split: if_splits)
  moreover have "cv_signal cv l s \<noteq> None \<and> cv_broadcast cv l s \<noteq> None" if "cv \<in> cvs s" "locks s l \<noteq> None" for cv l
    using that cv_wake_correct [OF inv assms(2) that(1), of l] by fastforce
  moreover have "cv_wait cv l s \<noteq> None" if "cv \<in> cvs s" "locks s l = Some (Some t)" for cv l
    using cv_wait_correct [OF inv assms(2) that] nf by auto
  ultimately show ?thesis by blast
qed

lemma forked_example:
  "\<exists>s x. kcall (Op_Fork ''child'') k_boot = Some s \<and> ksys.reachable s \<and> runs s 1 x \<and> ready s = [3] \<and> numthreads s \<le> sl_cap s"
proof -
  have k: "kinv k_boot" "ids_ok k_boot" using reachableD [OF k_boot_reachable] by simp_all
  have p: "plist k_boot \<noteq> None" "t_cwd boot_thread = None" "t_child boot_thread = replicate MAX_CHILD None"
    by (simp_all add: k_boot_def boot_thread_def)
  then obtain s where s: "thread_fork ''child'' k_boot = Some (Inr 3, s)" "forked 1 (Inr 3) k_boot s"
    using thread_fork_succeeds [OF k k_boot_runs, of _ "''child''"] by (auto simp: k_boot_simps cint_def)
  obtain x where x: "runs s 1 x" "ready s = [3]" "numthreads s = 2" "kinv_but {} s"
    using s(2) by (auto simp: forked_def k_boot_simps)
  have "numthreads s \<le> sl_cap s" using kinv_kinv0 [OF x(4)] x(3) by (auto simp: kinv0_def counts_ok_def)
  moreover have "ksys.reachable s"
    using s(1) by (intro reachable_call [OF k_boot_reachable k_boot_runs, of "Op_Fork ''child''"])
      (simp_all add: kcall_pre_def k_boot_simps)
  ultimately show ?thesis using s(1) x by auto
qed

theorem sync_never_panics_witness:
  "\<exists>s. kcall (Op_Fork ''child'') k_boot = Some s \<and> (\<forall>m c. sems s m = Some c \<longrightarrow> sem_P m s \<noteq> None)"
proof -
  obtain s x where s: "kcall (Op_Fork ''child'') k_boot = Some s" "ksys.reachable s" "runs s 1 x" "numthreads s \<le> sl_cap s"
    using forked_example by blast
  show ?thesis using s(1) sync_never_panics [OF s(2-4)] by blast
qed

section \<open>Semaphores and condition variables\<close>



lemma woken_first_waiter:
  assumes "woken Q s s'" "\<And>u. Q u \<Longrightarrow> \<not> waits_on s addr u"
  shows "first_waiter s' addr = first_waiter s addr"
proof -
  have "find P (filter (\<lambda>u. \<not> Q u) us) = find P us" if "\<And>u. Q u \<Longrightarrow> \<not> P u" for P us
    using that by (induction us) auto
  then show ?thesis using assms(2) by (simp add: first_waiter_def woken_simps [OF assms(1)])
qed

lemma first_waiter_waits: "first_waiter s addr = Some u \<Longrightarrow> waits_on s addr u"
  by (auto simp: first_waiter_def find_Some_iff)

text \<open>The common end of \<open>cv_signal\<close> and \<open>cv_broadcast\<close>: the lock of the caller is released.\<close>

lemma woken_released:
  assumes "woken Q (s\<lparr>curspl := SPL_HIGH\<rparr>) s1" "released l s1 s2" "\<And>u. Q u \<Longrightarrow> waits_on s (CvA cv) u"
  shows "locks s2 = (locks s)(l \<mapsto> None)"
    "asleep s2 = filter (\<lambda>u. \<not> Q u \<and> first_waiter s (LockA l) \<noteq> Some u) (asleep s)"
proof -
  have w: "waits_on (s\<lparr>curspl := SPL_HIGH\<rparr>) = waits_on s" "asleep (s\<lparr>curspl := SPL_HIGH\<rparr>) = asleep s"
    by (auto simp: waits_on_def table_defs fun_eq_iff)
  have "\<not> waits_on (s\<lparr>curspl := SPL_HIGH\<rparr>) (LockA l) u" if "Q u" for u
    using assms(3) [OF that] by (auto simp: waits_on_def split: option.splits)
  from woken_first_waiter [OF assms(1) this] w
  have f: "first_waiter s1 (LockA l) = first_waiter s (LockA l)" by (simp add: first_waiter_def)
  show "locks s2 = (locks s)(l \<mapsto> None)" using assms(2) by (simp add: released_def woken_simps [OF assms(1)])
  show "asleep s2 = filter (\<lambda>u. \<not> Q u \<and> first_waiter s (LockA l) \<noteq> Some u) (asleep s)"
    using assms(2) f w(2) by (simp add: released_def woken_simps [OF assms(1)])
qed

text \<open>
  (C11) \<open>cv_signal\<close> wakes the first thread that sleeps on the condition variable and \<open>cv_broadcast\<close>
  all of them; but both also release the lock of the caller, which wakes the first thread that waits
  for the lock. No other thread wakes, and no other lock changes.
\<close>

theorem cv_signal_releases:
  assumes "ksys.reachable s" "runs s t x" "cv \<in> cvs s" "locks s l = Some (Some t)"
  shows "(\<exists>s'. cv_signal cv l s = Some s' \<and> locks s' = (locks s)(l \<mapsto> None) \<and>
      asleep s' = filter (\<lambda>u. first_waiter s (CvA cv) \<noteq> Some u \<and> first_waiter s (LockA l) \<noteq> Some u) (asleep s)) \<and>
    (\<exists>s'. cv_broadcast cv l s = Some s' \<and> locks s' = (locks s)(l \<mapsto> None) \<and>
      asleep s' = filter (\<lambda>u. \<not> waits_on s (CvA cv) u \<and> first_waiter s (LockA l) \<noteq> Some u) (asleep s))"
proof -
  note inv = reachableD(2) [OF assms(1)]
  obtain a b where ab: "cv_signal cv l s = Some (b\<lparr>curspl := curspl s\<rparr>)"
    "woken (\<lambda>u. first_waiter s (CvA cv) = Some u) (s\<lparr>curspl := SPL_HIGH\<rparr>) a" "released l a b"
    using cv_wake_correct(1) [OF inv assms(2,3,4)] by auto
  obtain c d where cd: "cv_broadcast cv l s = Some (d\<lparr>curspl := curspl s\<rparr>)"
    "woken (waits_on s (CvA cv)) (s\<lparr>curspl := SPL_HIGH\<rparr>) c" "released l c d"
    using cv_wake_correct(2) [OF inv assms(2,3,4)] by auto
  have spl: "asleep (u\<lparr>curspl := n\<rparr>) = asleep u" for u :: kern and n by (simp add: asleep_def)
  show ?thesis
    using ab(1) cd(1) woken_released [OF ab(2,3), of cv] woken_released [OF cd(2,3), of cv] first_waiter_waits
    by (simp add: spl)
qed

definition k_cv :: kern where
  "k_cv = k_held\<lparr>k_nalloc := 16, next_id := 5, cvs := {4}\<rparr>"

lemma k_cv_reachable: "ksys.reachable k_cv" "runs k_cv 1 boot_thread"
proof -
  have "kcall Op_CvCreate k_held = Some k_cv"
    by (simp add: cv_create_def kmalloc_ask_def kmalloc_struct_def k_cv_def k_held_def k_lock_def k_boot_def kern0_def
      eval_nat_numeral)
  then show "ksys.reachable k_cv"
    by (rule reachable_call [OF k_held_reachable(2,4), rotated]) (simp add: kcall_pre_def)
  show "runs k_cv 1 boot_thread" using k_held_reachable(4) by (simp add: runs_def k_cv_def)
qed

theorem cv_signal_releases_witness:
  "\<exists>s'. cv_signal 4 3 k_cv = Some s' \<and> locks k_cv 3 = Some (Some 1) \<and> locks s' 3 = Some None"
proof -
  have "4 \<in> cvs k_cv" "locks k_cv 3 = Some (Some 1)" by (simp_all add: k_cv_def k_held_def)
  from cv_signal_releases [OF k_cv_reachable this] show ?thesis using \<open>locks k_cv 3 = Some (Some 1)\<close> by auto
qed

section \<open>Forking and exiting\<close>

text \<open>
  (C9) With memory, a free child slot and a process list, \<open>thread_fork\<close> succeeds: the new thread gets
  the next process number, its parent, the working directory of its parent and a stack with the magic
  number; it stands in a free child slot of the parent and last in the run queue, ready to start; its
  node in the process list names the parent; and the count of the threads grows by one.
\<close>

theorem thread_fork_correct:
  assumes "ksys.reachable s" "runs s t x" "\<not> mem_fails s" "plist s = Some ps" "max_pid s < INT_MAX" "0 < max_pid s"
    "length (t_child x) = MAX_CHILD" "None \<in> set (t_child x)"
    "\<forall>v. t_cwd x = Some v \<longrightarrow> 0 \<le> vnrefs s v \<and> vnrefs s v < INT_MAX"
    "numthreads s + int (length (dead s)) < 2 ^ 20"
  shows "\<exists>n s'. thread_fork name s = Some (Inr n, s') \<and> n \<notin> places s \<and> fork_linked t x n s s' \<and>
    ready s' = ready s @ [n] \<and> asleep s' = asleep s \<and> numthreads s' = numthreads s + 1 \<and> curspl s' = curspl s"
proof -
  have "cint (max_pid s + 1) = Some (max_pid s + 1)" "numthreads s + int (length (dead s)) + 1 < 2 ^ 27"
    using assms(5,6,10) by (simp_all add: cint_def)
  moreover have "cint (vnrefs s v + 1) = Some (vnrefs s v + 1)" if "t_cwd x = Some v" for v
    using that assms(9) by (simp add: cint_def)
  ultimately show ?thesis
    using thread_fork_succeeds [OF reachableD(2,4) [OF assms(1)] assms(2,3,4) _ assms(7,8)]
    by (fastforce simp: forked_def)
qed

theorem thread_fork_correct_witness:
  "\<exists>n s'. thread_fork ''child'' k_boot = Some (Inr n, s') \<and> ready s' = [n] \<and> numthreads s' = 2"
proof -
  obtain ps where "plist k_boot = Some ps" by (simp add: k_boot_def)
  moreover have "t_cwd boot_thread = None" "t_child boot_thread = replicate MAX_CHILD None"
    by (simp_all add: boot_thread_def)
  ultimately show ?thesis
    using thread_fork_correct [OF k_boot_reachable k_boot_runs, of ps "''child''"] by (auto simp: k_boot_simps)
qed

end
