(* ===== verification/Kern_Bitmap.thy ===== *)
theory Kern_Bitmap
  imports Kern_Prelude
begin

text \<open>
  The bitmap of \<^verbatim>\<open>kern/lib/bitmap.c\<close>, which the file system uses for its free map. Bits live
  in bytes; the bits behind the last valid one are kept set, so that the search for a free bit
  never returns them. The locale \<open>bit_allocator\<close> states the contract: an allocator of numbers below
  a limit.
\<close>

section \<open>Structure and operations\<close>

record bitmap =
  b_nbits :: "32 word"
  b_v :: "8 word list"

text \<open>\<open>DIVROUNDUP(n, BITS_PER_WORD)\<close> on 32-bit numbers.\<close>

definition bm_words :: "32 word \<Rightarrow> 32 word" where
  "bm_words nbits = (nbits + 8 - 1) div 8"

definition set_bits_from :: "nat \<Rightarrow> 8 word \<Rightarrow> 8 word" where
  "set_bits_from overbits v = fold (\<lambda>j v. v OR push_bit j 1) [overbits..<8] v"

text \<open>\<open>Some None\<close> is the null pointer that is returned when an allocation fails.\<close>

definition bitmap_create :: "bool \<Rightarrow> bool \<Rightarrow> 32 word \<Rightarrow> bitmap option option" where
  "bitmap_create mem1 mem2 nbits =
     (let words = bm_words nbits in
      if \<not> mem1 \<or> \<not> mem2 then Some None
      else
        let v = replicate (unat words) 0 in
        if nbits div 8 < words then
          let ix = words - 1; overbits = nbits - ix * 8 in do {
            kassert (nbits div 8 = words - 1);
            kassert (0 < overbits \<and> overbits < 8);
            x \<leftarrow> rd v (uint ix);
            v' \<leftarrow> wr v (uint ix) (set_bits_from (unat overbits) x);
            Some (Some \<lparr>b_nbits = nbits, b_v = v'\<rparr>) }
        else Some (Some \<lparr>b_nbits = nbits, b_v = v\<rparr>))"

definition bitmap_getdata :: "bitmap \<Rightarrow> 8 word list" where
  "bitmap_getdata b = b_v b"

text \<open>The inner loop of \<open>bitmap_alloc\<close>: the first clear bit of a byte.\<close>

definition first_clear :: "8 word \<Rightarrow> nat option" where
  "first_clear x = find (\<lambda>offset. x AND push_bit offset 1 = 0) [0..<8]"

function bitmap_alloc_from ::
    "bitmap \<Rightarrow> 32 word \<Rightarrow> 32 word \<Rightarrow> ((errno + 32 word) \<times> bitmap) option" where
  "bitmap_alloc_from b ix maxix =
     (if ix < maxix then do {
        x \<leftarrow> rd (b_v b) (uint ix);
        if x \<noteq> 0xff then do {
          offset \<leftarrow> first_clear x;
          v' \<leftarrow> wr (b_v b) (uint ix) (x OR push_bit offset 1);
          kassert (ix * 8 + of_nat offset < b_nbits b);
          Some (Inr (ix * 8 + of_nat offset), b\<lparr>b_v := v'\<rparr>) }
        else bitmap_alloc_from b (ix + 1) maxix }
      else Some (Inl ENOSPC, b))"
  by pat_completeness auto
termination
  by (relation "measure (\<lambda>(b, ix, maxix). unat (maxix - ix))") (simp_all add: unat_diff_inc)

declare bitmap_alloc_from.simps [simp del]

definition bitmap_alloc :: "bitmap \<Rightarrow> ((errno + 32 word) \<times> bitmap) option" where
  "bitmap_alloc b = bitmap_alloc_from b 0 (bm_words (b_nbits b))"

definition bitmap_translate :: "32 word \<Rightarrow> 32 word \<times> 8 word" where
  "bitmap_translate bitno = (bitno div 8, push_bit (unat (bitno mod 8)) 1)"

definition bitmap_mark :: "bitmap \<Rightarrow> 32 word \<Rightarrow> bitmap option" where
  "bitmap_mark b index = do {
     kassert (index < b_nbits b);
     let (ix, mask) = bitmap_translate index;
     x \<leftarrow> rd (b_v b) (uint ix);
     kassert (x AND mask = 0);
     v' \<leftarrow> wr (b_v b) (uint ix) (x OR mask);
     Some (b\<lparr>b_v := v'\<rparr>) }"

definition bitmap_unmark :: "bitmap \<Rightarrow> 32 word \<Rightarrow> bitmap option" where
  "bitmap_unmark b index = do {
     kassert (index < b_nbits b);
     let (ix, mask) = bitmap_translate index;
     x \<leftarrow> rd (b_v b) (uint ix);
     kassert (x AND mask \<noteq> 0);
     v' \<leftarrow> wr (b_v b) (uint ix) (x AND NOT mask);
     Some (b\<lparr>b_v := v'\<rparr>) }"

definition bitmap_isset :: "bitmap \<Rightarrow> 32 word \<Rightarrow> int option" where
  "bitmap_isset b index = do {
     let (ix, mask) = bitmap_translate index;
     x \<leftarrow> rd (b_v b) (uint ix);
     Some (uint (x AND mask)) }"

section \<open>Bits\<close>

definition bm_bit :: "bitmap \<Rightarrow> nat \<Rightarrow> bool" where
  "bm_bit b i = bit (b_v b ! (i div 8)) (i mod 8)"

definition bm_limit :: "bitmap \<Rightarrow> nat" where
  "bm_limit b = unat (b_nbits b)"

definition bm_used :: "bitmap \<Rightarrow> nat set" where
  "bm_used b = {i. i < bm_limit b \<and> bm_bit b i}"

text \<open>
  Well-formedness: the byte count is the rounded-up eighth of the bit count, which does not wrap,
  and the spare bits of the last byte are set.
\<close>

definition bm_ok :: "bitmap \<Rightarrow> bool" where
  "bm_ok b \<longleftrightarrow> bm_limit b + 7 < 2 ^ 32 \<and> length (b_v b) = (bm_limit b + 7) div 8 \<and>
     (\<forall>i < 8 * length (b_v b). bm_limit b \<le> i \<longrightarrow> bm_bit b i)"

lemma and_mask_0_iff: "x AND 2 ^ j = 0 \<longleftrightarrow> \<not> bit x j" for x :: "8 word"
  by (rule and_exp_eq_0_iff_not_bit)

lemma bit_or_mask: "bit (x OR 2 ^ j) i \<longleftrightarrow> bit x i \<or> i = j" if "j < 8" for x :: "8 word"
  using that by (auto simp: bit_simps)

lemma bit_and_not_mask: "bit (x AND NOT (2 ^ j)) i \<longleftrightarrow> bit x i \<and> i \<noteq> j" if "j < 8"
  for x :: "8 word"
  using that bit_imp_le_length [of x i] by (auto simp: bit_simps)

lemma bit_set_bits_from:
  "bit (set_bits_from k x) i \<longleftrightarrow> bit x i \<or> k \<le> i \<and> i < 8" for x :: "8 word"
proof -
  have "bit (fold (\<lambda>j v. v OR 2 ^ j) xs x) i \<longleftrightarrow> bit x i \<or> i \<in> set xs"
    if "set xs \<subseteq> {..<8}" for xs and x :: "8 word"
    using that by (induction xs arbitrary: x) (auto simp: bit_or_mask)
  moreover have "set [k..<8] \<subseteq> {..<8}" by auto
  ultimately show ?thesis by (auto simp: set_bits_from_def)
qed

lemma not_full_byte: "x \<noteq> 0xff \<longleftrightarrow> (\<exists>j < 8. \<not> bit x j)" for x :: "8 word"
proof -
  have "(0xff :: 8 word) = - 1" by simp
  then show ?thesis by (auto simp: bit_eq_iff)
qed

lemma first_clear_Some:
  assumes "x \<noteq> 0xff"
  shows "\<exists>j. first_clear x = Some j \<and> j < 8 \<and> \<not> bit x j \<and> (\<forall>k < j. bit x k)"
proof -
  obtain j where "j < 8" "\<not> bit x j" using assms by (auto simp: not_full_byte)
  then have "find (\<lambda>offset. x AND push_bit offset 1 = 0) [0..<8] \<noteq> None"
    by (auto simp: find_None_iff and_mask_0_iff)
  then obtain m where m: "first_clear x = Some m" by (auto simp: first_clear_def)
  then have "m < 8 \<and> \<not> bit x m \<and> (\<forall>k < m. bit x k)"
    by (auto simp: first_clear_def find_Some_iff and_mask_0_iff)
  with m show ?thesis by blast
qed

lemma unat_bm_words: "unat n + 7 < 2 ^ 32 \<Longrightarrow> unat (bm_words n) = (unat n + 7) div 8"
  by (simp add: bm_words_def unat_div unat_word_ariths)

section \<open>The operations on the set of used numbers\<close>

lemma bm_index:
  assumes "bm_ok b" "index < b_nbits b"
  shows "unat index div 8 < length (b_v b)" "unat index < bm_limit b"
  using assms by (auto simp: bm_ok_def bm_limit_def word_less_nat_alt)

lemma bm_bit_update:
  assumes "ix < length (b_v b)"
  shows "bm_bit (b\<lparr>b_v := (b_v b)[ix := y]\<rparr>) i \<longleftrightarrow>
    (if i div 8 = ix then bit y (i mod 8) else bm_bit b i)"
  using assms by (simp add: bm_bit_def nth_list_update)

lemma translate_simps:
  "fst (bitmap_translate index) = index div 8"
  "snd (bitmap_translate index) = 2 ^ (unat index mod 8)"
  "uint (index div 8) = int (unat index div 8)"
  by (simp_all add: bitmap_translate_def unat_mod uint_div_distrib zdiv_int)

lemma bm_bit_write:
  assumes "bm_ok b" "n < bm_limit b"
    "\<And>j. bit y j \<longleftrightarrow> (if j = n mod 8 then v else bit (b_v b ! (n div 8)) j)"
  shows "bm_bit (b\<lparr>b_v := (b_v b)[n div 8 := y]\<rparr>) i \<longleftrightarrow> (if i = n then v else bm_bit b i)"
proof -
  have "n div 8 < length (b_v b)" using assms(1,2) by (auto simp: bm_ok_def)
  moreover have "i = n \<longleftrightarrow> i div 8 = n div 8 \<and> i mod 8 = n mod 8"
    by (metis div_mult_mod_eq)
  ultimately show ?thesis
    by (auto simp: bm_bit_update assms(3) bm_bit_def [of b])
qed

lemma bm_ok_write:
  assumes "bm_ok b" "n < bm_limit b"
    "\<And>i. bm_bit (b\<lparr>b_v := (b_v b)[n div 8 := y]\<rparr>) i \<longleftrightarrow> (if i = n then v else bm_bit b i)"
  shows "bm_ok (b\<lparr>b_v := (b_v b)[n div 8 := y]\<rparr>)"
    "bm_used (b\<lparr>b_v := (b_v b)[n div 8 := y]\<rparr>) =
      (if v then insert n (bm_used b) else bm_used b - {n})"
  using assms by (auto simp: bm_ok_def bm_used_def bm_limit_def)

lemma bitmap_mark_ok:
  assumes "bm_ok b" "index < b_nbits b" "unat index \<notin> bm_used b"
  shows "\<exists>b'. bitmap_mark b index = Some b' \<and> bm_ok b' \<and> b_nbits b' = b_nbits b \<and>
    bm_used b' = insert (unat index) (bm_used b)"
proof -
  let ?n = "unat index" and ?x = "b_v b ! (unat index div 8)"
  let ?b = "b\<lparr>b_v := (b_v b)[?n div 8 := ?x OR 2 ^ (?n mod 8)]\<rparr>"
  note ix = bm_index [OF assms(1,2)]
  have clear: "\<not> bit ?x (?n mod 8)" using assms(3) ix(2) by (auto simp: bm_used_def bm_bit_def)
  have "bm_bit ?b i \<longleftrightarrow> (if i = ?n then True else bm_bit b i)" for i
    by (rule bm_bit_write [OF assms(1) ix(2)]) (auto simp: bit_or_mask)
  from bm_ok_write [OF assms(1) ix(2) this]
  have "bm_ok ?b" "bm_used ?b = insert ?n (bm_used b)" by simp_all
  moreover have "bitmap_mark b index = Some ?b"
    using assms(2) ix clear
    by (simp add: bitmap_mark_def Let_def case_prod_beta translate_simps and_mask_0_iff)
  ultimately show ?thesis by simp
qed

lemma bitmap_unmark_ok:
  assumes "bm_ok b" "index < b_nbits b" "unat index \<in> bm_used b"
  shows "\<exists>b'. bitmap_unmark b index = Some b' \<and> bm_ok b' \<and> b_nbits b' = b_nbits b \<and>
    bm_used b' = bm_used b - {unat index}"
proof -
  let ?n = "unat index" and ?x = "b_v b ! (unat index div 8)"
  let ?b = "b\<lparr>b_v := (b_v b)[?n div 8 := ?x AND NOT (2 ^ (?n mod 8))]\<rparr>"
  note ix = bm_index [OF assms(1,2)]
  have is_set: "bit ?x (?n mod 8)" using assms(3) by (auto simp: bm_used_def bm_bit_def)
  have "bm_bit ?b i \<longleftrightarrow> (if i = ?n then False else bm_bit b i)" for i
    by (rule bm_bit_write [OF assms(1) ix(2)]) (auto simp: bit_and_not_mask)
  from bm_ok_write [OF assms(1) ix(2) this]
  have "bm_ok ?b" "bm_used ?b = bm_used b - {?n}" by simp_all
  moreover have "bitmap_unmark b index = Some ?b"
    using assms(2) ix is_set
    by (simp add: bitmap_unmark_def Let_def case_prod_beta translate_simps and_mask_0_iff)
  ultimately show ?thesis by simp
qed

lemma bitmap_mark_panics:
  assumes "bm_ok b" "unat index \<in> bm_used b"
  shows "bitmap_mark b index = None"
proof -
  have "index < b_nbits b \<Longrightarrow> \<not> b_v b ! (unat index div 8) AND 2 ^ (unat index mod 8) = 0"
    using assms by (simp add: bm_used_def bm_bit_def and_mask_0_iff)
  then show ?thesis
    using bm_index [OF assms(1), of index]
    by (auto simp: bitmap_mark_def Let_def case_prod_beta translate_simps)
qed

lemma bitmap_isset_iff:
  assumes "bm_ok b" "index < b_nbits b"
  shows "\<exists>r. bitmap_isset b index = Some r \<and> (r \<noteq> 0 \<longleftrightarrow> unat index \<in> bm_used b)"
proof -
  note ix = bm_index [OF assms]
  have "uint (b_v b ! (unat index div 8) AND 2 ^ (unat index mod 8)) = 0 \<longleftrightarrow>
    \<not> bit (b_v b ! (unat index div 8)) (unat index mod 8)"
    by (simp only: uint_0_iff and_mask_0_iff)
  then show ?thesis
    using ix by (simp add: bitmap_isset_def Let_def case_prod_beta translate_simps bm_used_def bm_bit_def)
qed

text \<open>The search finds the least free number.\<close>

definition least_free :: "bitmap \<Rightarrow> nat \<Rightarrow> bool" where
  "least_free b n \<longleftrightarrow> n < bm_limit b \<and> n \<notin> bm_used b \<and> (\<forall>i < n. i \<in> bm_used b)"

lemma alloc_found:
  assumes ok: "bm_ok b" and ix: "ix < bm_words (b_nbits b)"
    and before: "\<forall>i < 8 * unat ix. bm_bit b i" and x: "b_v b ! unat ix \<noteq> 0xff"
  shows "\<exists>n b'. bitmap_alloc_from b ix (bm_words (b_nbits b)) = Some (Inr (of_nat n), b') \<and>
    least_free b n \<and> bm_ok b' \<and> b_nbits b' = b_nbits b \<and> bm_used b' = insert n (bm_used b)"
proof -
  let ?x = "b_v b ! unat ix"
  obtain j where j: "first_clear ?x = Some j" "j < 8" "\<not> bit ?x j" "\<forall>k < j. bit ?x k"
    using first_clear_Some [OF x] by blast
  define n where "n = 8 * unat ix + j"
  have n: "n div 8 = unat ix" "n mod 8 = j" using j(2) by (simp_all add: n_def)
  have len: "unat ix < length (b_v b)"
    using ix ok by (simp add: word_less_nat_alt bm_ok_def unat_bm_words bm_limit_def)
  have clear: "\<not> bm_bit b n" using j(3) n by (simp add: bm_bit_def)
  have "n < 8 * length (b_v b)" using len j(2) by (simp add: n_def)
  then have lim: "n < bm_limit b" using ok clear by (meson bm_ok_def not_less)
  have below: "bm_bit b i" if "i < n" for i
  proof (cases "i < 8 * unat ix")
    case False
    then obtain k where "i = 8 * unat ix + k" by (metis le_Suc_ex not_less)
    then show ?thesis using that j(2,4) by (simp add: n_def bm_bit_def)
  qed (use before in simp)
  let ?b = "b\<lparr>b_v := (b_v b)[n div 8 := ?x OR 2 ^ j]\<rparr>"
  have "bm_bit ?b i \<longleftrightarrow> (if i = n then True else bm_bit b i)" for i
    by (rule bm_bit_write [OF ok lim]) (use j(2) n in \<open>auto simp: bit_or_mask\<close>)
  from bm_ok_write [OF ok lim this]
  have b: "bm_ok ?b" "bm_used ?b = insert n (bm_used b)" by simp_all
  have w: "ix * 8 + of_nat j = (of_nat n :: 32 word)" by (simp add: n_def algebra_simps)
  have "n < 2 ^ 32" using lim ok by (simp add: bm_ok_def)
  then have "unat (of_nat n :: 32 word) = n" by (simp add: unat_of_nat)
  then have "of_nat n < b_nbits b" using lim by (simp add: word_less_nat_alt bm_limit_def)
  then have "bitmap_alloc_from b ix (bm_words (b_nbits b)) = Some (Inr (of_nat n), ?b)"
    using ix len x j(1) w n by (subst bitmap_alloc_from.simps) (simp add: rd_uint wr_uint)
  moreover have "least_free b n"
    using lim clear below by (auto simp: least_free_def bm_used_def)
  ultimately show ?thesis using b by auto
qed

lemma bitmap_alloc_from_ok:
  assumes "bm_ok b" "ix \<le> bm_words (b_nbits b)" "\<forall>i < 8 * unat ix. bm_bit b i"
  shows "if bm_used b = {..<bm_limit b}
    then bitmap_alloc_from b ix (bm_words (b_nbits b)) = Some (Inl ENOSPC, b)
    else \<exists>n b'. bitmap_alloc_from b ix (bm_words (b_nbits b)) = Some (Inr (of_nat n), b') \<and>
      least_free b n \<and> bm_ok b' \<and> b_nbits b' = b_nbits b \<and> bm_used b' = insert n (bm_used b)"
  using assms(2,3)
proof (induction "unat (bm_words (b_nbits b) - ix)" arbitrary: ix rule: less_induct)
  case less
  let ?m = "bm_words (b_nbits b)"
  have len: "unat ?m = length (b_v b)"
    using assms(1) by (simp add: bm_ok_def unat_bm_words bm_limit_def)
  show ?case
  proof (cases "ix < ?m")
    case True
    show ?thesis
    proof (cases "b_v b ! unat ix = 0xff")
      case True
      note full = True
      have "\<forall>i < 8 * unat (ix + 1). bm_bit b i"
      proof (intro allI impI)
        fix i assume i: "i < 8 * unat (ix + 1)"
        show "bm_bit b i"
        proof (cases "i < 8 * unat ix")
          case False
          with i have "i div 8 = unat ix" using unat_inc [OF \<open>ix < ?m\<close>] by auto
          moreover have "\<forall>j < 8. bit (b_v b ! unat ix) j" using full not_full_byte by blast
          ultimately show ?thesis by (simp add: bm_bit_def)
        qed (use less.prems in simp)
      qed
      moreover have "ix + 1 \<le> ?m"
        using \<open>ix < ?m\<close> by (simp add: word_le_nat_alt word_less_nat_alt unat_inc [OF \<open>ix < ?m\<close>])
      moreover have "bitmap_alloc_from b ix ?m = bitmap_alloc_from b (ix + 1) ?m"
        using \<open>ix < ?m\<close> full len
        by (subst bitmap_alloc_from.simps) (simp add: rd_uint word_less_nat_alt)
      ultimately show ?thesis
        using less.hyps [OF unat_diff_inc [OF \<open>ix < ?m\<close>]] by simp
    next
      case False
      from alloc_found [OF assms(1) \<open>ix < ?m\<close> less.prems(2) False]
      show ?thesis by (auto simp: least_free_def)
    qed
  next
    case False
    then have "ix = ?m" using less.prems(1) by simp
    then have "bm_used b = {..<bm_limit b}"
      using less.prems(2) len assms(1) by (auto simp: bm_used_def bm_ok_def)
    then show ?thesis using False by (subst bitmap_alloc_from.simps) simp
  qed
qed

lemma bitmap_alloc_ok:
  assumes "bm_ok b"
  shows "if bm_used b = {..<bm_limit b} then bitmap_alloc b = Some (Inl ENOSPC, b)
    else \<exists>n b'. bitmap_alloc b = Some (Inr (of_nat n), b') \<and>
      least_free b n \<and> bm_ok b' \<and> b_nbits b' = b_nbits b \<and> bm_used b' = insert n (bm_used b)"
  using bitmap_alloc_from_ok [OF assms, of 0] by (simp add: bitmap_alloc_def)

lemma round_up_8: "(k + 7) div 8 = (if k mod 8 = 0 then k div 8 else Suc (k div 8))" for k :: nat
proof -
  obtain q r where "k = 8 * q + r" "r < 8" by (metis mod_less_divisor mult_div_mod_eq zero_less_numeral)
  moreover have "(8 * q + r + 7) div 8 = q + (r + 7) div 8" for q r :: nat by simp
  moreover have "r < 8 \<Longrightarrow> (r + 7) div 8 = (if r = 0 then 0 else 1)" for r :: nat
    by (cases "r = 0") (simp_all add: div_nat_eqI)
  ultimately show ?thesis by simp
qed

lemma bitmap_create_ok:
  assumes "unat n + 7 < 2 ^ 32"
  shows "\<exists>b. bitmap_create True True n = Some (Some b) \<and> bm_ok b \<and> b_nbits b = n \<and> bm_used b = {}"
proof -
  let ?N = "unat n" and ?w = "bm_words n"
  have w: "unat ?w = (?N + 7) div 8" using assms by (rule unat_bm_words)
  have lt: "n div 8 < ?w \<longleftrightarrow> ?N mod 8 \<noteq> 0"
    by (simp add: word_less_nat_alt w unat_div round_up_8)
  show ?thesis
  proof (cases "?N mod 8 = 0")
    case True
    then have len: "(?N + 7) div 8 = ?N div 8" by (simp add: round_up_8)
    let ?b = "\<lparr>b_nbits = n, b_v = replicate (unat ?w) 0\<rparr>"
    have "bitmap_create True True n = Some (Some ?b)"
      using True lt by (simp add: bitmap_create_def Let_def)
    moreover have "bm_ok ?b" "bm_used ?b = {}"
      using assms True w len by (auto simp: bm_ok_def bm_used_def bm_limit_def bm_bit_def)
    ultimately show ?thesis by simp
  next
    case False
    then have len: "(?N + 7) div 8 = Suc (?N div 8)" by (simp add: round_up_8)
    have "n div 8 = ?w - 1"
    proof (rule unsigned_word_eqI)
      have "1 \<le> ?w" using w len by (simp add: word_le_nat_alt)
      then show "unat (n div 8) = unat (?w - 1)"
        using w len by (simp add: unat_sub unat_div)
    qed
    then have ix: "?w - 1 = n div 8" by simp
    have lw: "?N div 8 < unat ?w" using w len by simp
    have over: "n - n div 8 * 8 = n mod 8" by (simp add: minus_div_mult_eq_mod)
    let ?v = "(replicate (unat ?w) 0)[?N div 8 := set_bits_from (?N mod 8) 0] :: 8 word list"
    let ?b = "\<lparr>b_nbits = n, b_v = ?v\<rparr>"
    have m: "0 < n mod 8" "n mod 8 < 8"
      using False by (auto simp: word_less_nat_alt unat_mod)
    have "bitmap_create True True n = Some (Some ?b)"
      using False lt ix over m lw
      by (simp add: bitmap_create_def Let_def rd_uint wr_uint unat_div unat_mod)
    moreover have bit: "bm_bit ?b i \<longleftrightarrow> ?N \<le> i" if "i < 8 * unat ?w" for i
    proof -
      have i: "i div 8 < unat ?w" using that by auto
      show ?thesis
      proof (cases "i div 8 = ?N div 8")
        case True
        then have "?N \<le> i \<longleftrightarrow> ?N mod 8 \<le> i mod 8"
          by (metis add_le_cancel_left div_mult_mod_eq)
        then show ?thesis using True i by (simp add: bm_bit_def bit_set_bits_from)
      next
        case False
        then have "i div 8 < ?N div 8" using i w len by simp
        then have "i < ?N" by (meson div_le_mono leD leI)
        then show ?thesis using False i by (simp add: bm_bit_def)
      qed
    qed
    moreover have "bm_ok ?b"
      using assms w bit by (simp add: bm_ok_def bm_limit_def)
    moreover have "bm_used ?b = {}"
      using bit w by (auto simp: bm_used_def bm_limit_def)
    ultimately show ?thesis by simp
  qed
qed

section \<open>The contract of the bitmap\<close>

text \<open>\<open>k\<close> allocations in a row, with the numbers they hand out, the first one first.\<close>

primrec alloc_many ::
    "('b \<Rightarrow> ((errno + 'i) \<times> 'b) option) \<Rightarrow> nat \<Rightarrow> 'b \<Rightarrow> ('i list \<times> 'b) option" where
  "alloc_many al 0 b = Some ([], b)"
| "alloc_many al (Suc k) b = do {
     (r, b1) \<leftarrow> al b;
     (case r of
        Inl _ \<Rightarrow> None
      | Inr i \<Rightarrow> do { (is, b2) \<leftarrow> alloc_many al k b1; Some (i # is, b2) }) }"

locale bit_allocator =
  fixes ok :: "'b \<Rightarrow> bool"
    and used :: "'b \<Rightarrow> nat set"
    and limit :: "'b \<Rightarrow> nat"
    and num :: "'i \<Rightarrow> nat"
    and alloc :: "'b \<Rightarrow> ((errno + 'i) \<times> 'b) option"
    and unmark :: "'b \<Rightarrow> 'i \<Rightarrow> 'b option"
  assumes used: "used b \<subseteq> {..<limit b}"
    and alloc_full: "ok b \<Longrightarrow> used b = {..<limit b} \<Longrightarrow> alloc b = Some (Inl ENOSPC, b)"
    and alloc_free: "ok b \<Longrightarrow> used b \<noteq> {..<limit b} \<Longrightarrow>
      \<exists>i b'. alloc b = Some (Inr i, b') \<and> num i < limit b \<and> num i \<notin> used b \<and> ok b' \<and>
        limit b' = limit b \<and> used b' = insert (num i) (used b)"
    and unmark: "ok b \<Longrightarrow> num i \<in> used b \<Longrightarrow>
      \<exists>b'. unmark b i = Some b' \<and> ok b' \<and> limit b' = limit b \<and> used b' = used b - {num i}"
begin

lemma alloc_unmark:
  assumes "ok b" "alloc b = Some (Inr i, b1)"
  shows "\<exists>b2. unmark b1 i = Some b2 \<and> ok b2 \<and> used b2 = used b \<and> limit b2 = limit b"
proof -
  have "used b \<noteq> {..<limit b}" using alloc_full [OF assms(1)] assms(2) by auto
  with alloc_free [OF assms(1)] assms(2)
  have 1: "ok b1" "num i \<notin> used b" "limit b1 = limit b" "used b1 = insert (num i) (used b)" by auto
  with unmark [of b1 i] show ?thesis by auto
qed

text \<open>As many allocations succeed as there are free numbers, and they never repeat one.\<close>

lemma alloc_many_distinct:
  assumes "ok b" "k \<le> limit b - card (used b)"
  shows "\<exists>is b'. alloc_many alloc k b = Some (is, b') \<and> ok b' \<and> limit b' = limit b \<and> length is = k \<and>
    distinct (map num is) \<and> num ` set is \<inter> used b = {} \<and> used b' = used b \<union> num ` set is"
  using assms
proof (induction k arbitrary: b)
  case 0
  then show ?case by simp
next
  case (Suc k)
  have fin: "finite (used b)" using used finite_subset by blast
  have "used b \<noteq> {..<limit b}"
  proof
    assume "used b = {..<limit b}"
    then have "card (used b) = limit b" by simp
    with Suc.prems(2) show False by simp
  qed
  with alloc_free [OF Suc.prems(1)] obtain i b1 where 1: "alloc b = Some (Inr i, b1)"
    "num i \<notin> used b" "ok b1" "limit b1 = limit b" "used b1 = insert (num i) (used b)" by blast
  have "k \<le> limit b1 - card (used b1)" using 1 Suc.prems(2) fin by simp
  from Suc.IH [OF 1(3) this] obtain "is" b2 where 2: "alloc_many alloc k b1 = Some (is, b2)"
    "ok b2" "limit b2 = limit b1" "length is = k" "distinct (map num is)"
    "num ` set is \<inter> used b1 = {}" "used b2 = used b1 \<union> num ` set is" by blast
  then have "num i \<notin> num ` set is" using 1(5) by blast
  with 1 2 show ?case by auto
qed

end

lemma limit_eq: "b_nbits b' = b_nbits b \<Longrightarrow> bm_limit b' = bm_limit b"
  by (simp add: bm_limit_def)

interpretation bma: bit_allocator bm_ok bm_used bm_limit unat bitmap_alloc bitmap_unmark
proof (unfold_locales, goal_cases)
  case (1 b)
  then show ?case by (auto simp: bm_used_def)
next
  case (2 b)
  then show ?case using bitmap_alloc_ok [of b] by simp
next
  case (3 b)
  then obtain n b' where n: "bitmap_alloc b = Some (Inr (of_nat n), b')" "least_free b n" "bm_ok b'"
    "b_nbits b' = b_nbits b" "bm_used b' = insert n (bm_used b)"
    using bitmap_alloc_ok [of b] by auto
  have "n < 2 ^ 32" using n(2) 3(1) by (simp add: least_free_def bm_ok_def)
  then have "unat (of_nat n :: 32 word) = n" by (simp add: unat_of_nat)
  then show ?case using n limit_eq [OF n(4)] by (auto simp: least_free_def)
next
  case (4 b i)
  then have "i < b_nbits b" by (simp add: bm_used_def bm_limit_def word_less_nat_alt)
  with 4 show ?case using bitmap_unmark_ok [of b i] limit_eq by blast
qed

end
