(* ===== verification/Kern_LibProps.thy ===== *)
theory Kern_LibProps
  imports Kern_Array Kern_Queue Kern_Bitmap
begin

text \<open>
  What the containers of \<^verbatim>\<open>kern/lib\<close> promise their clients: the queue is a first-in
  first-out list, the array a list that grows and shrinks, the bitmap an allocator of distinct numbers.
\<close>

section \<open>Queues\<close>

text \<open>
  (C24) The ring queue refines a list. As long as memory lasts, any sequence of \<open>q_addtail\<close> and
  \<open>q_remhead\<close> on a queue, whatever growing and wrapping around it causes, gives the same results as
  appending to and taking from a list, and fails only where the list is empty.
\<close>

theorem queue_refines_list:
  assumes "q_ok q" "mem [] \<noteq> None" "q_size q + int (length ops) < 2 ^ 28"
  shows "case fifo_run list_put list_get ops (q_items q) of
      None \<Rightarrow> fifo_run (q_addtail mem) q_remhead ops q = None
    | Some (outs, xs) \<Rightarrow>
        \<exists>q'. fifo_run (q_addtail mem) q_remhead ops q = Some (outs, q') \<and> q_ok q' \<and> q_items q' = xs"
  using kq.run_refines [of q mem ops] assms(1,2) assms(3) length_items_less [OF assms(1)] by simp

theorem queue_refines_list_witness:
  "\<exists>q q'. q_create True (Some (\<lambda>_. 0)) 2 = Some q \<and>
    fifo_run (q_addtail (\<lambda>_. Some (\<lambda>_. 0 :: nat))) q_remhead [Put 7, Put 8, Put 9, Get, Put 5, Get] q = Some ([7, 8], q') \<and>
    q_items q' = [9, 5]"
proof -
  obtain q :: "nat queue" where q: "q_create True (Some (\<lambda>_. 0)) 2 = Some q" "q_ok q" "q_items q = []" "q_size q = 2"
    using q_create_items [of 2 "\<lambda>_. 0 :: nat"] by auto
  with queue_refines_list [OF q(2), of "\<lambda>_. Some (\<lambda>_. 0)" "[Put 7, Put 8, Put 9, Get, Put 5, Get]"]
  show ?thesis by (auto simp: list_put_def list_get_def)
qed

text \<open>
  (C34) \<open>q_addtail\<close> fails in one way only: the queue is full, the allocator has no memory for a larger
  ring, and the queue is left as it was. In a queue with a free cell it never fails.
\<close>

theorem q_addtail_error:
  assumes "q_ok q" "q_size q < 2 ^ 29"
  shows "if int (length (q_items q)) + 1 = q_size q \<and> mem [] = None
    then q_addtail mem q x = Some (Inl ENOMEM, q)
    else \<exists>q'. q_addtail mem q x = Some (Inr (), q') \<and> q_ok q' \<and> q_items q' = q_items q @ [x]"
proof (cases "int (length (q_items q)) + 1 < q_size q")
  case True
  then show ?thesis using q_addtail_room [OF assms(1) True, of mem x] by auto
next
  case False
  then have "int (length (q_items q)) + 1 = q_size q" using length_items_less [OF assms(1)] by linarith
  then show ?thesis using q_addtail_full [OF assms(1) _ assms(2), of mem x] by (auto split: option.splits)
qed

theorem q_addtail_error_witness:
  "\<exists>q. q_create True (Some (\<lambda>_. 0 :: nat)) 1 = Some q \<and> q_addtail (\<lambda>_. None) q 7 = Some (Inl ENOMEM, q)"
proof -
  obtain q :: "nat queue" where q: "q_create True (Some (\<lambda>_. 0)) 1 = Some q" "q_ok q" "q_items q = []" "q_size q = 1"
    using q_create_items [of 1 "\<lambda>_. 0 :: nat"] by auto
  with q_addtail_error [OF q(2), of "\<lambda>_. None" 7] show ?thesis by auto
qed

section \<open>Arrays\<close>

text \<open>
  (C32) Preallocating an array returns: the loop that doubles the capacity ends for every request below
  \<open>2 ^ 29\<close> entries, with a capacity that suffices. The entries stay, and when the allocator fails the
  array is left as it was.
\<close>

theorem array_preallocate_returns:
  assumes "array_ok a" "n < 2 ^ 29"
  shows "case mem of
      None \<Rightarrow> array_preallocate mem a n = Some (Inl ENOMEM, a)
    | Some g \<Rightarrow> \<exists>a'. array_preallocate mem a n = Some (Inr (), a') \<and> array_ok a' \<and>
        guys a' = guys a \<and> n \<le> a_max a' \<and> a_max a \<le> a_max a'"
  using array_preallocate_ok [OF assms, of mem] by (auto split: option.splits)

theorem array_preallocate_returns_witness:
  "\<exists>a a'. array_create True = Some (a :: nat karray) \<and>
    array_preallocate (Some (\<lambda>_. 0)) a 100 = Some (Inr (), a') \<and> 100 \<le> a_max a'"
proof -
  obtain a :: "nat karray" where a: "array_create True = Some a" by (simp add: array_create_def)
  then have "array_ok a" using array_ok_create by blast
  from array_preallocate_returns [OF this, of 100 "Some (\<lambda>_. 0)"] show ?thesis using a by auto
qed

text \<open>
  (C33) Adding to an array and reading it back: the new entry is found at the old count, every other
  entry where it was, and removing the new entry gives back the old entries.
\<close>

theorem array_add_remove_roundtrip:
  assumes "array_ok a" "a_max a + 1 < 2 ^ 29" "array_add mem a x = Some (Inr (), a')"
  shows "array_ok a' \<and> array_getnum a' = array_getnum a + 1 \<and> array_getguy a' (array_getnum a) = Some x \<and>
    (\<forall>i. 0 \<le> i \<and> i < array_getnum a \<longrightarrow> array_getguy a' i = array_getguy a i) \<and>
    (\<exists>b. array_remove a' (array_getnum a) = Some b \<and> array_ok b \<and> guys b = guys a)"
proof -
  have a': "array_ok a'" "guys a' = guys a @ [x]" "a_num a' = a_num a + 1"
  proof -
    consider "a_num a < a_max a" | "a_num a = a_max a" using assms(1) by (fastforce simp: array_ok_def)
    then have "array_ok a' \<and> guys a' = guys a @ [x] \<and> a_num a' = a_num a + 1"
    proof cases
      case 1
      then show ?thesis using array_add_room [OF assms(1) 1, of mem x] assms(3) by auto
    next
      case 2
      then show ?thesis using array_add_full [OF assms(1) 2, of mem x] assms(2,3) by (auto split: option.splits)
    qed
    then show "array_ok a'" "guys a' = guys a @ [x]" "a_num a' = a_num a + 1" by auto
  qed
  have n: "int (length (guys a)) = a_num a" "0 \<le> a_num a" using length_guys [OF assms(1)] by auto
  have get: "array_getguy a' i = array_getguy a i" if "0 \<le> i" "i < a_num a" for i
    using that a' n array_getguy_ok [OF assms(1) that] array_getguy_ok [OF a'(1) that(1)]
    by (simp add: nth_append nat_less_iff)
  obtain b where b: "array_remove a' (a_num a) = Some b" "array_ok b"
    "guys b = del_at (nat (a_num a)) (guys a')"
    using array_remove_ok [OF a'(1), of "a_num a"] a'(3) n(2) by auto
  have "nat (a_num a) = length (guys a)" using n by simp
  then have "guys b = guys a" using b(3) a'(2) by (simp add: del_at_def)
  moreover have "array_getguy a' (a_num a) = Some x"
    using array_getguy_ok [OF a'(1), of "a_num a"] a' n \<open>nat (a_num a) = length (guys a)\<close> by simp
  ultimately show ?thesis using a' b get by (simp add: array_getnum_def)
qed

theorem array_add_remove_roundtrip_witness:
  "\<exists>a a'. array_create True = Some a \<and> array_add (Some (\<lambda>_. 0)) a (7 :: nat) = Some (Inr (), a') \<and>
    array_getguy a' 0 = Some 7"
proof -
  obtain a :: "nat karray" where a: "array_create True = Some a" "a_num a = 0" "a_max a = 0"
    by (simp add: array_create_def)
  then have ok: "array_ok a" using array_ok_create by blast
  with array_add_full [OF ok, of "Some (\<lambda>_. 0)" 7] a obtain a' where
    a': "array_add (Some (\<lambda>_. 0)) a 7 = Some (Inr (), a')" by auto
  from array_add_remove_roundtrip [OF ok _ a'] show ?thesis using a a' by (auto simp: array_getnum_def)
qed

section \<open>Bitmaps\<close>

text \<open>
  (C30) A new bitmap of \<open>n\<close> bits hands out, in \<open>k \<le> n\<close> allocations, \<open>k\<close> different numbers below \<open>n\<close>;
  after \<open>n\<close> of them the next allocation reports \<open>ENOSPC\<close> and changes nothing.
\<close>

theorem bitmap_alloc_distinct:
  assumes "unat n + 7 < 2 ^ 32" "k \<le> unat n"
  shows "\<exists>b is b'. bitmap_create True True n = Some (Some b) \<and> alloc_many bitmap_alloc k b = Some (is, b') \<and>
    length is = k \<and> distinct (map unat is) \<and> (\<forall>i \<in> set is. i < n) \<and> bm_ok b' \<and>
    (k = unat n \<longrightarrow> bitmap_alloc b' = Some (Inl ENOSPC, b'))"
proof -
  obtain b where b: "bitmap_create True True n = Some (Some b)" "bm_ok b" "b_nbits b = n" "bm_used b = {}"
    using bitmap_create_ok [OF assms(1)] by auto
  have lim: "bm_limit b = unat n" using b(3) by (simp add: bm_limit_def)
  obtain "is" b' where r: "alloc_many bitmap_alloc k b = Some (is, b')" "bm_ok b'" "bm_limit b' = bm_limit b"
    "length is = k" "distinct (map unat is)" "bm_used b' = unat ` set is"
    using bma.alloc_many_distinct [OF b(2), of k] assms(2) lim b(4) by auto
  have sub: "unat ` set is \<subseteq> {..<unat n}" using bma.used [of b'] r(3,6) lim by auto
  have "bitmap_alloc b' = Some (Inl ENOSPC, b')" if "k = unat n"
  proof -
    have "card (unat ` set is) = unat n" using r(4,5) that distinct_card [of "map unat is"] by simp
    then have "unat ` set is = {..<unat n}" using sub by (intro card_subset_eq) auto
    then show ?thesis using bma.alloc_full [OF r(2)] r(3,6) lim by simp
  qed
  then show ?thesis using b(1) r sub by (auto simp: word_less_nat_alt)
qed

theorem bitmap_alloc_distinct_witness:
  "\<exists>b is b'. bitmap_create True True 3 = Some (Some b) \<and> alloc_many bitmap_alloc 3 b = Some (is, b') \<and>
    distinct (map unat is) \<and> length is = 3 \<and> bitmap_alloc b' = Some (Inl ENOSPC, b')"
  using bitmap_alloc_distinct [of 3 3] by auto

text \<open>
  (C31) Marking and unmarking: a number that is not in use can be marked, \<open>bitmap_isset\<close> then reports
  it and no other change, marking it again fails its assertion, and unmarking it gives back the old set;
  what \<open>bitmap_alloc\<close> returned can be given back with \<open>bitmap_unmark\<close>.
\<close>

theorem bitmap_mark_unmark_roundtrip:
  assumes "bm_ok b" "i < b_nbits b" "bitmap_isset b i = Some 0"
  shows "\<exists>b1 b2. bitmap_mark b i = Some b1 \<and> bm_ok b1 \<and> bm_used b1 = insert (unat i) (bm_used b) \<and>
    (\<exists>r. bitmap_isset b1 i = Some r \<and> r \<noteq> 0) \<and> bitmap_mark b1 i = None \<and>
    bitmap_unmark b1 i = Some b2 \<and> bm_ok b2 \<and> bm_used b2 = bm_used b"
proof -
  have fresh: "unat i \<notin> bm_used b" using bitmap_isset_iff [OF assms(1,2)] assms(3) by auto
  obtain b1 where b1: "bitmap_mark b i = Some b1" "bm_ok b1" "b_nbits b1 = b_nbits b"
    "bm_used b1 = insert (unat i) (bm_used b)"
    using bitmap_mark_ok [OF assms(1,2) fresh] by auto
  have i1: "i < b_nbits b1" "unat i \<in> bm_used b1" using assms(2) b1 by simp_all
  obtain b2 where "bitmap_unmark b1 i = Some b2" "bm_ok b2" "bm_used b2 = bm_used b1 - {unat i}"
    using bitmap_unmark_ok [OF b1(2) i1] by auto
  moreover have "bitmap_mark b1 i = None" using bitmap_mark_panics [OF b1(2) i1(2)] .
  moreover have "\<exists>r. bitmap_isset b1 i = Some r \<and> r \<noteq> 0" using bitmap_isset_iff [OF b1(2) i1(1)] i1(2) by auto
  ultimately show ?thesis using b1 fresh by auto
qed

theorem bitmap_mark_unmark_roundtrip_witness:
  "\<exists>b b1. bitmap_create True True 10 = Some (Some b) \<and> bitmap_mark b 9 = Some b1 \<and> bm_used b1 = {9}"
proof -
  obtain b where b: "bitmap_create True True 10 = Some (Some b)" "bm_ok b" "b_nbits b = 10" "bm_used b = {}"
    using bitmap_create_ok [of 10] by auto
  with bitmap_isset_iff [OF b(2), of 9] have "bitmap_isset b 9 = Some 0" by auto
  from bitmap_mark_unmark_roundtrip [OF b(2) _ this] b show ?thesis by auto
qed

end
