(* ===== verification/Kern_Uio.thy ===== *)
theory Kern_Uio
  imports Kern_Prelude
begin

text \<open>
  Moving bytes between the kernel and the user (\<^verbatim>\<open>kern/lib/copyinout.c\<close>) and between a kernel
  buffer and the region that a \<open>struct uio\<close> describes (\<^verbatim>\<open>kern/userprog/uio.c\<close>).

  The user memory of the current process maps an address to its byte, or to nothing where an access
  faults for good; \<open>memcpy\<close> goes upwards, so that a fault leaves what came before it in place. A kernel
  region of a \<open>uio\<close> is the buffer that \<open>iov_kbase\<close> points into, as the part in front of the pointer and
  the part behind it. Sizes of type \<open>size_t\<close> are natural numbers with the wrap-around written out, an
  \<open>off_t\<close> is a 32-bit signed number.
\<close>

section \<open>Machine arithmetic\<close>

text \<open>Conversion to the 32-bit signed \<open>off_t\<close>.\<close>

definition s32 :: "int \<Rightarrow> int" where
  "s32 x = (x + 2 ^ 31) mod 2 ^ 32 - 2 ^ 31"

lemma s32_in [simp]: "INT_MIN \<le> x \<Longrightarrow> x < 2147483648 \<Longrightarrow> s32 x = x"
  by (simp add: s32_def)

text \<open>Subtraction of \<open>size_t\<close> values.\<close>

definition usub :: "nat \<Rightarrow> nat \<Rightarrow> nat" where
  "usub a b = (if b \<le> a then a - b else a + 2 ^ 32 - b)"

lemma usub_le [simp]: "b \<le> a \<Longrightarrow> usub a b = a - b"
  by (simp add: usub_def)

lemma unat32_less: "unat (x :: 32 word) < 4294967296"
  using unsigned_less [of x, where ?'a = nat] by simp

lemma uint_less_numeral: "uint (x :: 32 word) < numeral k \<longleftrightarrow> unat x < numeral k"
proof -
  have "uint x < numeral k \<longleftrightarrow> int (unat x) < numeral k" by simp
  also have "\<dots> \<longleftrightarrow> unat x < numeral k" by (rule of_nat_less_numeral_iff)
  finally show ?thesis .
qed

section \<open>Sequencing with errors\<close>

text \<open>The idiom \<open>if (result) return result;\<close> behind a call.\<close>

definition on_ok ::
    "((errno + 'a) \<times> 's) option \<Rightarrow> ('a \<Rightarrow> 's \<Rightarrow> ((errno + 'b) \<times> 't) option) \<Rightarrow> ('s \<Rightarrow> 't) \<Rightarrow> ((errno + 'b) \<times> 't) option" where
  "on_ok m f g = (case m of
      None \<Rightarrow> None
    | Some (r, s) \<Rightarrow> (case r of Inl e \<Rightarrow> Some (Inl e, g s) | Inr a \<Rightarrow> f a s))"

lemma on_ok_simps [simp]:
  "on_ok None f g = None"
  "on_ok (Some (Inl e, s)) f g = Some (Inl e, g s)"
  "on_ok (Some (Inr a, s)) f g = f a s"
  by (simp_all add: on_ok_def)

lemma on_ok_eq_Some:
  "on_ok m f g = Some x \<longleftrightarrow>
    (\<exists>e s. m = Some (Inl e, s) \<and> x = (Inl e, g s)) \<or> (\<exists>a s. m = Some (Inr a, s) \<and> f a s = Some x)"
  by (auto simp: on_ok_def split: option.splits prod.splits sum.splits)

section \<open>User memory\<close>

record uctx =
  cur_space :: "nat option"
  umem :: "32 word \<Rightarrow> 8 word option"

abbreviation USERTOP :: "32 word" where "USERTOP \<equiv> 0x80000000"

definition copycheck :: "32 word \<Rightarrow> nat \<Rightarrow> errno + nat" where
  "copycheck userptr len =
     (let bot = userptr; top = bot + of_nat len - 1 in
      if top < bot then Inl EFAULT
      else if USERTOP \<le> bot then Inl EFAULT
      else if USERTOP \<le> top then Inr (unat (USERTOP - bot))
      else Inr len)"

text \<open>The bytes that \<open>memcpy\<close> reads from user memory before it is done or faults.\<close>

primrec uread :: "nat \<Rightarrow> (32 word \<Rightarrow> 8 word option) \<Rightarrow> 32 word \<Rightarrow> 8 word list" where
  "uread 0 m a = []"
| "uread (Suc n) m a = (case m a of None \<Rightarrow> [] | Some b \<Rightarrow> b # uread n m (a + 1))"

primrec uwrite :: "8 word list \<Rightarrow> (32 word \<Rightarrow> 8 word option) \<Rightarrow> 32 word \<Rightarrow> (32 word \<Rightarrow> 8 word option) \<times> bool" where
  "uwrite [] m a = (m, True)"
| "uwrite (b # bs) m a = (if m a = None then (m, False) else uwrite bs (m(a \<mapsto> b)) (a + 1))"

text \<open>\<open>dest\<close> is the kernel buffer from the destination on.\<close>

definition copyin :: "'c uctx_scheme \<Rightarrow> 32 word \<Rightarrow> 8 word list \<Rightarrow> nat \<Rightarrow> ((errno + unit) \<times> 8 word list) option" where
  "copyin c usersrc dest len =
     (case copycheck usersrc len of
        Inl e \<Rightarrow> Some (Inl e, dest)
      | Inr stoplen \<Rightarrow>
          if stoplen \<noteq> len then Some (Inl EFAULT, dest)
          else do {
            kassert (len \<le> length dest);
            let bs = uread len (umem c) usersrc;
            let dest = bs @ drop (length bs) dest;
            if length bs < len then Some (Inl EFAULT, dest) else Some (Inr (), dest) })"

definition copyout :: "8 word list \<Rightarrow> 32 word \<Rightarrow> nat \<Rightarrow> 'c uctx_scheme \<Rightarrow> ((errno + unit) \<times> 'c uctx_scheme) option" where
  "copyout src userdest len c =
     (case copycheck userdest len of
        Inl e \<Rightarrow> Some (Inl e, c)
      | Inr stoplen \<Rightarrow>
          if stoplen \<noteq> len then Some (Inl EFAULT, c)
          else do {
            kassert (len \<le> length src);
            let (m, ok) = uwrite (take len src) (umem c) userdest;
            Some (if ok then Inr () else Inl EFAULT, c\<lparr>umem := m\<rparr>) })"

text \<open>
  \<open>copystr\<close> over the indices that are below \<open>maxlen\<close> and \<open>stoplen\<close>; \<open>get\<close> and \<open>put\<close> access the two
  strings, and one of them may fault.
\<close>

primrec copystr ::
    "('s \<Rightarrow> nat \<Rightarrow> 8 word option) \<Rightarrow> ('s \<Rightarrow> nat \<Rightarrow> 8 word \<Rightarrow> 's option) \<Rightarrow> nat \<Rightarrow> nat \<Rightarrow> nat list \<Rightarrow> 's \<Rightarrow>
      (errno + nat) \<times> 's" where
  "copystr get put maxlen stoplen [] s = (if stoplen < maxlen then Inl EFAULT else Inl ENAMETOOLONG, s)"
| "copystr get put maxlen stoplen (i # is) s =
     (case get s i of
        None \<Rightarrow> (Inl EFAULT, s)
      | Some b \<Rightarrow> (case put s i b of
          None \<Rightarrow> (Inl EFAULT, s)
        | Some s' \<Rightarrow> if b = 0 then (Inr (i + 1), s') else copystr get put maxlen stoplen is s'))"

definition copyinstr :: "'c uctx_scheme \<Rightarrow> 32 word \<Rightarrow> 8 word list \<Rightarrow> nat \<Rightarrow> ((errno + nat) \<times> 8 word list) option" where
  "copyinstr c usersrc dest len =
     (case copycheck usersrc len of
        Inl e \<Rightarrow> Some (Inl e, dest)
      | Inr stoplen \<Rightarrow> do {
          kassert (len \<le> length dest);
          Some (copystr (\<lambda>d i. umem c (usersrc + of_nat i)) (\<lambda>d i b. Some (d[i := b])) len stoplen
                  [0..<min len stoplen] dest) })"

definition copyoutstr :: "8 word list \<Rightarrow> 32 word \<Rightarrow> nat \<Rightarrow> 'c uctx_scheme \<Rightarrow> ((errno + nat) \<times> 'c uctx_scheme) option" where
  "copyoutstr src userdest len c =
     (case copycheck userdest len of
        Inl e \<Rightarrow> Some (Inl e, c)
      | Inr stoplen \<Rightarrow> do {
          kassert (0 \<in> set src \<or> len \<le> length src);
          Some (copystr (\<lambda>c i. Some (src ! i))
                  (\<lambda>c i b. if umem c (userdest + of_nat i) = None then None
                           else Some (c\<lparr>umem := (umem c)(userdest + of_nat i \<mapsto> b)\<rparr>))
                  len stoplen [0..<min len stoplen] c) })"

section \<open>The \<open>uio\<close> structure\<close>

datatype uio_rw = UIO_READ | UIO_WRITE
datatype uio_seg = UIO_USERSPACE | UIO_SYSSPACE | UIO_USERISPACE

record uio =
  iov_done :: "8 word list"
  iov_rest :: "8 word list"
  iov_ubase :: "32 word"
  iov_len :: nat
  uio_offset :: int
  uio_resid :: nat
  uio_segflg :: uio_seg
  uio_rw :: uio_rw
  uio_space :: "nat option"

text \<open>The bytes of a buffer from position \<open>p\<close> on replaced by \<open>bs\<close>.\<close>

definition splice :: "nat \<Rightarrow> 'a list \<Rightarrow> 'a list \<Rightarrow> 'a list" where
  "splice p bs xs = take p xs @ bs @ drop (p + length bs) xs"

text \<open>
  The body of the loop of \<open>uiomove\<close>: \<open>sz\<close> bytes between the kernel buffer at position \<open>p\<close> and the
  region.
\<close>

definition uiomove_step ::
    "nat \<Rightarrow> nat \<Rightarrow> 8 word list \<Rightarrow> uio \<Rightarrow> 'c uctx_scheme \<Rightarrow>
      ((errno + unit) \<times> 8 word list \<times> uio \<times> 'c uctx_scheme) option" where
  "uiomove_step sz p buf u c = do {
     kassert (p + sz \<le> length buf);
     (if uio_segflg u = UIO_SYSSPACE then do {
        kassert (sz \<le> length (iov_rest u));
        (case uio_rw u of
           UIO_READ \<Rightarrow> Some (Inr (), buf,
             u\<lparr>iov_done := iov_done u @ take sz (drop p buf), iov_rest := drop sz (iov_rest u)\<rparr>, c)
         | UIO_WRITE \<Rightarrow> Some (Inr (), splice p (take sz (iov_rest u)) buf,
             u\<lparr>iov_done := iov_done u @ take sz (iov_rest u), iov_rest := drop sz (iov_rest u)\<rparr>, c)) }
      else (case uio_rw u of
           UIO_READ \<Rightarrow> do {
             (r, c) \<leftarrow> copyout (drop p buf) (iov_ubase u) sz c;
             (case r of
                Inl e \<Rightarrow> Some (Inl e, buf, u, c)
              | Inr _ \<Rightarrow> Some (Inr (), buf, u\<lparr>iov_ubase := iov_ubase u + of_nat sz\<rparr>, c)) }
         | UIO_WRITE \<Rightarrow> do {
             (r, d) \<leftarrow> copyin c (iov_ubase u) (drop p buf) sz;
             (case r of
                Inl e \<Rightarrow> Some (Inl e, take p buf @ d, u, c)
              | Inr _ \<Rightarrow> Some (Inr (), take p buf @ d, u\<lparr>iov_ubase := iov_ubase u + of_nat sz\<rparr>, c)) })) }"

function uiomove_loop ::
    "nat \<Rightarrow> nat \<Rightarrow> 8 word list \<Rightarrow> uio \<Rightarrow> 'c uctx_scheme \<Rightarrow>
      ((errno + unit) \<times> 8 word list \<times> uio \<times> 'c uctx_scheme) option" where
  "uiomove_loop n p buf u c =
     (if 0 < n \<and> 0 < uio_resid u then
        (let sz = min (iov_len u) n in
         if sz = 0 then None
         else (case uiomove_step sz p buf u c of
             None \<Rightarrow> None
           | Some (Inl e, x) \<Rightarrow> Some (Inl e, x)
           | Some (Inr _, buf, u, c) \<Rightarrow>
               uiomove_loop (n - sz) (p + sz) buf
                 (u\<lparr>iov_len := iov_len u - sz, uio_resid := usub (uio_resid u) sz,
                    uio_offset := s32 (uio_offset u + int sz)\<rparr>) c))
      else Some (Inr (), buf, u, c))"
  by pat_completeness auto
termination by (relation "measure (\<lambda>(n, p, buf, u, c). n)") auto

text \<open>\<open>uiomove\<close> on the buffer that \<open>ptr\<close> points to.\<close>

definition uiomove ::
    "8 word list \<Rightarrow> nat \<Rightarrow> uio \<Rightarrow> 'c uctx_scheme \<Rightarrow> ((errno + unit) \<times> 8 word list \<times> uio \<times> 'c uctx_scheme) option" where
  "uiomove buf n u c = do {
     kassert (if uio_segflg u = UIO_SYSSPACE then uio_space u = None else uio_space u = cur_space c);
     uiomove_loop n 0 buf u c }"

function uiomovezeros_loop ::
    "nat \<Rightarrow> uio \<Rightarrow> 'c uctx_scheme \<Rightarrow> ((errno + unit) \<times> uio \<times> 'c uctx_scheme) option" where
  "uiomovezeros_loop n u c =
     (if 0 < n then
        (let amt = min 16 n in
         on_ok (uiomove (replicate 16 0) amt u c)
           (\<lambda>_ (b, u, c). uiomovezeros_loop (n - amt) u c) snd)
      else Some (Inr (), u, c))"
  by pat_completeness auto
termination by (relation "measure (\<lambda>(n, u, c). n)") auto

definition uiomovezeros :: "nat \<Rightarrow> uio \<Rightarrow> 'c uctx_scheme \<Rightarrow> ((errno + unit) \<times> uio \<times> 'c uctx_scheme) option" where
  "uiomovezeros n u c = do { kassert (uio_rw u = UIO_READ); uiomovezeros_loop n u c }"

definition mk_kuio :: "8 word list \<Rightarrow> nat \<Rightarrow> int \<Rightarrow> uio_rw \<Rightarrow> uio" where
  "mk_kuio kbuf len pos rw =
     \<lparr>iov_done = [], iov_rest = kbuf, iov_ubase = 0, iov_len = len, uio_offset = pos, uio_resid = len,
      uio_segflg = UIO_SYSSPACE, uio_rw = rw, uio_space = None\<rparr>"

declare uiomove_loop.simps [simp del] uiomovezeros_loop.simps [simp del]

section \<open>User memory: reading and writing mapped bytes\<close>

definition mapped :: "(32 word \<Rightarrow> 8 word option) \<Rightarrow> 32 word \<Rightarrow> nat \<Rightarrow> bool" where
  "mapped m a n \<longleftrightarrow> (\<forall>k < n. m (a + of_nat k) \<noteq> None)"

lemma mapped_Suc: "mapped m a (Suc n) \<longleftrightarrow> m a \<noteq> None \<and> mapped m (a + 1) n"
  by (simp add: mapped_def All_less_Suc2 add.assoc del: not_None_eq)

lemma mapped_mono: "mapped m a n \<Longrightarrow> k \<le> n \<Longrightarrow> mapped m a k"
  by (simp add: mapped_def)

lemma mapped_add: "mapped m a (j + n) \<Longrightarrow> mapped m (a + of_nat j) n"
  unfolding mapped_def by (metis add.assoc nat_add_left_cancel_less of_nat_add)

definition ubytes :: "(32 word \<Rightarrow> 8 word option) \<Rightarrow> 32 word \<Rightarrow> nat \<Rightarrow> 8 word list" where
  "ubytes m a n = map (\<lambda>k. the (m (a + of_nat k))) [0..<n]"

lemma length_ubytes [simp]: "length (ubytes m a n) = n"
  by (simp add: ubytes_def)

lemma take_ubytes: "k \<le> n \<Longrightarrow> take k (ubytes m a n) = ubytes m a k"
  by (simp add: ubytes_def take_map)

lemma drop_ubytes: "k \<le> n \<Longrightarrow> drop k (ubytes m a n) = ubytes m (a + of_nat k) (n - k)"
  by (rule nth_equalityI) (simp_all add: ubytes_def less_diff_conv add_ac)

lemma ubytes_Suc: "ubytes m a (Suc n) = the (m a) # ubytes m (a + 1) n"
  by (simp add: ubytes_def map_upt_Suc add_ac del: upt_Suc)

lemma uread_mapped: "mapped m a n \<Longrightarrow> uread n m a = ubytes m a n"
proof (induction n arbitrary: a)
  case 0
  then show ?case by (simp add: ubytes_def)
qed (auto simp: mapped_Suc ubytes_Suc)

lemma length_uread: "length (uread n m a) \<le> n"
  by (induction n arbitrary: a) (auto split: option.splits)

lemma uread_short: "\<not> mapped m a n \<Longrightarrow> length (uread n m a) < n"
proof (induction n arbitrary: a)
  case 0
  then show ?case by (simp add: mapped_def)
qed (auto simp: mapped_Suc split: option.splits)

primrec uupd :: "8 word list \<Rightarrow> (32 word \<Rightarrow> 8 word option) \<Rightarrow> 32 word \<Rightarrow> 32 word \<Rightarrow> 8 word option" where
  "uupd [] m a = m"
| "uupd (b # bs) m a = uupd bs (m(a \<mapsto> b)) (a + 1)"

lemma mapped_upd: "mapped m a n \<Longrightarrow> mapped (m(x \<mapsto> b)) a n"
  by (simp add: mapped_def)

lemma uupd_mapped: "mapped m a n \<Longrightarrow> mapped (uupd bs m b) a n"
  by (induction bs arbitrary: m b) (simp_all add: mapped_upd)

lemma uupd_append: "uupd (xs @ ys) m a = uupd ys (uupd xs m a) (a + of_nat (length xs))"
  by (induction xs arbitrary: m a) (simp_all add: add_ac)

lemma uwrite_mapped: "mapped m a (length bs) \<Longrightarrow> uwrite bs m a = (uupd bs m a, True)"
  by (induction bs arbitrary: m a) (auto simp: mapped_Suc mapped_upd)

lemma uwrite_unmapped: "\<not> mapped m a (length bs) \<Longrightarrow> \<not> snd (uwrite bs m a)"
proof (induction bs arbitrary: m a)
  case Nil
  then show ?case by (simp add: mapped_def)
next
  case (Cons b bs)
  have "mapped (m(a \<mapsto> b)) (a + 1) n \<Longrightarrow> m a \<noteq> None \<Longrightarrow> mapped m (a + 1) n" for n
    by (simp add: mapped_def) (metis add.assoc add.right_neutral)
  then show ?case using Cons by (auto simp: mapped_Suc)
qed

text \<open>Whatever the outcome, only mapped bytes of the region are written.\<close>

lemma uwrite_frame:
  assumes "\<And>k. k < length bs \<Longrightarrow> x \<noteq> a + of_nat k"
  shows "fst (uwrite bs m a) x = m x"
  using assms
proof (induction bs arbitrary: m a)
  case (Cons b bs)
  have "x \<noteq> a" using Cons.prems [of 0] by simp
  moreover have "x \<noteq> a + 1 + of_nat k" if "k < length bs" for k
    using Cons.prems [of "Suc k"] that by (simp add: add_ac)
  ultimately show ?case using Cons.IH [of "a + 1"] by auto
qed simp

lemma uwrite_dom: "dom (fst (uwrite bs m a)) = dom m"
  by (induction bs arbitrary: m a) auto

lemma uupd_frame:
  assumes "\<And>k. k < length bs \<Longrightarrow> x \<noteq> a + of_nat k"
  shows "uupd bs m a x = m x"
  using assms
proof (induction bs arbitrary: m a)
  case (Cons b bs)
  have "x \<noteq> a" using Cons.prems [of 0] by simp
  moreover have "x \<noteq> a + 1 + of_nat k" if "k < length bs" for k
    using Cons.prems [of "Suc k"] that by (simp add: add_ac)
  ultimately show ?case using Cons.IH [of "a + 1"] by auto
qed simp

lemma uupd_nth:
  assumes "k < length bs" "length bs < 2 ^ 32"
  shows "uupd bs m a (a + of_nat k) = Some (bs ! k)"
  using assms
proof (induction bs arbitrary: m a k)
  case (Cons b bs)
  show ?case
  proof (cases k)
    case 0
    have "a \<noteq> a + 1 + of_nat j" if "j < length bs" for j
    proof
      assume "a = a + 1 + of_nat j"
      then have "(of_nat (Suc j) :: 32 word) = 0" by (simp add: add_ac)
      then have "unat (of_nat (Suc j) :: 32 word) = 0" by (simp only: unat_0)
      then have "Suc j mod 2 ^ 32 = 0" unfolding unat_of_nat by simp
      then show False using Cons.prems(2) that by simp
    qed
    then show ?thesis using uupd_frame [of bs a "a + 1"] 0 by simp
  next
    case (Suc j)
    then have "uupd bs (m(a \<mapsto> b)) (a + 1) (a + 1 + of_nat j) = Some (bs ! j)"
      using Cons.prems by (intro Cons.IH) simp_all
    then show ?thesis by (simp add: Suc add_ac)
  qed
qed simp

section \<open>The region checks\<close>

text \<open>A region that lies in user space passes the check, and only such a region.\<close>

lemma copycheck_in:
  assumes "unat a + len \<le> 2 ^ 31" "0 < len"
  shows "copycheck a len = Inr len"
proof -
  obtain k where k: "len = Suc k" using assms(2) by (cases len) simp_all
  have "unat (a + of_nat k) = unat a + k"
    using assms(1) k by (simp add: unat_word_ariths unat_of_nat)
  then have top: "unat (a + of_nat len - 1) = unat a + len - 1" by (simp add: k)
  have "\<not> a + of_nat len - 1 < a" "\<not> USERTOP \<le> a" "\<not> USERTOP \<le> a + of_nat len - 1"
    using assms by (simp_all only: word_less_nat_alt word_le_nat_alt top) simp_all
  then show ?thesis by (simp add: copycheck_def Let_def)
qed

lemma copycheck_len:
  assumes "copycheck a len = Inr len" "len < 2 ^ 32"
  shows "unat a + len \<le> 2 ^ 31"
proof (cases "len = 0")
  case True
  with assms(1) show ?thesis
    by (auto simp: copycheck_def Let_def word_le_nat_alt word_less_nat_alt split: if_splits)
next
  case False
  have le: "\<not> a + of_nat len - 1 < a" "a < USERTOP"
    using assms(1) by (auto simp: copycheck_def Let_def split: if_splits)
  have eq: "a + of_nat len - 1 = a + of_nat (len - 1)" using False by (cases len) simp_all
  have len: "unat (of_nat (len - 1) :: 32 word) = len - 1" using assms(2) by (simp add: unat_of_nat)
  have "unat (a + of_nat (len - 1)) = unat a + (len - 1)"
    using le(1) unfolding eq by (metis len not_le no_olen_add_nat unat_plus_if' word_less_nat_alt)
  moreover have "a + of_nat len - 1 < USERTOP \<or> unat (USERTOP - a) = len"
    using assms(1) by (auto simp: copycheck_def Let_def split: if_splits)
  ultimately show ?thesis
    using le(2) False unfolding eq by (auto simp: word_less_nat_alt unat_sub word_le_nat_alt)
qed

lemma copyin_ok:
  assumes "unat a + len \<le> 2 ^ 31" "0 < len" "mapped (umem c) a len" "len \<le> length dest"
  shows "copyin c a dest len = Some (Inr (), ubytes (umem c) a len @ drop len dest)"
  using assms by (simp add: copyin_def copycheck_in uread_mapped Let_def)

lemma copyout_ok:
  assumes "unat a + len \<le> 2 ^ 31" "0 < len" "mapped (umem c) a len" "len \<le> length src"
  shows "copyout src a len c = Some (Inr (), c\<lparr>umem := uupd (take len src) (umem c) a\<rparr>)"
  using assms by (simp add: copyout_def copycheck_in uwrite_mapped Let_def)

section \<open>The effect of a transfer on a \<open>uio\<close>\<close>

definition sys :: "uio \<Rightarrow> bool" where
  "sys u \<longleftrightarrow> uio_segflg u = UIO_SYSSPACE"

text \<open>The region is accessible for as many bytes as the \<open>uio\<close> says.\<close>

definition uio_ok :: "uio \<Rightarrow> 'c uctx_scheme \<Rightarrow> bool" where
  "uio_ok u c \<longleftrightarrow> uio_resid u \<le> iov_len u \<and> 0 \<le> uio_offset u \<and> uio_offset u + int (uio_resid u) < 2 ^ 31 \<and>
     (if sys u then uio_space u = None \<and> iov_len u \<le> length (iov_rest u)
      else uio_space u = cur_space c \<and> unat (iov_ubase u) + iov_len u \<le> 2 ^ 31 \<and>
        mapped (umem c) (iov_ubase u) (iov_len u))"

definition uskip :: "nat \<Rightarrow> uio \<Rightarrow> uio" where
  "uskip n u = (if sys u
     then u\<lparr>iov_done := iov_done u @ take n (iov_rest u), iov_rest := drop n (iov_rest u)\<rparr>
     else u\<lparr>iov_ubase := iov_ubase u + of_nat n\<rparr>)
     \<lparr>iov_len := iov_len u - n, uio_resid := uio_resid u - n, uio_offset := uio_offset u + int n\<rparr>"

definition uput :: "8 word list \<Rightarrow> uio \<times> 'c uctx_scheme \<Rightarrow> uio \<times> 'c uctx_scheme" where
  "uput bs uc = (case uc of (u, c) \<Rightarrow>
     if sys u then ((uskip (length bs) u)\<lparr>iov_done := iov_done u @ bs\<rparr>, c)
     else (uskip (length bs) u, c\<lparr>umem := uupd bs (umem c) (iov_ubase u)\<rparr>))"

definition udata :: "uio \<Rightarrow> 'c uctx_scheme \<Rightarrow> 8 word list" where
  "udata u c = (if sys u then take (iov_len u) (iov_rest u) else ubytes (umem c) (iov_ubase u) (iov_len u))"

lemma sys_upd [simp]:
  "sys (u\<lparr>iov_done := a\<rparr>) = sys u" "sys (u\<lparr>iov_rest := a\<rparr>) = sys u" "sys (u\<lparr>iov_ubase := b\<rparr>) = sys u"
  "sys (u\<lparr>iov_len := n\<rparr>) = sys u" "sys (u\<lparr>uio_offset := i\<rparr>) = sys u" "sys (u\<lparr>uio_resid := n\<rparr>) = sys u"
  by (simp_all add: sys_def)

lemma uskip_simps [simp]:
  "sys (uskip n u) = sys u" "iov_len (uskip n u) = iov_len u - n" "uio_resid (uskip n u) = uio_resid u - n"
  "uio_offset (uskip n u) = uio_offset u + int n" "uio_rw (uskip n u) = uio_rw u"
  "uio_space (uskip n u) = uio_space u" "uio_segflg (uskip n u) = uio_segflg u"
  by (simp_all add: uskip_def)

lemma uskip_0 [simp]: "uskip 0 u = u"
  by (simp add: uskip_def)

lemma uskip_add: "uskip n (uskip m u) = uskip (m + n) u"
  by (cases "sys u") (simp_all add: uskip_def take_add add_ac diff_diff_left)

lemma uput_Nil [simp]: "uput [] uc = uc"
  by (cases uc) (simp add: uput_def)

lemma uput_simps [simp]:
  "sys (fst (uput bs (u, c))) = sys u" "iov_len (fst (uput bs (u, c))) = iov_len u - length bs"
  "uio_resid (fst (uput bs (u, c))) = uio_resid u - length bs"
  "uio_offset (fst (uput bs (u, c))) = uio_offset u + int (length bs)"
  "uio_rw (fst (uput bs (u, c))) = uio_rw u" "cur_space (snd (uput bs (u, c))) = cur_space c"
  "uio_space (fst (uput bs (u, c))) = uio_space u" "uio_segflg (fst (uput bs (u, c))) = uio_segflg u"
  by (simp_all add: uput_def)

lemma uput_append: "uput ys (uput xs uc) = uput (xs @ ys) uc"
proof (cases uc)
  case (Pair u c)
  then show ?thesis
    by (cases "sys u") (simp_all add: uput_def uskip_add uupd_append, simp_all add: uskip_def add_ac diff_diff_left)
qed

lemma length_udata: "uio_ok u c \<Longrightarrow> length (udata u c) = iov_len u"
  by (auto simp: uio_ok_def udata_def split: if_splits)

lemma udata_uskip: "uio_ok u c \<Longrightarrow> n \<le> uio_resid u \<Longrightarrow> udata (uskip n u) c = drop n (udata u c)"
  by (auto simp: udata_def uio_ok_def uskip_def drop_ubytes drop_take split: if_splits)

lemma uio_ok_uskip: "uio_ok u c \<Longrightarrow> n \<le> uio_resid u \<Longrightarrow> uio_ok (uskip n u) c"
proof -
  assume ok: "uio_ok u c" and n: "n \<le> uio_resid u"
  have "unat (iov_ubase u + of_nat n) = unat (iov_ubase u) + n" if "\<not> sys u"
    using that ok n by (simp add: uio_ok_def unat_word_ariths unat_of_nat)
  moreover have "mapped (umem c) (iov_ubase u + of_nat n) (iov_len u - n)" if "\<not> sys u"
    using that ok n mapped_add [of "umem c" "iov_ubase u" n "iov_len u - n"] by (simp add: uio_ok_def)
  ultimately show ?thesis using ok n by (auto simp: uio_ok_def uskip_def split: if_splits)
qed

lemma uio_ok_uput:
  assumes "uio_ok u c" "length bs \<le> uio_resid u"
  shows "uio_ok (fst (uput bs (u, c))) (snd (uput bs (u, c)))"
  using uio_ok_uskip [OF assms] by (auto simp: uput_def uio_ok_def uupd_mapped split: if_splits)

section \<open>Moving bytes\<close>

lemma splice_all [simp]: "splice p bs xs = bs" if "p = 0" "length bs = length xs"
  using that by (simp add: splice_def)

lemma uiomove_loop_0 [simp]: "uiomove_loop 0 p buf u c = Some (Inr (), buf, u, c)"
  by (subst uiomove_loop.simps) simp

lemma uiomove_sys: "uio_ok u c \<Longrightarrow> (if uio_segflg u = UIO_SYSSPACE then uio_space u = None else uio_space u = cur_space c)"
  by (auto simp: uio_ok_def sys_def)

text \<open>One pass of the loop moves everything when the region is large enough.\<close>

lemma uiomove_one:
  assumes "uio_ok u c" "0 < n" "n \<le> uio_resid u"
  shows "uiomove buf n u c = (case uiomove_step n 0 buf u c of
      None \<Rightarrow> None
    | Some (Inl e, x) \<Rightarrow> Some (Inl e, x)
    | Some (Inr _, buf, u, c) \<Rightarrow> Some (Inr (), buf, u\<lparr>iov_len := iov_len u - n,
        uio_resid := usub (uio_resid u) n, uio_offset := s32 (uio_offset u + int n)\<rparr>, c))"
proof -
  have "min (iov_len u) n = n" using assms by (simp add: uio_ok_def)
  then show ?thesis
    unfolding uiomove_def using assms uiomove_sys [OF assms(1)]
    by (subst uiomove_loop.simps) (simp add: Let_def split: option.splits sum.splits prod.splits)
qed

lemma uiomove_read:
  assumes "uio_ok u c" "uio_rw u = UIO_READ" "n \<le> uio_resid u" "n \<le> length buf"
  shows "uiomove buf n u c = Some (Inr (), buf, uput (take n buf) (u, c))"
proof (cases "n = 0")
  case True
  then show ?thesis using uiomove_sys [OF assms(1)] by (simp add: uiomove_def)
next
  case False
  have "n \<le> iov_len u" using assms by (simp add: uio_ok_def)
  have off: "s32 (uio_offset u + int n) = uio_offset u + int n" using assms by (intro s32_in) (auto simp: uio_ok_def)
  show ?thesis
  proof (cases "sys u")
    case True
    then show ?thesis
      using assms False \<open>n \<le> iov_len u\<close> off
      by (simp add: uiomove_one uiomove_step_def sys_def uio_ok_def uput_def uskip_def)
  next
    case nsys: False
    have "copyout (drop 0 buf) (iov_ubase u) n c =
        Some (Inr (), c\<lparr>umem := uupd (take n buf) (umem c) (iov_ubase u)\<rparr>)"
      using assms False nsys \<open>n \<le> iov_len u\<close> mapped_mono [of "umem c" "iov_ubase u" "iov_len u" n]
      by (subst copyout_ok) (auto simp: uio_ok_def)
    then show ?thesis
      using assms False nsys off by (simp add: uiomove_one uiomove_step_def sys_def uput_def uskip_def)
  qed
qed

lemma uiomove_write:
  assumes "uio_ok u c" "uio_rw u = UIO_WRITE" "n \<le> uio_resid u" "n \<le> length buf"
  shows "uiomove buf n u c = Some (Inr (), take n (udata u c) @ drop n buf, uskip n u, c)"
proof (cases "n = 0")
  case True
  then show ?thesis using uiomove_sys [OF assms(1)] by (simp add: uiomove_def)
next
  case False
  have n: "n \<le> iov_len u" using assms by (simp add: uio_ok_def)
  have off: "s32 (uio_offset u + int n) = uio_offset u + int n" using assms by (intro s32_in) (auto simp: uio_ok_def)
  show ?thesis
  proof (cases "sys u")
    case True
    then show ?thesis
      using assms False n off
      by (simp add: uiomove_one uiomove_step_def sys_def uio_ok_def uskip_def splice_def udata_def)
  next
    case nsys: False
    have "copyin c (iov_ubase u) (drop 0 buf) n = Some (Inr (), ubytes (umem c) (iov_ubase u) n @ drop n buf)"
      using assms False nsys n mapped_mono [of "umem c" "iov_ubase u" "iov_len u" n]
      by (subst copyin_ok) (auto simp: uio_ok_def)
    then show ?thesis
      using assms False nsys off n
      by (simp add: uiomove_one uiomove_step_def sys_def uskip_def udata_def take_ubytes)
  qed
qed

lemma uiomovezeros_read:
  assumes "uio_ok u c" "uio_rw u = UIO_READ" "n \<le> uio_resid u"
  shows "uiomovezeros n u c = Some (Inr (), uput (replicate n 0) (u, c))"
proof -
  have "uiomovezeros_loop n u c = Some (Inr (), uput (replicate n 0) (u, c))"
    using assms
  proof (induction n arbitrary: u c rule: less_induct)
    case (less n)
    show ?case
    proof (cases "n = 0")
      case True
      then show ?thesis by (subst uiomovezeros_loop.simps) simp
    next
      case False
      let ?k = "min 16 n" and ?bs = "replicate (min 16 n) (0 :: 8 word)"
      obtain u1 c1 where 1: "uput ?bs (u, c) = (u1, c1)" by (metis prod.exhaust)
      have ok: "uio_ok u1 c1" "uio_rw u1 = UIO_READ" "uio_resid u1 = uio_resid u - ?k"
        using less.prems uio_ok_uput [OF less.prems(1), of ?bs] uput_simps [of ?bs u c] by (simp_all add: 1)
      have "uiomove (replicate 16 0) ?k u c = Some (Inr (), replicate 16 0, u1, c1)"
        using uiomove_read [OF less.prems(1,2), of ?k "replicate 16 0"] less.prems(3) 1 by (simp add: take_replicate)
      then have "uiomovezeros_loop n u c = uiomovezeros_loop (n - ?k) u1 c1"
        using False by (subst uiomovezeros_loop.simps) (simp add: Let_def)
      also have "\<dots> = Some (Inr (), uput (replicate (n - ?k) 0) (u1, c1))"
        using False less.prems(3) ok by (intro less.IH) auto
      also have "uput (replicate (n - ?k) 0) (u1, c1) = uput (replicate n 0) (u, c)"
        unfolding 1 [symmetric] uput_append by (simp add: replicate_add [symmetric])
      finally show ?thesis .
    qed
  qed
  then show ?thesis using assms(2) by (simp add: uiomovezeros_def)
qed

lemma uio_ok_mk_kuio:
  assumes "len \<le> length kbuf" "0 \<le> pos" "pos + int len < 2 ^ 31"
  shows "uio_ok (mk_kuio kbuf len pos rw) c"
  using assms by (simp add: uio_ok_def mk_kuio_def sys_def)

end
