(* ===== verification/Kern_UioProps.thy ===== *)
theory Kern_UioProps
  imports Kern_Uio
begin

text \<open>
  What the copying routines promise: no write outside the mapped user memory, exact strings, and bytes
  that come back as they were written.
\<close>

section \<open>Only user memory is written\<close>

text \<open>A change of user memory that stays inside \<open>[a, a + n)\<close>, below \<open>USERTOP\<close> and on mapped bytes.\<close>

definition within :: "32 word \<Rightarrow> nat \<Rightarrow> 'c uctx_scheme \<Rightarrow> 'c uctx_scheme \<Rightarrow> bool" where
  "within a n c c' \<longleftrightarrow> (\<forall>x. umem c' x \<noteq> umem c x \<longrightarrow>
     x < USERTOP \<and> umem c x \<noteq> None \<and> (\<exists>k < n. x = a + of_nat k))"

lemma within_refl [simp]: "within a n c c"
  by (simp add: within_def)

lemma copyout_within:
  assumes "copyout src a len c = Some (r, c')" "len < 2 ^ 32"
  shows "within a len c c'"
proof (cases "copycheck a len = Inr len")
  case True
  have dom: "unat a + len \<le> 2 ^ 31" using copycheck_len [OF True assms(2)] .
  have c': "c' = c\<lparr>umem := fst (uwrite (take len src) (umem c) a)\<rparr>" and l: "length (take len src) = len"
    using assms(1) True by (auto simp: copyout_def Let_def split: prod.splits)
  have "x < USERTOP \<and> umem c x \<noteq> None \<and> (\<exists>k < len. x = a + of_nat k)" if ne: "umem c' x \<noteq> umem c x" for x
  proof -
    obtain k where k: "k < len" "x = a + of_nat k"
      using uwrite_frame [of "take len src" x a "umem c"] ne c' l by auto
    have "unat x = unat a + k" using k dom by (simp add: unat_word_ariths unat_of_nat)
    then have "x < USERTOP" using dom k(1) by (simp add: word_less_nat_alt)
    moreover have "umem c x \<noteq> None"
    proof
      assume "umem c x = None"
      then have "x \<notin> dom (fst (uwrite (take len src) (umem c) a))" by (simp only: uwrite_dom domIff) simp
      then have "umem c' x = None" using c' by (simp add: domIff)
      with \<open>umem c x = None\<close> ne show False by simp
    qed
    ultimately show ?thesis using k by blast
  qed
  then show ?thesis by (auto simp: within_def)
next
  case False
  then show ?thesis using assms(1) by (auto simp: copyout_def within_def split: sum.splits)
qed

lemma uiomove_step_within:
  assumes "uiomove_step n p buf u c = Some (r, buf', u', c')" "n < 2 ^ 32"
  shows "within (iov_ubase u) n c c' \<and> iov_len u' = iov_len u \<and>
    (uio_rw u = UIO_WRITE \<or> sys u \<longrightarrow> umem c' = umem c)"
proof (cases "sys u \<or> uio_rw u = UIO_WRITE")
  case True
  show ?thesis
  proof (cases "sys u")
    case True
    then show ?thesis using assms(1) by (auto simp: uiomove_step_def sys_def split: uio_rw.split_asm)
  next
    case False
    then have "\<not> sys u" "uio_rw u = UIO_WRITE" using \<open>sys u \<or> uio_rw u = UIO_WRITE\<close> by auto
    with assms(1) obtain r1 d where "copyin c (iov_ubase u) (drop p buf) n = Some (r1, d)"
      by (auto simp: uiomove_step_def sys_def bind_eq_Some_conv)
    with \<open>\<not> sys u\<close> \<open>uio_rw u = UIO_WRITE\<close> show ?thesis
      using assms(1) by (cases r1) (auto simp: uiomove_step_def sys_def)
  qed
next
  case False
  then have "\<not> sys u" "uio_rw u = UIO_READ" by (cases "uio_rw u", auto)+
  with assms(1) obtain r1 c1 where c1: "copyout (drop p buf) (iov_ubase u) n c = Some (r1, c1)"
    by (auto simp: uiomove_step_def sys_def bind_eq_Some_conv)
  with \<open>\<not> sys u\<close> \<open>uio_rw u = UIO_READ\<close> show ?thesis
    using assms(1) copyout_within [OF c1 assms(2)] by (cases r1) (auto simp: uiomove_step_def sys_def)
qed

text \<open>
  (C25) Whatever its arguments, and also when it fails half-way, \<open>uiomove\<close> changes user memory only for
  a read into user space, only inside the region of the \<open>uio\<close> and at most \<open>n\<close> bytes of it, only at
  addresses below \<open>USERTOP\<close>, and only where memory is mapped.
\<close>

theorem uiomove_user_safe:
  assumes "uiomove buf n u c = Some (r, buf', u', c')" "iov_len u < 2 ^ 32" "umem c' x \<noteq> umem c x"
  shows "uio_rw u = UIO_READ \<and> uio_segflg u \<noteq> UIO_SYSSPACE \<and> x < USERTOP \<and> umem c x \<noteq> None \<and>
    (\<exists>k < min (iov_len u) n. x = iov_ubase u + of_nat k)"
proof -
  let ?k = "min (iov_len u) n"
  from assms(1) have loop: "uiomove_loop n 0 buf u c = Some (r, buf', u', c')" by (simp add: uiomove_def)
  have run: "0 < n" "0 < uio_resid u" using loop assms(3) by (auto simp: uiomove_loop.simps [of n] split: if_splits)
  obtain r1 b1 u1 c1 where st: "uiomove_step ?k 0 buf u c = Some (r1, b1, u1, c1)" and
    fin: "r1 = Inr () \<longrightarrow> uiomove_loop (n - ?k) ?k b1 (u1\<lparr>iov_len := iov_len u1 - ?k,
      uio_resid := usub (uio_resid u1) ?k, uio_offset := s32 (uio_offset u1 + int ?k)\<rparr>) c1 = Some (r, buf', u', c')"
    and err: "r1 \<noteq> Inr () \<longrightarrow> c' = c1"
    using loop run by (subst (asm) uiomove_loop.simps) (auto simp: Let_def split: if_splits option.splits sum.splits prod.splits)
  have "?k < 2 ^ 32" using assms(2) by simp
  note w = uiomove_step_within [OF st this]
  have "c' = c1"
  proof (cases "r1 = Inr ()")
    case True
    have "n - ?k = 0 \<or> iov_len u1 - ?k = 0" using w by auto
    then show ?thesis using fin True by (auto simp: uiomove_loop.simps [of "n - ?k"] split: if_splits)
  qed (use err in simp)
  then show ?thesis using w assms(3) by (cases "uio_rw u") (auto simp: within_def sys_def)
qed

theorem uiomove_user_safe_witness:
  "\<exists>u :: uio. \<exists>c c' :: uctx. \<exists>buf' u'. uiomove [7] 1 u c = Some (Inr (), buf', u', c') \<and>
    umem c 4096 = Some 0 \<and> umem c' 4096 = Some 7 \<and> uio_segflg u \<noteq> UIO_SYSSPACE"
proof -
  define c :: uctx where "c = \<lparr>cur_space = None, umem = (\<lambda>_. None)(4096 \<mapsto> 0)\<rparr>"
  define u where "u = (mk_kuio [] 1 0 UIO_READ)\<lparr>iov_ubase := 4096, uio_segflg := UIO_USERSPACE\<rparr>"
  have ok: "uio_ok u c" "uio_rw u = UIO_READ" "uio_resid u = 1" "umem c 4096 = Some 0" "iov_len u = 1"
    by (simp_all add: u_def c_def uio_ok_def sys_def mk_kuio_def mapped_def)
  obtain u' c' where p: "uput [7] (u, c) = (u', c')" by fastforce
  have m: "uiomove [7] 1 u c = Some (Inr (), [7], u', c')" using uiomove_read [OF ok(1,2), of 1 "[7]"] ok(3) p by simp
  have "umem c' 4096 = Some 7" using p by (auto simp: uput_def u_def mk_kuio_def sys_def)
  then have "uio_segflg u \<noteq> UIO_SYSSPACE" using uiomove_user_safe [OF m, of 4096] ok(4,5) by auto
  then show ?thesis using m ok(4) \<open>umem c' 4096 = Some 7\<close> by blast
qed

section \<open>Bytes come back\<close>

text \<open>
  (C27) What \<open>copyout\<close> stored in user memory, \<open>copyin\<close> reads back, byte for byte, into the first
  \<open>len\<close> bytes of its buffer and nowhere else.
\<close>

theorem copyout_copyin_roundtrip:
  assumes "copyout src a len c = Some (Inr (), c')" "len < 2 ^ 32" "len \<le> length dest"
  shows "copyin c' a dest len = Some (Inr (), take len src @ drop len dest)"
proof -
  have chk: "copycheck a len = Inr len" and len: "len \<le> length src"
    using assms(1) by (auto simp: copyout_def split: sum.splits if_splits)
  have map: "mapped (umem c) a len" "umem c' = uupd (take len src) (umem c) a"
  proof -
    show m: "mapped (umem c) a len"
      using assms(1) chk len uwrite_unmapped [of "umem c" a "take len src"]
      by (auto simp: copyout_def Let_def split: prod.splits if_splits)
    show "umem c' = uupd (take len src) (umem c) a"
      using assms(1) chk len uwrite_mapped [of "umem c" a "take len src"] m by (auto simp: copyout_def)
  qed
  have "ubytes (umem c') a len = take len src"
    using uupd_nth [of _ "take len src" "umem c" a] map(2) len assms(2) by (intro nth_equalityI) (auto simp: ubytes_def)
  moreover have "mapped (umem c') a len" using map by (simp add: uupd_mapped)
  ultimately show ?thesis using chk assms(3) len by (simp add: copyin_def uread_mapped Let_def)
qed

theorem copyout_copyin_roundtrip_witness:
  "\<exists>c' :: uctx. copyout [7, 8] 0x1000 2 \<lparr>cur_space = None, umem = (\<lambda>_. Some 0)\<rparr> = Some (Inr (), c') \<and>
    copyin c' 0x1000 [0, 0, 5] 2 = Some (Inr (), [7, 8, 5])"
proof -
  obtain c' :: uctx where c': "copyout [7, 8] 0x1000 2 \<lparr>cur_space = None, umem = (\<lambda>_. Some 0)\<rparr> = Some (Inr (), c')"
    using copyout_ok [of "0x1000" 2 "\<lparr>cur_space = None, umem = (\<lambda>_. Some 0)\<rparr>" "[7, 8]"] by (auto simp: mapped_def)
  from copyout_copyin_roundtrip [OF c', of "[0, 0, 5]"] show ?thesis using c' by auto
qed

section \<open>Strings\<close>

text \<open>The copying loop from index \<open>i\<close> on, towards a kernel buffer.\<close>

abbreviation (input) copystr_k ::
    "(nat \<Rightarrow> 8 word option) \<Rightarrow> nat \<Rightarrow> nat \<Rightarrow> nat list \<Rightarrow> 8 word list \<Rightarrow> (errno + nat) \<times> 8 word list" where
  "copystr_k get maxlen stoplen is d \<equiv> copystr (\<lambda>d. get) (\<lambda>d i b. Some (d[i := b])) maxlen stoplen is d"

lemma list_update_splice:
  assumes "i < length d" "i + length bs < length d"
  shows "splice (Suc i) bs (d[i := b]) = splice i (b # bs) d"
  using assms by (simp add: splice_def take_Suc_conv_app_nth)

lemma copystr_found:
  assumes "\<And>j. i \<le> j \<Longrightarrow> j < i + k \<Longrightarrow> get j \<noteq> None \<and> get j \<noteq> Some 0" "get (i + k) = Some 0" "i + k < n" "n \<le> length d"
  shows "copystr_k get ml sl [i..<n] d = (Inr (i + k + 1), splice i (map (\<lambda>j. the (get j)) [i..<i + k + 1]) d)"
  using assms
proof (induction k arbitrary: i d)
  case 0
  then have "[i..<n] = i # [Suc i..<n]" by (simp add: upt_conv_Cons)
  then show ?case using 0 by (simp add: splice_def upd_conv_take_nth_drop)
next
  case (Suc k)
  have u: "[i..<n] = i # [Suc i..<n]" "[i..<i + Suc k + 1] = i # [Suc i..<Suc i + k + 1]"
    using Suc.prems(3) by (simp_all add: upt_conv_Cons del: upt_Suc)
  obtain b where b: "get i = Some b" "b \<noteq> 0" using Suc.prems(1) [of i] by auto
  have "copystr_k get ml sl [Suc i..<n] (d[i := b]) =
      (Inr (Suc i + k + 1), splice (Suc i) (map (\<lambda>j. the (get j)) [Suc i..<Suc i + k + 1]) (d[i := b]))"
    using Suc.prems by (intro Suc.IH) auto
  moreover have "splice (Suc i) (map (\<lambda>j. the (get j)) [Suc i..<Suc i + k + 1]) (d[i := b]) =
      splice i (map (\<lambda>j. the (get j)) [i..<i + Suc k + 1]) d"
    unfolding u(2) using Suc.prems(3,4) b by (subst list_update_splice) (auto simp del: upt_Suc)
  ultimately show ?case using b by (simp add: u(1) del: upt_Suc)
qed

lemma copystr_found_conv:
  assumes "copystr_k get ml sl [i..<n] d = (Inr m, d')" "i \<le> n"
  shows "\<exists>k. m = i + k + 1 \<and> i + k < n \<and> get (i + k) = Some 0 \<and>
    (\<forall>j. i \<le> j \<and> j < i + k \<longrightarrow> get j \<noteq> None \<and> get j \<noteq> Some 0)"
  using assms
proof (induction "n - i" arbitrary: i d)
  case 0
  then show ?case by (simp split: if_splits)
next
  case (Suc x)
  then have u: "[i..<n] = i # [Suc i..<n]" by (simp add: upt_conv_Cons)
  obtain b where b: "get i = Some b" using Suc.prems(1) by (cases "get i") (auto simp: u)
  show ?case
  proof (cases "b = 0")
    case True
    then show ?thesis using Suc.prems(1) Suc.hyps(2) b by (intro exI [of _ 0]) (auto simp: u)
  next
    case False
    then have "copystr_k get ml sl [Suc i..<n] (d[i := b]) = (Inr m, d')"
      using Suc.prems(1) b by (simp add: u)
    moreover have "x = n - Suc i" "Suc i \<le> n" using Suc.hyps(2) by auto
    ultimately obtain k where
      k: "m = Suc i + k + 1" "Suc i + k < n" "get (Suc i + k) = Some 0"
        "\<forall>j. Suc i \<le> j \<and> j < Suc i + k \<longrightarrow> get j \<noteq> None \<and> get j \<noteq> Some 0"
      using Suc.hyps(1) [of "Suc i"] by blast
    have "\<forall>j. i \<le> j \<and> j < i + Suc k \<longrightarrow> get j \<noteq> None \<and> get j \<noteq> Some 0"
      using k(4) b False by (metis Suc_leI add_Suc_right add_Suc le_neq_implies_less option.inject option.distinct(1))
    then show ?thesis using k by (intro exI [of _ "Suc k"]) simp
  qed
qed

lemma copycheck_eq:
  assumes "0 < len" "unat a + len \<le> 2 ^ 32"
  shows "copycheck a len = (if 2 ^ 31 \<le> unat a then Inl EFAULT else Inr (min len (2 ^ 31 - unat a)))"
proof -
  obtain k where k: "len = Suc k" using assms(1) by (cases len) simp_all
  have top: "unat (a + of_nat len - 1) = unat a + k"
    using assms(2) k by (simp add: unat_word_ariths unat_of_nat)
  have "a + of_nat len - 1 < a \<longleftrightarrow> False" "USERTOP \<le> a \<longleftrightarrow> 2 ^ 31 \<le> unat a"
    "USERTOP \<le> a + of_nat len - 1 \<longleftrightarrow> 2 ^ 31 \<le> unat a + k"
    by (simp_all only: word_less_nat_alt word_le_nat_alt top) simp_all
  moreover have "unat (USERTOP - a) = 2 ^ 31 - unat a" if "unat a < 2 ^ 31"
    using that by (subst unat_sub) (simp_all add: word_le_nat_alt)
  ultimately show ?thesis by (auto simp: copycheck_def Let_def k min_def)
qed

text \<open>
  (C26) \<open>copyinstr\<close> succeeds exactly on a string: it returns \<open>n\<close> if and only if user memory holds, from
  the given address on, \<open>n - 1\<close> mapped bytes other than zero and then a zero, with \<open>n\<close> not above the
  given length and all of it below \<open>USERTOP\<close>. Then those \<open>n\<close> bytes, with the zero, are in the buffer,
  and the rest of the buffer is untouched.
\<close>

theorem copyinstr_exact:
  assumes "0 < len" "unat a + len \<le> 2 ^ 32" "len \<le> length dest"
  shows "copyinstr c a dest len = Some (Inr n, d) \<longleftrightarrow>
    (\<exists>str. n = length str + 1 \<and> n \<le> len \<and> 0 \<notin> set str \<and> unat a + n \<le> 2 ^ 31 \<and>
      mapped (umem c) a n \<and> ubytes (umem c) a n = str @ [0] \<and> d = str @ [0] @ drop n dest)"
proof (cases "2 ^ 31 \<le> unat a")
  case True
  then show ?thesis using copycheck_eq [OF assms(1,2)] by (auto simp: copyinstr_def)
next
  case False
  let ?get = "\<lambda>i. umem c (a + of_nat i)" and ?stop = "min len (2 ^ 31 - unat a)"
  have eq: "copyinstr c a dest len = Some (copystr_k ?get len ?stop [0..<?stop] dest)"
    using copycheck_eq [OF assms(1,2)] False assms(3) by (simp add: copyinstr_def)
  have nth: "ubytes (umem c) a m ! j = the (?get j)" if "j < m" for m j using that by (simp add: ubytes_def)
  show ?thesis
  proof
    assume "copyinstr c a dest len = Some (Inr n, d)"
    then have run: "copystr_k ?get len ?stop [0..<?stop] dest = (Inr n, d)" using eq by simp
    from copystr_found_conv [OF this] obtain k where k: "n = k + 1" "k < ?stop" "?get k = Some 0"
      "\<forall>j < k. ?get j \<noteq> None \<and> ?get j \<noteq> Some 0" by auto
    from copystr_found [of 0 k ?get ?stop dest len ?stop] k assms(3) run
    have d: "d = splice 0 (ubytes (umem c) a n) dest" by (auto simp: ubytes_def simp del: upt_Suc)
    have str: "ubytes (umem c) a n = ubytes (umem c) a k @ [0]" using k(1,3) by (simp add: ubytes_def)
    have "0 \<notin> set (ubytes (umem c) a k)" using k(4) by (auto simp: ubytes_def)
    moreover have "mapped (umem c) a n" using k by (auto simp: mapped_def less_Suc_eq)
    ultimately show "\<exists>str. n = length str + 1 \<and> n \<le> len \<and> 0 \<notin> set str \<and> unat a + n \<le> 2 ^ 31 \<and>
        mapped (umem c) a n \<and> ubytes (umem c) a n = str @ [0] \<and> d = str @ [0] @ drop n dest"
      using k d str by (intro exI [of _ "ubytes (umem c) a k"]) (auto simp: splice_def)
  next
    assume "\<exists>str. n = length str + 1 \<and> n \<le> len \<and> 0 \<notin> set str \<and> unat a + n \<le> 2 ^ 31 \<and>
        mapped (umem c) a n \<and> ubytes (umem c) a n = str @ [0] \<and> d = str @ [0] @ drop n dest"
    then obtain str where str: "n = length str + 1" "n \<le> len" "0 \<notin> set str" "unat a + n \<le> 2 ^ 31"
      "mapped (umem c) a n" "ubytes (umem c) a n = str @ [0]" "d = str @ [0] @ drop n dest" by blast
    have g: "?get j = Some ((str @ [0]) ! j)" if "j < n" for j
      using nth [OF that] str(5,6) that by (auto simp: mapped_def)
    have ne: "?get j \<noteq> None \<and> ?get j \<noteq> Some 0" if "j < length str" for j
      using g [of j] that str(1,3) by (auto simp: nth_append) (metis nth_mem)
    have "?get (length str) = Some 0" using g [of "length str"] str(1) by simp
    from copystr_found [of 0 "length str" ?get ?stop dest len ?stop, OF _ _ _ _] ne this str(1,2,4) assms(3)
    have "copystr_k ?get len ?stop [0..<?stop] dest = (Inr n, splice 0 (ubytes (umem c) a n) dest)"
      by (simp add: ubytes_def del: upt_Suc)
    then show "copyinstr c a dest len = Some (Inr n, d)" using eq str by (simp add: splice_def)
  qed
qed

theorem copyinstr_exact_witness:
  "copyinstr \<lparr>cur_space = None, umem = (\<lambda>_. None)(8 \<mapsto> 65, 9 \<mapsto> 0)\<rparr> 8 [1, 2, 3, 4] 4 = Some (Inr 2, [65, 0, 3, 4])"
proof -
  let ?m = "(\<lambda>_. None)(8 \<mapsto> 65, 9 \<mapsto> 0) :: 32 word \<Rightarrow> 8 word option"
  have "mapped ?m 8 (Suc (Suc 0))" "ubytes ?m 8 (Suc (Suc 0)) = [65, 0]"
    by (simp_all add: mapped_Suc ubytes_Suc mapped_def [of _ _ 0] ubytes_def [of _ _ 0])
  then have "mapped ?m 8 2" "ubytes ?m 8 2 = [65] @ [0]" by (simp_all only: numeral_2_eq_2) simp
  then show ?thesis
    using copyinstr_exact [of 4 8 "[1, 2, 3, 4]" "\<lparr>cur_space = None, umem = ?m\<rparr>" 2 "[65, 0, 3, 4]"] by fastforce
qed

end
