(* ===== verification/Kern_SfsFormat.thy ===== *)
theory Kern_SfsFormat
  imports Kern_Uio
begin

text \<open>
  The structures of the file system on the disk (\<^verbatim>\<open>kern/include/kern/sfs.h\<close>) and their bytes in a
  block. The kernel reads a block into the structure itself, so the layout is that of the compiler for
  the machine: fields in their order without padding, numbers with the high byte first.
\<close>

section \<open>Numbers in a block\<close>

definition be32 :: "32 word \<Rightarrow> 8 word list" where
  "be32 x = [ucast (drop_bit 24 x), ucast (drop_bit 16 x), ucast (drop_bit 8 x), ucast x]"

definition un32 :: "8 word list \<Rightarrow> 32 word" where
  "un32 bs = (case bs of
      [a, b, c, d] \<Rightarrow> push_bit 24 (ucast a) OR push_bit 16 (ucast b) OR push_bit 8 (ucast c) OR ucast d
    | _ \<Rightarrow> 0)"

definition be16 :: "16 word \<Rightarrow> 8 word list" where
  "be16 x = [ucast (drop_bit 8 x), ucast x]"

definition un16 :: "8 word list \<Rightarrow> 16 word" where
  "un16 bs = (case bs of [a, b] \<Rightarrow> push_bit 8 (ucast a) OR ucast b | _ \<Rightarrow> 0)"

lemma length_be [simp]: "length (be32 x) = 4" "length (be16 y) = 2"
  by (simp_all add: be32_def be16_def)

lemma un32_be32 [simp]: "un32 (be32 x) = x"
proof (rule bit_word_eqI)
  fix n
  assume "n < LENGTH(32)"
  then have "n < 8 \<or> (8 \<le> n \<and> n < 16) \<or> (16 \<le> n \<and> n < 24) \<or> (24 \<le> n \<and> n < 32)" by simp linarith
  then show "bit (un32 (be32 x)) n \<longleftrightarrow> bit x n"
    by (auto simp: un32_def be32_def bit_simps)
qed

lemma un16_be16 [simp]: "un16 (be16 x) = x"
proof (rule bit_word_eqI)
  fix n
  assume "n < LENGTH(16)"
  then have "n < 8 \<or> (8 \<le> n \<and> n < 16)" by simp linarith
  then show "bit (un16 (be16 x)) n \<longleftrightarrow> bit x n"
    by (auto simp: un16_def be16_def bit_simps)
qed

lemma be32_un32: "length bs = 4 \<Longrightarrow> be32 (un32 bs) = bs"
proof -
  assume "length bs = 4"
  then obtain a b c d where bs: "bs = [a, b, c, d]"
    by (auto simp: length_Suc_conv eval_nat_numeral)
  have "ucast (drop_bit 24 (un32 bs)) = a" "ucast (drop_bit 16 (un32 bs)) = b"
    "ucast (drop_bit 8 (un32 bs)) = c" "ucast (un32 bs) = d"
    by (rule bit_word_eqI; auto simp: bs un32_def bit_simps dest: bit_imp_le_length)+
  then show ?thesis by (simp add: be32_def bs)
qed

lemma be16_un16: "length bs = 2 \<Longrightarrow> be16 (un16 bs) = bs"
proof -
  assume "length bs = 2"
  then obtain a b where bs: "bs = [a, b]"
    by (auto simp: length_Suc_conv eval_nat_numeral)
  have "ucast (drop_bit 8 (un16 bs)) = a" "ucast (un16 bs) = b"
    by (rule bit_word_eqI; auto simp: bs un16_def bit_simps dest: bit_imp_le_length)+
  then show ?thesis by (simp add: be16_def bs)
qed

text \<open>The block seen as an array of numbers, as the indirect block is.\<close>

definition word_at :: "8 word list \<Rightarrow> nat \<Rightarrow> 32 word" where
  "word_at bs i = un32 (take 4 (drop (4 * i) bs))"

definition set_word :: "8 word list \<Rightarrow> nat \<Rightarrow> 32 word \<Rightarrow> 8 word list" where
  "set_word bs i w = splice (4 * i) (be32 w) bs"

lemma length_set_word [simp]: "4 * i + 4 \<le> length bs \<Longrightarrow> length (set_word bs i w) = length bs"
  by (simp add: set_word_def splice_def)

lemma word_at_set_word:
  assumes "4 * i + 4 \<le> length bs" "4 * j + 4 \<le> length bs"
  shows "word_at (set_word bs i w) j = (if i = j then w else word_at bs j)"
proof -
  consider "j < i" | "j = i" | "i < j" by linarith
  then show ?thesis
  proof cases
    case 1
    then have "take 4 (drop (4 * j) (set_word bs i w)) = take 4 (drop (4 * j) bs)"
      using assms by (simp add: set_word_def splice_def drop_take take_drop flip: drop_take)
    then show ?thesis using 1 by (simp add: word_at_def)
  next
    case 2
    then show ?thesis using assms by (simp add: word_at_def set_word_def splice_def)
  next
    case 3
    then obtain k where j: "j = Suc i + k" by (metis add_Suc less_iff_Suc_add)
    have "drop (4 * j) (set_word bs i w) = drop (4 * j) bs"
      using assms by (simp add: set_word_def splice_def j add_ac)
    then show ?thesis using 3 by (simp add: word_at_def)
  qed
qed

lemma word_at_zeros [simp]: "word_at (replicate n 0) i = 0"
proof -
  have "un32 (replicate m 0) = 0" for m
  proof (cases "m = 4")
    case True
    then show ?thesis by (simp add: un32_def numeral_eq_Suc)
  next
    case False
    then have "replicate m (0 :: 8 word) \<noteq> [a, b, c, d]" for a b c d
      by (auto dest!: arg_cong [of _ _ length])
    then show ?thesis by (simp add: un32_def split: list.splits)
  qed
  then show ?thesis by (simp add: word_at_def take_replicate drop_replicate)
qed

section \<open>Structures\<close>

abbreviation (input) SFS_MAGIC :: "32 word" where "SFS_MAGIC \<equiv> 0xabadf001"
abbreviation (input) SFS_NDIRECT :: nat where "SFS_NDIRECT \<equiv> 15"
abbreviation (input) SFS_DBPERIDB :: nat where "SFS_DBPERIDB \<equiv> 128"
abbreviation (input) SFS_NAMELEN :: nat where "SFS_NAMELEN \<equiv> 60"
abbreviation (input) SFS_SB_LOCATION :: "32 word" where "SFS_SB_LOCATION \<equiv> 0"
abbreviation (input) SFS_ROOT_LOCATION :: "32 word" where "SFS_ROOT_LOCATION \<equiv> 1"
abbreviation (input) SFS_MAP_LOCATION :: "32 word" where "SFS_MAP_LOCATION \<equiv> 2"
abbreviation (input) SFS_NOINO :: "32 word" where "SFS_NOINO \<equiv> 0"
abbreviation (input) SFS_TYPE_INVAL :: "16 word" where "SFS_TYPE_INVAL \<equiv> 0"
abbreviation (input) SFS_TYPE_FILE :: "16 word" where "SFS_TYPE_FILE \<equiv> 1"
abbreviation (input) SFS_TYPE_DIR :: "16 word" where "SFS_TYPE_DIR \<equiv> 2"

record sfs_super =
  sp_magic :: "32 word"
  sp_nblocks :: "32 word"
  sp_volname :: "8 word list"
  sp_reserved :: "8 word list"

record sfs_inode =
  sfi_size :: "32 word"
  sfi_type :: "16 word"
  sfi_linkcount :: "16 word"
  sfi_direct :: "32 word list"
  sfi_indirect :: "32 word"
  sfi_waste :: "8 word list"

record sfs_dir =
  sfd_ino :: "32 word"
  sfd_name :: "8 word list"

definition super_bytes :: "sfs_super \<Rightarrow> 8 word list" where
  "super_bytes sp = be32 (sp_magic sp) @ be32 (sp_nblocks sp) @ sp_volname sp @ sp_reserved sp"

definition super_of :: "8 word list \<Rightarrow> sfs_super" where
  "super_of bs = \<lparr>sp_magic = word_at bs 0, sp_nblocks = word_at bs 1, sp_volname = take 32 (drop 8 bs),
     sp_reserved = drop 40 bs\<rparr>"

definition inode_bytes :: "sfs_inode \<Rightarrow> 8 word list" where
  "inode_bytes i = be32 (sfi_size i) @ be16 (sfi_type i) @ be16 (sfi_linkcount i) @
     concat (map be32 (sfi_direct i)) @ be32 (sfi_indirect i) @ sfi_waste i"

definition inode_of :: "8 word list \<Rightarrow> sfs_inode" where
  "inode_of bs = \<lparr>sfi_size = word_at bs 0, sfi_type = un16 (take 2 (drop 4 bs)),
     sfi_linkcount = un16 (take 2 (drop 6 bs)), sfi_direct = map (\<lambda>k. word_at bs (2 + k)) [0..<SFS_NDIRECT],
     sfi_indirect = word_at bs 17, sfi_waste = drop 72 bs\<rparr>"

definition dir_bytes :: "sfs_dir \<Rightarrow> 8 word list" where
  "dir_bytes d = be32 (sfd_ino d) @ sfd_name d"

definition dir_of :: "8 word list \<Rightarrow> sfs_dir" where
  "dir_of bs = \<lparr>sfd_ino = word_at bs 0, sfd_name = drop 4 bs\<rparr>"

definition inode_wf :: "sfs_inode \<Rightarrow> bool" where
  "inode_wf i \<longleftrightarrow> length (sfi_direct i) = SFS_NDIRECT \<and> length (sfi_waste i) = 440"

lemma length_concat_be32 [simp]: "length (concat (map be32 ws)) = 4 * length ws"
  by (induction ws) simp_all

lemma length_inode_bytes [simp]: "inode_wf i \<Longrightarrow> length (inode_bytes i) = 512"
  by (simp add: inode_bytes_def inode_wf_def)

lemma word_at_concat: "k < length ws \<Longrightarrow> word_at (concat (map be32 ws) @ xs) k = ws ! k"
proof (induction ws arbitrary: k)
  case (Cons w ws)
  then show ?case by (cases k) (simp_all add: word_at_def)
qed simp

lemma word_at_shift: "length xs = 4 * m \<Longrightarrow> word_at (xs @ ys) (m + k) = word_at ys k"
  by (simp add: word_at_def add_mult_distrib2)

lemma inode_of_bytes [simp]:
  assumes "inode_wf i"
  shows "inode_of (inode_bytes i) = i"
proof -
  let ?a = "be32 (sfi_size i) @ be16 (sfi_type i) @ be16 (sfi_linkcount i)" and ?d = "concat (map be32 (sfi_direct i))"
  let ?z = "be32 (sfi_indirect i) @ sfi_waste i"
  have b: "inode_bytes i = ?a @ ?d @ ?z" by (simp add: inode_bytes_def)
  have l: "length ?a = 4 * 2" "length (?a @ ?d) = 4 * 17" "length (sfi_direct i) = 15" using assms by (simp_all add: inode_wf_def)
  have "word_at (inode_bytes i) (2 + k) = sfi_direct i ! k" if "k < 15" for k
    unfolding b using that l by (subst word_at_shift [OF l(1)]) (simp add: word_at_concat)
  then have "map (\<lambda>k. word_at (inode_bytes i) (2 + k)) [0..<15] = sfi_direct i"
    using l(3) by (intro nth_equalityI) simp_all
  moreover have "word_at (inode_bytes i) (17 + 0) = sfi_indirect i"
    unfolding b append_assoc [symmetric, of ?a ?d] by (subst word_at_shift [OF l(2)]) (simp add: word_at_def)
  moreover have "word_at (inode_bytes i) 0 = sfi_size i" by (simp add: word_at_def inode_bytes_def)
  moreover have "drop 72 (inode_bytes i) = sfi_waste i" using l by (simp add: inode_bytes_def)
  ultimately show ?thesis by (simp add: inode_of_def inode_bytes_def)
qed

lemma dir_of_bytes [simp]: "dir_of (dir_bytes d) = d"
  by (simp add: dir_of_def dir_bytes_def word_at_def)

lemma length_dir_bytes [simp]: "length (sfd_name d) = SFS_NAMELEN \<Longrightarrow> length (dir_bytes d) = 64"
  by (simp add: dir_bytes_def)

lemma super_of_bytes [simp]:
  assumes "length (sp_volname sp) = 32"
  shows "super_of (super_bytes sp) = sp"
  using assms by (simp add: super_of_def super_bytes_def word_at_def)

end
