(* ===== verification/Kern_Disk.thy ===== *)
theory Kern_Disk
  imports Kern_Uio
begin

text \<open>
  The disk driver (\<^verbatim>\<open>kern/dev/lamebus/lhd.c\<close>) and the block I/O of the file system
  (\<^verbatim>\<open>kern/fs/sfs/sfs_io.c\<close>).

  The disk has sectors of 512 bytes. Its hardware is a parameter of the state: \<open>hw n\<close> is what the status
  register shows when operation \<open>n\<close> is over. An operation that does not end with \<open>LHD_OK\<close> transfers
  nothing. The semaphores \<open>lh_clear\<close> and \<open>lh_done\<close> let one thread at a time use the device, so a call
  of the driver is one step here; an operation whose completion never comes does not return.
\<close>

section \<open>The driver\<close>

record disk = uctx +
  sectors :: "nat \<Rightarrow> 8 word list"
  d_blocks :: "32 word"
  d_blocksize :: "32 word"
  lh_buf :: "8 word list"
  hw :: "nat \<Rightarrow> 32 word"
  hw_n :: nat

abbreviation (input) LHD_IDLE :: "32 word" where "LHD_IDLE \<equiv> 0"
abbreviation (input) LHD_WORKING :: "32 word" where "LHD_WORKING \<equiv> 1"
abbreviation (input) LHD_OK :: "32 word" where "LHD_OK \<equiv> 4"
abbreviation (input) LHD_INVSECT :: "32 word" where "LHD_INVSECT \<equiv> 12"
abbreviation (input) LHD_MEDIA :: "32 word" where "LHD_MEDIA \<equiv> 20"
abbreviation (input) LHD_STATEMASK :: "32 word" where "LHD_STATEMASK \<equiv> 0x1d"
abbreviation (input) LHD_SECTSIZE :: nat where "LHD_SECTSIZE \<equiv> 512"

definition lhd_code_to_errno :: "32 word \<Rightarrow> errno + unit" where
  "lhd_code_to_errno code =
     (let c = code AND LHD_STATEMASK in
      if c = LHD_OK then Inr ()
      else if c = LHD_INVSECT then Inl EINVAL
      else if c = LHD_MEDIA then Inl EIO
      else Inl EAGAIN)"

text \<open>The result that \<open>lhd_irq\<close> hands to \<open>lhd_iodone\<close>, if the operation is over.\<close>

definition lhd_irq :: "32 word \<Rightarrow> (errno + unit) option" where
  "lhd_irq val =
     (if val AND LHD_STATEMASK \<in> {LHD_OK, LHD_INVSECT, LHD_MEDIA} then Some (lhd_code_to_errno val) else None)"

text \<open>One operation of the hardware, from the start to the completion interrupt.\<close>

definition lhd_op :: "uio_rw \<Rightarrow> 32 word \<Rightarrow> 'd disk_scheme \<Rightarrow> ((errno + unit) \<times> 'd disk_scheme) option" where
  "lhd_op rw sector s = do {
     r \<leftarrow> lhd_irq (hw s (hw_n s));
     let s = s\<lparr>hw_n := Suc (hw_n s)\<rparr>;
     Some (r, if r \<noteq> Inr () then s
              else (case rw of
                  UIO_WRITE \<Rightarrow> s\<lparr>sectors := (sectors s)(unat sector := lh_buf s)\<rparr>
                | UIO_READ \<Rightarrow> s\<lparr>lh_buf := sectors s (unat sector)\<rparr>)) }"

primrec lhd_loop :: "nat list \<Rightarrow> 32 word \<Rightarrow> uio \<Rightarrow> 'd disk_scheme \<Rightarrow> ((errno + unit) \<times> uio \<times> 'd disk_scheme) option" where
  "lhd_loop [] sector u s = Some (Inr (), u, s)"
| "lhd_loop (i # is) sector u s =
     (case uio_rw u of
        UIO_WRITE \<Rightarrow>
          on_ok (uiomove (lh_buf s) LHD_SECTSIZE u s) (\<lambda>_ (b, u, s). do {
            (r, s) \<leftarrow> lhd_op UIO_WRITE (sector + of_nat i) (s\<lparr>lh_buf := b\<rparr>);
            if r \<noteq> Inr () then Some (r, u, s) else lhd_loop is sector u s })
          (\<lambda>(b, u, s). (u, s\<lparr>lh_buf := b\<rparr>))
      | UIO_READ \<Rightarrow> do {
          (r, s) \<leftarrow> lhd_op UIO_READ (sector + of_nat i) s;
          if r \<noteq> Inr () then Some (r, u, s)
          else on_ok (uiomove (lh_buf s) LHD_SECTSIZE u s) (\<lambda>_ (b, u, s). lhd_loop is sector u s) snd })"

definition lhd_io :: "uio \<Rightarrow> 'd disk_scheme \<Rightarrow> ((errno + unit) \<times> uio \<times> 'd disk_scheme) option" where
  "lhd_io u s =
     (let sector = word_of_int (uio_offset u sdiv int LHD_SECTSIZE) :: 32 word;
          sectoff = uio_offset u smod int LHD_SECTSIZE;
          len = uio_resid u div LHD_SECTSIZE;
          lenoff = uio_resid u mod LHD_SECTSIZE
      in if sectoff \<noteq> 0 \<or> lenoff \<noteq> 0 then Some (Inl EINVAL, u, s)
         else if d_blocks s < sector + of_nat len then Some (Inl EINVAL, u, s)
         else lhd_loop [0..<len] sector u s)"

section \<open>Block I/O of the file system\<close>

abbreviation (input) SFS_BLOCKSIZE :: nat where "SFS_BLOCKSIZE \<equiv> 512"

text \<open>\<open>sfs_rwblock\<close> with the number of retries that are left.\<close>

primrec sfs_rwblock_n :: "nat \<Rightarrow> uio \<Rightarrow> 'd disk_scheme \<Rightarrow> ((errno + unit) \<times> uio \<times> 'd disk_scheme) option" where
  "sfs_rwblock_n 0 u s = do {
     (r, u, s) \<leftarrow> lhd_io u s;
     kassert (r \<noteq> Inl EINVAL);
     Some (r, u, s) }"
| "sfs_rwblock_n (Suc n) u s = do {
     (r, u, s) \<leftarrow> lhd_io u s;
     kassert (r \<noteq> Inl EINVAL);
     if r = Inl EIO then sfs_rwblock_n n u s else Some (r, u, s) }"

definition sfs_rwblock :: "uio \<Rightarrow> 'd disk_scheme \<Rightarrow> ((errno + unit) \<times> uio \<times> 'd disk_scheme) option" where
  "sfs_rwblock u s = sfs_rwblock_n 10 u s"

definition SFSUIO :: "8 word list \<Rightarrow> 32 word \<Rightarrow> uio_rw \<Rightarrow> uio option" where
  "SFSUIO ptr block rw = do {
     pos \<leftarrow> cint (s32 (uint block) * int SFS_BLOCKSIZE);
     Some (mk_kuio ptr SFS_BLOCKSIZE pos rw) }"

text \<open>\<open>data\<close> is the buffer, and comes back with what was read into it.\<close>

definition sfs_rblock :: "8 word list \<Rightarrow> 32 word \<Rightarrow> 'd disk_scheme \<Rightarrow> ((errno + unit) \<times> 8 word list \<times> 'd disk_scheme) option" where
  "sfs_rblock data block s = do {
     ku \<leftarrow> SFSUIO data block UIO_READ;
     (r, ku, s) \<leftarrow> sfs_rwblock ku s;
     Some (r, iov_done ku @ iov_rest ku, s) }"

definition sfs_wblock :: "8 word list \<Rightarrow> 32 word \<Rightarrow> 'd disk_scheme \<Rightarrow> ((errno + unit) \<times> 'd disk_scheme) option" where
  "sfs_wblock data block s = do {
     ku \<leftarrow> SFSUIO data block UIO_WRITE;
     (r, ku, s) \<leftarrow> sfs_rwblock ku s;
     Some (r, s) }"

section \<open>A disk without errors\<close>

definition disk_ok :: "'d disk_scheme \<Rightarrow> bool" where
  "disk_ok s \<longleftrightarrow> (\<forall>b. length (sectors s b) = SFS_BLOCKSIZE) \<and> length (lh_buf s) = SFS_BLOCKSIZE \<and>
     unat (d_blocks s) < 2 ^ 22"

definition hw_ok :: "'d disk_scheme \<Rightarrow> bool" where
  "hw_ok s \<longleftrightarrow> (\<forall>n \<ge> hw_n s. hw s n AND LHD_STATEMASK = LHD_OK)"

definition disk_read :: "nat \<Rightarrow> 'd disk_scheme \<Rightarrow> 'd disk_scheme" where
  "disk_read b s = s\<lparr>lh_buf := sectors s b, hw_n := Suc (hw_n s)\<rparr>"

definition disk_write :: "nat \<Rightarrow> 8 word list \<Rightarrow> 'd disk_scheme \<Rightarrow> 'd disk_scheme" where
  "disk_write b bs s = s\<lparr>sectors := (sectors s)(b := bs), lh_buf := bs, hw_n := Suc (hw_n s)\<rparr>"

lemma disk_read_simps [simp]:
  "sectors (disk_read b s) = sectors s" "d_blocks (disk_read b s) = d_blocks s"
  "d_blocksize (disk_read b s) = d_blocksize s" "umem (disk_read b s) = umem s"
  "cur_space (disk_read b s) = cur_space s" "hw (disk_read b s) = hw s"
  by (simp_all add: disk_read_def)

lemma disk_write_simps [simp]:
  "sectors (disk_write b bs s) = (sectors s)(b := bs)" "d_blocks (disk_write b bs s) = d_blocks s"
  "d_blocksize (disk_write b bs s) = d_blocksize s" "umem (disk_write b bs s) = umem s"
  "cur_space (disk_write b bs s) = cur_space s" "hw (disk_write b bs s) = hw s"
  by (simp_all add: disk_write_def)

lemma disk_ok_read [simp]: "disk_ok s \<Longrightarrow> disk_ok (disk_read b s)"
  by (simp add: disk_ok_def disk_read_def)

lemma disk_ok_write [simp]: "disk_ok s \<Longrightarrow> length bs = SFS_BLOCKSIZE \<Longrightarrow> disk_ok (disk_write b bs s)"
  by (simp add: disk_ok_def disk_write_def)

lemma hw_ok_read [simp]: "hw_ok s \<Longrightarrow> hw_ok (disk_read b s)"
  by (simp add: hw_ok_def disk_read_def)

lemma hw_ok_write [simp]: "hw_ok s \<Longrightarrow> hw_ok (disk_write b bs s)"
  by (simp add: hw_ok_def disk_write_def)

lemma uio_ok_umem:
  assumes "umem c' = umem c" "cur_space c' = cur_space c"
  shows "uio_ok u c' = uio_ok u c" "udata u c' = udata u c"
  using assms by (simp_all add: uio_ok_def udata_def)

lemma uput_disk [simp]:
  "sectors (snd (uput bs (u, s))) = sectors s" "d_blocks (snd (uput bs (u, s))) = d_blocks s"
  "lh_buf (snd (uput bs (u, s))) = lh_buf s" "hw (snd (uput bs (u, s))) = hw s" "hw_n (snd (uput bs (u, s))) = hw_n s"
  "d_blocksize (snd (uput bs (u, s))) = d_blocksize s"
  by (simp_all add: uput_def)

lemma lhd_irq_ok: "hw_ok s \<Longrightarrow> lhd_irq (hw s (hw_n s)) = Some (Inr ())"
  by (simp add: hw_ok_def lhd_irq_def lhd_code_to_errno_def)

lemma sdiv_eq_div: "0 \<le> a \<Longrightarrow> 0 < b \<Longrightarrow> a sdiv b = a div (b :: int)"
  by (cases "a = 0") (simp_all add: signed_divide_int_def)

text \<open>A sector-sized transfer at a sector of the disk passes the checks of the driver.\<close>

lemma lhd_io_one:
  assumes "uio_resid u = SFS_BLOCKSIZE" "uio_offset u = int b * 512" "b < unat (d_blocks s)"
  shows "lhd_io u s = lhd_loop [0] (of_nat b) u s"
proof -
  have b: "b + 1 < 2 ^ 32" using assms(3) unat32_less [of "d_blocks s"] by simp
  have "uio_offset u sdiv 512 = int b" "uio_offset u smod 512 = 0"
    using assms(2) by (simp_all add: sdiv_eq_div smod_eq_mod)
  moreover have "\<not> d_blocks s < of_nat b + 1"
    using b assms(3) by (simp add: word_less_nat_alt unat_word_ariths unat_of_nat)
  ultimately show ?thesis using assms(1) by (simp add: lhd_io_def Let_def)
qed

lemma lhd_io_read:
  assumes "disk_ok s" "hw_ok s" "uio_ok u s" "uio_rw u = UIO_READ" "uio_resid u = SFS_BLOCKSIZE"
    "uio_offset u = int b * 512" "b < unat (d_blocks s)"
  shows "lhd_io u s = Some (Inr (), uput (sectors s b) (u, disk_read b s))"
proof -
  have b: "unat (of_nat b :: 32 word) = b" using assms(7) unat32_less [of "d_blocks s"] by (simp add: unat_of_nat)
  have "lhd_op UIO_READ (of_nat b + of_nat 0) s = Some (Inr (), disk_read b s)"
    using lhd_irq_ok [OF assms(2)] b by (simp add: lhd_op_def disk_read_def)
  moreover have "uiomove (sectors s b) 512 u (disk_read b s) = Some (Inr (), sectors s b, uput (sectors s b) (u, disk_read b s))"
    using uiomove_read [of u "disk_read b s" 512 "sectors s b"] assms(1,3,4,5)
    by (simp add: uio_ok_umem [of "disk_read b s" s] disk_ok_def)
  moreover have "lh_buf (disk_read b s) = sectors s b" by (simp add: disk_read_def)
  ultimately show ?thesis using assms(4) lhd_io_one [OF assms(5-7)] by (simp add: case_prod_beta)
qed

lemma lhd_io_write:
  assumes "disk_ok s" "hw_ok s" "uio_ok u s" "uio_rw u = UIO_WRITE" "uio_resid u = SFS_BLOCKSIZE"
    "uio_offset u = int b * 512" "b < unat (d_blocks s)"
  shows "lhd_io u s = Some (Inr (), uskip 512 u, disk_write b (take 512 (udata u s)) s)"
proof -
  have b: "unat (of_nat b :: 32 word) = b" using assms(7) unat32_less [of "d_blocks s"] by (simp add: unat_of_nat)
  let ?d = "take 512 (udata u s)"
  have "uiomove (lh_buf s) 512 u s = Some (Inr (), ?d, uskip 512 u, s)"
    using uiomove_write [OF assms(3,4), of 512 "lh_buf s"] assms(1,5) by (simp add: disk_ok_def)
  moreover have "lhd_op UIO_WRITE (of_nat b + of_nat 0) (s\<lparr>lh_buf := ?d\<rparr>) = Some (Inr (), disk_write b ?d s)"
    using lhd_irq_ok [of "s\<lparr>lh_buf := ?d\<rparr>"] assms(2) b
    by (simp add: lhd_op_def disk_write_def hw_ok_def)
  ultimately show ?thesis using assms(4) lhd_io_one [OF assms(5-7)] by simp
qed

lemma sfs_rwblock_Inr:
  assumes "lhd_io u s = Some (Inr (), x)"
  shows "sfs_rwblock u s = Some (Inr (), x)"
  using assms by (cases x) (simp add: sfs_rwblock_def eval_nat_numeral)

lemma SFSUIO_ok:
  assumes "unat block < 2 ^ 22 - 1"
  shows "SFSUIO data block rw = Some (mk_kuio data 512 (int (unat block) * 512) rw)"
proof -
  have "0 \<le> uint block" "uint block < 4194303" using assms by (simp_all add: uint_less_numeral)
  moreover from this have "s32 (uint block) = uint block" "cint (uint block * 512) = Some (uint block * 512)"
    by (intro s32_in cint_in; linarith)+
  ultimately show ?thesis by (simp add: SFSUIO_def)
qed

lemma disk_block_bound: "disk_ok s \<Longrightarrow> block < d_blocks s \<Longrightarrow> unat block < 2 ^ 22 - 1"
  by (simp add: disk_ok_def word_less_nat_alt)

lemma sfs_rblock_ok:
  assumes "disk_ok s" "hw_ok s" "block < d_blocks s" "length data = SFS_BLOCKSIZE"
  shows "sfs_rblock data block s = Some (Inr (), sectors s (unat block), disk_read (unat block) s)"
proof -
  let ?u = "mk_kuio data 512 (int (unat block) * 512) UIO_READ"
  note bb = disk_block_bound [OF assms(1,3)]
  have u: "uio_ok ?u s" using bb assms(4) by (intro uio_ok_mk_kuio) (auto simp: uint_less_numeral)
  have "lhd_io ?u s = Some (Inr (), uput (sectors s (unat block)) (?u, disk_read (unat block) s))"
    using assms(1,2,3) u by (intro lhd_io_read) (simp_all add: mk_kuio_def word_less_nat_alt)
  from sfs_rwblock_Inr [OF this] show ?thesis
    using assms(1,4) SFSUIO_ok [OF bb, of data UIO_READ]
    by (simp add: sfs_rblock_def uput_def uskip_def mk_kuio_def sys_def disk_ok_def)
qed

lemma sfs_wblock_ok:
  assumes "disk_ok s" "hw_ok s" "block < d_blocks s" "length data = SFS_BLOCKSIZE"
  shows "sfs_wblock data block s = Some (Inr (), disk_write (unat block) data s)"
proof -
  let ?u = "mk_kuio data 512 (int (unat block) * 512) UIO_WRITE"
  note bb = disk_block_bound [OF assms(1,3)]
  have u: "uio_ok ?u s" using bb assms(4) by (intro uio_ok_mk_kuio) (auto simp: uint_less_numeral)
  have d: "udata ?u s = data" using assms(4) by (simp add: udata_def mk_kuio_def sys_def)
  have "lhd_io ?u s = Some (Inr (), uskip 512 ?u, disk_write (unat block) (take 512 (udata ?u s)) s)"
    using assms(1,2,3) u by (intro lhd_io_write) (simp_all add: mk_kuio_def word_less_nat_alt)
  from sfs_rwblock_Inr [OF this] show ?thesis
    using assms(4) d SFSUIO_ok [OF bb, of data UIO_WRITE] by (simp add: sfs_wblock_def)
qed

section \<open>A disk with errors\<close>

definition media_error :: "'d disk_scheme \<Rightarrow> nat \<Rightarrow> bool" where
  "media_error s k \<longleftrightarrow> hw s (hw_n s + k) AND LHD_STATEMASK = LHD_MEDIA"

lemma lhd_irq_media: "media_error s 0 \<Longrightarrow> lhd_irq (hw s (hw_n s)) = Some (Inl EIO)"
  by (simp add: media_error_def lhd_irq_def lhd_code_to_errno_def)

lemma lhd_io_read_media:
  assumes "media_error s 0" "uio_rw u = UIO_READ" "uio_resid u = SFS_BLOCKSIZE"
    "uio_offset u = int b * 512" "b < unat (d_blocks s)"
  shows "lhd_io u s = Some (Inl EIO, u, s\<lparr>hw_n := Suc (hw_n s)\<rparr>)"
  using lhd_io_one [OF assms(3-5)] lhd_irq_media [OF assms(1)] assms(2) by (simp add: lhd_op_def)

text \<open>A read that fails \<open>k\<close> times and then once succeeds, if the retries suffice.\<close>

lemma sfs_rwblock_n_retries:
  assumes "\<And>i. i < k \<Longrightarrow> media_error s i" "k \<le> n" "uio_rw u = UIO_READ" "uio_resid u = SFS_BLOCKSIZE"
    "uio_offset u = int b * 512" "b < unat (d_blocks s)"
  shows "sfs_rwblock_n n u s = sfs_rwblock_n (n - k) u (s\<lparr>hw_n := hw_n s + k\<rparr>)"
  using assms
proof (induction k arbitrary: n s)
  case (Suc k)
  then obtain m where m: "n = Suc m" by (cases n) auto
  let ?s = "s\<lparr>hw_n := Suc (hw_n s)\<rparr>"
  have "lhd_io u s = Some (Inl EIO, u, ?s)" using Suc.prems by (intro lhd_io_read_media) auto
  then have "sfs_rwblock_n n u s = sfs_rwblock_n m u ?s" by (simp add: m)
  also have "\<dots> = sfs_rwblock_n (m - k) u (?s\<lparr>hw_n := hw_n ?s + k\<rparr>)"
    using Suc.prems(1) [of "Suc _"] Suc.prems(2-6) m by (intro Suc.IH) (auto simp: media_error_def)
  finally show ?case by (simp add: m)
qed simp

text \<open>
  (C29) A read of a block survives up to ten media errors in a row: if one of the first eleven attempts
  succeeds, \<open>sfs_rblock\<close> returns the sector; if all eleven fail it reports \<open>EIO\<close> and leaves the buffer
  alone. The disk is not changed.
\<close>

theorem sfs_rblock_retries:
  assumes "disk_ok s" "block < d_blocks s" "length data = SFS_BLOCKSIZE" "\<forall>i < k. media_error s i"
  shows "(k \<le> 10 \<and> hw s (hw_n s + k) AND LHD_STATEMASK = LHD_OK \<longrightarrow>
      (\<exists>s'. sfs_rblock data block s = Some (Inr (), sectors s (unat block), s') \<and> sectors s' = sectors s)) \<and>
    (k = 11 \<longrightarrow> (\<exists>s'. sfs_rblock data block s = Some (Inl EIO, data, s') \<and> sectors s' = sectors s))"
proof -
  let ?u = "mk_kuio data 512 (int (unat block) * 512) UIO_READ" and ?s = "\<lambda>j. s\<lparr>hw_n := hw_n s + j\<rparr>"
  note bb = disk_block_bound [OF assms(1,2)]
  have b: "unat block < unat (d_blocks s)" using assms(2) by (simp add: word_less_nat_alt)
  have retry: "sfs_rwblock ?u s = sfs_rwblock_n (10 - j) ?u (?s j)" if "j \<le> k" "j \<le> 10" for j
    using assms(4) that b unfolding sfs_rwblock_def by (intro sfs_rwblock_n_retries) (auto simp: mk_kuio_def)
  have uio: "SFSUIO data block UIO_READ = Some ?u" by (rule SFSUIO_ok [OF bb])
  have ok: "\<exists>s'. sfs_rblock data block s = Some (Inr (), sectors s (unat block), s') \<and> sectors s' = sectors s"
    if k: "k \<le> 10" "hw s (hw_n s + k) AND LHD_STATEMASK = LHD_OK"
  proof -
    let ?t = "disk_read (unat block) (?s k)"
    have "lhd_op UIO_READ block (?s k) = Some (Inr (), ?t)"
      using k(2) by (simp add: lhd_op_def lhd_irq_def lhd_code_to_errno_def disk_read_def)
    moreover have "uiomove (sectors s (unat block)) 512 ?u ?t =
        Some (Inr (), sectors s (unat block), uput (sectors s (unat block)) (?u, ?t))"
    proof -
      have "uio_ok ?u ?t" using assms(3) bb by (intro uio_ok_mk_kuio) (auto simp: uint_less_numeral)
      then show ?thesis
        using uiomove_read [of ?u ?t 512 "sectors s (unat block)"] assms(1) by (simp add: disk_ok_def mk_kuio_def)
    qed
    moreover have "lh_buf ?t = sectors s (unat block)" by (simp add: disk_read_def)
    moreover have "lhd_io ?u (?s k) = lhd_loop [0] (of_nat (unat block)) ?u (?s k)"
      using b by (intro lhd_io_one) (simp_all add: mk_kuio_def)
    ultimately have "lhd_io ?u (?s k) = Some (Inr (), uput (sectors s (unat block)) (?u, ?t))"
      by (simp add: mk_kuio_def case_prod_beta)
    then have "sfs_rwblock ?u s = Some (Inr (), uput (sectors s (unat block)) (?u, ?t))"
      using retry [of k] k(1) by (cases "10 - k") (auto simp: case_prod_beta)
    then show ?thesis
      using uio assms(1,3) by (simp add: sfs_rblock_def uput_def uskip_def mk_kuio_def sys_def disk_ok_def)
  qed
  have "\<exists>s'. sfs_rblock data block s = Some (Inl EIO, data, s') \<and> sectors s' = sectors s" if "k = 11"
  proof -
    have "media_error (?s 10) 0" using assms(4) that by (simp add: media_error_def)
    then have "lhd_io ?u (?s 10) = Some (Inl EIO, ?u, (?s 10)\<lparr>hw_n := Suc (hw_n s + 10)\<rparr>)"
      using b lhd_io_read_media [of "?s 10" ?u "unat block"] by (simp add: mk_kuio_def)
    then have "sfs_rwblock ?u s = Some (Inl EIO, ?u, (?s 10)\<lparr>hw_n := Suc (hw_n s + 10)\<rparr>)"
      using retry [of 10] that by simp
    then show ?thesis using uio by (simp add: sfs_rblock_def mk_kuio_def)
  qed
  with ok show ?thesis by blast
qed

text \<open>
  (C28) A write does not survive a media error. The driver takes the data out of the \<open>uio\<close> before it
  starts the operation, so that the retry of \<open>sfs_rwblock\<close> finds nothing left to transfer and
  succeeds at once: \<open>sfs_wblock\<close> reports success although the disk has not changed.
\<close>

theorem sfs_wblock_swallows_error:
  assumes "disk_ok s" "block < d_blocks s" "length data = SFS_BLOCKSIZE" "media_error s 0"
  shows "\<exists>s'. sfs_wblock data block s = Some (Inr (), s') \<and> sectors s' = sectors s"
proof -
  let ?u = "mk_kuio data 512 (int (unat block) * 512) UIO_WRITE"
  let ?t = "s\<lparr>lh_buf := data, hw_n := Suc (hw_n s)\<rparr>"
  note bb = disk_block_bound [OF assms(1,2)]
  have b: "unat block < unat (d_blocks s)" using assms(2) by (simp add: word_less_nat_alt)
  have "uiomove (lh_buf s) 512 ?u s = Some (Inr (), take 512 (udata ?u s) @ drop 512 (lh_buf s), uskip 512 ?u, s)"
    using assms(1,3) bb by (intro uiomove_write uio_ok_mk_kuio) (auto simp: disk_ok_def mk_kuio_def uint_less_numeral)
  also have "take 512 (udata ?u s) @ drop 512 (lh_buf s) = data"
    using assms(1,3) by (simp add: disk_ok_def udata_def mk_kuio_def sys_def)
  finally have "lhd_io ?u s = Some (Inl EIO, uskip 512 ?u, ?t)"
    using lhd_io_one [of ?u "unat block" s] b lhd_irq_media [of "s\<lparr>lh_buf := data\<rparr>"] assms(4)
    by (simp add: mk_kuio_def lhd_op_def media_error_def)
  moreover have "lhd_io (uskip 512 ?u) ?t = Some (Inr (), uskip 512 ?u, ?t)"
  proof -
    have off: "uio_offset (uskip 512 ?u) = (uint block + 1) * 512" "uio_resid (uskip 512 ?u) = 0"
      by (simp_all add: mk_kuio_def)
    then have "uio_offset (uskip 512 ?u) sdiv 512 = uint block + 1" "uio_offset (uskip 512 ?u) smod 512 = 0"
      by (simp_all add: sdiv_eq_div smod_eq_mod)
    moreover have "\<not> d_blocks s < word_of_int (uint block + 1)"
      using b bb by (simp add: word_less_nat_alt unat_word_ariths)
    ultimately show ?thesis using off(2) by (simp add: lhd_io_def)
  qed
  ultimately have "sfs_rwblock ?u s = Some (Inr (), uskip 512 ?u, ?t)"
    by (simp add: sfs_rwblock_def eval_nat_numeral)
  then show ?thesis using SFSUIO_ok [OF bb, of data UIO_WRITE] by (simp add: sfs_wblock_def)
qed

definition disk_example :: "(nat \<Rightarrow> 32 word) \<Rightarrow> disk" where
  "disk_example h = \<lparr>cur_space = None, umem = (\<lambda>_. None), sectors = (\<lambda>_. replicate 512 0), d_blocks = 8,
     d_blocksize = 512, lh_buf = replicate 512 0, hw = h, hw_n = 0\<rparr>"

lemma disk_example_ok: "disk_ok (disk_example h)"
  by (simp add: disk_ok_def disk_example_def)

theorem sfs_rblock_retries_witness:
  "\<exists>s'. sfs_rblock (replicate 512 7) 3 (disk_example (\<lambda>n. if n < 2 then LHD_MEDIA else LHD_OK)) =
    Some (Inr (), replicate 512 0, s')"
  using sfs_rblock_retries [OF disk_example_ok, of 3 "\<lambda>n. if n < 2 then LHD_MEDIA else LHD_OK" "replicate 512 7" 2]
  by (auto simp: disk_example_def media_error_def)

theorem sfs_wblock_swallows_error_witness:
  "\<exists>s'. sfs_wblock (replicate 512 7) 3 (disk_example (\<lambda>n. LHD_MEDIA)) = Some (Inr (), s') \<and>
    sectors s' 3 = replicate 512 0"
  using sfs_wblock_swallows_error [OF disk_example_ok, of 3 "\<lambda>n. LHD_MEDIA" "replicate 512 7"]
  by (auto simp: disk_example_def media_error_def)

end
