(* ===== verification/Kern_Sfs.thy ===== *)
theory Kern_Sfs
  imports Kern_SfsFormat Kern_Disk Kern_Bitmap Kern_Array
begin

text \<open>
  The SFS file system (\<^verbatim>\<open>kern/fs/sfs\<close>): space allocation, the block map of a file, file I/O,
  directories, the vnode operations and the operations of the file system as a whole.

  A vnode structure is an entry of the memory \<open>svs\<close>, known by its address; \<open>sfs_vnodes\<close> is the table of
  those that are loaded. The outcome of an allocation is taken from \<open>fs_mem\<close>. The static I/O buffers of
  the source are written before they are read in every call, so they are local here. A file name is the
  list of its bytes without the final zero. The reference count of a vnode is changed under
  \<open>vn_countlock\<close>, which is not modelled: an operation is one step.
\<close>

section \<open>State\<close>

record sfs_vnode =
  vn_refcount :: int
  vn_opencount :: int
  vn_isdir :: bool
  sv_i :: sfs_inode
  sv_ino :: "32 word"
  sv_dirty :: bool

record sfs_fs = disk +
  sfs_super :: sfs_super
  sfs_superdirty :: bool
  sfs_vnodes :: "nat karray"
  sfs_freemap :: bitmap
  sfs_freemapdirty :: bool
  svs :: "nat \<Rightarrow> sfs_vnode option"
  fs_mem :: "nat \<Rightarrow> nat fresh"
  fs_nalloc :: nat
  fs_next :: nat

definition upd_sv :: "nat \<Rightarrow> (sfs_vnode \<Rightarrow> sfs_vnode) \<Rightarrow> sfs_fs \<Rightarrow> sfs_fs option" where
  "upd_sv v f s = do { sv \<leftarrow> svs s v; Some (s\<lparr>svs := (svs s)(v \<mapsto> f sv)\<rparr>) }"

definition fs_ask :: "sfs_fs \<Rightarrow> nat fresh \<times> sfs_fs" where
  "fs_ask s = (fs_mem s (fs_nalloc s), s\<lparr>fs_nalloc := Suc (fs_nalloc s)\<rparr>)"

section \<open>Simple operations\<close>

definition sfs_clearblock :: "32 word \<Rightarrow> sfs_fs \<Rightarrow> ((errno + unit) \<times> sfs_fs) option" where
  "sfs_clearblock block s = sfs_wblock (replicate SFS_BLOCKSIZE 0) block s"

definition sfs_sync_inode :: "nat \<Rightarrow> sfs_fs \<Rightarrow> ((errno + unit) \<times> sfs_fs) option" where
  "sfs_sync_inode v s = do {
     sv \<leftarrow> svs s v;
     if sv_dirty sv then
       on_ok (sfs_wblock (inode_bytes (sv_i sv)) (sv_ino sv) s) (\<lambda>_ s. do {
         s \<leftarrow> upd_sv v (\<lambda>sv. sv\<lparr>sv_dirty := False\<rparr>) s;
         Some (Inr (), s) }) id
     else Some (Inr (), s) }"

section \<open>Space allocation\<close>

definition sfs_balloc :: "sfs_fs \<Rightarrow> ((errno + 32 word) \<times> sfs_fs) option" where
  "sfs_balloc s = do {
     (r, fm) \<leftarrow> bitmap_alloc (sfs_freemap s);
     let s = s\<lparr>sfs_freemap := fm\<rparr>;
     (case r of
        Inl e \<Rightarrow> Some (Inl e, s)
      | Inr diskblock \<Rightarrow> do {
          let s = s\<lparr>sfs_freemapdirty := True\<rparr>;
          kassert (diskblock < sp_nblocks (sfs_super s));
          on_ok (sfs_clearblock diskblock s) (\<lambda>_ s. Some (Inr diskblock, s)) id }) }"

definition sfs_bfree :: "32 word \<Rightarrow> sfs_fs \<Rightarrow> sfs_fs option" where
  "sfs_bfree diskblock s = do {
     fm \<leftarrow> bitmap_unmark (sfs_freemap s) diskblock;
     Some (s\<lparr>sfs_freemap := fm, sfs_freemapdirty := True\<rparr>) }"

definition sfs_bused :: "32 word \<Rightarrow> sfs_fs \<Rightarrow> int option" where
  "sfs_bused diskblock s = do {
     kassert (diskblock < sp_nblocks (sfs_super s));
     bitmap_isset (sfs_freemap s) diskblock }"

section \<open>The block map\<close>

text \<open>The end of \<open>sfs_bmap\<close>: a block that is handed back must be marked in use.\<close>

definition bmap_hand_back :: "32 word \<Rightarrow> sfs_fs \<Rightarrow> ((errno + 32 word) \<times> sfs_fs) option" where
  "bmap_hand_back block s =
     (if block \<noteq> 0 then do { r \<leftarrow> sfs_bused block s; kassert (r \<noteq> 0); Some (Inr block, s) }
      else Some (Inr block, s))"

definition bmap_direct :: "nat \<Rightarrow> nat \<Rightarrow> bool \<Rightarrow> sfs_fs \<Rightarrow> ((errno + 32 word) \<times> sfs_fs) option" where
  "bmap_direct v fileblock doalloc s = do {
     sv \<leftarrow> svs s v;
     block \<leftarrow> rd (sfi_direct (sv_i sv)) (int fileblock);
     if block = 0 \<and> doalloc then
       on_ok (sfs_balloc s) (\<lambda>block s. do {
         s \<leftarrow> upd_sv v (\<lambda>sv. sv\<lparr>sv_i := (sv_i sv)\<lparr>sfi_direct := (sfi_direct (sv_i sv))[fileblock := block]\<rparr>,
                sv_dirty := True\<rparr>) s;
         bmap_hand_back block s }) id
     else bmap_hand_back block s }"

text \<open>The number of the indirect block and its contents, with a new block if there is none.\<close>

definition bmap_idblock :: "nat \<Rightarrow> sfs_fs \<Rightarrow> ((errno + 32 word \<times> 8 word list) \<times> sfs_fs) option" where
  "bmap_idblock v s = do {
     sv \<leftarrow> svs s v;
     let idblock = sfi_indirect (sv_i sv);
     if idblock = 0 then
       on_ok (sfs_balloc s) (\<lambda>idblock s. do {
         s \<leftarrow> upd_sv v (\<lambda>sv. sv\<lparr>sv_i := (sv_i sv)\<lparr>sfi_indirect := idblock\<rparr>, sv_dirty := True\<rparr>) s;
         Some (Inr (idblock, replicate SFS_BLOCKSIZE 0), s) }) id
     else
       on_ok (sfs_rblock (replicate SFS_BLOCKSIZE 0) idblock s) (\<lambda>_ (idbuf, s). Some (Inr (idblock, idbuf), s)) snd }"

definition bmap_indirect :: "nat \<Rightarrow> nat \<Rightarrow> bool \<Rightarrow> sfs_fs \<Rightarrow> ((errno + 32 word) \<times> sfs_fs) option" where
  "bmap_indirect v idoff doalloc s = do {
     sv \<leftarrow> svs s v;
     if sfi_indirect (sv_i sv) = 0 \<and> \<not> doalloc then Some (Inr 0, s)
     else on_ok (bmap_idblock v s) (\<lambda>(idblock, idbuf) s.
       let block = word_at idbuf idoff in
       if block = 0 \<and> doalloc then
         on_ok (sfs_balloc s) (\<lambda>block s.
           on_ok (sfs_wblock (set_word idbuf idoff block) idblock s) (\<lambda>_ s. bmap_hand_back block s) id) id
       else bmap_hand_back block s) id }"

definition sfs_bmap :: "nat \<Rightarrow> 32 word \<Rightarrow> bool \<Rightarrow> sfs_fs \<Rightarrow> ((errno + 32 word) \<times> sfs_fs) option" where
  "sfs_bmap v fileblock doalloc s =
     (if fileblock < of_nat SFS_NDIRECT then bmap_direct v (unat fileblock) doalloc s
      else
        (let fileblock = fileblock - of_nat SFS_NDIRECT;
             idnum = fileblock div of_nat SFS_DBPERIDB;
             idoff = fileblock mod of_nat SFS_DBPERIDB
         in if 0 < idnum then Some (Inl EINVAL, s)
            else bmap_indirect v (unat idoff) doalloc s))"

section \<open>File I/O\<close>

definition sfs_partialio :: "nat \<Rightarrow> uio \<Rightarrow> nat \<Rightarrow> nat \<Rightarrow> sfs_fs \<Rightarrow> ((errno + unit) \<times> uio \<times> sfs_fs) option" where
  "sfs_partialio v u skipstart len s = do {
     let doalloc = (uio_rw u = UIO_WRITE);
     kassert (skipstart + len \<le> SFS_BLOCKSIZE);
     let fileblock = word_of_int (uio_offset u sdiv int SFS_BLOCKSIZE);
     on_ok (sfs_bmap v fileblock doalloc s) (\<lambda>diskblock s.
       on_ok (if diskblock = 0 then do {
                kassert (uio_rw u = UIO_READ);
                Some (Inr (), replicate SFS_BLOCKSIZE 0, s) }
              else sfs_rblock (replicate SFS_BLOCKSIZE 0) diskblock s) (\<lambda>_ (iobuf, s).
         on_ok (uiomove (drop skipstart iobuf) len u s) (\<lambda>_ (b, u, s).
           if uio_rw u = UIO_WRITE then
             on_ok (sfs_wblock (take skipstart iobuf @ b) diskblock s) (\<lambda>_ s. Some (Inr (), u, s)) (Pair u)
           else Some (Inr (), u, s)) snd) (\<lambda>(iobuf, s). (u, s))) (Pair u) }"

definition sfs_blockio :: "nat \<Rightarrow> uio \<Rightarrow> sfs_fs \<Rightarrow> ((errno + unit) \<times> uio \<times> sfs_fs) option" where
  "sfs_blockio v u s = do {
     let doalloc = (uio_rw u = UIO_WRITE);
     let fileblock = word_of_int (uio_offset u sdiv int SFS_BLOCKSIZE);
     on_ok (sfs_bmap v fileblock doalloc s) (\<lambda>diskblock s.
       if diskblock = 0 then do {
         kassert (uio_rw u = UIO_READ);
         uiomovezeros SFS_BLOCKSIZE u s }
       else do {
         let saveoff = uio_offset u;
         let diskoff = s32 (uint (diskblock * of_nat SFS_BLOCKSIZE));
         kassert (SFS_BLOCKSIZE \<le> uio_resid u);
         let saveres = uio_resid u;
         (r, u, s) \<leftarrow> sfs_rwblock (u\<lparr>uio_offset := diskoff, uio_resid := SFS_BLOCKSIZE\<rparr>) s;
         Some (r, u\<lparr>uio_offset := s32 ((uio_offset u - diskoff) + saveoff),
                    uio_resid := nat ((int (uio_resid u) - int SFS_BLOCKSIZE + int saveres) mod 2 ^ 32)\<rparr>, s) }) (Pair u) }"

primrec sfs_blocks :: "nat \<Rightarrow> nat \<Rightarrow> uio \<Rightarrow> sfs_fs \<Rightarrow> ((errno + unit) \<times> uio \<times> sfs_fs) option" where
  "sfs_blocks 0 v u s = Some (Inr (), u, s)"
| "sfs_blocks (Suc n) v u s = on_ok (sfs_blockio v u s) (\<lambda>_ (u, s). sfs_blocks n v u s) id"

text \<open>The whole blocks of a transfer and the partial block at its end.\<close>

definition sfs_io_aligned :: "nat \<Rightarrow> uio \<Rightarrow> sfs_fs \<Rightarrow> ((errno + unit) \<times> uio \<times> sfs_fs) option" where
  "sfs_io_aligned v u s =
     (if uio_resid u = 0 then Some (Inr (), u, s)
      else do {
        kassert (uio_offset u smod int SFS_BLOCKSIZE = 0);
        on_ok (sfs_blocks (uio_resid u div SFS_BLOCKSIZE) v u s) (\<lambda>_ (u, s). do {
          kassert (uio_resid u < SFS_BLOCKSIZE);
          if 0 < uio_resid u then sfs_partialio v u 0 (uio_resid u) s else Some (Inr (), u, s) }) id })"

text \<open>\<open>sfs_io\<close> between the check for the end of the file and the label \<open>out\<close>.\<close>

definition sfs_io_body :: "nat \<Rightarrow> uio \<Rightarrow> sfs_fs \<Rightarrow> ((errno + unit) \<times> uio \<times> sfs_fs) option" where
  "sfs_io_body v u s =
     (let blkoff = nat ((uio_offset u smod int SFS_BLOCKSIZE) mod 2 ^ 32) in
      on_ok (if blkoff \<noteq> 0 then sfs_partialio v u blkoff (min (usub SFS_BLOCKSIZE blkoff) (uio_resid u)) s
             else Some (Inr (), u, s)) (\<lambda>_ (u, s). sfs_io_aligned v u s) id)"

definition sfs_io :: "nat \<Rightarrow> uio \<Rightarrow> sfs_fs \<Rightarrow> ((errno + unit) \<times> uio \<times> sfs_fs) option" where
  "sfs_io v u s = do {
     sv \<leftarrow> svs s v;
     let sz = s32 (uint (sfi_size (sv_i sv)));
     let endpos = s32 (uio_offset u + int (uio_resid u));
     if uio_rw u = UIO_READ \<and> sz \<le> uio_offset u then Some (Inr (), u, s)
     else do {
       let cut = (uio_rw u = UIO_READ \<and> sz < endpos);
       let extraresid = (if cut then nat ((endpos - sz) mod 2 ^ 32) else 0);
       kassert (cut \<longrightarrow> extraresid < uio_resid u);
       (r, u, s) \<leftarrow> sfs_io_body v (u\<lparr>uio_resid := uio_resid u - extraresid\<rparr>) s;
       sv \<leftarrow> svs s v;
       s \<leftarrow> (if uio_rw u = UIO_WRITE \<and> s32 (uint (sfi_size (sv_i sv))) < uio_offset u
            then upd_sv v (\<lambda>sv. sv\<lparr>sv_i := (sv_i sv)\<lparr>sfi_size := word_of_int (uio_offset u)\<rparr>, sv_dirty := True\<rparr>) s
            else Some s);
       Some (r, u\<lparr>uio_resid := (uio_resid u + extraresid) mod 2 ^ 32\<rparr>, s) } }"

section \<open>Directories\<close>

text \<open>The string in a buffer, up to its first zero.\<close>

definition cstr :: "8 word list \<Rightarrow> 8 word list" where
  "cstr bs = takeWhile (\<lambda>b. b \<noteq> 0) bs"

definition sfs_readdir :: "nat \<Rightarrow> int \<Rightarrow> sfs_fs \<Rightarrow> ((errno + sfs_dir) \<times> sfs_fs) option" where
  "sfs_readdir v slot s = do {
     let actualpos = s32 (slot * 64);
     (r, ku, s) \<leftarrow> sfs_io v (mk_kuio (replicate 64 0) 64 actualpos UIO_READ) s;
     (case r of
        Inl e \<Rightarrow> Some (Inl e, s)
      | Inr _ \<Rightarrow> do {
          kassert (uio_resid ku = 0);
          Some (Inr (dir_of (iov_done ku @ iov_rest ku)), s) }) }"

definition sfs_writedir :: "nat \<Rightarrow> sfs_dir \<Rightarrow> int \<Rightarrow> sfs_fs \<Rightarrow> ((errno + unit) \<times> sfs_fs) option" where
  "sfs_writedir v sd slot s = do {
     kassert (0 \<le> slot);
     let actualpos = s32 (slot * 64);
     (r, ku, s) \<leftarrow> sfs_io v (mk_kuio (dir_bytes sd) 64 actualpos UIO_WRITE) s;
     (case r of
        Inl e \<Rightarrow> Some (Inl e, s)
      | Inr _ \<Rightarrow> do {
          kassert (uio_resid ku = 0);
          Some (Inr (), s) }) }"

definition sfs_dir_nentries :: "nat \<Rightarrow> sfs_fs \<Rightarrow> int option" where
  "sfs_dir_nentries v s = do {
     sv \<leftarrow> svs s v;
     kassert (sfi_type (sv_i sv) = SFS_TYPE_DIR);
     let sz = uint (sfi_size (sv_i sv));
     kassert (sz mod 64 = 0);
     Some (sz div 64) }"

text \<open>
  The loop of \<open>sfs_dir_findname\<close>, with what was found so far (the inode number and the slot) and the
  last free slot.
\<close>

primrec findname_from ::
    "nat list \<Rightarrow> nat \<Rightarrow> 8 word list \<Rightarrow> (32 word \<times> int) option \<Rightarrow> int option \<Rightarrow> sfs_fs \<Rightarrow>
      ((errno + (32 word \<times> int) option) \<times> int option \<times> sfs_fs) option" where
  "findname_from [] v name found emptyslot s = Some (Inr found, emptyslot, s)"
| "findname_from (i # is) v name found emptyslot s =
     on_ok (sfs_readdir v (int i) s) (\<lambda>tsd s.
       if sfd_ino tsd = SFS_NOINO then findname_from is v name found (Some (int i)) s
       else if cstr ((sfd_name tsd)[SFS_NAMELEN - 1 := 0]) = name then do {
         kassert (found = None);
         findname_from is v name (Some (sfd_ino tsd, int i)) emptyslot s }
       else findname_from is v name found emptyslot s) (Pair emptyslot)"

definition sfs_dir_findname ::
    "nat \<Rightarrow> 8 word list \<Rightarrow> sfs_fs \<Rightarrow> ((errno + 32 word \<times> int) \<times> int option \<times> sfs_fs) option" where
  "sfs_dir_findname v name s = do {
     nentries \<leftarrow> sfs_dir_nentries v s;
     on_ok (findname_from [0..<nat nentries] v name None None s) (\<lambda>found (emptyslot, s).
       Some (case found of Some f \<Rightarrow> Inr f | None \<Rightarrow> Inl ENOENT, emptyslot, s)) id }"

definition sfs_dir_link :: "nat \<Rightarrow> 8 word list \<Rightarrow> 32 word \<Rightarrow> sfs_fs \<Rightarrow> ((errno + int) \<times> sfs_fs) option" where
  "sfs_dir_link v name ino s = do {
     (r, emptyslot, s) \<leftarrow> sfs_dir_findname v name s;
     (case r of
        Inr _ \<Rightarrow> Some (Inl EEXIST, s)
      | Inl e \<Rightarrow>
          if e \<noteq> ENOENT then Some (Inl e, s)
          else if SFS_NAMELEN < length name + 1 then Some (Inl ENAMETOOLONG, s)
          else do {
            slot \<leftarrow> (case emptyslot of Some i \<Rightarrow> Some i | None \<Rightarrow> sfs_dir_nentries v s);
            let sd = \<lparr>sfd_ino = ino, sfd_name = name @ replicate (SFS_NAMELEN - length name) 0\<rparr>;
            on_ok (sfs_writedir v sd slot s) (\<lambda>_ s. Some (Inr slot, s)) id }) }"

definition sfs_dir_unlink :: "nat \<Rightarrow> int \<Rightarrow> sfs_fs \<Rightarrow> ((errno + unit) \<times> sfs_fs) option" where
  "sfs_dir_unlink v slot s = sfs_writedir v \<lparr>sfd_ino = SFS_NOINO, sfd_name = replicate SFS_NAMELEN 0\<rparr> slot s"

section \<open>Loading vnodes\<close>

primrec loadvnode_find :: "nat list \<Rightarrow> 32 word \<Rightarrow> sfs_fs \<Rightarrow> nat option option" where
  "loadvnode_find [] ino s = Some None"
| "loadvnode_find (i # is) ino s = do {
     v \<leftarrow> array_getguy (sfs_vnodes s) (int i);
     sv \<leftarrow> svs s v;
     r \<leftarrow> sfs_bused (sv_ino sv) s;
     kassert (r \<noteq> 0);
     if sv_ino sv = ino then Some (Some v) else loadvnode_find is ino s }"

definition sv_incref :: "nat \<Rightarrow> sfs_fs \<Rightarrow> sfs_fs option" where
  "sv_incref v s = do {
     sv \<leftarrow> svs s v;
     n \<leftarrow> cint (vn_refcount sv + 1);
     upd_sv v (\<lambda>sv. sv\<lparr>vn_refcount := n\<rparr>) s }"

text \<open>\<open>vnode_init\<close> for a structure with the given fields: its lock takes two allocations.\<close>

definition sv_init :: "sfs_inode \<Rightarrow> 32 word \<Rightarrow> bool \<Rightarrow> sfs_fs \<Rightarrow> (errno + sfs_vnode) \<times> sfs_fs" where
  "sv_init i ino dirty s =
     (let (a, s) = fs_ask s in
      if a = None then (Inl ENOMEM, s)
      else let (b, s) = fs_ask s in
        if b = None then (Inl ENOMEM, s)
        else (Inr \<lparr>vn_refcount = 1, vn_opencount = 0, vn_isdir = (sfi_type i = SFS_TYPE_DIR), sv_i = i,
                   sv_ino = ino, sv_dirty = dirty\<rparr>, s))"

text \<open>The end of \<open>sfs_loadvnode\<close>, with the inode in memory.\<close>

definition loadvnode_add :: "sfs_inode \<Rightarrow> 32 word \<Rightarrow> bool \<Rightarrow> sfs_fs \<Rightarrow> ((errno + nat) \<times> sfs_fs) option" where
  "loadvnode_add i ino dirty s = do {
     kassert (sfi_type i = SFS_TYPE_FILE \<or> sfi_type i = SFS_TYPE_DIR);
     let (r, s) = sv_init i ino dirty s;
     (case r of
        Inl e \<Rightarrow> Some (Inl e, s)
      | Inr sv \<Rightarrow> do {
          let (a, s) = fs_ask s;
          let v = fs_next s;
          (r, t) \<leftarrow> array_add a (sfs_vnodes s) v;
          (case r of
             Inl e \<Rightarrow> Some (Inl e, s\<lparr>sfs_vnodes := t\<rparr>)
           | Inr _ \<Rightarrow> Some (Inr v, s\<lparr>sfs_vnodes := t, svs := (svs s)(v \<mapsto> sv), fs_next := Suc v\<rparr>)) }) }"

definition sfs_loadvnode :: "32 word \<Rightarrow> 16 word \<Rightarrow> sfs_fs \<Rightarrow> ((errno + nat) \<times> sfs_fs) option" where
  "sfs_loadvnode ino forcetype s = do {
     found \<leftarrow> loadvnode_find [0..<nat (array_getnum (sfs_vnodes s))] ino s;
     (case found of
        Some v \<Rightarrow> do {
          kassert (forcetype = SFS_TYPE_INVAL);
          s \<leftarrow> sv_incref v s;
          Some (Inr v, s) }
      | None \<Rightarrow> do {
          let (a, s) = fs_ask s;
          if a = None then Some (Inl ENOMEM, s)
          else do {
            used \<leftarrow> sfs_bused ino s;
            kassert (used \<noteq> 0);
            on_ok (sfs_rblock (replicate SFS_BLOCKSIZE 0) ino s) (\<lambda>_ (buf, s). do {
              let i = inode_of buf;
              kassert (forcetype \<noteq> SFS_TYPE_INVAL \<longrightarrow> sfi_type i = SFS_TYPE_INVAL);
              loadvnode_add (if forcetype \<noteq> SFS_TYPE_INVAL then i\<lparr>sfi_type := forcetype\<rparr> else i) ino
                (forcetype \<noteq> SFS_TYPE_INVAL) s }) snd } }) }"

definition sfs_lookonce :: "nat \<Rightarrow> 8 word list \<Rightarrow> sfs_fs \<Rightarrow> ((errno + nat \<times> int) \<times> sfs_fs) option" where
  "sfs_lookonce v name s =
     on_ok (sfs_dir_findname v name s) (\<lambda>(ino, slot) (emptyslot, s).
       on_ok (sfs_loadvnode ino SFS_TYPE_INVAL s) (\<lambda>g s. do {
         sv \<leftarrow> svs s g;
         kassert (sfi_linkcount (sv_i sv) \<noteq> 0);
         Some (Inr (g, slot), s) }) id) snd"

definition sfs_makeobj :: "16 word \<Rightarrow> sfs_fs \<Rightarrow> ((errno + nat) \<times> sfs_fs) option" where
  "sfs_makeobj type s = on_ok (sfs_balloc s) (\<lambda>ino s. sfs_loadvnode ino type s) id"

definition sfs_getroot :: "sfs_fs \<Rightarrow> (nat \<times> sfs_fs) option" where
  "sfs_getroot s = do {
     (r, s) \<leftarrow> sfs_loadvnode SFS_ROOT_LOCATION SFS_TYPE_INVAL s;
     (case r of Inl e \<Rightarrow> None | Inr v \<Rightarrow> Some (v, s)) }"

section \<open>Truncation\<close>

primrec trunc_direct :: "nat list \<Rightarrow> nat \<Rightarrow> nat \<Rightarrow> sfs_fs \<Rightarrow> sfs_fs option" where
  "trunc_direct [] blocklen v s = Some s"
| "trunc_direct (i # is) blocklen v s = do {
     sv \<leftarrow> svs s v;
     block \<leftarrow> rd (sfi_direct (sv_i sv)) (int i);
     if blocklen \<le> i \<and> block \<noteq> 0 then do {
       s \<leftarrow> sfs_bfree block s;
       s \<leftarrow> upd_sv v (\<lambda>sv. sv\<lparr>sv_i := (sv_i sv)\<lparr>sfi_direct := (sfi_direct (sv_i sv))[i := 0]\<rparr>,
              sv_dirty := True\<rparr>) s;
       trunc_direct is blocklen v s }
     else trunc_direct is blocklen v s }"

primrec trunc_indirect ::
    "nat list \<Rightarrow> nat \<Rightarrow> 8 word list \<Rightarrow> bool \<Rightarrow> bool \<Rightarrow> sfs_fs \<Rightarrow> (8 word list \<times> bool \<times> bool \<times> sfs_fs) option" where
  "trunc_indirect [] blocklen idbuf hasnonzero iddirty s = Some (idbuf, hasnonzero, iddirty, s)"
| "trunc_indirect (j # js) blocklen idbuf hasnonzero iddirty s =
     (if blocklen < SFS_NDIRECT + j \<and> word_at idbuf j \<noteq> 0 then do {
        s \<leftarrow> sfs_bfree (word_at idbuf j) s;
        trunc_indirect js blocklen (set_word idbuf j 0) hasnonzero True s }
      else trunc_indirect js blocklen idbuf (hasnonzero \<or> word_at idbuf j \<noteq> 0) iddirty s)"

text \<open>The branch of \<open>sfs_truncate\<close> for a file with an indirect block.\<close>

definition trunc_idblock :: "nat \<Rightarrow> nat \<Rightarrow> 32 word \<Rightarrow> sfs_fs \<Rightarrow> ((errno + unit) \<times> sfs_fs) option" where
  "trunc_idblock v blocklen idblock s =
     on_ok (sfs_rblock (replicate SFS_BLOCKSIZE 0) idblock s) (\<lambda>_ (idbuf, s). do {
       (idbuf, hasnonzero, iddirty, s) \<leftarrow> trunc_indirect [0..<SFS_DBPERIDB] blocklen idbuf False False s;
       if \<not> hasnonzero then do {
         s \<leftarrow> sfs_bfree idblock s;
         s \<leftarrow> upd_sv v (\<lambda>sv. sv\<lparr>sv_i := (sv_i sv)\<lparr>sfi_indirect := 0\<rparr>, sv_dirty := True\<rparr>) s;
         Some (Inr (), s) }
       else if iddirty then sfs_wblock idbuf idblock s
       else Some (Inr (), s) }) snd"

definition sfs_truncate :: "nat \<Rightarrow> int \<Rightarrow> sfs_fs \<Rightarrow> ((errno + unit) \<times> sfs_fs) option" where
  "sfs_truncate v len s = do {
     l \<leftarrow> cint (len + int SFS_BLOCKSIZE);
     let blocklen = nat (((l - 1) sdiv int SFS_BLOCKSIZE) mod 2 ^ 32);
     s \<leftarrow> trunc_direct [0..<SFS_NDIRECT] blocklen v s;
     sv \<leftarrow> svs s v;
     let idblock = sfi_indirect (sv_i sv);
     let highblock = SFS_NDIRECT + SFS_DBPERIDB - 1;
     on_ok (if blocklen < highblock \<and> idblock \<noteq> 0 then trunc_idblock v blocklen idblock s
            else Some (Inr (), s)) (\<lambda>_ s. do {
       s \<leftarrow> upd_sv v (\<lambda>sv. sv\<lparr>sv_i := (sv_i sv)\<lparr>sfi_size := word_of_int len\<rparr>, sv_dirty := True\<rparr>) s;
       Some (Inr (), s) }) id }"

end
