(* ===== verification/Kern_SfsOps.thy ===== *)
theory Kern_SfsOps
  imports Kern_Sfs
begin

text \<open>
  The vnode operations of SFS with their two dispatch tables, and the operations on a whole file system:
  mounting, syncing and unmounting.
\<close>

section \<open>Reference counts\<close>

text \<open>The checks in front of every operation that goes through the table of a vnode.\<close>

definition vnode_check :: "nat \<Rightarrow> bool \<Rightarrow> sfs_fs \<Rightarrow> unit option" where
  "vnode_check v reclaim s = do {
     sv \<leftarrow> svs s v;
     kassert (0 \<le> vn_refcount sv);
     kassert (vn_refcount sv \<noteq> 0 \<or> reclaim);
     kassert (0 \<le> vn_opencount sv) }"

definition vop_truncate :: "nat \<Rightarrow> int \<Rightarrow> sfs_fs \<Rightarrow> ((errno + unit) \<times> sfs_fs) option" where
  "vop_truncate v len s = do {
     vnode_check v False s;
     sv \<leftarrow> svs s v;
     if vn_isdir sv then Some (Inl EISDIR, s) else sfs_truncate v len s }"

text \<open>\<open>vnode_kill\<close> and the release of the structure.\<close>

definition sv_kill :: "nat \<Rightarrow> sfs_fs \<Rightarrow> sfs_fs option" where
  "sv_kill v s = do {
     sv \<leftarrow> svs s v;
     kassert (vn_refcount sv = 1);
     kassert (vn_opencount sv = 0);
     Some (s\<lparr>svs := (svs s)(v := None)\<rparr>) }"

definition sfs_reclaim :: "nat \<Rightarrow> sfs_fs \<Rightarrow> ((errno + unit) \<times> sfs_fs) option" where
  "sfs_reclaim v s = do {
     sv \<leftarrow> svs s v;
     if vn_refcount sv \<noteq> 1 then do {
       kassert (1 < vn_refcount sv);
       s \<leftarrow> upd_sv v (\<lambda>sv. sv\<lparr>vn_refcount := vn_refcount sv - 1\<rparr>) s;
       Some (Inl EBUSY, s) }
     else
       on_ok (if sfi_linkcount (sv_i sv) = 0 then vop_truncate v 0 s else Some (Inr (), s)) (\<lambda>_ s.
         on_ok (sfs_sync_inode v s) (\<lambda>_ s. do {
           sv \<leftarrow> svs s v;
           s \<leftarrow> (if sfi_linkcount (sv_i sv) = 0 then sfs_bfree (sv_ino sv) s else Some s);
           ix \<leftarrow> array_scan (array_getguy (sfs_vnodes s)) (\<lambda>sv2. sv2 = v) 0 (nat (array_getnum (sfs_vnodes s)));
           (case ix of
              None \<Rightarrow> None
            | Some i \<Rightarrow> do {
                t \<leftarrow> array_remove (sfs_vnodes s) (int i);
                s \<leftarrow> sv_kill v (s\<lparr>sfs_vnodes := t\<rparr>);
                Some (Inr (), s) }) }) id) id }"

definition sv_decref :: "nat \<Rightarrow> sfs_fs \<Rightarrow> sfs_fs option" where
  "sv_decref v s = do {
     sv \<leftarrow> svs s v;
     kassert (0 < vn_refcount sv);
     if 1 < vn_refcount sv then upd_sv v (\<lambda>sv. sv\<lparr>vn_refcount := vn_refcount sv - 1\<rparr>) s
     else do {
       vnode_check v True s;
       (r, s) \<leftarrow> sfs_reclaim v s;
       Some s } }"

section \<open>Operations of files\<close>

abbreviation (input) O_APPEND :: "32 word" where "O_APPEND \<equiv> 32"
abbreviation (input) O_ACCMODE :: "32 word" where "O_ACCMODE \<equiv> 3"
abbreviation (input) O_RDONLY :: "32 word" where "O_RDONLY \<equiv> 0"
abbreviation (input) S_IFREG :: "32 word" where "S_IFREG \<equiv> 0x1000"
abbreviation (input) S_IFDIR :: "32 word" where "S_IFDIR \<equiv> 0x2000"

definition sfs_open :: "32 word \<Rightarrow> errno + unit" where
  "sfs_open openflags = (if openflags AND O_APPEND \<noteq> 0 then Inl EUNIMP else Inr ())"

definition sfs_opendir :: "32 word \<Rightarrow> errno + unit" where
  "sfs_opendir openflags =
     (if openflags AND O_ACCMODE \<noteq> O_RDONLY then Inl EISDIR
      else if openflags AND O_APPEND \<noteq> 0 then Inl EISDIR
      else Inr ())"

definition sfs_fsync :: "nat \<Rightarrow> sfs_fs \<Rightarrow> ((errno + unit) \<times> sfs_fs) option" where
  "sfs_fsync v s = sfs_sync_inode v s"

definition vop_fsync :: "nat \<Rightarrow> sfs_fs \<Rightarrow> ((errno + unit) \<times> sfs_fs) option" where
  "vop_fsync v s = do { vnode_check v False s; sfs_fsync v s }"

definition sfs_close :: "nat \<Rightarrow> sfs_fs \<Rightarrow> ((errno + unit) \<times> sfs_fs) option" where
  "sfs_close v s = vop_fsync v s"

definition sfs_read :: "nat \<Rightarrow> uio \<Rightarrow> sfs_fs \<Rightarrow> ((errno + unit) \<times> uio \<times> sfs_fs) option" where
  "sfs_read v u s = do { kassert (uio_rw u = UIO_READ); sfs_io v u s }"

definition sfs_write :: "nat \<Rightarrow> uio \<Rightarrow> sfs_fs \<Rightarrow> ((errno + unit) \<times> uio \<times> sfs_fs) option" where
  "sfs_write v u s = do { kassert (uio_rw u = UIO_WRITE); sfs_io v u s }"

definition sfs_ioctl :: "nat \<Rightarrow> int \<Rightarrow> sfs_fs \<Rightarrow> errno + unit" where
  "sfs_ioctl v code s = Inl EINVAL"

definition sfs_gettype :: "nat \<Rightarrow> sfs_fs \<Rightarrow> (errno + 32 word) option" where
  "sfs_gettype v s = do {
     sv \<leftarrow> svs s v;
     if sfi_type (sv_i sv) = SFS_TYPE_FILE then Some (Inr S_IFREG)
     else if sfi_type (sv_i sv) = SFS_TYPE_DIR then Some (Inr S_IFDIR)
     else None }"

record stat =
  st_mode :: "32 word"
  st_nlink :: "32 word"
  st_size :: int
  st_blocks :: "32 word"

definition sfs_stat :: "nat \<Rightarrow> sfs_fs \<Rightarrow> (errno + stat) option" where
  "sfs_stat v s = do {
     vnode_check v False s;
     r \<leftarrow> sfs_gettype v s;
     sv \<leftarrow> svs s v;
     Some (case r of
        Inl e \<Rightarrow> Inl e
      | Inr m \<Rightarrow> Inr \<lparr>st_mode = m, st_nlink = 0, st_size = s32 (uint (sfi_size (sv_i sv))), st_blocks = 0\<rparr>) }"

definition sfs_tryseek :: "int \<Rightarrow> errno + unit" where
  "sfs_tryseek pos = (if pos < 0 then Inl EINVAL else Inr ())"

definition sfs_mmap :: "nat \<Rightarrow> sfs_fs \<Rightarrow> errno + unit" where
  "sfs_mmap v s = Inl EUNIMP"

definition sfs_namefile :: "nat \<Rightarrow> uio \<Rightarrow> sfs_fs \<Rightarrow> ((errno + unit) \<times> uio) option" where
  "sfs_namefile v u s = do {
     sv \<leftarrow> svs s v;
     kassert (sv_ino sv = SFS_ROOT_LOCATION);
     Some (Inr (), u) }"

section \<open>Operations of directories\<close>

definition sfs_creat :: "nat \<Rightarrow> 8 word list \<Rightarrow> bool \<Rightarrow> sfs_fs \<Rightarrow> ((errno + nat) \<times> sfs_fs) option" where
  "sfs_creat v name excl s = do {
     (r, emptyslot, s) \<leftarrow> sfs_dir_findname v name s;
     (case r of
        Inr (ino, slot) \<Rightarrow> if excl then Some (Inl EEXIST, s) else sfs_loadvnode ino SFS_TYPE_INVAL s
      | Inl e \<Rightarrow>
          if e \<noteq> ENOENT then Some (Inl e, s)
          else on_ok (sfs_makeobj SFS_TYPE_FILE s) (\<lambda>newguy s. do {
            sv \<leftarrow> svs s newguy;
            (r, s) \<leftarrow> sfs_dir_link v name (sv_ino sv) s;
            (case r of
               Inl e \<Rightarrow> do { s \<leftarrow> sv_decref newguy s; Some (Inl e, s) }
             | Inr _ \<Rightarrow> do {
                 s \<leftarrow> upd_sv newguy (\<lambda>sv. sv\<lparr>sv_i := (sv_i sv)\<lparr>sfi_linkcount := sfi_linkcount (sv_i sv) + 1\<rparr>,
                        sv_dirty := True\<rparr>) s;
                 Some (Inr newguy, s) }) }) id) }"

definition sfs_link :: "nat \<Rightarrow> 8 word list \<Rightarrow> nat \<Rightarrow> sfs_fs \<Rightarrow> ((errno + unit) \<times> sfs_fs) option" where
  "sfs_link dir name f s = do {
     sv \<leftarrow> svs s f;
     on_ok (sfs_dir_link dir name (sv_ino sv) s) (\<lambda>_ s. do {
       s \<leftarrow> upd_sv f (\<lambda>sv. sv\<lparr>sv_i := (sv_i sv)\<lparr>sfi_linkcount := sfi_linkcount (sv_i sv) + 1\<rparr>, sv_dirty := True\<rparr>) s;
       Some (Inr (), s) }) id }"

definition drop_link :: "nat \<Rightarrow> sfs_fs \<Rightarrow> sfs_fs option" where
  "drop_link v s = do {
     sv \<leftarrow> svs s v;
     kassert (0 < sfi_linkcount (sv_i sv));
     upd_sv v (\<lambda>sv. sv\<lparr>sv_i := (sv_i sv)\<lparr>sfi_linkcount := sfi_linkcount (sv_i sv) - 1\<rparr>, sv_dirty := True\<rparr>) s }"

definition sfs_remove :: "nat \<Rightarrow> 8 word list \<Rightarrow> sfs_fs \<Rightarrow> ((errno + unit) \<times> sfs_fs) option" where
  "sfs_remove dir name s =
     on_ok (sfs_lookonce dir name s) (\<lambda>(victim, slot) s. do {
       (r, s) \<leftarrow> sfs_dir_unlink dir slot s;
       s \<leftarrow> (if r = Inr () then drop_link victim s else Some s);
       s \<leftarrow> sv_decref victim s;
       Some (r, s) }) id"

definition sfs_rename :: "nat \<Rightarrow> 8 word list \<Rightarrow> nat \<Rightarrow> 8 word list \<Rightarrow> sfs_fs \<Rightarrow> ((errno + unit) \<times> sfs_fs) option" where
  "sfs_rename d1 n1 d2 n2 s = do {
     kassert (d1 = d2);
     sv \<leftarrow> svs s d1;
     kassert (sv_ino sv = SFS_ROOT_LOCATION);
     on_ok (sfs_lookonce d1 n1 s) (\<lambda>(g1, slot1) s. do {
       g \<leftarrow> svs s g1;
       kassert (sfi_type (sv_i g) = SFS_TYPE_FILE);
       (r, s) \<leftarrow> sfs_dir_link d1 n2 (sv_ino g) s;
       (case r of
          Inl e \<Rightarrow> do { s \<leftarrow> sv_decref g1 s; Some (Inl e, s) }
        | Inr slot2 \<Rightarrow> do {
            s \<leftarrow> upd_sv g1 (\<lambda>sv. sv\<lparr>sv_i := (sv_i sv)\<lparr>sfi_linkcount := sfi_linkcount (sv_i sv) + 1\<rparr>, sv_dirty := True\<rparr>) s;
            (r, s) \<leftarrow> sfs_dir_unlink d1 slot1 s;
            (case r of
               Inr _ \<Rightarrow> do {
                 s \<leftarrow> drop_link g1 s;
                 s \<leftarrow> sv_decref g1 s;
                 Some (Inr (), s) }
             | Inl e \<Rightarrow> do {
                 (r2, s) \<leftarrow> sfs_dir_unlink d1 slot2 s;
                 kassert (r2 = Inr ());
                 s \<leftarrow> upd_sv g1 (\<lambda>sv. sv\<lparr>sv_i := (sv_i sv)\<lparr>sfi_linkcount := sfi_linkcount (sv_i sv) - 1\<rparr>\<rparr>) s;
                 s \<leftarrow> sv_decref g1 s;
                 Some (Inl e, s) }) }) }) id }"

definition sfs_lookparent :: "nat \<Rightarrow> 8 word list \<Rightarrow> nat \<Rightarrow> sfs_fs \<Rightarrow> ((errno + nat \<times> 8 word list) \<times> sfs_fs) option" where
  "sfs_lookparent v path buflen s = do {
     sv \<leftarrow> svs s v;
     if sfi_type (sv_i sv) \<noteq> SFS_TYPE_DIR then Some (Inl ENOTDIR, s)
     else if buflen < length path + 1 then Some (Inl ENAMETOOLONG, s)
     else do {
       s \<leftarrow> sv_incref v s;
       Some (Inr (v, path), s) } }"

definition sfs_lookup :: "nat \<Rightarrow> 8 word list \<Rightarrow> sfs_fs \<Rightarrow> ((errno + nat) \<times> sfs_fs) option" where
  "sfs_lookup v path s = do {
     sv \<leftarrow> svs s v;
     if sfi_type (sv_i sv) \<noteq> SFS_TYPE_DIR then Some (Inl ENOTDIR, s)
     else on_ok (sfs_lookonce v path s) (\<lambda>(final, slot) s. Some (Inr final, s)) id }"

section \<open>The dispatch tables\<close>

text \<open>\<open>sfs_fileops\<close> and \<open>sfs_dirops\<close>: the entries that differ between files and directories.\<close>

definition vop_open :: "nat \<Rightarrow> 32 word \<Rightarrow> sfs_fs \<Rightarrow> (errno + unit) option" where
  "vop_open v flags s = do {
     vnode_check v False s;
     sv \<leftarrow> svs s v;
     Some (if vn_isdir sv then sfs_opendir flags else sfs_open flags) }"

definition vop_read :: "nat \<Rightarrow> uio \<Rightarrow> sfs_fs \<Rightarrow> ((errno + unit) \<times> uio \<times> sfs_fs) option" where
  "vop_read v u s = do {
     vnode_check v False s;
     sv \<leftarrow> svs s v;
     if vn_isdir sv then Some (Inl EISDIR, u, s) else sfs_read v u s }"

definition vop_write :: "nat \<Rightarrow> uio \<Rightarrow> sfs_fs \<Rightarrow> ((errno + unit) \<times> uio \<times> sfs_fs) option" where
  "vop_write v u s = do {
     vnode_check v False s;
     sv \<leftarrow> svs s v;
     if vn_isdir sv then Some (Inl EISDIR, u, s) else sfs_write v u s }"

definition vop_creat :: "nat \<Rightarrow> 8 word list \<Rightarrow> bool \<Rightarrow> sfs_fs \<Rightarrow> ((errno + nat) \<times> sfs_fs) option" where
  "vop_creat v name excl s = do {
     vnode_check v False s;
     sv \<leftarrow> svs s v;
     if vn_isdir sv then sfs_creat v name excl s else Some (Inl ENOTDIR, s) }"

definition vop_remove :: "nat \<Rightarrow> 8 word list \<Rightarrow> sfs_fs \<Rightarrow> ((errno + unit) \<times> sfs_fs) option" where
  "vop_remove v name s = do {
     vnode_check v False s;
     sv \<leftarrow> svs s v;
     if vn_isdir sv then sfs_remove v name s else Some (Inl ENOTDIR, s) }"

definition vop_lookup :: "nat \<Rightarrow> 8 word list \<Rightarrow> sfs_fs \<Rightarrow> ((errno + nat) \<times> sfs_fs) option" where
  "vop_lookup v path s = do {
     vnode_check v False s;
     sv \<leftarrow> svs s v;
     if vn_isdir sv then sfs_lookup v path s else Some (Inl ENOTDIR, s) }"

section \<open>Open counts\<close>

definition sv_incopen :: "nat \<Rightarrow> sfs_fs \<Rightarrow> sfs_fs option" where
  "sv_incopen v s = do {
     sv \<leftarrow> svs s v;
     n \<leftarrow> cint (vn_opencount sv + 1);
     upd_sv v (\<lambda>sv. sv\<lparr>vn_opencount := n\<rparr>) s }"

definition sv_decopen :: "nat \<Rightarrow> sfs_fs \<Rightarrow> sfs_fs option" where
  "sv_decopen v s = do {
     sv \<leftarrow> svs s v;
     kassert (0 < vn_opencount sv);
     s \<leftarrow> upd_sv v (\<lambda>sv. sv\<lparr>vn_opencount := vn_opencount sv - 1\<rparr>) s;
     if 0 < vn_opencount sv - 1 then Some s
     else do {
       vnode_check v False s;
       (r, s) \<leftarrow> sfs_close v s;
       Some s } }"

section \<open>The file system as a whole\<close>

text \<open>The sizes of the bitmap in bits and in blocks, from the macros of \<open>sfs.h\<close>.\<close>

definition SFS_BITMAPSIZE :: "32 word \<Rightarrow> 32 word" where
  "SFS_BITMAPSIZE nblocks = ((nblocks + 4096 - 1) div 4096) * 4096"

definition SFS_BITBLOCKS :: "32 word \<Rightarrow> 32 word" where
  "SFS_BITBLOCKS nblocks = SFS_BITMAPSIZE nblocks div 4096"

primrec mapio_loop :: "nat list \<Rightarrow> uio_rw \<Rightarrow> sfs_fs \<Rightarrow> ((errno + unit) \<times> sfs_fs) option" where
  "mapio_loop [] rw s = Some (Inr (), s)"
| "mapio_loop (j # js) rw s = do {
     let bitdata = bitmap_getdata (sfs_freemap s);
     kassert (j * SFS_BLOCKSIZE + SFS_BLOCKSIZE \<le> length bitdata);
     let ptr = take SFS_BLOCKSIZE (drop (j * SFS_BLOCKSIZE) bitdata);
     (case rw of
        UIO_READ \<Rightarrow> on_ok (sfs_rblock ptr (SFS_MAP_LOCATION + of_nat j) s) (\<lambda>_ (buf, s).
          mapio_loop js rw (s\<lparr>sfs_freemap := (sfs_freemap s)\<lparr>b_v := splice (j * SFS_BLOCKSIZE) buf bitdata\<rparr>\<rparr>)) snd
      | UIO_WRITE \<Rightarrow> on_ok (sfs_wblock ptr (SFS_MAP_LOCATION + of_nat j) s) (\<lambda>_ s. mapio_loop js rw s) id) }"

definition sfs_mapio :: "uio_rw \<Rightarrow> sfs_fs \<Rightarrow> ((errno + unit) \<times> sfs_fs) option" where
  "sfs_mapio rw s = mapio_loop [0..<unat (SFS_BITBLOCKS (sp_nblocks (sfs_super s)))] rw s"

primrec sync_vnodes :: "nat list \<Rightarrow> sfs_fs \<Rightarrow> sfs_fs option" where
  "sync_vnodes [] s = Some s"
| "sync_vnodes (i # is) s = do {
     v \<leftarrow> array_getguy (sfs_vnodes s) (int i);
     (r, s) \<leftarrow> vop_fsync v s;
     sync_vnodes is s }"

definition sfs_sync :: "sfs_fs \<Rightarrow> ((errno + unit) \<times> sfs_fs) option" where
  "sfs_sync s = do {
     s \<leftarrow> sync_vnodes [0..<nat (array_getnum (sfs_vnodes s))] s;
     on_ok (if sfs_freemapdirty s
            then on_ok (sfs_mapio UIO_WRITE s) (\<lambda>_ s. Some (Inr (), s\<lparr>sfs_freemapdirty := False\<rparr>)) id
            else Some (Inr (), s)) (\<lambda>_ s.
       if sfs_superdirty s
       then on_ok (sfs_wblock (super_bytes (sfs_super s)) SFS_SB_LOCATION s)
              (\<lambda>_ s. Some (Inr (), s\<lparr>sfs_superdirty := False\<rparr>)) id
       else Some (Inr (), s)) id }"

definition sfs_getvolname :: "sfs_fs \<Rightarrow> 8 word list" where
  "sfs_getvolname s = cstr (sp_volname (sfs_super s))"

definition sfs_unmount :: "sfs_fs \<Rightarrow> ((errno + unit) \<times> sfs_fs) option" where
  "sfs_unmount s =
     (if 0 < array_getnum (sfs_vnodes s) then Some (Inl EBUSY, s)
      else do {
        kassert (\<not> sfs_superdirty s);
        kassert (\<not> sfs_freemapdirty s);
        Some (Inr (), s) })"

text \<open>
  \<open>sfs_domount\<close> on a state that has the device; the fields of the file system are the contents of a
  fresh structure.
\<close>

definition sfs_domount :: "sfs_fs \<Rightarrow> ((errno + unit) \<times> sfs_fs) option" where
  "sfs_domount s =
     (if d_blocksize s \<noteq> of_nat SFS_BLOCKSIZE then Some (Inl ENXIO, s)
      else do {
        let (a, s) = fs_ask s;
        if a = None then Some (Inl ENOMEM, s) else do {
        let (a, s) = fs_ask s;
        (case array_create (a \<noteq> None) of
           None \<Rightarrow> Some (Inl ENOMEM, s)
         | Some t \<Rightarrow>
             on_ok (sfs_rblock (replicate SFS_BLOCKSIZE 0) SFS_SB_LOCATION (s\<lparr>sfs_vnodes := t\<rparr>)) (\<lambda>_ (buf, s). do {
               let sp = super_of buf;
               if sp_magic sp \<noteq> SFS_MAGIC then Some (Inl EINVAL, s)
               else do {
                 let s = s\<lparr>sfs_super := sp\<lparr>sp_volname := (sp_volname sp)[31 := 0]\<rparr>\<rparr>;
                 let (a, s) = fs_ask s;
                 let (b, s) = fs_ask s;
                 fm \<leftarrow> bitmap_create (a \<noteq> None) (b \<noteq> None) (SFS_BITMAPSIZE (sp_nblocks sp));
                 (case fm of
                    None \<Rightarrow> Some (Inl ENOMEM, s)
                  | Some fm \<Rightarrow>
                      on_ok (sfs_mapio UIO_READ (s\<lparr>sfs_freemap := fm\<rparr>)) (\<lambda>_ s.
                        Some (Inr (), s\<lparr>sfs_superdirty := False, sfs_freemapdirty := False\<rparr>)) id) } }) snd) } })"

end
