(* ===== verification/Kern_SfsFile.thy ===== *)
theory Kern_SfsFile
  imports Kern_SfsOps
begin

text \<open>
  The block map and the contents of a file. The pointers of an inode, direct, indirect and those in the
  indirect block, form one list; allocation changes one entry of it from zero to a block that was free.
\<close>

section \<open>The file system and a file\<close>

abbreviation used :: "sfs_fs \<Rightarrow> nat set" where
  "used s \<equiv> bm_used (sfs_freemap s)"

abbreviation nblocks :: "sfs_fs \<Rightarrow> 32 word" where
  "nblocks s \<equiv> sp_nblocks (sfs_super s)"

text \<open>
  The free map covers the volume, block 0 and the bits behind the end of the volume are marked, and the
  volume fits on the disk.
\<close>

definition fs_wf :: "sfs_fs \<Rightarrow> bool" where
  "fs_wf s \<longleftrightarrow> disk_ok s \<and> hw_ok s \<and> bm_ok (sfs_freemap s) \<and> nblocks s \<le> d_blocks s \<and> 0 \<in> used s \<and>
     (\<forall>n. unat (nblocks s) \<le> n \<and> n < bm_limit (sfs_freemap s) \<longrightarrow> n \<in> used s)"

definition free :: "sfs_fs \<Rightarrow> nat" where
  "free s = bm_limit (sfs_freemap s) - card (used s)"

definition idwords :: "sfs_fs \<Rightarrow> sfs_inode \<Rightarrow> 32 word list" where
  "idwords s i = map (\<lambda>k. if sfi_indirect i = 0 then 0 else word_at (sectors s (unat (sfi_indirect i))) k) [0..<128]"

definition ptrs :: "sfs_fs \<Rightarrow> sfs_inode \<Rightarrow> 32 word list" where
  "ptrs s i = sfi_direct i @ sfi_indirect i # idwords s i"

text \<open>The place of the pointer of a file block in that list.\<close>

definition pos :: "nat \<Rightarrow> nat" where
  "pos fb = (if fb < 15 then fb else Suc fb)"

definition blocks_ok :: "sfs_fs \<Rightarrow> 32 word list \<Rightarrow> bool" where
  "blocks_ok s ps \<longleftrightarrow> distinct (filter (\<lambda>b. b \<noteq> 0) ps) \<and>
     (\<forall>b \<in> set ps. b \<noteq> 0 \<longrightarrow> b < nblocks s \<and> unat b \<in> used s)"

definition file_ok :: "sfs_fs \<Rightarrow> sfs_inode \<Rightarrow> bool" where
  "file_ok s i \<longleftrightarrow> inode_wf i \<and> blocks_ok s (ptrs s i)"

text \<open>The contents of a file, by block and by byte; a block without a pointer reads as zeros.\<close>

definition fblk :: "sfs_fs \<Rightarrow> sfs_inode \<Rightarrow> nat \<Rightarrow> 8 word list" where
  "fblk s i fb = (let b = ptrs s i ! pos fb in if b = 0 then replicate 512 0 else sectors s (unat b))"

definition fbyte :: "sfs_fs \<Rightarrow> sfs_inode \<Rightarrow> nat \<Rightarrow> 8 word" where
  "fbyte s i n = fblk s i (n div 512) ! (n mod 512)"

lemma length_idwords [simp]: "length (idwords s i) = 128"
  by (simp add: idwords_def)

lemma length_ptrs: "inode_wf i \<Longrightarrow> length (ptrs s i) = 144"
  by (simp add: ptrs_def inode_wf_def)

lemma ptrs_direct: "inode_wf i \<Longrightarrow> k < 15 \<Longrightarrow> ptrs s i ! k = sfi_direct i ! k"
  by (simp add: ptrs_def inode_wf_def nth_append)

lemma ptrs_indirect: "inode_wf i \<Longrightarrow> ptrs s i ! 15 = sfi_indirect i"
  by (simp add: ptrs_def inode_wf_def nth_append)

lemma ptrs_idword:
  assumes "inode_wf i" "k < 128"
  shows "ptrs s i ! (16 + k) = (if sfi_indirect i = 0 then 0 else word_at (sectors s (unat (sfi_indirect i))) k)"
  using assms by (simp add: ptrs_def inode_wf_def nth_append idwords_def)

lemma pos_less: "fb < 143 \<Longrightarrow> pos fb < 144" "fb < 143 \<Longrightarrow> pos fb \<noteq> 15"
  by (auto simp: pos_def)

lemma pos_inj: "pos a = pos b \<longleftrightarrow> a = b"
  by (auto simp: pos_def)

lemma ptrs_cong:
  assumes "sfi_indirect i \<noteq> 0 \<Longrightarrow> sectors s' (unat (sfi_indirect i)) = sectors s (unat (sfi_indirect i))"
  shows "ptrs s' i = ptrs s i"
  using assms by (simp add: ptrs_def idwords_def)

lemma length_fblk: "fs_wf s \<Longrightarrow> length (fblk s i fb) = 512"
  by (simp add: fblk_def fs_wf_def disk_ok_def Let_def)

text \<open>One pointer changes from zero to a new block.\<close>

lemma distinct_filter_update:
  assumes "distinct (filter (\<lambda>b. b \<noteq> 0) ps)" "k < length ps" "ps ! k = 0" "b \<notin> set ps"
  shows "distinct (filter (\<lambda>b. b \<noteq> 0) (ps[k := b]))"
proof -
  have ps: "ps = take k ps @ 0 # drop (Suc k) ps" using assms(2,3) id_take_nth_drop by metis
  have "ps[k := b] = take k ps @ b # drop (Suc k) ps" using assms(2) by (simp add: upd_conv_take_nth_drop)
  moreover have "distinct (filter (\<lambda>b. b \<noteq> 0) (take k ps @ drop (Suc k) ps))"
    using assms(1) by (subst (asm) ps) simp
  moreover have "b \<notin> set (take k ps @ drop (Suc k) ps)"
    using assms(4) by (metis Un_iff in_set_dropD in_set_takeD set_append)
  ultimately show ?thesis by auto
qed

lemma distinct_filter_less:
  assumes "distinct (filter (\<lambda>b. b \<noteq> 0) ps)" "j < k" "k < length ps" "ps ! j = ps ! k"
  shows "ps ! j = 0"
  using assms
proof (induction ps arbitrary: j k)
  case (Cons p ps)
  then obtain k' where k': "k = Suc k'" by (cases k) auto
  show ?case
  proof (cases j)
    case 0
    then have "p \<in> set ps" using Cons.prems(3,4) k' by simp
    then show ?thesis using Cons.prems(1) 0 by (auto split: if_splits)
  next
    case (Suc j')
    then show ?thesis using Cons k' by (auto split: if_splits)
  qed
qed simp

lemma distinct_filter_nth:
  assumes "distinct (filter (\<lambda>b. b \<noteq> 0) ps)" "j < length ps" "k < length ps" "ps ! j = ps ! k" "ps ! j \<noteq> 0"
  shows "j = k"
  using distinct_filter_less [OF assms(1), of j k] distinct_filter_less [OF assms(1), of k j] assms(2-5)
  by (cases j k rule: linorder_cases) auto

lemma blocks_ok_update:
  assumes "blocks_ok s ps" "k < length ps" "ps ! k = 0" "unat b \<notin> used s" "b < nblocks s"
    "used s' = insert (unat b) (used s)" "nblocks s' = nblocks s"
  shows "blocks_ok s' (ps[k := b])"
proof -
  have "b \<notin> set ps \<or> b = 0" using assms(1,4) by (auto simp: blocks_ok_def)
  moreover have "ps[k := 0] = ps" using assms(3) by (metis list_update_id)
  ultimately have "distinct (filter (\<lambda>b. b \<noteq> 0) (ps[k := b]))"
    using distinct_filter_update [OF _ assms(2,3)] assms(1) by (auto simp: blocks_ok_def)
  moreover have "x < nblocks s' \<and> unat x \<in> used s'" if "x \<in> set (ps[k := b])" "x \<noteq> 0" for x
    using set_update_subset_insert [of ps k b] that assms by (auto simp: blocks_ok_def)
  ultimately show ?thesis by (simp add: blocks_ok_def)
qed

section \<open>How a file evolves\<close>

definition inode :: "sfs_fs \<Rightarrow> nat \<Rightarrow> sfs_inode" where
  "inode s v = sv_i (the (svs s v))"

definition wf :: "sfs_fs \<Rightarrow> nat \<Rightarrow> bool" where
  "wf s v \<longleftrightarrow> fs_wf s \<and> svs s v \<noteq> None \<and> file_ok s (inode s v)"

text \<open>The blocks that the pointers of a file name.\<close>

definition owned :: "sfs_fs \<Rightarrow> nat \<Rightarrow> nat set" where
  "owned s v = unat ` (set (ptrs s (inode s v)) - {0})"

text \<open>Everything but the disk, the free map and the pointers and the size of file \<open>v\<close> stays.\<close>

definition same_meta :: "nat \<Rightarrow> sfs_fs \<Rightarrow> sfs_fs \<Rightarrow> bool" where
  "same_meta v s s' \<longleftrightarrow> (\<exists>sv i d. svs s v = Some sv \<and> svs s' = (svs s)(v \<mapsto> sv\<lparr>sv_i := i, sv_dirty := d\<rparr>) \<and>
       sfi_type i = sfi_type (sv_i sv) \<and> sfi_linkcount i = sfi_linkcount (sv_i sv) \<and> inode_wf i = inode_wf (sv_i sv)) \<and>
     sfs_super s' = sfs_super s \<and> d_blocks s' = d_blocks s \<and> d_blocksize s' = d_blocksize s \<and> umem s' = umem s \<and>
     cur_space s' = cur_space s \<and> sfs_vnodes s' = sfs_vnodes s \<and> fs_mem s' = fs_mem s \<and> fs_nalloc s' = fs_nalloc s \<and>
     fs_next s' = fs_next s \<and> b_nbits (sfs_freemap s') = b_nbits (sfs_freemap s) \<and> sfs_superdirty s' = sfs_superdirty s"

definition evolves :: "nat \<Rightarrow> sfs_fs \<Rightarrow> sfs_fs \<Rightarrow> bool" where
  "evolves v s s' \<longleftrightarrow> same_meta v s s' \<and> used s \<subseteq> used s' \<and> owned s v \<subseteq> owned s' v \<and>
     owned s' v - owned s v \<subseteq> used s' - used s \<and> (\<forall>x \<in> used s - owned s v. sectors s' x = sectors s x)"

lemma same_meta_refl: "svs s v \<noteq> None \<Longrightarrow> same_meta v s s"
proof -
  assume "svs s v \<noteq> None"
  then obtain sv where sv: "svs s v = Some sv" by blast
  then have "svs s v = Some sv \<and> svs s = (svs s)(v \<mapsto> sv\<lparr>sv_i := sv_i sv, sv_dirty := sv_dirty sv\<rparr>)" by (simp add: fun_upd_idem)
  then show ?thesis unfolding same_meta_def by blast
qed

lemma same_meta_inode: "same_meta v s s' \<Longrightarrow>
    sfi_type (inode s' v) = sfi_type (inode s v) \<and> sfi_linkcount (inode s' v) = sfi_linkcount (inode s v) \<and>
    inode_wf (inode s' v) = inode_wf (inode s v) \<and> svs s v \<noteq> None \<and> svs s' v \<noteq> None"
  by (auto simp: same_meta_def inode_def)

lemma same_meta_super: "same_meta v s s' \<Longrightarrow> sfs_super s' = sfs_super s \<and> bm_limit (sfs_freemap s') = bm_limit (sfs_freemap s)"
  by (simp add: same_meta_def bm_limit_def)

lemma same_meta_trans:
  assumes "same_meta v s s1" "same_meta v s1 s2"
  shows "same_meta v s s2"
proof -
  obtain sv i1 d1 where 1: "svs s v = Some sv" "svs s1 = (svs s)(v \<mapsto> sv\<lparr>sv_i := i1, sv_dirty := d1\<rparr>)"
    "sfi_type i1 = sfi_type (sv_i sv)" "sfi_linkcount i1 = sfi_linkcount (sv_i sv)" "inode_wf i1 = inode_wf (sv_i sv)"
    using assms(1) by (auto simp: same_meta_def)
  obtain sv1 i2 d2 where 2: "svs s1 v = Some sv1" "svs s2 = (svs s1)(v \<mapsto> sv1\<lparr>sv_i := i2, sv_dirty := d2\<rparr>)"
    "sfi_type i2 = sfi_type (sv_i sv1)" "sfi_linkcount i2 = sfi_linkcount (sv_i sv1)" "inode_wf i2 = inode_wf (sv_i sv1)"
    using assms(2) by (auto simp: same_meta_def)
  have "sv1 = sv\<lparr>sv_i := i1, sv_dirty := d1\<rparr>" using 1(2) 2(1) by simp
  then have "svs s2 = (svs s)(v \<mapsto> sv\<lparr>sv_i := i2, sv_dirty := d2\<rparr>)" "sfi_type i2 = sfi_type (sv_i sv)"
    "sfi_linkcount i2 = sfi_linkcount (sv_i sv)" "inode_wf i2 = inode_wf (sv_i sv)"
    using 1 2 by simp_all
  with 1(1) have "\<exists>sv i d. svs s v = Some sv \<and> svs s2 = (svs s)(v \<mapsto> sv\<lparr>sv_i := i, sv_dirty := d\<rparr>) \<and>
       sfi_type i = sfi_type (sv_i sv) \<and> sfi_linkcount i = sfi_linkcount (sv_i sv) \<and> inode_wf i = inode_wf (sv_i sv)"
    by blast
  then show ?thesis using assms unfolding same_meta_def by simp
qed

lemma evolves_refl: "svs s v \<noteq> None \<Longrightarrow> evolves v s s"
  by (auto simp: evolves_def intro: same_meta_refl)

lemma evolves_trans:
  assumes "evolves v s s1" "evolves v s1 s2"
  shows "evolves v s s2"
proof -
  have "sectors s2 x = sectors s x" if "x \<in> used s - owned s v" for x
  proof -
    have "x \<in> used s1 - owned s1 v" using that assms(1) unfolding evolves_def by blast
    then show ?thesis using that assms unfolding evolves_def by simp
  qed
  moreover have "same_meta v s s2" using assms same_meta_trans unfolding evolves_def by blast
  moreover have "used s \<subseteq> used s2" "owned s v \<subseteq> owned s2 v" "owned s2 v - owned s v \<subseteq> used s2 - used s"
    using assms unfolding evolves_def by blast+
  ultimately show ?thesis unfolding evolves_def by blast
qed

lemma owned_used: "wf s v \<Longrightarrow> owned s v \<subseteq> used s"
  by (auto simp: wf_def file_ok_def blocks_ok_def owned_def)

lemma wf_inode_wf: "wf s v \<Longrightarrow> inode_wf (inode s v)"
  by (simp add: wf_def file_ok_def)

text \<open>
  A new block \<open>b\<close> for the pointer at place \<open>k\<close> of file \<open>v\<close>: the block was free, it is zeroed, and of the
  blocks in use at most the indirect block of the file has changed.
\<close>

definition ext :: "nat \<Rightarrow> nat \<Rightarrow> 32 word \<Rightarrow> sfs_fs \<Rightarrow> sfs_fs \<Rightarrow> bool" where
  "ext v k b s s' \<longleftrightarrow> fs_wf s' \<and> same_meta v s s' \<and> used s' = insert (unat b) (used s) \<and> unat b \<notin> used s \<and>
     b < nblocks s \<and> b \<noteq> 0 \<and> k < 144 \<and> ptrs s (inode s v) ! k = 0 \<and>
     ptrs s' (inode s' v) = (ptrs s (inode s v))[k := b] \<and> sectors s' (unat b) = replicate 512 0 \<and>
     sfi_size (inode s' v) = sfi_size (inode s v) \<and>
     (\<forall>x \<in> used s. (sfi_indirect (inode s v) \<noteq> 0 \<longrightarrow> x \<noteq> unat (sfi_indirect (inode s v))) \<longrightarrow> sectors s' x = sectors s x)"

lemma finite_used: "finite (used s)"
  by (simp add: bm_used_def)

lemma ext_free:
  assumes "ext v k b s s'" "bm_ok (sfs_freemap s)"
  shows "free s = Suc (free s')"
proof -
  have lim: "bm_limit (sfs_freemap s') = bm_limit (sfs_freemap s)"
    using assms(1) same_meta_super [of v s s'] by (simp add: ext_def)
  have "used s' \<subseteq> {..<bm_limit (sfs_freemap s')}" using bma.used by simp
  then have "card (used s') \<le> bm_limit (sfs_freemap s)" using card_mono [of "{..<bm_limit (sfs_freemap s')}"] lim by auto
  moreover have "card (used s') = Suc (card (used s))" using assms(1) finite_used by (simp add: ext_def)
  ultimately show ?thesis by (simp add: free_def lim)
qed

lemma ext_wf:
  assumes "ext v k b s s'" "wf s v"
  shows "wf s' v"
proof -
  have i: "inode_wf (inode s v)" using assms(2) by (rule wf_inode_wf)
  have "blocks_ok s' ((ptrs s (inode s v))[k := b])"
    using assms length_ptrs [OF i, of s] same_meta_super [of v s s']
    by (intro blocks_ok_update [of s]) (simp_all add: ext_def wf_def file_ok_def)
  then show ?thesis
    using assms same_meta_inode [of v s s'] i by (simp add: wf_def file_ok_def ext_def)
qed

lemma ext_blk:
  assumes "ext v k b s s'" "wf s v" "fb < 143"
  shows "fblk s' (inode s' v) fb = fblk s (inode s v) fb"
proof -
  let ?ps = "ptrs s (inode s v)"
  have i: "inode_wf (inode s v)" using assms(2) by (rule wf_inode_wf)
  note len = length_ptrs [OF i, of s] and p = pos_less [OF assms(3)]
  show ?thesis
  proof (cases "pos fb = k")
    case True
    then show ?thesis using assms(1) len p by (simp add: fblk_def ext_def)
  next
    case False
    then have same: "ptrs s' (inode s' v) ! pos fb = ?ps ! pos fb" using assms(1) len p by (simp add: ext_def)
    have "sectors s' (unat (?ps ! pos fb)) = sectors s (unat (?ps ! pos fb))" if nz: "?ps ! pos fb \<noteq> 0"
    proof -
      have "?ps ! pos fb \<in> set ?ps" using p len by simp
      then have "unat (?ps ! pos fb) \<in> used s" using assms(2) nz by (auto simp: wf_def file_ok_def blocks_ok_def)
      moreover have "?ps ! pos fb \<noteq> sfi_indirect (inode s v)"
        using distinct_filter_nth [of ?ps "pos fb" 15] assms(2) nz p len ptrs_indirect [OF i, of s]
        by (auto simp: wf_def file_ok_def blocks_ok_def)
      then have "unat (?ps ! pos fb) \<noteq> unat (sfi_indirect (inode s v))" by (simp only: word_unat_eq_iff not_False_eq_True)
      ultimately show ?thesis using assms(1) unfolding ext_def by blast
    qed
    then show ?thesis by (simp add: fblk_def same Let_def)
  qed
qed

lemma set_update_nonzero:
  assumes "k < length ps" "ps ! k = 0" "b \<noteq> (0::32 word)"
  shows "set (ps[k := b]) - {0} = insert b (set ps - {0})"
proof -
  have "x \<in> set (ps[k := b])" if x: "x \<in> set ps" "x \<noteq> 0" for x
  proof -
    obtain j where "j < length ps" "ps ! j = x" using x by (auto simp: in_set_conv_nth)
    moreover have "j \<noteq> k" using calculation assms(2) x(2) by auto
    ultimately show ?thesis by (auto simp: in_set_conv_nth intro!: exI [of _ j])
  qed
  moreover have "b \<in> set (ps[k := b])" using assms(1) by (simp add: set_update_memI)
  ultimately show ?thesis using set_update_subset_insert [of ps k b] assms(3) by blast
qed

lemma ext_owned:
  assumes "ext v k b s s'" "wf s v"
  shows "owned s' v = insert (unat b) (owned s v)"
proof -
  have "set ((ptrs s (inode s v))[k := b]) - {0} = insert b (set (ptrs s (inode s v)) - {0})"
    using assms(1) length_ptrs [OF wf_inode_wf [OF assms(2)], of s]
    by (intro set_update_nonzero) (simp_all add: ext_def)
  moreover have "ptrs s' (inode s' v) = (ptrs s (inode s v))[k := b]" using assms(1) by (simp add: ext_def)
  ultimately show ?thesis by (simp add: owned_def)
qed

lemma ext_evolves:
  assumes "ext v k b s s'" "wf s v"
  shows "evolves v s s'"
proof -
  have "sectors s' x = sectors s x" if "x \<in> used s - owned s v" for x
  proof -
    have "sfi_indirect (inode s v) \<in> set (ptrs s (inode s v))" by (simp add: ptrs_def)
    then have "sfi_indirect (inode s v) \<noteq> 0 \<longrightarrow> x \<noteq> unat (sfi_indirect (inode s v))"
      using that by (auto simp: owned_def)
    then show ?thesis using assms(1) that by (simp add: ext_def)
  qed
  moreover have "used s' = insert (unat b) (used s)" "unat b \<notin> used s" "same_meta v s s'"
    using assms(1) by (simp_all add: ext_def)
  ultimately show ?thesis using ext_owned [OF assms] unfolding evolves_def by auto
qed

section \<open>Space allocation\<close>

text \<open>The state after a new block has been marked and zeroed.\<close>

definition zeroed :: "32 word \<Rightarrow> bitmap \<Rightarrow> sfs_fs \<Rightarrow> sfs_fs" where
  "zeroed b fm s = disk_write (unat b) (replicate 512 0) (s\<lparr>sfs_freemap := fm, sfs_freemapdirty := True\<rparr>)"

definition new_block :: "32 word \<Rightarrow> bitmap \<Rightarrow> sfs_fs \<Rightarrow> bool" where
  "new_block b fm s \<longleftrightarrow> bm_ok fm \<and> b_nbits fm = b_nbits (sfs_freemap s) \<and> bm_used fm = insert (unat b) (used s) \<and>
     unat b \<notin> used s \<and> b < nblocks s \<and> b \<noteq> 0"

lemma fs_wf_disk: "fs_wf s \<Longrightarrow> disk_ok s \<and> hw_ok s"
  by (simp add: fs_wf_def)

lemma fs_wf_block: "fs_wf s \<Longrightarrow> b < nblocks s \<Longrightarrow> b < d_blocks s"
  by (auto simp: fs_wf_def)

lemma zeroed_simps [simp]:
  "svs (zeroed b fm s) = svs s" "sfs_super (zeroed b fm s) = sfs_super s" "sfs_freemap (zeroed b fm s) = fm"
  "sectors (zeroed b fm s) = (sectors s)(unat b := replicate 512 0)" "d_blocks (zeroed b fm s) = d_blocks s"
  "d_blocksize (zeroed b fm s) = d_blocksize s" "umem (zeroed b fm s) = umem s" "cur_space (zeroed b fm s) = cur_space s"
  "sfs_vnodes (zeroed b fm s) = sfs_vnodes s" "fs_mem (zeroed b fm s) = fs_mem s" "fs_nalloc (zeroed b fm s) = fs_nalloc s"
  "fs_next (zeroed b fm s) = fs_next s" "sfs_superdirty (zeroed b fm s) = sfs_superdirty s"
  by (simp_all add: zeroed_def disk_write_def)

lemma fs_wf_zeroed: "fs_wf s \<Longrightarrow> new_block b fm s \<Longrightarrow> fs_wf (zeroed b fm s)"
proof -
  assume w: "fs_wf s" and n: "new_block b fm s"
  have "disk_ok (zeroed b fm s)" "hw_ok (zeroed b fm s)"
    using w by (simp_all add: fs_wf_def zeroed_def disk_ok_def hw_ok_def disk_write_def)
  moreover have "bm_limit fm = bm_limit (sfs_freemap s)" using n by (simp add: new_block_def bm_limit_def)
  ultimately show ?thesis using w n by (simp add: fs_wf_def new_block_def)
qed

lemma sfs_balloc_ok:
  assumes "fs_wf s" "0 < free s"
  shows "\<exists>b fm. sfs_balloc s = Some (Inr b, zeroed b fm s) \<and> new_block b fm s"
proof -
  let ?m = "sfs_freemap s"
  have ok: "bm_ok ?m" using assms(1) by (simp add: fs_wf_def)
  have nfull: "used s \<noteq> {..<bm_limit ?m}"
    using assms(2) card_lessThan [of "bm_limit ?m"] unfolding free_def by (metis diff_self_eq_0 less_irrefl)
  obtain n fm where n: "bitmap_alloc ?m = Some (Inr (of_nat n), fm)" "least_free ?m n" "bm_ok fm"
    "b_nbits fm = b_nbits ?m" "bm_used fm = insert n (used s)"
    using bitmap_alloc_ok [OF ok] unfolding if_not_P [OF nfull] by blast
  have lim: "n < bm_limit ?m" "n \<notin> used s" using n(2) by (simp_all add: least_free_def)
  then have un: "unat (of_nat n :: 32 word) = n" using assms(1) by (simp add: fs_wf_def bm_ok_def unat_of_nat)
  have nb: "n < unat (nblocks s)" "n \<noteq> 0" using lim assms(1) unfolding fs_wf_def by (metis not_less)+
  then have lt: "(of_nat n :: 32 word) < nblocks s" by (simp add: word_less_nat_alt un)
  have "(of_nat n :: 32 word) \<noteq> 0" using nb(2) un by (metis unat_0)
  then have new: "new_block (of_nat n) fm s"
    using n lim nb lt un by (simp add: new_block_def)
  let ?s = "s\<lparr>sfs_freemap := fm, sfs_freemapdirty := True\<rparr>"
  have "sfs_wblock (replicate 512 0) (of_nat n) ?s = Some (Inr (), zeroed (of_nat n) fm s)"
    using assms(1) fs_wf_block [OF assms(1) lt] unfolding zeroed_def
    by (intro sfs_wblock_ok) (simp_all add: fs_wf_def disk_ok_def hw_ok_def)
  then show ?thesis
    using n(1) lt new by (intro exI [of _ "of_nat n"] exI [of _ fm]) (simp add: sfs_balloc_def sfs_clearblock_def)
qed

lemma sfs_balloc_full:
  assumes "fs_wf s" "free s = 0"
  shows "sfs_balloc s = Some (Inl ENOSPC, s)"
proof -
  let ?L = "{..<bm_limit (sfs_freemap s)}"
  have sub: "used s \<subseteq> ?L" using bma.used by simp
  then have "card (used s) \<le> card ?L" by (intro card_mono) simp_all
  then have "card (used s) = card ?L" using assms(2) by (simp add: free_def)
  then have "used s = ?L" using sub by (intro card_subset_eq) simp_all
  then show ?thesis using bitmap_alloc_ok [of "sfs_freemap s"] assms(1) by (simp add: fs_wf_def sfs_balloc_def)
qed

section \<open>The block map\<close>

text \<open>A state in which only the buffer and the count of operations of the disk have changed.\<close>

definition untouched :: "sfs_fs \<Rightarrow> sfs_fs \<Rightarrow> bool" where
  "untouched s s' \<longleftrightarrow> (\<exists>l n. length l = 512 \<and> hw_n s \<le> n \<and> s' = s\<lparr>lh_buf := l, hw_n := n\<rparr>)"

lemma untouched_read: "disk_ok s \<Longrightarrow> untouched s (disk_read b s)"
  unfolding untouched_def disk_read_def disk_ok_def by (intro exI conjI) auto

lemma untouched_refl: "disk_ok s \<Longrightarrow> untouched s s"
  unfolding untouched_def disk_ok_def by (intro exI [of _ "lh_buf s"] exI [of _ "hw_n s"]) simp

lemma untouched_simps:
  assumes "untouched s s'"
  shows "svs s' = svs s" "sectors s' = sectors s" "sfs_super s' = sfs_super s" "sfs_freemap s' = sfs_freemap s"
    "d_blocks s' = d_blocks s" "umem s' = umem s" "cur_space s' = cur_space s" "ptrs s' i = ptrs s i"
    "fblk s' i = fblk s i" "inode s' v = inode s v" "fbyte s' i = fbyte s i" "free s' = free s"
proof -
  obtain l n where s': "s' = s\<lparr>lh_buf := l, hw_n := n\<rparr>" using assms by (auto simp: untouched_def)
  show "svs s' = svs s" "sectors s' = sectors s" "sfs_super s' = sfs_super s" "sfs_freemap s' = sfs_freemap s"
    "d_blocks s' = d_blocks s" "umem s' = umem s" "cur_space s' = cur_space s" "inode s' v = inode s v" "free s' = free s"
    by (simp_all add: s' inode_def free_def)
  show p: "ptrs s' i = ptrs s i" for i by (rule ptrs_cong) (simp add: s')
  then show f: "fblk s' i = fblk s i" by (simp add: fun_eq_iff fblk_def s' Let_def)
  then show "fbyte s' i = fbyte s i" by (simp add: fun_eq_iff fbyte_def)
qed

lemma untouched_fs_wf: "untouched s s' \<Longrightarrow> fs_wf s \<Longrightarrow> fs_wf s'"
  unfolding untouched_def fs_wf_def disk_ok_def hw_ok_def by (elim exE conjE) simp

lemma untouched_wf: "untouched s s' \<Longrightarrow> wf s v \<Longrightarrow> wf s' v"
  using untouched_fs_wf untouched_simps by (simp add: wf_def file_ok_def blocks_ok_def)

lemma untouched_trans: "untouched s s1 \<Longrightarrow> untouched s1 s2 \<Longrightarrow> untouched s s2"
  unfolding untouched_def by (elim exE conjE, intro exI conjI) auto

lemma untouched_same_meta:
  assumes "untouched s s'" "svs s v \<noteq> None"
  shows "same_meta v s s'"
proof -
  obtain l n where s': "s' = s\<lparr>lh_buf := l, hw_n := n\<rparr>" using assms by (auto simp: untouched_def)
  show ?thesis using same_meta_refl [OF assms(2)] by (simp add: same_meta_def s')
qed

text \<open>The pointers and the free map may have grown; the contents and the size of the file are the same.\<close>

definition grows :: "nat \<Rightarrow> nat \<Rightarrow> sfs_fs \<Rightarrow> sfs_fs \<Rightarrow> bool" where
  "grows v k s s' \<longleftrightarrow> wf s' v \<and> evolves v s s' \<and> sfi_size (inode s' v) = sfi_size (inode s v) \<and>
     (\<forall>fb < 143. fblk s' (inode s' v) fb = fblk s (inode s v) fb) \<and> free s \<le> free s' + k"

lemma grows_trans: "grows v j s s1 \<Longrightarrow> grows v k s1 s2 \<Longrightarrow> grows v (j + k) s s2"
  unfolding grows_def using evolves_trans [of v s s1 s2] by simp

lemma grows_mono: "grows v j s s' \<Longrightarrow> j \<le> k \<Longrightarrow> grows v k s s'"
  unfolding grows_def by simp

lemma untouched_grows:
  assumes "untouched s s'" "wf s v"
  shows "grows v 0 s s'"
proof -
  have "owned s' v = owned s v" by (simp add: owned_def untouched_simps [OF assms(1)])
  moreover have "same_meta v s s'" using assms by (intro untouched_same_meta) (simp_all add: wf_def)
  ultimately have "evolves v s s'" by (simp add: evolves_def untouched_simps [OF assms(1)])
  then show ?thesis using untouched_wf [OF assms] by (simp add: grows_def untouched_simps [OF assms(1)])
qed

lemma ext_grows:
  assumes "ext v k b s s'" "wf s v"
  shows "grows v 1 s s'"
  using assms ext_wf [OF assms] ext_evolves [OF assms] ext_blk [OF assms] ext_free [OF assms(1)]
  by (simp add: grows_def ext_def wf_def fs_wf_def)

lemma wf_ptr:
  assumes "wf s v" "k < 144" "ptrs s (inode s v) ! k \<noteq> 0"
  shows "ptrs s (inode s v) ! k < nblocks s" "unat (ptrs s (inode s v) ! k) \<in> used s"
proof -
  have "ptrs s (inode s v) ! k \<in> set (ptrs s (inode s v))"
    using assms(2) length_ptrs [OF wf_inode_wf [OF assms(1)], of s] by simp
  then show "ptrs s (inode s v) ! k < nblocks s" "unat (ptrs s (inode s v) ! k) \<in> used s"
    using assms(1,3) unfolding wf_def file_ok_def blocks_ok_def by blast+
qed

lemma hand_back_ok:
  assumes "fs_wf s" "b \<noteq> 0 \<Longrightarrow> b < nblocks s \<and> unat b \<in> used s"
  shows "bmap_hand_back b s = Some (Inr b, s)"
proof (cases "b = 0")
  case False
  then have "b < b_nbits (sfs_freemap s)" using assms(2) by (simp add: bm_used_def bm_limit_def word_less_nat_alt)
  then obtain r where "bitmap_isset (sfs_freemap s) b = Some r" "r \<noteq> 0 \<longleftrightarrow> unat b \<in> used s"
    using bitmap_isset_iff [of "sfs_freemap s" b] assms(1) unfolding fs_wf_def by blast
  then show ?thesis using assms(2) False by (simp add: bmap_hand_back_def sfs_bused_def)
qed (simp add: bmap_hand_back_def)

lemma wf_svs: "wf s v \<Longrightarrow> \<exists>sv. svs s v = Some sv \<and> sv_i sv = inode s v"
  by (auto simp: wf_def inode_def)

lemma sfs_bmap_cases:
  assumes "fb < 143"
  shows "sfs_bmap v (of_nat fb) a s = (if fb < 15 then bmap_direct v fb a s else bmap_indirect v (fb - 15) a s)"
proof -
  have u: "unat (of_nat fb :: 32 word) = fb" using assms by (simp add: unat_of_nat)
  have lt: "(of_nat fb :: 32 word) < 15 \<longleftrightarrow> fb < 15" by (simp add: word_less_nat_alt u)
  have u': "unat ((of_nat fb :: 32 word) - 15) = fb - 15" if "\<not> fb < 15"
    using that u lt by (subst unat_sub) (auto simp: word_le_nat_alt)
  have z: "((of_nat fb :: 32 word) - 15) div 128 = 0" "unat (((of_nat fb :: 32 word) - 15) mod 128) = fb - 15" if "\<not> fb < 15"
    using assms u' [OF that] by (simp_all add: word_arith_nat_div unat_mod)
  show ?thesis
    by (cases "fb < 15") (simp_all add: sfs_bmap_def lt u z Let_def)
qed

text \<open>Without allocation, or with the pointer there, the block map is read.\<close>

lemma sfs_bmap_mapped:
  assumes w: "wf s v" and fb: "fb < 143" and a: "a \<longrightarrow> ptrs s (inode s v) ! pos fb \<noteq> 0"
  shows "\<exists>s'. sfs_bmap v (of_nat fb) a s = Some (Inr (ptrs s (inode s v) ! pos fb), s') \<and> untouched s s'"
proof -
  obtain sv where sv: "svs s v = Some sv" "sv_i sv = inode s v" using wf_svs [OF w] by blast
  have i: "inode_wf (inode s v)" and f: "fs_wf s" using w by (simp_all add: wf_def file_ok_def)
  note b = wf_ptr [OF w pos_less(1) [OF fb]]
  show ?thesis
  proof (cases "fb < 15")
    case True
    then have p: "ptrs s (inode s v) ! pos fb = sfi_direct (inode s v) ! fb" using ptrs_direct [OF i] by (simp add: pos_def)
    have rd: "rd (sfi_direct (inode s v)) (int fb) = Some (sfi_direct (inode s v) ! fb)"
      using True i by (simp add: inode_wf_def rd_def)
    have "bmap_direct v fb a s = Some (Inr (ptrs s (inode s v) ! pos fb), s)"
      using a hand_back_ok [OF f, of "ptrs s (inode s v) ! pos fb"] b
      by (cases a) (simp_all add: bmap_direct_def sv rd p)
    then show ?thesis using untouched_refl fs_wf_disk [OF f] True fb by (simp add: sfs_bmap_cases)
  next
    case False
    let ?id = "sfi_indirect (inode s v)"
    have p: "ptrs s (inode s v) ! pos fb = (if ?id = 0 then 0 else word_at (sectors s (unat ?id)) (fb - 15))"
      using ptrs_idword [OF i, of "fb - 15" s] False fb by (simp add: pos_def)
    show ?thesis
    proof (cases "?id = 0")
      case True
      then show ?thesis using a p untouched_refl fs_wf_disk [OF f] fb False
        by (simp add: sfs_bmap_cases bmap_indirect_def sv)
    next
      case nz: False
      have id: "?id < d_blocks s" using wf_ptr(1) [OF w, of 15] ptrs_indirect [OF i, of s] nz fs_wf_block [OF f] by simp
      let ?s = "disk_read (unat ?id) s"
      have q: "untouched s ?s" using untouched_read fs_wf_disk [OF f] by simp
      have "sfs_rblock (replicate 512 0) ?id s = Some (Inr (), sectors s (unat ?id), ?s)"
        using fs_wf_disk [OF f] id by (intro sfs_rblock_ok) simp_all
      moreover have "bmap_hand_back (ptrs s (inode s v) ! pos fb) ?s = Some (Inr (ptrs s (inode s v) ! pos fb), ?s)"
        using b untouched_fs_wf [OF q f] by (intro hand_back_ok) (simp_all add: untouched_simps [OF q])
      ultimately have "bmap_indirect v (fb - 15) a s = Some (Inr (ptrs s (inode s v) ! pos fb), ?s)"
        using a nz p by (cases a) (simp_all add: bmap_indirect_def bmap_idblock_def sv Let_def)
      then show ?thesis using q False fb by (simp add: sfs_bmap_cases)
    qed
  qed
qed

text \<open>A new block becomes a pointer of the inode.\<close>

lemma svs_upd_simps [simp]:
  "fs_wf (s\<lparr>svs := f\<rparr>) = fs_wf s" "ptrs (s\<lparr>svs := f\<rparr>) i = ptrs s i" "fblk (s\<lparr>svs := f\<rparr>) i = fblk s i"
  by (simp_all add: fs_wf_def disk_ok_def hw_ok_def ptrs_def idwords_def fblk_def fun_eq_iff Let_def cong: if_cong)

lemma ext_inode:
  assumes "wf s v" "svs s v = Some sv" "new_block b fm s" "k < 144" "ptrs s (inode s v) ! k = 0"
    "ptrs (zeroed b fm s) i = (ptrs s (inode s v))[k := b]"
    "sfi_type i = sfi_type (sv_i sv)" "sfi_linkcount i = sfi_linkcount (sv_i sv)" "inode_wf i = inode_wf (sv_i sv)"
    "sfi_size i = sfi_size (sv_i sv)"
  shows "ext v k b s ((zeroed b fm s)\<lparr>svs := (svs s)(v \<mapsto> sv\<lparr>sv_i := i, sv_dirty := True\<rparr>)\<rparr>)" (is "ext v k b s ?s")
proof -
  have "svs s v = Some sv \<and> svs ?s = (svs s)(v \<mapsto> sv\<lparr>sv_i := i, sv_dirty := True\<rparr>) \<and>
       sfi_type i = sfi_type (sv_i sv) \<and> sfi_linkcount i = sfi_linkcount (sv_i sv) \<and> inode_wf i = inode_wf (sv_i sv)"
    using assms by simp
  then have ex: "\<exists>sv i d. svs s v = Some sv \<and> svs ?s = (svs s)(v \<mapsto> sv\<lparr>sv_i := i, sv_dirty := d\<rparr>) \<and>
       sfi_type i = sfi_type (sv_i sv) \<and> sfi_linkcount i = sfi_linkcount (sv_i sv) \<and> inode_wf i = inode_wf (sv_i sv)"
    by blast
  have "same_meta v s ?s"
    unfolding same_meta_def using ex assms(3) by (intro conjI) (simp_all add: new_block_def)
  moreover have "inode ?s v = i" by (simp add: inode_def)
  moreover have "sfi_size i = sfi_size (inode s v)" using assms(2,10) by (simp add: inode_def)
  moreover have "fs_wf ?s" using fs_wf_zeroed assms(1,3) by (simp add: wf_def)
  moreover have "sectors ?s x = sectors s x" if "x \<in> used s" for x
    using that assms(3) by (auto simp: new_block_def)
  ultimately show ?thesis using assms(3-6) by (simp add: ext_def new_block_def)
qed

lemma ptrs_zeroed:
  assumes "wf s v" "new_block b fm s" "sfi_indirect i = sfi_indirect (inode s v)"
  shows "ptrs (zeroed b fm s) i = ptrs s i"
proof (rule ptrs_cong)
  assume nz: "sfi_indirect i \<noteq> 0"
  then have "unat (sfi_indirect i) \<in> used s"
    using wf_ptr(2) [OF assms(1), of 15] ptrs_indirect [OF wf_inode_wf [OF assms(1)], of s] assms(3) by simp
  then show "sectors (zeroed b fm s) (unat (sfi_indirect i)) = sectors s (unat (sfi_indirect i))"
    using assms(2) by (auto simp: new_block_def)
qed

lemma ext_direct:
  assumes "wf s v" "svs s v = Some sv" "new_block b fm s" "k < 15" "ptrs s (inode s v) ! k = 0"
  shows "ext v k b s ((zeroed b fm s)\<lparr>svs := (svs s)(v \<mapsto>
    sv\<lparr>sv_i := (sv_i sv)\<lparr>sfi_direct := (sfi_direct (sv_i sv))[k := b]\<rparr>, sv_dirty := True\<rparr>)\<rparr>)"
proof -
  have iv: "sv_i sv = inode s v" using assms(2) by (simp add: inode_def)
  have i: "inode_wf (inode s v)" using assms(1) by (rule wf_inode_wf)
  let ?i = "(inode s v)\<lparr>sfi_direct := (sfi_direct (inode s v))[k := b]\<rparr>"
  have "ptrs (zeroed b fm s) ?i = ptrs s ?i" using assms by (intro ptrs_zeroed) simp_all
  also have "\<dots> = (ptrs s (inode s v))[k := b]"
    using assms(4) i by (simp add: ptrs_def idwords_def inode_wf_def list_update_append1)
  finally show ?thesis using assms i unfolding iv by (intro ext_inode) (simp_all add: inode_wf_def iv)
qed

lemma ext_indirect:
  assumes "wf s v" "svs s v = Some sv" "new_block b fm s" "sfi_indirect (inode s v) = 0"
  shows "ext v 15 b s ((zeroed b fm s)\<lparr>svs := (svs s)(v \<mapsto>
    sv\<lparr>sv_i := (sv_i sv)\<lparr>sfi_indirect := b\<rparr>, sv_dirty := True\<rparr>)\<rparr>)"
proof -
  have iv: "sv_i sv = inode s v" using assms(2) by (simp add: inode_def)
  have i: "inode_wf (inode s v)" using assms(1) by (rule wf_inode_wf)
  have "length (sfi_direct (inode s v)) = 15" using i by (simp add: inode_wf_def)
  then have "ptrs (zeroed b fm s) ((inode s v)\<lparr>sfi_indirect := b\<rparr>) = (ptrs s (inode s v))[15 := b]"
    using assms(4) by (simp add: ptrs_def idwords_def list_update_append)
  then show ?thesis using assms i ptrs_indirect [OF i, of s] unfolding iv
    by (intro ext_inode) (simp_all add: inode_wf_def iv)
qed

text \<open>A new block becomes an entry of the indirect block.\<close>

lemma ptrs_set_idword:
  assumes "inode_wf i" "sfi_indirect i \<noteq> 0" "j < 128" "length (sectors s (unat (sfi_indirect i))) = 512"
    "sectors s' (unat (sfi_indirect i)) = set_word (sectors s (unat (sfi_indirect i))) j b"
  shows "ptrs s' i = (ptrs s i)[16 + j := b]"
proof -
  have "idwords s' i = (idwords s i)[j := b]"
    using assms by (intro nth_equalityI) (auto simp: idwords_def word_at_set_word nth_list_update)
  then show ?thesis using assms(1) by (simp add: ptrs_def list_update_append inode_wf_def)
qed

lemma ext_idword:
  assumes w: "wf s v" and n: "new_block b fm s" and id: "sfi_indirect (inode s v) \<noteq> 0" and j: "j < 128"
    and z: "ptrs s (inode s v) ! (16 + j) = 0"
  shows "ext v (16 + j) b s (disk_write (unat (sfi_indirect (inode s v)))
    (set_word (sectors s (unat (sfi_indirect (inode s v)))) j b) (zeroed b fm s))" (is "ext _ _ _ _ ?s")
proof -
  let ?id = "sfi_indirect (inode s v)" and ?z = "zeroed b fm s"
  have i: "inode_wf (inode s v)" and f: "fs_wf s" and v: "svs s v \<noteq> None" using w by (simp_all add: wf_def file_ok_def)
  have len: "length (sectors s x) = 512" for x using fs_wf_disk [OF f] by (simp add: disk_ok_def)
  have idu: "unat ?id \<in> used s" using wf_ptr(2) [OF w, of 15] ptrs_indirect [OF i, of s] id by simp
  then have ne: "unat ?id \<noteq> unat b" using n by (auto simp: new_block_def)
  have inode: "inode ?s v = inode s v" by (simp add: inode_def disk_write_def)
  have "ptrs ?s (inode ?s v) = (ptrs s (inode s v))[16 + j := b]"
    unfolding inode using i id j len by (intro ptrs_set_idword) simp_all
  moreover have "disk_ok ?s" "hw_ok ?s" using fs_wf_zeroed [OF f n] len j by (simp_all add: fs_wf_def)
  then have "fs_wf ?s" using fs_wf_zeroed [OF f n] by (simp add: fs_wf_def disk_write_def)
  moreover have "same_meta v s ?s"
    using same_meta_refl [OF v] n by (simp add: same_meta_def new_block_def disk_write_def)
  moreover have "used ?s = bm_used fm" by (simp add: disk_write_def)
  moreover have "sectors ?s x = sectors s x" if "x \<in> used s" "?id \<noteq> 0 \<longrightarrow> x \<noteq> unat ?id" for x
    using that id n by (auto simp: new_block_def)
  ultimately show ?thesis using n z j ne by (simp add: ext_def new_block_def inode)
qed

lemma bmap_idword_alloc:
  assumes w: "wf s v" and id: "sfi_indirect (inode s v) = ib" "ib \<noteq> 0" and j: "j < 128" and z: "ptrs s (inode s v) ! (16 + j) = 0"
    and free: "0 < free s" and buf: "buf = sectors s (unat ib)"
  shows "\<exists>b s'. on_ok (sfs_balloc s) (\<lambda>block s.
      on_ok (sfs_wblock (set_word buf j block) ib s) (\<lambda>_ s. bmap_hand_back block s) id) id = Some (Inr b, s') \<and>
    ext v (16 + j) b s s'"
proof -
  have f: "fs_wf s" and i: "inode_wf (inode s v)" using w by (simp_all add: wf_def file_ok_def)
  obtain b fm where b: "sfs_balloc s = Some (Inr b, zeroed b fm s)" "new_block b fm s"
    using sfs_balloc_ok [OF f free] by blast
  let ?s = "disk_write (unat ib) (set_word buf j b) (zeroed b fm s)"
  have e: "ext v (16 + j) b s ?s" using ext_idword [OF w b(2) _ j z] id buf by simp
  have "ib < d_blocks s" using wf_ptr(1) [OF w, of 15] ptrs_indirect [OF i, of s] id fs_wf_block [OF f] by simp
  moreover have "length (set_word buf j b) = 512" using fs_wf_disk [OF f] j by (simp add: buf disk_ok_def)
  ultimately have "sfs_wblock (set_word buf j b) ib (zeroed b fm s) = Some (Inr (), ?s)"
    using fs_wf_disk [OF fs_wf_zeroed [OF f b(2)]] by (intro sfs_wblock_ok) simp_all
  moreover have "bmap_hand_back b ?s = Some (Inr b, ?s)"
    using e same_meta_super [of v s ?s] by (intro hand_back_ok) (simp_all add: ext_def)
  ultimately show ?thesis using b e by (intro exI [of _ b] exI [of _ ?s]) simp
qed

lemma ext_ptr: "ext v k b s s' \<Longrightarrow> wf s v \<Longrightarrow> ptrs s' (inode s' v) ! k = b \<and> b \<noteq> 0"
  using length_ptrs [of "inode s v" s] wf_inode_wf [of s v] by (simp add: ext_def)

lemma bmap_direct_alloc:
  assumes w: "wf s v" and k: "k < 15" and z: "ptrs s (inode s v) ! k = 0" and free: "0 < free s"
  shows "\<exists>b s'. bmap_direct v k True s = Some (Inr b, s') \<and> ext v k b s s'"
proof -
  have f: "fs_wf s" and i: "inode_wf (inode s v)" using w by (simp_all add: wf_def file_ok_def)
  obtain sv where sv: "svs s v = Some sv" "sv_i sv = inode s v" using wf_svs [OF w] by blast
  obtain b fm where b: "sfs_balloc s = Some (Inr b, zeroed b fm s)" "new_block b fm s"
    using sfs_balloc_ok [OF f free] by blast
  note e = ext_direct [OF w sv(1) b(2) k z]
  let ?s = "(zeroed b fm s)\<lparr>svs := (svs s)(v \<mapsto>
    sv\<lparr>sv_i := (sv_i sv)\<lparr>sfi_direct := (sfi_direct (sv_i sv))[k := b]\<rparr>, sv_dirty := True\<rparr>)\<rparr>"
  have "rd (sfi_direct (sv_i sv)) (int k) = Some 0"
    using k i z ptrs_direct [OF i k, of s] by (simp add: inode_wf_def rd_def sv(2))
  moreover have "bmap_hand_back b ?s = Some (Inr b, ?s)"
    using e same_meta_super [of v s ?s] by (intro hand_back_ok) (simp_all add: ext_def)
  ultimately show ?thesis
    using e sv(1) b(1) by (intro exI [of _ b] exI [of _ ?s]) (simp add: bmap_direct_def upd_sv_def)
qed

text \<open>With allocation, a block is there afterwards; at most two blocks were taken.\<close>

lemma bmap_indirect_alloc:
  assumes w: "wf s v" and j: "j < 128" and z: "ptrs s (inode s v) ! (16 + j) = 0" and free: "2 \<le> free s"
  shows "\<exists>b s'. bmap_indirect v j True s = Some (Inr b, s') \<and> grows v 2 s s' \<and> b \<noteq> 0 \<and> ptrs s' (inode s' v) ! (16 + j) = b"
proof -
  have f: "fs_wf s" and i: "inode_wf (inode s v)" using w by (simp_all add: wf_def file_ok_def)
  obtain sv where sv: "svs s v = Some sv" "sv_i sv = inode s v" using wf_svs [OF w] by blast
  obtain ib s1 k where 1: "bmap_idblock v s = Some (Inr (ib, sectors s1 (unat ib)), s1)" "grows v k s s1" "k \<le> 1"
    "sfi_indirect (inode s1 v) = ib" "ib \<noteq> 0" "ptrs s1 (inode s1 v) ! (16 + j) = 0"
  proof (cases "sfi_indirect (inode s v) = 0")
    case True
    obtain b fm where b: "sfs_balloc s = Some (Inr b, zeroed b fm s)" "new_block b fm s"
      using sfs_balloc_ok [OF f] free by auto
    note e = ext_indirect [OF w sv(1) b(2) True]
    let ?s = "(zeroed b fm s)\<lparr>svs := (svs s)(v \<mapsto> sv\<lparr>sv_i := (sv_i sv)\<lparr>sfi_indirect := b\<rparr>, sv_dirty := True\<rparr>)\<rparr>"
    have "bmap_idblock v s = Some (Inr (b, sectors ?s (unat b)), ?s)"
      using b(1) sv True by (simp add: bmap_idblock_def upd_sv_def)
    moreover have "sfi_indirect (inode ?s v) = b" "b \<noteq> 0" using b(2) by (simp_all add: inode_def new_block_def)
    moreover have "ptrs ?s (inode ?s v) ! (16 + j) = 0" using e z by (simp add: ext_def)
    ultimately show ?thesis using that ext_grows [OF e w] by blast
  next
    case False
    let ?ib = "sfi_indirect (inode s v)"
    have ib: "?ib < d_blocks s" using wf_ptr(1) [OF w, of 15] ptrs_indirect [OF i, of s] False fs_wf_block [OF f] by simp
    have q: "untouched s (disk_read (unat ?ib) s)" using untouched_read fs_wf_disk [OF f] by simp
    have "sfs_rblock (replicate 512 0) ?ib s = Some (Inr (), sectors s (unat ?ib), disk_read (unat ?ib) s)"
      using fs_wf_disk [OF f] ib by (intro sfs_rblock_ok) simp_all
    then have "bmap_idblock v s = Some (Inr (?ib, sectors (disk_read (unat ?ib) s) (unat ?ib)), disk_read (unat ?ib) s)"
      using sv False by (simp add: bmap_idblock_def Let_def)
    then show ?thesis using that untouched_grows [OF q w] False z untouched_simps(8,10) [OF q] by simp
  qed
  have w1: "wf s1 v" "0 < free s1" using 1(2,3) free by (simp_all add: grows_def)
  have "\<exists>b s'. on_ok (sfs_balloc s1) (\<lambda>block s. on_ok (sfs_wblock (set_word (sectors s1 (unat ib)) j block) ib s)
      (\<lambda>_ s. bmap_hand_back block s) id) id = Some (Inr b, s') \<and> ext v (16 + j) b s1 s'"
    using bmap_idword_alloc [OF w1(1) 1(4,5) j 1(6) w1(2) refl] .
  then obtain b s' where 2: "on_ok (sfs_balloc s1) (\<lambda>block s. on_ok (sfs_wblock (set_word (sectors s1 (unat ib)) j block) ib s)
      (\<lambda>_ s. bmap_hand_back block s) id) id = Some (Inr b, s')" "ext v (16 + j) b s1 s'" by blast
  have "word_at (sectors s1 (unat ib)) j = 0"
    using 1(4,5,6) ptrs_idword [OF wf_inode_wf [OF w1(1)] j, of s1] by simp
  then have "bmap_indirect v j True s = Some (Inr b, s')"
    using 1(1) 2(1) sv by (simp add: bmap_indirect_def Let_def)
  moreover have "grows v 2 s s'"
    using grows_mono [OF grows_trans [OF 1(2) ext_grows [OF 2(2) w1(1)]]] 1(3) by simp
  ultimately show ?thesis using ext_ptr [OF 2(2) w1(1)] by blast
qed

lemma sfs_bmap_alloc:
  assumes w: "wf s v" and fb: "fb < 143" and free: "2 \<le> free s \<or> ptrs s (inode s v) ! pos fb \<noteq> 0"
  shows "\<exists>b s'. sfs_bmap v (of_nat fb) True s = Some (Inr b, s') \<and> grows v 2 s s' \<and> b \<noteq> 0 \<and> ptrs s' (inode s' v) ! pos fb = b"
proof (cases "ptrs s (inode s v) ! pos fb = 0")
  case False
  then obtain s' where s': "sfs_bmap v (of_nat fb) True s = Some (Inr (ptrs s (inode s v) ! pos fb), s')" "untouched s s'"
    using sfs_bmap_mapped [OF w fb, of True] by auto
  then show ?thesis
    using False untouched_simps(8,10) [OF s'(2)] grows_mono [OF untouched_grows [OF s'(2) w], of 2] by auto
next
  case True
  show ?thesis
  proof (cases "fb < 15")
    case d: True
    then obtain b s' where "bmap_direct v fb True s = Some (Inr b, s')" and e: "ext v fb b s s'"
      using bmap_direct_alloc [OF w d] True d free by (auto simp: pos_def)
    then show ?thesis
      using d fb ext_ptr [OF e w] grows_mono [OF ext_grows [OF e w], of 2] by (simp add: sfs_bmap_cases pos_def)
  next
    case False
    then have "pos fb = 16 + (fb - 15)" by (simp add: pos_def)
    then show ?thesis
      using bmap_indirect_alloc [OF w, of "fb - 15"] True False fb free by (simp add: sfs_bmap_cases)
  qed
qed

section \<open>Writing a file\<close>

text \<open>
  A state in which the bytes of file \<open>v\<close> from offset \<open>off\<close> on have been replaced by \<open>data\<close>, with at most
  \<open>k\<close> blocks taken.
\<close>

definition wrote :: "nat \<Rightarrow> nat \<Rightarrow> nat \<Rightarrow> 8 word list \<Rightarrow> sfs_fs \<Rightarrow> sfs_fs \<Rightarrow> bool" where
  "wrote v k off data s s' \<longleftrightarrow> wf s' v \<and> evolves v s s' \<and> sfi_size (inode s' v) = sfi_size (inode s v) \<and> free s \<le> free s' + k \<and>
     (\<forall>m < 143 * 512. fbyte s' (inode s' v) m =
        (if off \<le> m \<and> m < off + length data then data ! (m - off) else fbyte s (inode s v) m))"

lemma wrote_trans:
  assumes "wrote v j off d1 s s1" "wrote v k (off + length d1) d2 s1 s2"
  shows "wrote v (j + k) off (d1 @ d2) s s2"
proof -
  have "fbyte s2 (inode s2 v) m =
      (if off \<le> m \<and> m < off + length (d1 @ d2) then (d1 @ d2) ! (m - off) else fbyte s (inode s v) m)" if "m < 143 * 512" for m
    using assms that by (auto simp: wrote_def nth_append)
  then show ?thesis using assms evolves_trans [of v s s1 s2] unfolding wrote_def by simp
qed

lemma wrote_mono: "wrote v j off d s s' \<Longrightarrow> j \<le> k \<Longrightarrow> wrote v k off d s s'"
  unfolding wrote_def by simp

lemma grows_wrote:
  assumes "grows v k s s'"
  shows "wrote v k off [] s s'"
proof -
  have "fbyte s' (inode s' v) m = fbyte s (inode s v) m" if "m < 143 * 512" for m
    using assms that by (simp add: grows_def fbyte_def less_mult_imp_div_less)
  then show ?thesis using assms by (auto simp: grows_def wrote_def)
qed

lemma grows_wrote_trans: "grows v j s s1 \<Longrightarrow> wrote v k off d s1 s2 \<Longrightarrow> wrote v (j + k) off d s s2"
  using wrote_trans [OF grows_wrote, of v j s s1 k off d s2] by simp

lemma wf_distinct_ptr:
  assumes "wf s v" "j < 144" "k < 144" "j \<noteq> k" "ptrs s (inode s v) ! j \<noteq> 0"
  shows "unat (ptrs s (inode s v) ! j) \<noteq> unat (ptrs s (inode s v) ! k)"
  using distinct_filter_nth [of "ptrs s (inode s v)" j k] assms length_ptrs [OF wf_inode_wf [OF assms(1)], of s]
  by (auto simp: wf_def file_ok_def blocks_ok_def word_unat_eq_iff [symmetric])

lemma disk_write_file:
  assumes w: "wf s v" and fb: "fb < 143" and b: "ptrs s (inode s v) ! pos fb = b" "b \<noteq> 0" and len: "length data = 512"
  shows "wf (disk_write (unat b) data s) v" "evolves v s (disk_write (unat b) data s)"
    "inode (disk_write (unat b) data s) v = inode s v" "free (disk_write (unat b) data s) = free s"
    "\<And>f. f < 143 \<Longrightarrow> fblk (disk_write (unat b) data s) (inode s v) f = (if f = fb then data else fblk s (inode s v) f)"
proof -
  let ?s = "disk_write (unat b) data s"
  have f: "fs_wf s" and i: "inode_wf (inode s v)" and v: "svs s v \<noteq> None" using w by (simp_all add: wf_def file_ok_def)
  show inode: "inode ?s v = inode s v" and "free ?s = free s" by (simp_all add: inode_def free_def disk_write_def)
  have "unat b \<noteq> unat (sfi_indirect (inode s v))"
    using wf_distinct_ptr [OF w, of "pos fb" 15] pos_less [OF fb] b ptrs_indirect [OF i, of s] by simp
  then have p: "ptrs ?s (inode s v) = ptrs s (inode s v)" by (intro ptrs_cong) simp
  have "disk_ok ?s" "hw_ok ?s" using f len by (simp_all add: fs_wf_def)
  then have "fs_wf ?s" using f by (simp add: fs_wf_def disk_write_def)
  then show "wf ?s v" using w by (simp add: wf_def inode file_ok_def p blocks_ok_def) (simp add: disk_write_def)
  have bo: "unat b \<in> owned s v"
    using b pos_less(1) [OF fb] length_ptrs [OF i, of s] unfolding owned_def by (intro imageI) (auto simp: in_set_conv_nth)
  have "owned ?s v = owned s v" by (simp add: owned_def inode p)
  moreover have "same_meta v s ?s" using same_meta_refl [OF v] by (simp add: same_meta_def disk_write_def)
  moreover have "used ?s = used s" by (simp add: disk_write_def)
  moreover have "sectors ?s x = sectors s x" if "x \<in> used s - owned s v" for x using that bo by auto
  ultimately show "evolves v s ?s" by (simp add: evolves_def)
  show "fblk ?s (inode s v) f = (if f = fb then data else fblk s (inode s v) f)" if "f < 143" for f
  proof (cases "f = fb")
    case False
    then have "unat b \<noteq> unat (ptrs s (inode s v) ! pos f)"
      using wf_distinct_ptr [OF w, of "pos fb" "pos f"] pos_less fb that b pos_inj by auto
    then show ?thesis using False by (simp add: fblk_def p Let_def)
  qed (use b in \<open>simp add: fblk_def p\<close>)
qed

text \<open>A part of a block is replaced.\<close>

lemma fbyte_splice:
  assumes "\<And>f. f < 143 \<Longrightarrow> fblk s' i' f = (if f = fb then splice p d (fblk s i fb) else fblk s i f)"
    "length (fblk s i fb) = 512" "p + length d \<le> 512" "m < 143 * 512"
  shows "fbyte s' i' m = (if fb * 512 + p \<le> m \<and> m < fb * 512 + p + length d then d ! (m - (fb * 512 + p)) else fbyte s i m)"
proof -
  have m: "m div 512 < 143" using assms(4) by (simp add: less_mult_imp_div_less)
  have mm: "m = m div 512 * 512 + m mod 512" by simp
  show ?thesis
  proof (cases "m div 512 = fb")
    case False
    then have "m < fb * 512 \<or> (fb + 1) * 512 \<le> m" by (metis (no_types, lifting) Suc_eq_plus1 div_less_iff_less_mult less_Suc_eq_le less_antisym not_less_iff_gr_or_eq not_le zero_less_numeral)
    then show ?thesis using False assms(1) [OF m] assms(3) by (auto simp: fbyte_def)
  next
    case True
    then have "m = fb * 512 + m mod 512" using mm by simp
    then have off: "fb * 512 + p \<le> m \<longleftrightarrow> p \<le> m mod 512" "m < fb * 512 + p + length d \<longleftrightarrow> m mod 512 < p + length d"
      "m - (fb * 512 + p) = m mod 512 - p" by linarith+
    have r: "m mod 512 < 512" by simp
    have "fbyte s' i' m = splice p d (fblk s i fb) ! (m mod 512)" using assms(1) [OF m] True by (simp add: fbyte_def)
    also have "\<dots> = (if p \<le> m mod 512 \<and> m mod 512 < p + length d then d ! (m mod 512 - p) else fblk s i fb ! (m mod 512))"
      using assms(2,3) r by (auto simp: splice_def nth_append min_def)
    also have "fblk s i fb ! (m mod 512) = fbyte s i m" using True by (simp add: fbyte_def)
    finally show ?thesis unfolding off .
  qed
qed

lemma wf_read:
  assumes "wf s v" "fb < 143" "ptrs s (inode s v) ! pos fb = b" "b \<noteq> 0"
  shows "sfs_rblock (replicate 512 0) b s = Some (Inr (), fblk s (inode s v) fb, disk_read (unat b) s)"
    "untouched s (disk_read (unat b) s)" "b < d_blocks s" "fs_wf s"
proof -
  show f: "fs_wf s" using assms(1) by (simp add: wf_def)
  show b: "b < d_blocks s" using wf_ptr(1) [OF assms(1) pos_less(1) [OF assms(2)]] assms(3,4) fs_wf_block [OF f] by simp
  have "sfs_rblock (replicate 512 0) b s = Some (Inr (), sectors s (unat b), disk_read (unat b) s)"
    using fs_wf_disk [OF f] b by (intro sfs_rblock_ok) simp_all
  then show "sfs_rblock (replicate 512 0) b s = Some (Inr (), fblk s (inode s v) fb, disk_read (unat b) s)"
    using assms(3,4) by (simp add: fblk_def)
  show "untouched s (disk_read (unat b) s)" using untouched_read fs_wf_disk [OF f] by simp
qed

lemma evolves_user: "evolves v s s' \<Longrightarrow> uio_ok u s' = uio_ok u s \<and> udata u s' = udata u s"
  using uio_ok_umem [of s' s u] by (simp add: evolves_def same_meta_def)

lemma grows_evolves: "grows v k s s' \<Longrightarrow> evolves v s s'" "grows v k s s' \<Longrightarrow> wf s' v"
  by (simp_all add: grows_def)

lemma wrote_evolves: "wrote v k off d s s' \<Longrightarrow> evolves v s s'" "wrote v k off d s s' \<Longrightarrow> wf s' v"
  by (simp_all add: wrote_def)

lemma file_block: "0 \<le> off \<Longrightarrow> p < 512 \<Longrightarrow> off = int (fb * 512 + p) \<Longrightarrow> word_of_int (off sdiv 512) = of_nat fb"
  by (simp add: sdiv_eq_div)

lemma disk_write_wrote:
  assumes w: "wf s v" and fb: "fb < 143" and b: "ptrs s (inode s v) ! pos fb = b" "b \<noteq> 0" and d: "p + length d \<le> 512"
  shows "wrote v 0 (fb * 512 + p) d s (disk_write (unat b) (splice p d (fblk s (inode s v) fb)) s)"
proof -
  let ?x = "splice p d (fblk s (inode s v) fb)"
  have len: "length (fblk s (inode s v) fb) = 512" using w by (simp add: wf_def length_fblk)
  then have x: "length ?x = 512" using d by (simp add: splice_def)
  note l = disk_write_file [OF w fb b x]
  show ?thesis
    unfolding wrote_def l(3) using l(1,2,4) fbyte_splice [OF l(5) len d] by simp
qed

lemma length_take_udata: "uio_ok u c \<Longrightarrow> n \<le> uio_resid u \<Longrightarrow> length (take n (udata u c)) = n"
  by (frule length_udata) (simp add: uio_ok_def)

lemma partial_write:
  assumes w: "wf s v" and u: "uio_ok u s" "uio_rw u = UIO_WRITE" "uio_offset u = int (fb * 512 + p)" "p < 512"
    and len: "p + len \<le> 512" "len \<le> uio_resid u" and fb: "fb < 143"
    and free: "2 \<le> free s \<or> ptrs s (inode s v) ! pos fb \<noteq> 0"
  shows "\<exists>s'. sfs_partialio v u p len s = Some (Inr (), uskip len u, s') \<and> wrote v 2 (fb * 512 + p) (take len (udata u s)) s s'"
proof -
  obtain b s1 where 1: "sfs_bmap v (of_nat fb) True s = Some (Inr b, s1)" "grows v 2 s s1" "b \<noteq> 0" "ptrs s1 (inode s1 v) ! pos fb = b"
    using sfs_bmap_alloc [OF w fb free] by blast
  have w1: "wf s1 v" using 1(2) by (rule grows_evolves)
  note r = wf_read [OF w1 fb 1(4,3)]
  let ?s2 = "disk_read (unat b) s1" and ?o = "fblk s1 (inode s1 v) fb" and ?d = "take len (udata u s)"
  note q = untouched_simps [OF r(2)]
  have w2: "wf ?s2 v" using untouched_wf [OF r(2) w1] .
  have lo: "length ?o = 512" using r(4) by (rule length_fblk)
  have ld: "length ?d = len" using length_take_udata [OF u(1) len(2)] .
  have u2: "uio_ok u ?s2" "udata u ?s2 = udata u s"
    using uio_ok_umem [of ?s2 s1 u] q evolves_user [OF grows_evolves(1) [OF 1(2)]] u(1) by simp_all
  have mv: "uiomove (drop p ?o) len u ?s2 = Some (Inr (), ?d @ drop len (drop p ?o), uskip len u, ?s2)"
    using uiomove_write [OF u2(1) u(2) len(2), of "drop p ?o"] len(1) lo u2(2) by simp
  have sp: "take p ?o @ ?d @ drop len (drop p ?o) = splice p ?d ?o" "take p ?o @ ?d @ drop (len + p) ?o = splice p ?d ?o"
    using ld by (simp_all add: splice_def add.commute)
  have "length (splice p ?d ?o) = 512" using lo ld len(1) by (simp add: splice_def)
  then have wr: "sfs_wblock (splice p ?d ?o) b ?s2 = Some (Inr (), disk_write (unat b) (splice p ?d ?o) ?s2)"
    using fs_wf_disk [of ?s2] w2 r(3) by (intro sfs_wblock_ok) (simp_all add: wf_def)
  have fbk: "word_of_int (uio_offset u sdiv 512) = (of_nat fb :: 32 word)" using file_block [OF _ u(4) u(3)] u(3) by simp
  have "sfs_partialio v u p len s = Some (Inr (), uskip len u, disk_write (unat b) (splice p ?d ?o) ?s2)"
    using 1(1,3) r(1) mv wr len(1) u(2) by (simp add: sfs_partialio_def fbk Let_def sp)
  moreover have "wrote v 0 (fb * 512 + p) ?d ?s2 (disk_write (unat b) (splice p ?d ?o) ?s2)"
    using disk_write_wrote [OF w2 fb, of b p ?d] 1(3,4) ld len(1) q by simp
  then have "wrote v 2 (fb * 512 + p) ?d s (disk_write (unat b) (splice p ?d ?o) ?s2)"
    using grows_wrote_trans [OF grows_trans [OF 1(2) untouched_grows [OF r(2) w1]]] by fastforce
  ultimately show ?thesis by blast
qed

lemma uskip_block:
  assumes "uio_offset u' = d + 512" "uio_resid u' = 0" "512 \<le> uio_resid u" "0 \<le> uio_offset u"
    "uio_offset u + int (uio_resid u) < 2 ^ 31" "uio_resid u < 2 ^ 32"
  shows "u'\<lparr>uio_offset := s32 (uio_offset u' - d + uio_offset u),
    uio_resid := nat ((int (uio_resid u') - 512 + int (uio_resid u)) mod 2 ^ 32)\<rparr> =
    u'\<lparr>uio_offset := uio_offset u + 512, uio_resid := uio_resid u - 512\<rparr>"
proof -
  have "s32 (uio_offset u' - d + uio_offset u) = uio_offset u + 512" using assms by (subst s32_in) simp_all
  moreover have "(int (uio_resid u') - 512 + int (uio_resid u)) mod 2 ^ 32 = int (uio_resid u - 512)"
    using assms by (subst mod_pos_pos_trivial) simp_all
  ultimately show ?thesis by (simp only: nat_int)
qed

lemma disk_offset:
  assumes "disk_ok s" "b < d_blocks s"
  shows "s32 (uint (b * 512)) = int (unat b) * 512" "int (unat b) * 512 + 512 < 2 ^ 31"
proof -
  have b: "unat b < 4194303" using disk_block_bound [OF assms] by simp
  then have "unat (b * 512) = unat b * 512" by (simp add: unat_word_ariths)
  then have "uint (b * 512) = int (unat b) * 512" by (metis of_nat_mult of_nat_numeral uint_nat)
  moreover show *: "int (unat b) * 512 + 512 < 2 ^ 31" using b by (simp add: uint_less_numeral)
  moreover have "- (2 ^ 31) \<le> int (unat b) * 512" by (rule order_trans [of _ 0]) simp_all
  ultimately show "s32 (uint (b * 512)) = int (unat b) * 512" by (subst s32_in) simp_all
qed

text \<open>The transfer between a block and the region of a \<open>uio\<close>, through the buffer of the disk.\<close>

lemma uio_ok_block:
  assumes "uio_ok u s" "512 \<le> uio_resid u" "disk_ok s" "b < d_blocks s"
  shows "uio_ok (u\<lparr>uio_offset := int (unat b) * 512, uio_resid := 512\<rparr>) s"
  using assms disk_offset [OF assms(3,4)] by (auto simp: uio_ok_def)

lemma blockio_write:
  assumes w: "wf s v" and u: "uio_ok u s" "uio_rw u = UIO_WRITE" "uio_offset u = int (fb * 512)"
    and len: "512 \<le> uio_resid u" and fb: "fb < 143" and free: "2 \<le> free s"
  shows "\<exists>s'. sfs_blockio v u s = Some (Inr (), uskip 512 u, s') \<and> wrote v 2 (fb * 512) (take 512 (udata u s)) s s'"
proof -
  obtain b s1 where 1: "sfs_bmap v (of_nat fb) True s = Some (Inr b, s1)" "grows v 2 s s1" "b \<noteq> 0" "ptrs s1 (inode s1 v) ! pos fb = b"
    using sfs_bmap_alloc [OF w fb] free by blast
  have w1: "wf s1 v" using 1(2) by (rule grows_evolves)
  note r = wf_read [OF w1 fb 1(4,3)]
  have dk: "disk_ok s1" "hw_ok s1" using fs_wf_disk [OF r(4)] by simp_all
  let ?u = "u\<lparr>uio_offset := int (unat b) * 512, uio_resid := 512\<rparr>" and ?d = "take 512 (udata u s)"
  have u1: "uio_ok u s1" "udata u s1 = udata u s" using evolves_user [OF grows_evolves(1) [OF 1(2)]] u(1) by simp_all
  have ud: "udata ?u s1 = udata u s" using u1(2) by (cases "sys u") (simp_all add: udata_def)
  have ld: "length ?d = 512" using length_take_udata [OF u(1) len] .
  have bb: "unat b < unat (d_blocks s1)" using r(3) by (simp add: word_less_nat_alt)
  have rw: "uio_rw ?u = UIO_WRITE" using u(2) by simp
  have "lhd_io ?u s1 = Some (Inr (), uskip 512 ?u, disk_write (unat b) ?d s1)"
    using lhd_io_write [OF dk uio_ok_block [OF u1(1) len dk(1) r(3)] rw _ _ bb] ud by simp
  then have io: "sfs_rwblock ?u s1 = Some (Inr (), uskip 512 ?u, disk_write (unat b) ?d s1)" by (rule sfs_rwblock_Inr)
  have adj: "(uskip 512 ?u)\<lparr>uio_offset := s32 (uio_offset (uskip 512 ?u) - int (unat b) * 512 + uio_offset u),
      uio_resid := nat ((int (uio_resid (uskip 512 ?u)) - 512 + int (uio_resid u)) mod 2 ^ 32)\<rparr> = uskip 512 u"
    using uskip_block [of "uskip 512 ?u" "int (unat b) * 512" u] u(1) len by (simp add: uio_ok_def uskip_def)
  have fbk: "word_of_int (uio_offset u sdiv 512) = (of_nat fb :: 32 word)" using file_block [of _ 0 fb] u(3) by simp
  have "sfs_blockio v u s = Some (Inr (), uskip 512 u, disk_write (unat b) ?d s1)"
    using 1(1,3) io len u(2) adj by (simp add: sfs_blockio_def fbk disk_offset(1) [OF dk(1) r(3)])
  moreover have "splice 0 ?d (fblk s1 (inode s1 v) fb) = ?d" using ld length_fblk [OF r(4)] by simp
  then have "wrote v 0 (fb * 512) ?d s1 (disk_write (unat b) ?d s1)"
    using disk_write_wrote [OF w1 fb 1(4,3), of 0 ?d] ld by simp
  then have "wrote v 2 (fb * 512) ?d s (disk_write (unat b) ?d s1)"
    using grows_wrote_trans [OF 1(2)] by fastforce
  ultimately show ?thesis by blast
qed

lemma blocks_write:
  assumes "wf s v" "uio_ok u s" "uio_rw u = UIO_WRITE" "uio_offset u = int (fb * 512)" "n * 512 \<le> uio_resid u"
    "fb + n \<le> 143" "2 * n \<le> free s"
  shows "\<exists>s'. sfs_blocks n v u s = Some (Inr (), uskip (n * 512) u, s') \<and>
    wrote v (2 * n) (fb * 512) (take (n * 512) (udata u s)) s s'"
  using assms
proof (induction n arbitrary: u s fb)
  case 0
  then have "grows v 0 s s" using untouched_grows [OF untouched_refl] fs_wf_disk by (simp add: wf_def)
  then show ?case using grows_wrote by simp
next
  case (Suc n)
  then obtain s1 where 1: "sfs_blockio v u s = Some (Inr (), uskip 512 u, s1)"
    "wrote v 2 (fb * 512) (take 512 (udata u s)) s s1"
    using blockio_write [OF Suc.prems(1-4)] by auto
  have u1: "uio_ok u s1" "udata u s1 = udata u s"
    using evolves_user [OF wrote_evolves(1) [OF 1(2)]] Suc.prems(2) by simp_all
  have d1: "udata (uskip 512 u) s1 = drop 512 (udata u s)"
    using udata_uskip [OF u1(1), of 512] u1(2) Suc.prems(5) by simp
  have ld: "length (take 512 (udata u s)) = 512"
    using length_take_udata [OF Suc.prems(2)] Suc.prems(5) by simp
  have "\<exists>s'. sfs_blocks n v (uskip 512 u) s1 = Some (Inr (), uskip (n * 512) (uskip 512 u), s') \<and>
      wrote v (2 * n) (Suc fb * 512) (take (n * 512) (udata (uskip 512 u) s1)) s1 s'"
    using Suc.prems 1(2) uio_ok_uskip [OF u1(1), of 512] by (intro Suc.IH) (simp_all add: wrote_def)
  then obtain s' where 2: "sfs_blocks n v (uskip 512 u) s1 = Some (Inr (), uskip (512 + n * 512) u, s')"
    "wrote v (2 * n) (fb * 512 + 512) (take (n * 512) (drop 512 (udata u s))) s1 s'"
    unfolding d1 uskip_add by (auto simp: add.commute)
  have "wrote v (2 + 2 * n) (fb * 512) (take (512 + n * 512) (udata u s)) s s'"
    using wrote_trans [OF 1(2)] 2(2) unfolding ld take_add by blast
  then show ?case using 1(1) 2(1) by (simp add: add.commute)
qed

lemma aligned_write:
  assumes w: "wf s v" and u: "uio_ok u s" "uio_rw u = UIO_WRITE" "uio_offset u = int (fb * 512)"
    and len: "fb * 512 + uio_resid u \<le> 143 * 512" and free: "2 * (uio_resid u div 512 + 1) \<le> free s"
  shows "\<exists>s'. sfs_io_aligned v u s = Some (Inr (), uskip (uio_resid u) u, s') \<and>
    wrote v (2 * (uio_resid u div 512 + 1)) (fb * 512) (take (uio_resid u) (udata u s)) s s'"
proof -
  let ?n = "uio_resid u div 512" and ?r = "uio_resid u mod 512"
  have n: "?n * 512 + ?r = uio_resid u" "?n * 512 \<le> uio_resid u" "fb + ?n \<le> 143" using len by simp_all
  obtain s1 where 1: "sfs_blocks ?n v u s = Some (Inr (), uskip (?n * 512) u, s1)"
    "wrote v (2 * ?n) (fb * 512) (take (?n * 512) (udata u s)) s s1"
    using blocks_write [OF w u n(2,3)] free by auto
  have u1: "uio_ok u s1" "udata u s1 = udata u s" using evolves_user [OF wrote_evolves(1) [OF 1(2)]] u(1) by simp_all
  have res: "uio_resid u - ?n * 512 = ?r" using n(1) by linarith
  have al: "uio_offset u smod 512 = 0" using u(3) by (simp add: smod_eq_mod)
  have ld: "length (take (?n * 512) (udata u s)) = ?n * 512"
    using length_take_udata [OF u(1) n(2)] .
  show ?thesis
  proof (cases "?r = 0")
    case True
    then have n0: "?n * 512 = uio_resid u" using n(1) by simp
    have "sfs_io_aligned v u s = Some (Inr (), uskip (uio_resid u) u, s1)"
      using 1(1) al n0 by (cases "uio_resid u = 0") (simp_all add: sfs_io_aligned_def)
    then show ?thesis using wrote_mono [OF 1(2)] n0 by simp
  next
    case False
    have lt: "fb + ?n < 143" using False len n(1) by linarith
    have "\<exists>s'. sfs_partialio v (uskip (?n * 512) u) 0 ?r s1 = Some (Inr (), uskip ?r (uskip (?n * 512) u), s') \<and>
        wrote v 2 ((fb + ?n) * 512 + 0) (take ?r (udata (uskip (?n * 512) u) s1)) s1 s'"
      using w u 1(2) free lt uio_ok_uskip [OF u1(1) n(2)] res by (intro partial_write) (simp_all add: wrote_def)
    then obtain s' where 2: "sfs_partialio v (uskip (?n * 512) u) 0 ?r s1 = Some (Inr (), uskip (uio_resid u) u, s')"
      "wrote v 2 (fb * 512 + ?n * 512) (take ?r (drop (?n * 512) (udata u s))) s1 s'"
      unfolding uskip_add n(1) udata_uskip [OF u1(1) n(2)] u1(2) by (auto simp: add_mult_distrib)
    have "wrote v (2 * ?n + 2) (fb * 512) (take (?n * 512 + ?r) (udata u s)) s s'"
      using wrote_trans [OF 1(2)] 2(2) unfolding ld take_add by blast
    moreover have "sfs_io_aligned v u s = Some (Inr (), uskip (uio_resid u) u, s')"
      using 1(1) 2(1) al False res by (cases "uio_resid u = 0") (simp_all add: sfs_io_aligned_def)
    ultimately show ?thesis by (simp add: n(1))
  qed
qed

text \<open>The position of a transfer: the partial block at its start, if there is one.\<close>

lemma io_start:
  assumes "uio_offset u = int off"
  shows "sfs_io_body v u s =
    on_ok (if off mod 512 \<noteq> 0 then sfs_partialio v u (off mod 512) (min (512 - off mod 512) (uio_resid u)) s
           else Some (Inr (), u, s)) (\<lambda>_ (u, s). sfs_io_aligned v u s) id"
proof -
  have "nat ((uio_offset u smod int SFS_BLOCKSIZE) mod 2 ^ 32) = off mod 512"
    using assms by (simp add: smod_eq_mod nat_mod_distrib)
  moreover have "usub 512 (off mod 512) = 512 - off mod 512" by simp
  ultimately show ?thesis unfolding sfs_io_body_def Let_def by (simp only:)
qed

lemma body_write:
  assumes w: "wf s v" and u: "uio_ok u s" "uio_rw u = UIO_WRITE" "uio_offset u = int off"
    and len: "off + uio_resid u \<le> 143 * 512" and free: "2 * (uio_resid u div 512 + 2) \<le> free s"
  shows "\<exists>s'. sfs_io_body v u s = Some (Inr (), uskip (uio_resid u) u, s') \<and>
    wrote v (2 * (uio_resid u div 512 + 2)) off (take (uio_resid u) (udata u s)) s s'"
proof (cases "off mod 512 = 0")
  case True
  then have o: "off div 512 * 512 = off" by auto
  have "sfs_io_body v u s = sfs_io_aligned v u s" using True by (simp add: io_start [OF u(3)])
  moreover obtain s' where "sfs_io_aligned v u s = Some (Inr (), uskip (uio_resid u) u, s')"
    "wrote v (2 * (uio_resid u div 512 + 1)) (off div 512 * 512) (take (uio_resid u) (udata u s)) s s'"
    using aligned_write [OF w u(1,2), of "off div 512"] u(3) len free o by auto
  ultimately show ?thesis using wrote_mono [of v _ off] o by auto
next
  case False
  let ?p = "off mod 512" and ?fb = "off div 512"
  define l where "l = min (512 - ?p) (uio_resid u)"
  have p: "?p < 512" "?fb * 512 + ?p = off" by simp_all
  have l: "l \<le> uio_resid u" "?p + l \<le> 512" using p(1) by (auto simp: l_def)
  have fb: "?fb < 143"
  proof (rule ccontr)
    assume "\<not> ?fb < 143"
    then show False using len p False by linarith
  qed
  obtain s1 where 1: "sfs_partialio v u ?p l s = Some (Inr (), uskip l u, s1)" "wrote v 2 off (take l (udata u s)) s s1"
    using partial_write [OF w u(1,2) _ p(1) l(2,1) fb] u(3) free p(2) by fastforce
  have body: "sfs_io_body v u s = sfs_io_aligned v (uskip l u) s1"
    using False 1(1) by (simp add: io_start [OF u(3)] l_def)
  have u1: "uio_ok u s1" "udata u s1 = udata u s" using evolves_user [OF wrote_evolves(1) [OF 1(2)]] u(1) by simp_all
  show ?thesis
  proof (cases "l = uio_resid u")
    case True
    then have "sfs_io_body v u s = Some (Inr (), uskip (uio_resid u) u, s1)" using body by (simp add: sfs_io_aligned_def)
    then show ?thesis using wrote_mono [OF 1(2)] True by simp
  next
    case nl: False
    then have "l = 512 - ?p" "l < uio_resid u" by (auto simp: l_def min_def split: if_splits)
    moreover from this(1) have "off + l = ?fb * 512 + 512" using p by linarith
    ultimately have o: "off + l = (?fb + 1) * 512" "l < uio_resid u" by simp_all
    have le: "(uio_resid u - l) div 512 \<le> uio_resid u div 512" by (simp add: div_le_mono)
    have "\<exists>s'. sfs_io_aligned v (uskip l u) s1 = Some (Inr (), uskip (uio_resid (uskip l u)) (uskip l u), s') \<and>
        wrote v (2 * (uio_resid (uskip l u) div 512 + 1)) ((?fb + 1) * 512) (take (uio_resid (uskip l u)) (udata (uskip l u) s1)) s1 s'"
    proof (rule aligned_write)
      show "wf s1 v" using 1(2) by (rule wrote_evolves)
      show "uio_ok (uskip l u) s1" using uio_ok_uskip [OF u1(1) l(1)] .
      show "uio_offset (uskip l u) = int ((?fb + 1) * 512)" using u(3) o(1) by simp
      show "(?fb + 1) * 512 + uio_resid (uskip l u) \<le> 143 * 512" using len o l(1) by simp
      show "2 * (uio_resid (uskip l u) div 512 + 1) \<le> free s1" using 1(2) free le unfolding wrote_def by simp
    qed (use u(2) in simp)
    then obtain s' where 2: "sfs_io_aligned v (uskip l u) s1 = Some (Inr (), uskip (uio_resid u) u, s')"
      "wrote v (2 * ((uio_resid u - l) div 512 + 1)) (off + l) (take (uio_resid u - l) (drop l (udata u s))) s1 s'"
      unfolding uskip_add udata_uskip [OF u1(1) l(1)] u1(2) o(1) using l(1) by auto
    have "wrote v (2 + 2 * ((uio_resid u - l) div 512 + 1)) off (take (l + (uio_resid u - l)) (udata u s)) s s'"
      using wrote_trans [OF 1(2)] 2(2) unfolding length_take_udata [OF u(1) l(1)] take_add by blast
    then have "wrote v (2 * (uio_resid u div 512 + 2)) off (take (uio_resid u) (udata u s)) s s'"
      using wrote_mono le l(1) by fastforce
    then show ?thesis using 2(1) body by auto
  qed
qed

text \<open>The size of the file is set at the end.\<close>

definition stored :: "nat \<Rightarrow> nat \<Rightarrow> 8 word list \<Rightarrow> sfs_fs \<Rightarrow> sfs_fs \<Rightarrow> bool" where
  "stored v off data s s' \<longleftrightarrow> wf s' v \<and> evolves v s s' \<and>
     unat (sfi_size (inode s' v)) = max (unat (sfi_size (inode s v))) (off + length data) \<and>
     (\<forall>m < 143 * 512. fbyte s' (inode s' v) m =
        (if off \<le> m \<and> m < off + length data then data ! (m - off) else fbyte s (inode s v) m))"

lemma ptrs_size [simp]: "ptrs s (i\<lparr>sfi_size := x\<rparr>) = ptrs s i" "fblk s (i\<lparr>sfi_size := x\<rparr>) = fblk s i"
  by (simp_all add: ptrs_def idwords_def fblk_def fun_eq_iff Let_def cong: if_cong)

lemma upd_sv_size:
  assumes w: "wf s v" "svs s v = Some sv"
  shows "\<exists>s'. upd_sv v (\<lambda>sv. sv\<lparr>sv_i := (sv_i sv)\<lparr>sfi_size := x\<rparr>, sv_dirty := True\<rparr>) s = Some s' \<and> wf s' v \<and> evolves v s s' \<and>
    sfi_size (inode s' v) = x \<and> (\<forall>m. fbyte s' (inode s' v) m = fbyte s (inode s v) m)"
proof -
  let ?i = "(sv_i sv)\<lparr>sfi_size := x\<rparr>"
  let ?s = "s\<lparr>svs := (svs s)(v \<mapsto> sv\<lparr>sv_i := ?i, sv_dirty := True\<rparr>)\<rparr>"
  have iv: "sv_i sv = inode s v" using w(2) by (simp add: inode_def)
  have i: "inode ?s v = (inode s v)\<lparr>sfi_size := x\<rparr>" by (simp add: inode_def iv [symmetric]) (simp add: w(2))
  have "svs s v = Some sv \<and> svs ?s = (svs s)(v \<mapsto> sv\<lparr>sv_i := ?i, sv_dirty := True\<rparr>) \<and> sfi_type ?i = sfi_type (sv_i sv) \<and>
      sfi_linkcount ?i = sfi_linkcount (sv_i sv) \<and> inode_wf ?i = inode_wf (sv_i sv)"
    using w(2) by (simp add: inode_wf_def)
  then have ex: "\<exists>sv i d. svs s v = Some sv \<and> svs ?s = (svs s)(v \<mapsto> sv\<lparr>sv_i := i, sv_dirty := d\<rparr>) \<and>
       sfi_type i = sfi_type (sv_i sv) \<and> sfi_linkcount i = sfi_linkcount (sv_i sv) \<and> inode_wf i = inode_wf (sv_i sv)"
    by blast
  have "same_meta v s ?s" unfolding same_meta_def using ex by (intro conjI) simp_all
  moreover have "owned ?s v = owned s v" unfolding owned_def i by simp
  ultimately have "evolves v s ?s" by (simp add: evolves_def)
  moreover have "file_ok ?s ((inode s v)\<lparr>sfi_size := x\<rparr>)"
    using w(1) by (simp add: wf_def file_ok_def inode_wf_def blocks_ok_def)
  then have "wf ?s v" using w(1) unfolding wf_def i by simp
  moreover have "\<forall>m. fbyte ?s (inode ?s v) m = fbyte s (inode s v) m" unfolding i by (simp add: fbyte_def)
  moreover have "sfi_size (inode ?s v) = x" unfolding i by simp
  ultimately show ?thesis using w(2) by (intro exI [of _ ?s]) (simp add: upd_sv_def)
qed

lemma file_size_s32:
  assumes "unat x \<le> 143 * 512"
  shows "s32 (uint (x :: 32 word)) = uint x"
proof -
  have "uint x < 73217" using assms by (simp add: uint_less_numeral)
  moreover have "0 \<le> uint x" by simp
  ultimately show ?thesis by (subst s32_in) linarith+
qed

lemma sfs_io_finish:
  assumes w: "wf s v" "unat (sfi_size (inode s v)) \<le> 143 * 512"
    and u: "uio_ok u s" "uio_rw u = UIO_WRITE" "uio_offset u = int off" and len: "off + uio_resid u \<le> 143 * 512"
    and 1: "sfs_io_body v u s = Some (Inr (), uskip (uio_resid u) u, s1)" "wrote v k off (take (uio_resid u) (udata u s)) s s1"
  shows "\<exists>s'. sfs_io v u s = Some (Inr (), uskip (uio_resid u) u, s') \<and> stored v off (take (uio_resid u) (udata u s)) s s'"
proof -
  let ?n = "uio_resid u" and ?d = "take (uio_resid u) (udata u s)"
  obtain sv where sv: "svs s v = Some sv" using wf_svs [OF w(1)] by blast
  have ld: "length ?d = ?n" using length_take_udata [OF u(1)] by simp
  have w1: "wf s1 v" using 1(2) by (rule wrote_evolves)
  then obtain sv1 where sv1: "svs s1 v = Some sv1" "sv_i sv1 = inode s1 v" using wf_svs by blast
  have sz: "sfi_size (inode s1 v) = sfi_size (inode s v)" using 1(2) by (simp add: wrote_def)
  have iff: "uint (sfi_size (inode s v)) < int off + int ?n \<longleftrightarrow> unat (sfi_size (inode s v)) < off + ?n"
    by (metis of_nat_add of_nat_less_iff uint_nat)
  have z: "(uskip ?n u)\<lparr>uio_resid := 0\<rparr> = uskip ?n u" by (simp add: uskip_def)
  have io: "sfs_io v u s = do {
      s \<leftarrow> (if unat (sfi_size (inode s v)) < off + ?n
           then upd_sv v (\<lambda>sv. sv\<lparr>sv_i := (sv_i sv)\<lparr>sfi_size := word_of_int (uio_offset (uskip ?n u))\<rparr>, sv_dirty := True\<rparr>) s1
           else Some s1);
      Some (Inr (), uskip ?n u, s) }"
    using 1(1) sv sv1 u(2,3) sz file_size_s32 [OF w(2)]
    by (simp add: sfs_io_def Let_def iff z)
  show ?thesis
  proof (cases "unat (sfi_size (inode s v)) < off + ?n")
    case False
    then show ?thesis using io 1(2) ld by (simp add: wrote_def stored_def max_def)
  next
    case True
    let ?x = "word_of_int (uio_offset (uskip ?n u)) :: 32 word"
    have x: "unat ?x = off + ?n" using u(3) len by (simp add: unat_of_nat flip: of_nat_add)
    obtain s' where s': "upd_sv v (\<lambda>sv. sv\<lparr>sv_i := (sv_i sv)\<lparr>sfi_size := ?x\<rparr>, sv_dirty := True\<rparr>) s1 = Some s'" "wf s' v"
      "evolves v s1 s'" "sfi_size (inode s' v) = ?x" "\<forall>m. fbyte s' (inode s' v) m = fbyte s1 (inode s1 v) m"
      using upd_sv_size [OF w1 sv1(1), of ?x] by blast
    have "stored v off ?d s s'"
      using s'(2-5) 1(2) x True ld evolves_trans [OF wrote_evolves(1) [OF 1(2)] s'(3)]
      by (simp add: stored_def wrote_def max_def)
    then show ?thesis using io s'(1) True by auto
  qed
qed

lemma sfs_io_write:
  assumes w: "wf s v" "unat (sfi_size (inode s v)) \<le> 143 * 512"
    and u: "uio_ok u s" "uio_rw u = UIO_WRITE" "uio_offset u = int off"
    and len: "off + uio_resid u \<le> 143 * 512" and free: "2 * (uio_resid u div 512 + 2) \<le> free s"
  shows "\<exists>s'. sfs_io v u s = Some (Inr (), uskip (uio_resid u) u, s') \<and> stored v off (take (uio_resid u) (udata u s)) s s'"
  using body_write [OF w(1) u len free] sfs_io_finish [OF w u len] by blast

text \<open>A transfer within one block needs at most the room for that block.\<close>

lemma sfs_io_write_one:
  assumes w: "wf s v" "unat (sfi_size (inode s v)) \<le> 143 * 512"
    and u: "uio_ok u s" "uio_rw u = UIO_WRITE" "uio_offset u = int off"
    and len: "off mod 512 + uio_resid u \<le> 512" "0 < uio_resid u" "uio_resid u < 512" "off + uio_resid u \<le> 143 * 512"
    and free: "2 \<le> free s \<or> ptrs s (inode s v) ! pos (off div 512) \<noteq> 0"
  shows "\<exists>s'. sfs_io v u s = Some (Inr (), uskip (uio_resid u) u, s') \<and> stored v off (take (uio_resid u) (udata u s)) s s'"
proof -
  let ?p = "off mod 512" and ?fb = "off div 512"
  have p: "?p < 512" "?fb * 512 + ?p = off" by simp_all
  have fb: "?fb < 143" using len(2,4) by (simp add: div_less_iff_less_mult)
  have al: "uio_offset u smod 512 = int ?p" using u(3) zmod_int [of off 512] by (simp add: smod_eq_mod)
  obtain s1 where 1: "sfs_partialio v u ?p (uio_resid u) s = Some (Inr (), uskip (uio_resid u) u, s1)"
    "wrote v 2 off (take (uio_resid u) (udata u s)) s s1"
    using partial_write [OF w(1) u(1,2) _ p(1) len(1) _ fb free] u(3) p(2) by auto
  have "sfs_io_body v u s = Some (Inr (), uskip (uio_resid u) u, s1)"
    using 1(1) len al by (cases "?p = 0") (simp_all add: io_start [OF u(3)] sfs_io_aligned_def min_absorb2)
  then show ?thesis using sfs_io_finish [OF w u len(4) _ 1(2)] by blast
qed

end
