(* ===== verification/Kern_SfsRead.thy ===== *)
theory Kern_SfsRead
  imports Kern_SfsFile
begin

text \<open>
  Reading a file: the bytes that arrive are those of the file, and nothing but the memory of the reader,
  the buffer of the disk and its count of operations changes.
\<close>

section \<open>States that a read leaves behind\<close>

lemma umem_upd_simps [simp]:
  "ptrs (s\<lparr>umem := m\<rparr>) i = ptrs s i" "fblk (s\<lparr>umem := m\<rparr>) i = fblk s i" "inode (s\<lparr>umem := m\<rparr>) v = inode s v"
  "wf (s\<lparr>umem := m\<rparr>) v = wf s v" "fbyte (s\<lparr>umem := m\<rparr>) i = fbyte s i"
proof -
  show p: "ptrs (s\<lparr>umem := m\<rparr>) i = ptrs s i" for i by (simp add: ptrs_def idwords_def)
  show f: "fblk (s\<lparr>umem := m\<rparr>) i = fblk s i" by (simp add: fblk_def fun_eq_iff p Let_def cong: if_cong)
  show i: "inode (s\<lparr>umem := m\<rparr>) v = inode s v" by (simp add: inode_def)
  show "wf (s\<lparr>umem := m\<rparr>) v = wf s v"
    by (simp add: wf_def fs_wf_def disk_ok_def hw_ok_def file_ok_def i p blocks_ok_def)
  show "fbyte (s\<lparr>umem := m\<rparr>) i = fbyte s i" by (simp add: fbyte_def fun_eq_iff f)
qed

lemma uput_state:
  obtains m where "snd (uput d (u, s)) = s\<lparr>umem := m\<rparr>"
proof (cases "sys u")
  case True
  then show ?thesis using that [of "umem s"] by (simp add: uput_def)
next
  case False
  then show ?thesis using that by (simp add: uput_def)
qed

lemma uput_file [simp]:
  "inode (snd (uput d (u, s))) v = inode s v" "wf (snd (uput d (u, s))) v = wf s v"
  "fbyte (snd (uput d (u, s))) i = fbyte s i" "fblk (snd (uput d (u, s))) i = fblk s i"
  using uput_state [of d u s] by (metis umem_upd_simps)+

text \<open>The changes of \<open>untouched\<close> and those of \<open>uput\<close> do not meet.\<close>

lemma untouched_uput:
  assumes "untouched (snd (uput d (u, s))) s2"
  obtains s3 where "untouched s s3" "uput d (u, s3) = (fst (uput d (u, s)), s2)"
proof -
  obtain l n where s2: "length l = 512" "hw_n (snd (uput d (u, s))) \<le> n" "s2 = (snd (uput d (u, s)))\<lparr>lh_buf := l, hw_n := n\<rparr>"
    using assms by (auto simp: untouched_def)
  have "untouched s (s\<lparr>lh_buf := l, hw_n := n\<rparr>)" using s2(1,2) by (auto simp: untouched_def)
  moreover have "uput d (u, s\<lparr>lh_buf := l, hw_n := n\<rparr>) = (fst (uput d (u, s)), s2)"
    unfolding s2(3) by (cases "sys u") (simp_all add: uput_def)
  ultimately show ?thesis using that by blast
qed

definition bytes_of :: "sfs_fs \<Rightarrow> nat \<Rightarrow> nat \<Rightarrow> nat \<Rightarrow> 8 word list" where
  "bytes_of s v off n = map (fbyte s (inode s v)) [off..<off + n]"

definition reads ::
    "nat \<Rightarrow> nat \<Rightarrow> nat \<Rightarrow> uio \<Rightarrow> sfs_fs \<Rightarrow> ((errno + unit) \<times> uio \<times> sfs_fs) option \<Rightarrow> bool" where
  "reads v off n u s r \<longleftrightarrow> (\<exists>s1. untouched s s1 \<and> r = Some (Inr (), uput (bytes_of s v off n) (u, s1)))"

lemma length_bytes_of [simp]: "length (bytes_of s v off n) = n"
  by (simp add: bytes_of_def)

lemma bytes_of_add: "bytes_of s v off (n + m) = bytes_of s v off n @ bytes_of s v (off + n) m"
  using upt_add_eq_append [of off "off + n" m] by (simp add: bytes_of_def add.assoc)

lemma bytes_of_untouched: "untouched s s1 \<Longrightarrow> bytes_of s1 v off n = bytes_of s v off n"
  by (simp add: bytes_of_def untouched_simps)

lemma bytes_of_uput [simp]: "bytes_of (snd (uput d (u, s))) v off n = bytes_of s v off n"
  by (simp add: bytes_of_def)

lemma reads_trans:
  assumes "reads v off n u s (Some (Inr (), u1, s1))" "reads v (off + n) m u1 s1 r"
  shows "reads v off (n + m) u s r"
proof -
  let ?d = "bytes_of s v off n"
  obtain q where q: "untouched s q" "(u1, s1) = uput ?d (u, q)" using assms(1) by (auto simp: reads_def)
  have us: "u1 = fst (uput ?d (u, q))" "s1 = snd (uput ?d (u, q))" using q(2) by (metis fst_conv, metis snd_conv)
  obtain s2 where s2: "untouched s1 s2" "r = Some (Inr (), uput (bytes_of s1 v (off + n) m) (u1, s2))"
    using assms(2) by (auto simp: reads_def)
  obtain s3 where s3: "untouched q s3" "uput ?d (u, s3) = (u1, s2)" using untouched_uput [of ?d u q s2] s2(1) us by metis
  have "bytes_of s1 v (off + n) m = bytes_of s v (off + n) m" using us(2) bytes_of_untouched [OF q(1)] by simp
  then have "r = Some (Inr (), uput (bytes_of s v off (n + m)) (u, s3))"
    using s2(2) s3(2) uput_append [of "bytes_of s v (off + n) m" ?d "(u, s3)"] by (simp add: bytes_of_add)
  then show ?thesis using untouched_trans [OF q(1) s3(1)] by (auto simp: reads_def)
qed

lemma reads_state:
  assumes "reads v off n u s (Some (Inr (), u1, s1))" "wf s v" "uio_ok u s" "n \<le> uio_resid u"
  shows "wf s1 v" "uio_ok u1 s1" "uio_resid u1 = uio_resid u - n" "uio_offset u1 = uio_offset u + int n" "uio_rw u1 = uio_rw u"
proof -
  let ?d = "bytes_of s v off n"
  obtain q where q: "untouched s q" "(u1, s1) = uput ?d (u, q)" using assms(1) by (auto simp: reads_def)
  have us: "u1 = fst (uput ?d (u, q))" "s1 = snd (uput ?d (u, q))" using q(2) by (metis fst_conv, metis snd_conv)
  have "uio_ok u q" using uio_ok_umem [of q s u] untouched_simps [OF q(1)] assms(3) by simp
  then show "uio_ok u1 s1" unfolding us using assms(4) by (intro uio_ok_uput) simp_all
  show "wf s1 v" unfolding us using untouched_wf [OF q(1) assms(2)] by simp
  show "uio_resid u1 = uio_resid u - n" "uio_offset u1 = uio_offset u + int n" "uio_rw u1 = uio_rw u" unfolding us by simp_all
qed

section \<open>The reading functions\<close>

lemma fblk_bytes:
  assumes "fs_wf s" "p + n \<le> 512"
  shows "take n (drop p (fblk s (inode s v) fb)) = bytes_of s v (fb * 512 + p) n"
proof (rule nth_equalityI)
  show "take n (drop p (fblk s (inode s v) fb)) ! j = bytes_of s v (fb * 512 + p) n ! j"
    if "j < length (take n (drop p (fblk s (inode s v) fb)))" for j
  proof -
    have j: "j < n" "p + j < 512" using that assms length_fblk [OF assms(1), of "inode s v" fb] by auto
    then have "(fb * 512 + (p + j)) div 512 = fb" "(fb * 512 + (p + j)) mod 512 = p + j" by simp_all
    then show ?thesis using j length_fblk [OF assms(1), of "inode s v" fb]
      by (simp add: bytes_of_def fbyte_def add.assoc)
  qed
qed (use assms length_fblk [OF assms(1), of "inode s v" fb] in simp)

lemma partial_read:
  assumes w: "wf s v" and u: "uio_ok u s" "uio_rw u = UIO_READ" "uio_offset u = int (fb * 512 + p)" "p < 512"
    and len: "p + len \<le> 512" "len \<le> uio_resid u" and fb: "fb < 143"
  shows "reads v (fb * 512 + p) len u s (sfs_partialio v u p len s)"
proof -
  let ?b = "ptrs s (inode s v) ! pos fb"
  have f: "fs_wf s" using w by (simp add: wf_def)
  obtain s1 where 1: "sfs_bmap v (of_nat fb) False s = Some (Inr ?b, s1)" "untouched s s1"
    using sfs_bmap_mapped [OF w fb, of False] by auto
  have w1: "wf s1 v" using untouched_wf [OF 1(2) w] .
  have fbk: "word_of_int (uio_offset u sdiv 512) = (of_nat fb :: 32 word)" using file_block [OF _ u(4) u(3)] u(3) by simp
  obtain s2 where 2: "untouched s s2" "(if ?b = 0 then do { kassert (uio_rw u = UIO_READ); Some (Inr (), replicate 512 0, s1) }
      else sfs_rblock (replicate 512 0) ?b s1) = Some (Inr (), fblk s (inode s v) fb, s2)"
  proof (cases "?b = 0")
    case True
    then show ?thesis using that [OF 1(2)] u(2) by (simp add: fblk_def)
  next
    case False
    have "ptrs s1 (inode s1 v) ! pos fb = ?b" using untouched_simps(8,10) [OF 1(2)] by simp
    note r = wf_read [OF w1 fb this False]
    show ?thesis using that [OF untouched_trans [OF 1(2) r(2)]] r(1) False untouched_simps(9,10) [OF 1(2)] by simp
  qed
  have "uio_ok u s2" using uio_ok_umem [of s2 s u] untouched_simps [OF 2(1)] u(1) by simp
  then have "uiomove (drop p (fblk s (inode s v) fb)) len u s2 =
      Some (Inr (), drop p (fblk s (inode s v) fb), uput (bytes_of s v (fb * 512 + p) len) (u, s2))"
    using uiomove_read [of u s2 len "drop p (fblk s (inode s v) fb)"] u(2) len length_fblk [OF f, of "inode s v" fb]
      fblk_bytes [OF f len(1), of v fb] by simp
  moreover have "uio_rw (fst (uput (bytes_of s v (fb * 512 + p) len) (u, s2))) = UIO_READ" using u(2) by simp
  ultimately have "sfs_partialio v u p len s = Some (Inr (), uput (bytes_of s v (fb * 512 + p) len) (u, s2))"
    using 1(1) 2(2) u(2) len(1)
    by (cases "uput (bytes_of s v (fb * 512 + p) len) (u, s2)") (simp add: sfs_partialio_def fbk)
  then show ?thesis using 2(1) by (auto simp: reads_def)
qed

lemma uput_block:
  assumes "length d = 512" "512 \<le> uio_resid u" "uio_ok u s"
  shows "(let (u', s') = uput d (u\<lparr>uio_offset := x, uio_resid := 512\<rparr>, s) in
      (u'\<lparr>uio_offset := s32 (uio_offset u' - x + uio_offset u),
          uio_resid := nat ((int (uio_resid u') - 512 + int (uio_resid u)) mod 2 ^ 32)\<rparr>, s')) = uput d (u, s)"
proof -
  let ?u = "u\<lparr>uio_offset := x, uio_resid := 512\<rparr>"
  obtain u' s' where us: "uput d (?u, s) = (u', s')" by (metis prod.exhaust)
  have "uio_offset u' = x + 512" "uio_resid u' = 0"
    using uput_simps(3,4) [of d ?u s] us assms(1) by simp_all
  moreover have "uio_resid u < 2 ^ 32" "0 \<le> uio_offset u" "uio_offset u + int (uio_resid u) < 2 ^ 31"
    using assms(3) by (auto simp: uio_ok_def)
  ultimately have "u'\<lparr>uio_offset := s32 (uio_offset u' - x + uio_offset u),
      uio_resid := nat ((int (uio_resid u') - 512 + int (uio_resid u)) mod 2 ^ 32)\<rparr> =
      u'\<lparr>uio_offset := uio_offset u + 512, uio_resid := uio_resid u - 512\<rparr>"
    using assms(2) by (intro uskip_block) simp_all
  moreover have "(u'\<lparr>uio_offset := uio_offset u + 512, uio_resid := uio_resid u - 512\<rparr>, s') = uput d (u, s)"
    using us assms(1) by (cases "sys u") (auto simp: uput_def uskip_def)
  ultimately show ?thesis by (simp add: us)
qed

lemma blockio_read:
  assumes w: "wf s v" and u: "uio_ok u s" "uio_rw u = UIO_READ" "uio_offset u = int (fb * 512)"
    and len: "512 \<le> uio_resid u" and fb: "fb < 143"
  shows "reads v (fb * 512) 512 u s (sfs_blockio v u s)"
proof -
  let ?b = "ptrs s (inode s v) ! pos fb" and ?d = "bytes_of s v (fb * 512) 512"
  have f: "fs_wf s" using w by (simp add: wf_def)
  have d: "fblk s (inode s v) fb = ?d"
    using fblk_bytes [OF f, of 0 512 v fb] length_fblk [OF f, of "inode s v" fb] by simp
  obtain s1 where 1: "sfs_bmap v (of_nat fb) False s = Some (Inr ?b, s1)" "untouched s s1"
    using sfs_bmap_mapped [OF w fb, of False] by auto
  have w1: "wf s1 v" using untouched_wf [OF 1(2) w] .
  have fbk: "word_of_int (uio_offset u sdiv 512) = (of_nat fb :: 32 word)" using file_block [of _ 0 fb] u(3) by simp
  have u1: "uio_ok u s1" using uio_ok_umem [of s1 s u] untouched_simps [OF 1(2)] u(1) by simp
  show ?thesis
  proof (cases "?b = 0")
    case True
    then have "?d = replicate 512 0" using d by (simp add: fblk_def)
    then have "sfs_blockio v u s = Some (Inr (), uput ?d (u, s1))"
      using 1(1) True u(2) uiomovezeros_read [OF u1 u(2) len] by (simp add: sfs_blockio_def fbk)
    then show ?thesis using 1(2) by (auto simp: reads_def)
  next
    case False
    have p1: "ptrs s1 (inode s1 v) ! pos fb = ?b" using untouched_simps(8,10) [OF 1(2)] by simp
    note r = wf_read [OF w1 fb p1 False]
    have dk: "disk_ok s1" "hw_ok s1" using fs_wf_disk [OF r(4)] by simp_all
    let ?u = "u\<lparr>uio_offset := int (unat ?b) * 512, uio_resid := 512\<rparr>" and ?s = "disk_read (unat ?b) s1"
    have bb: "unat ?b < unat (d_blocks s1)" using r(3) by (simp add: word_less_nat_alt)
    have sec: "sectors s1 (unat ?b) = ?d" using d False untouched_simps(2) [OF 1(2)] by (simp add: fblk_def)
    have rw: "uio_rw ?u = UIO_READ" using u(2) by simp
    have "lhd_io ?u s1 = Some (Inr (), uput ?d (?u, ?s))"
      using lhd_io_read [OF dk uio_ok_block [OF u1 len dk(1) r(3)] rw _ _ bb] sec by simp
    then have io: "sfs_rwblock ?u s1 = Some (Inr (), uput ?d (?u, ?s))" by (rule sfs_rwblock_Inr)
    have "uio_ok u ?s" using uio_ok_umem [of ?s s1 u] u1 by simp
    note adj = uput_block [OF length_bytes_of len this, of s v "fb * 512" "int (unat ?b) * 512"]
    have "sfs_blockio v u s = Some (Inr (), uput ?d (u, ?s))"
      using 1(1) False io len u(2) adj
      by (cases "uput ?d (?u, ?s)") (simp add: sfs_blockio_def fbk disk_offset(1) [OF dk(1) r(3)])
    then show ?thesis using untouched_trans [OF 1(2) r(2)] by (auto simp: reads_def)
  qed
qed

lemma reads_0: "wf s v \<Longrightarrow> reads v off 0 u s (Some (Inr (), u, s))"
  using untouched_refl [of s] fs_wf_disk [of s] by (auto simp: reads_def bytes_of_def wf_def)

lemma reads_Some:
  assumes "reads v off n u s r"
  obtains u1 s1 where "r = Some (Inr (), u1, s1)"
  using assms unfolding reads_def by (metis prod.exhaust)

lemma blocks_read:
  assumes "wf s v" "uio_ok u s" "uio_rw u = UIO_READ" "uio_offset u = int (fb * 512)" "n * 512 \<le> uio_resid u" "fb + n \<le> 143"
  shows "reads v (fb * 512) (n * 512) u s (sfs_blocks n v u s)"
  using assms
proof (induction n arbitrary: u s fb)
  case 0
  then show ?case using reads_0 by simp
next
  case (Suc n)
  have 1: "reads v (fb * 512) 512 u s (sfs_blockio v u s)" using Suc.prems by (intro blockio_read) simp_all
  then obtain u1 s1 where us: "sfs_blockio v u s = Some (Inr (), u1, s1)" by (rule reads_Some)
  note st = reads_state [OF 1 [unfolded us] Suc.prems(1,2)]
  have "reads v (Suc fb * 512) (n * 512) u1 s1 (sfs_blocks n v u1 s1)"
    using Suc.prems st by (intro Suc.IH) simp_all
  then have "reads v (fb * 512 + 512) (n * 512) u1 s1 (sfs_blocks (Suc n) v u s)" by (simp add: us add.commute)
  then show ?case using reads_trans [OF 1 [unfolded us]] by simp
qed

lemma aligned_read:
  assumes w: "wf s v" and u: "uio_ok u s" "uio_rw u = UIO_READ" "uio_offset u = int (fb * 512)"
    and len: "fb * 512 + uio_resid u \<le> 143 * 512"
  shows "reads v (fb * 512) (uio_resid u) u s (sfs_io_aligned v u s)"
proof (cases "uio_resid u = 0")
  case True
  then show ?thesis using reads_0 [OF w] by (simp add: sfs_io_aligned_def)
next
  case False
  let ?n = "uio_resid u div 512" and ?r = "uio_resid u mod 512"
  have n: "?n * 512 + ?r = uio_resid u" "?n * 512 \<le> uio_resid u" "fb + ?n \<le> 143" using len by simp_all
  have 1: "reads v (fb * 512) (?n * 512) u s (sfs_blocks ?n v u s)" using blocks_read [OF w u n(2,3)] .
  then obtain u1 s1 where us: "sfs_blocks ?n v u s = Some (Inr (), u1, s1)" by (rule reads_Some)
  note st = reads_state [OF 1 [unfolded us] w u(1) n(2)]
  have res: "uio_resid u1 = ?r" using st(3) n(1) by linarith
  have al: "uio_offset u smod 512 = 0" using u(3) by (simp add: smod_eq_mod)
  have io: "sfs_io_aligned v u s = (if 0 < ?r then sfs_partialio v u1 0 ?r s1 else Some (Inr (), u1, s1))"
    using us al res False by (simp add: sfs_io_aligned_def)
  show ?thesis
  proof (cases "?r = 0")
    case True
    then show ?thesis using io 1 us n(1) by simp
  next
    case r: False
    have "fb + ?n < 143" using r len n(1) by linarith
    then have "reads v ((fb + ?n) * 512 + 0) ?r u1 s1 (sfs_partialio v u1 0 ?r s1)"
      using st u res by (intro partial_read) simp_all
    then have "reads v (fb * 512 + ?n * 512) ?r u1 s1 (sfs_io_aligned v u s)" using io r by (simp add: add_mult_distrib)
    then show ?thesis using reads_trans [OF 1 [unfolded us]] n(1) by metis
  qed
qed

lemma body_read:
  assumes w: "wf s v" and u: "uio_ok u s" "uio_rw u = UIO_READ" "uio_offset u = int off"
    and len: "off + uio_resid u \<le> 143 * 512"
  shows "reads v off (uio_resid u) u s (sfs_io_body v u s)"
proof (cases "off mod 512 = 0")
  case True
  then have o: "off div 512 * 512 = off" by auto
  show ?thesis using aligned_read [OF w u(1,2), of "off div 512"] u(3) len o True by (simp add: io_start [OF u(3)])
next
  case False
  let ?p = "off mod 512" and ?fb = "off div 512"
  define l where "l = min (512 - ?p) (uio_resid u)"
  have p: "?p < 512" "?fb * 512 + ?p = off" by simp_all
  have l: "l \<le> uio_resid u" "?p + l \<le> 512" using p(1) by (auto simp: l_def)
  have fb: "?fb < 143"
  proof (rule ccontr)
    assume "\<not> ?fb < 143"
    then show False using len p False by linarith
  qed
  have 1: "reads v off l u s (sfs_partialio v u ?p l s)"
    using partial_read [OF w u(1,2) _ p(1) l(2,1) fb] u(3) p(2) by simp
  then obtain u1 s1 where us: "sfs_partialio v u ?p l s = Some (Inr (), u1, s1)" by (rule reads_Some)
  note st = reads_state [OF 1 [unfolded us] w u(1) l(1)]
  have body: "sfs_io_body v u s = sfs_io_aligned v u1 s1"
    using False us by (simp add: io_start [OF u(3)] l_def)
  show ?thesis
  proof (cases "l = uio_resid u")
    case True
    then show ?thesis using 1 us body st(3) by (simp add: sfs_io_aligned_def)
  next
    case nl: False
    then have "l = 512 - ?p" by (auto simp: l_def min_def split: if_splits)
    then have "off + l = ?fb * 512 + 512" using p by linarith
    then have o: "off + l = (?fb + 1) * 512" by simp
    have "reads v ((?fb + 1) * 512) (uio_resid u1) u1 s1 (sfs_io_aligned v u1 s1)"
      using st u len o l(1) by (intro aligned_read) simp_all
    then have "reads v (off + l) (uio_resid u - l) u1 s1 (sfs_io_body v u s)" using o st(3) body by simp
    then show ?thesis using reads_trans [OF 1 [unfolded us]] l(1) by fastforce
  qed
qed

text \<open>A read stops at the end of the file; at or behind it, nothing is read.\<close>

lemma sfs_io_read_eof:
  assumes "wf s v" "unat (sfi_size (inode s v)) \<le> 143 * 512" "uio_rw u = UIO_READ" "uio_offset u = int off"
    "unat (sfi_size (inode s v)) \<le> off"
  shows "sfs_io v u s = Some (Inr (), u, s)"
proof -
  obtain sv where sv: "svs s v = Some sv" "sv_i sv = inode s v" using wf_svs [OF assms(1)] by blast
  have "uint (sfi_size (inode s v)) \<le> int off" using assms(5) by (metis of_nat_le_iff uint_nat)
  then show ?thesis using assms(3,4) sv file_size_s32 [OF assms(2)] by (simp add: sfs_io_def)
qed

lemma sfs_io_read:
  assumes w: "wf s v" "unat (sfi_size (inode s v)) \<le> 143 * 512"
    and u: "uio_ok u s" "uio_rw u = UIO_READ" "uio_offset u = int off" "off < unat (sfi_size (inode s v))"
  shows "reads v off (min (uio_resid u) (unat (sfi_size (inode s v)) - off)) u s (sfs_io v u s)"
proof -
  define z where "z = unat (sfi_size (inode s v))"
  define n where "n = min (uio_resid u) (z - off)"
  define x where "x = uio_resid u - n"
  let ?u = "u\<lparr>uio_resid := n\<rparr>"
  obtain sv where sv: "svs s v = Some sv" "sv_i sv = inode s v" using wf_svs [OF w(1)] by blast
  have zz: "s32 (uint (sfi_size (inode s v))) = int z" using file_size_s32 [OF w(2)] by (simp add: z_def)
  have oz: "off < z" "z \<le> 143 * 512" using u(4) w(2) by (simp_all add: z_def)
  have e: "s32 (uio_offset u + int (uio_resid u)) = int (off + uio_resid u)"
    using u(1,3) by (subst s32_in) (auto simp: uio_ok_def)
  have n: "n \<le> uio_resid u" "off + n \<le> z" using oz by (auto simp: n_def)
  have uk: "uio_ok ?u s" using u(1) n(1) by (auto simp: uio_ok_def)
  have "reads v off n ?u s (sfs_io_body v ?u s)"
    using body_read [OF w(1) uk _ _, of off] u(2,3) n(2) oz(2) by simp
  then obtain q where q: "untouched s q" "sfs_io_body v ?u s = Some (Inr (), uput (bytes_of s v off n) (?u, q))"
    by (auto simp: reads_def)
  obtain u1 s1 where us: "uput (bytes_of s v off n) (?u, q) = (u1, s1)" by (metis prod.exhaust)
  have u1: "uio_resid u1 = 0" "uio_rw u1 = UIO_READ" using uput_simps(3,5) [of "bytes_of s v off n" ?u q] us u(2) by simp_all
  have "wf s1 v" using uput_file(2) [of "bytes_of s v off n" ?u q v] us untouched_wf [OF q(1) w(1)] by simp
  then obtain sv1 where sv1: "svs s1 v = Some sv1" using wf_svs by blast
  have fin: "(u1\<lparr>uio_resid := x\<rparr>, s1) = uput (bytes_of s v off n) (u, q)"
    using us n(1) by (cases "sys u") (auto simp: uput_def uskip_def x_def)
  have x: "x < 2 ^ 32" using u(1) by (auto simp: uio_ok_def x_def)
  have ux: "uio_resid u - x = n" using n(1) by (simp add: x_def)
  have "sfs_io v u s = Some (Inr (), u1\<lparr>uio_resid := x\<rparr>, s1)"
  proof (cases "z < off + uio_resid u")
    case True
    then have "(int off + int (uio_resid u) - int z) = int x" "x < uio_resid u" using oz by (auto simp: x_def n_def)
    then show ?thesis using True sv sv1 zz e u(2,3) oz q(2) us u1 x ux by (simp add: sfs_io_def)
  next
    case False
    then have "x = 0" "u\<lparr>uio_resid := n\<rparr> = u" by (auto simp: x_def n_def)
    then show ?thesis using False sv sv1 zz e u(2,3) oz q(2) us u1 by (simp add: sfs_io_def)
  qed
  then show ?thesis unfolding fin using q(1) by (auto simp: reads_def n_def z_def)
qed

end
