(* ===== verification/Kern_SfsProps.thy ===== *)
theory Kern_SfsProps
  imports Kern_SfsRead
begin

text \<open>
  What a reader and a writer of a file may rely on: the bytes written are the bytes read, other files keep
  theirs, and a write that does not find room reports it.
\<close>

section \<open>The vnode operations on a file\<close>

definition plain_file :: "sfs_fs \<Rightarrow> nat \<Rightarrow> bool" where
  "plain_file s v \<longleftrightarrow> wf s v \<and> unat (sfi_size (inode s v)) \<le> 143 * 512 \<and> vnode_check v False s = Some () \<and>
     \<not> vn_isdir (the (svs s v))"

text \<open>A transfer into the file with enough room on the volume, and with a pointer for every block.\<close>

definition can_write :: "nat \<Rightarrow> uio \<Rightarrow> nat \<Rightarrow> sfs_fs \<Rightarrow> bool" where
  "can_write v u off s \<longleftrightarrow> plain_file s v \<and> uio_ok u s \<and> uio_rw u = UIO_WRITE \<and> uio_offset u = int off \<and>
     off + uio_resid u \<le> 143 * 512 \<and> 2 * (uio_resid u div 512 + 2) \<le> free s"

lemma plain_file_svs: "plain_file s v \<Longrightarrow> \<exists>sv. svs s v = Some sv \<and> sv_i sv = inode s v \<and> \<not> vn_isdir sv"
  using wf_svs [of s v] by (auto simp: plain_file_def)

lemma vnode_check_same_meta: "same_meta v s s' \<Longrightarrow> vnode_check v b s' = vnode_check v b s"
  by (auto simp: same_meta_def vnode_check_def)

lemma isdir_same_meta: "same_meta v s s' \<Longrightarrow> vn_isdir (the (svs s' v)) = vn_isdir (the (svs s v))"
  by (auto simp: same_meta_def)

lemma stored_plain_file:
  assumes "stored v off d s s'" "plain_file s v" "off + length d \<le> 143 * 512"
  shows "plain_file s' v"
proof -
  have "same_meta v s s'" using assms(1) by (simp add: stored_def evolves_def)
  then show ?thesis
    using assms vnode_check_same_meta [of v s s'] isdir_same_meta [of v s s'] by (simp add: plain_file_def stored_def)
qed

lemma vop_write_stored:
  assumes "can_write v u off s"
  shows "\<exists>s'. vop_write v u s = Some (Inr (), uskip (uio_resid u) u, s') \<and> stored v off (take (uio_resid u) (udata u s)) s s'"
proof -
  obtain sv where "svs s v = Some sv" "\<not> vn_isdir sv" using plain_file_svs assms unfolding can_write_def by blast
  moreover have "\<exists>s'. sfs_io v u s = Some (Inr (), uskip (uio_resid u) u, s') \<and> stored v off (take (uio_resid u) (udata u s)) s s'"
    using assms by (intro sfs_io_write) (simp_all add: can_write_def plain_file_def)
  ultimately show ?thesis using assms by (auto simp: vop_write_def sfs_write_def can_write_def plain_file_def)
qed

lemma vop_read_bytes:
  assumes "plain_file s v" "uio_ok u s" "uio_rw u = UIO_READ" "uio_offset u = int off" "off < unat (sfi_size (inode s v))"
  shows "reads v off (min (uio_resid u) (unat (sfi_size (inode s v)) - off)) u s (vop_read v u s)"
proof -
  obtain sv where sv: "svs s v = Some sv" "\<not> vn_isdir sv" using plain_file_svs assms(1) by blast
  then have "vop_read v u s = sfs_io v u s" using assms(1,3) by (simp add: vop_read_def sfs_read_def plain_file_def)
  then show ?thesis using sfs_io_read assms by (simp add: plain_file_def)
qed

lemma stored_bytes:
  assumes "stored v off d s s'" "off + length d \<le> 143 * 512"
  shows "bytes_of s' v off (length d) = d"
  using assms by (intro nth_equalityI) (auto simp: bytes_of_def stored_def)

section \<open>Other files\<close>

lemma evolves_other:
  assumes e: "evolves v s s'" "fs_wf s'" and w: "wf s v'" and v: "v' \<noteq> v" and d: "owned s v \<inter> owned s v' = {}"
  shows "wf s' v' \<and> inode s' v' = inode s v' \<and> (\<forall>m < 143 * 512. fbyte s' (inode s' v') m = fbyte s (inode s v') m) \<and>
    owned s' v \<inter> owned s' v' = {}"
proof -
  have m: "same_meta v s s'" using e(1) by (simp add: evolves_def)
  have "svs s' v' = svs s v'" using m v by (auto simp: same_meta_def)
  then have i: "inode s' v' = inode s v'" by (simp add: inode_def)
  have iw: "inode_wf (inode s v')" using w by (rule wf_inode_wf)
  have keep: "sectors s' (unat (ptrs s (inode s v') ! k)) = sectors s (unat (ptrs s (inode s v') ! k))"
    if "k < 144" "ptrs s (inode s v') ! k \<noteq> 0" for k
  proof -
    have "ptrs s (inode s v') ! k \<in> set (ptrs s (inode s v'))" using that(1) length_ptrs [OF iw, of s] by simp
    then have "unat (ptrs s (inode s v') ! k) \<in> owned s v'" using that(2) by (auto simp: owned_def)
    then show ?thesis using d owned_used [OF w] e(1) unfolding evolves_def by blast
  qed
  have p: "ptrs s' (inode s v') = ptrs s (inode s v')"
    using keep [of 15] ptrs_indirect [OF iw, of s] by (intro ptrs_cong) simp
  have o: "owned s' v' = owned s v'" by (simp add: owned_def i p)
  have "fblk s' (inode s v') f = fblk s (inode s v') f" if "f < 143" for f
    using keep [OF pos_less(1) [OF that]] by (simp add: fblk_def p Let_def)
  then have "fbyte s' (inode s' v') n = fbyte s (inode s v') n" if "n < 143 * 512" for n
    using that unfolding i by (simp add: fbyte_def less_mult_imp_div_less)
  moreover have "used s \<subseteq> used s'" using e(1) by (simp add: evolves_def)
  then have "wf s' v'"
    using w e(2) \<open>svs s' v' = svs s v'\<close> same_meta_super [OF m] by (auto simp: wf_def i file_ok_def p blocks_ok_def)
  moreover have "owned s' v \<inter> owned s' v' = {}"
    using d owned_used [OF w] e(1) unfolding evolves_def o by blast
  ultimately show ?thesis using i by blast
qed

section \<open>A full volume\<close>

lemma sfs_bmap_full:
  assumes "wf s v" "fb < 15" "ptrs s (inode s v) ! fb = 0" "free s = 0"
  shows "sfs_bmap v (of_nat fb) True s = Some (Inl ENOSPC, s)"
proof -
  have i: "inode_wf (inode s v)" and f: "fs_wf s" using assms(1) by (simp_all add: wf_def file_ok_def)
  obtain sv where "svs s v = Some sv" "sv_i sv = inode s v" using wf_svs [OF assms(1)] by blast
  moreover have "rd (sfi_direct (inode s v)) (int fb) = Some 0"
    using assms(2,3) i ptrs_direct [OF i assms(2), of s] by (simp add: inode_wf_def rd_def)
  ultimately show ?thesis using assms(2) sfs_balloc_full [OF f assms(4)] by (simp add: sfs_bmap_cases bmap_direct_def)
qed

lemma body_write_full:
  assumes w: "wf s v" and u: "uio_ok u s" "uio_rw u = UIO_WRITE" "uio_offset u = int off" "0 < uio_resid u"
    and b: "off div 512 < 15" "ptrs s (inode s v) ! (off div 512) = 0" and free: "free s = 0"
  shows "sfs_io_body v u s = Some (Inl ENOSPC, u, s)"
proof -
  have "uio_offset u = int (off div 512 * 512 + off mod 512)" using u(3) by simp
  then have fbk: "word_of_int (uio_offset u sdiv 512) = (of_nat (off div 512) :: 32 word)"
    using file_block [of "uio_offset u" "off mod 512" "off div 512"] u(3) by simp
  note full = sfs_bmap_full [OF w b free]
  have part: "sfs_partialio v u p l s = Some (Inl ENOSPC, u, s)" if "p + l \<le> 512" for p l
    using that full u(2) fbk by (simp add: sfs_partialio_def)
  have blk: "sfs_blockio v u s = Some (Inl ENOSPC, u, s)" using full u(2) fbk by (simp add: sfs_blockio_def)
  show ?thesis
  proof (cases "off mod 512 = 0")
    case False
    then show ?thesis using part [of "off mod 512"] by (simp add: io_start [OF u(3)])
  next
    case True
    then have al: "uio_offset u smod 512 = 0" using u(3) zmod_int [of off 512] by (simp add: smod_eq_mod)
    show ?thesis
    proof (cases "uio_resid u div 512")
      case 0
      then have "uio_resid u < 512" by (simp add: div_eq_0_iff)
      then show ?thesis using True al 0 u(4) part [of 0 "uio_resid u"] by (simp add: io_start [OF u(3)] sfs_io_aligned_def)
    next
      case (Suc n)
      then show ?thesis using True al u(4) blk by (simp add: io_start [OF u(3)] sfs_io_aligned_def)
    qed
  qed
qed

text \<open>The size of the file is adjusted all the same.\<close>

lemma sfs_io_write_full:
  assumes w: "wf s v" "unat (sfi_size (inode s v)) \<le> 143 * 512"
    and u: "uio_ok u s" "uio_rw u = UIO_WRITE" "uio_offset u = int off" "0 < uio_resid u"
    and b: "off div 512 < 15" "ptrs s (inode s v) ! (off div 512) = 0" and free: "free s = 0"
  shows "\<exists>s'. sfs_io v u s = Some (Inl ENOSPC, u, s') \<and> unat (sfi_size (inode s' v)) = max (unat (sfi_size (inode s v))) off"
proof -
  note body = body_write_full [OF w(1) u b free]
  obtain sv where sv: "svs s v = Some sv" "sv_i sv = inode s v" using wf_svs [OF w(1)] by blast
  have iff: "uint (sfi_size (inode s v)) < int off \<longleftrightarrow> unat (sfi_size (inode s v)) < off"
    by (metis of_nat_less_iff uint_nat)
  have r: "u\<lparr>uio_resid := uio_resid u mod 4294967296\<rparr> = u" using u(1) by (auto simp: uio_ok_def)
  have io: "sfs_io v u s = do {
      s \<leftarrow> (if unat (sfi_size (inode s v)) < off
           then upd_sv v (\<lambda>sv. sv\<lparr>sv_i := (sv_i sv)\<lparr>sfi_size := word_of_int (uio_offset u)\<rparr>, sv_dirty := True\<rparr>) s
           else Some s);
      Some (Inl ENOSPC, u, s) }"
    using body sv u(2,3) file_size_s32 [OF w(2)] by (simp add: sfs_io_def Let_def iff r)
  show ?thesis
  proof (cases "unat (sfi_size (inode s v)) < off")
    case True
    obtain s' where "upd_sv v (\<lambda>sv. sv\<lparr>sv_i := (sv_i sv)\<lparr>sfi_size := word_of_int (uio_offset u)\<rparr>, sv_dirty := True\<rparr>) s = Some s'"
      "sfi_size (inode s' v) = word_of_int (uio_offset u)"
      using upd_sv_size [OF w(1) sv(1), of "word_of_int (uio_offset u)"] by blast
    moreover have "unat (word_of_int (uio_offset u) :: 32 word) = off" using u(1,3) by (simp add: unat_of_nat uio_ok_def)
    ultimately show ?thesis using io True by auto
  next
    case False
    then show ?thesis using io by auto
  qed
qed

section \<open>A small volume\<close>

text \<open>A volume of sixteen blocks with three in use, and two empty files.\<close>

definition inode0 :: sfs_inode where
  "inode0 = \<lparr>sfi_size = 0, sfi_type = SFS_TYPE_FILE, sfi_linkcount = 1, sfi_direct = replicate 15 0, sfi_indirect = 0,
     sfi_waste = replicate 440 0\<rparr>"

definition vnode0 :: sfs_vnode where
  "vnode0 = \<lparr>vn_refcount = 1, vn_opencount = 0, vn_isdir = False, sv_i = inode0, sv_ino = 2, sv_dirty = False\<rparr>"

definition volume :: "8 word list \<Rightarrow> sfs_fs" where
  "volume m = \<lparr>cur_space = None, umem = (\<lambda>_. None), sectors = (\<lambda>_. replicate 512 0), d_blocks = 16, d_blocksize = 512,
     lh_buf = replicate 512 0, hw = (\<lambda>_. LHD_OK), hw_n = 0,
     sfs_super = \<lparr>sp_magic = SFS_MAGIC, sp_nblocks = 16, sp_volname = replicate 32 0, sp_reserved = replicate 472 0\<rparr>,
     sfs_superdirty = False, sfs_vnodes = \<lparr>a_num = 0, a_max = 0, a_v = None\<rparr>,
     sfs_freemap = \<lparr>b_nbits = 16, b_v = m\<rparr>, sfs_freemapdirty = False,
     svs = (\<lambda>v. if v < 2 then Some vnode0 else None), fs_mem = (\<lambda>_. None), fs_nalloc = 0, fs_next = 2\<rparr>"

lemma volume_used: "used (volume m) = set (filter (\<lambda>i. bit (m ! (i div 8)) (i mod 8)) [0..<16])"
  by (auto simp: bm_used_def volume_def bm_limit_def bm_bit_def)

lemma volume_limit [simp]: "bm_limit (sfs_freemap (volume m)) = 16" "nblocks (volume m) = 16"
  by (simp_all add: volume_def bm_limit_def)

lemma volume_fs_wf:
  assumes "length m = 2" "bit (m ! 0) 0"
  shows "fs_wf (volume m)"
proof -
  have "bm_ok (sfs_freemap (volume m))" using assms(1) by (simp add: bm_ok_def volume_def bm_limit_def)
  moreover have "disk_ok (volume m)" "hw_ok (volume m)" by (simp_all add: disk_ok_def hw_ok_def volume_def)
  moreover have "0 \<in> used (volume m)" using assms(2) by (simp add: volume_used)
  moreover have "d_blocks (volume m) = 16" by (simp add: volume_def)
  ultimately show ?thesis by (auto simp: fs_wf_def)
qed

lemma volume_inode: "v < 2 \<Longrightarrow> inode (volume m) v = inode0" "v < 2 \<Longrightarrow> svs (volume m) v = Some vnode0"
  by (simp_all add: inode_def volume_def vnode0_def)

lemma volume_ptrs: "ptrs s inode0 = replicate 144 0"
  by (simp add: ptrs_def idwords_def inode0_def eval_nat_numeral map_replicate_const)

lemma volume_file:
  assumes "length m = 2" "bit (m ! 0) 0" "v < 2"
  shows "plain_file (volume m) v" "owned (volume m) v = {}"
proof -
  have i: "inode (volume m) v = inode0" "svs (volume m) v = Some vnode0" using volume_inode [OF assms(3)] by simp_all
  have "wf (volume m) v"
    using volume_fs_wf [OF assms(1,2)] i
    by (simp add: wf_def file_ok_def blocks_ok_def volume_ptrs inode_wf_def) (simp add: inode0_def)
  then show "plain_file (volume m) v"
    using i by (simp add: plain_file_def vnode_check_def) (simp add: inode0_def vnode0_def)
  show "owned (volume m) v = {}" by (simp add: owned_def i volume_ptrs)
qed

lemma volume_free: "free (volume [7, 0]) = 13" "free (volume [255, 255]) = 0"
proof -
  have "used (volume [7, 0]) = {0, Suc 0, Suc (Suc 0)}" by (simp add: volume_used upt_rec bit_numeral_rec)
  then show "free (volume [7, 0]) = 13" by (simp add: free_def)
  show "free (volume [255, 255]) = 0" by (simp add: free_def volume_used bit_numeral_rec upt_rec)
qed

section \<open>Reading, writing and running out of space\<close>

text \<open>
  (C13) What is written into a file is what is read from it. If the volume has room for the transfer and
  the file a pointer for every block, \<open>vop_write\<close> succeeds, and a \<open>vop_read\<close> of as many bytes at the
  same offset delivers exactly the bytes that were written, to kernel or to user memory, however the
  transfer is aligned to blocks.
\<close>

theorem vop_write_read:
  assumes "can_write v u off s" "0 < uio_resid u"
    and "uio_ok r s" "uio_rw r = UIO_READ" "uio_offset r = int off" "uio_resid r = uio_resid u"
  shows "\<exists>s' q. vop_write v u s = Some (Inr (), uskip (uio_resid u) u, s') \<and>
    vop_read v r s' = Some (Inr (), uput (take (uio_resid u) (udata u s)) (r, q))"
proof -
  let ?n = "uio_resid u" and ?d = "take (uio_resid u) (udata u s)"
  obtain s' where w: "vop_write v u s = Some (Inr (), uskip ?n u, s')" "stored v off ?d s s'"
    using vop_write_stored [OF assms(1)] by blast
  have ld: "length ?d = ?n" using length_take_udata [of u s ?n] assms(1) by (simp add: can_write_def)
  have len: "off + length ?d \<le> 143 * 512" using assms(1) ld by (simp add: can_write_def)
  have sz: "off + ?n \<le> unat (sfi_size (inode s' v))" using w(2) ld by (simp add: stored_def)
  have "plain_file s' v" using stored_plain_file [OF w(2) _ len] assms(1) by (simp add: can_write_def)
  moreover have "uio_ok r s'" using w(2) evolves_user [of v s s' r] assms(3) by (simp add: stored_def)
  ultimately have "reads v off (min (uio_resid r) (unat (sfi_size (inode s' v)) - off)) r s' (vop_read v r s')"
    using vop_read_bytes assms(2,4,5) sz by simp
  moreover have "min (uio_resid r) (unat (sfi_size (inode s' v)) - off) = length ?d" using sz assms(6) ld by simp
  ultimately have "reads v off (length ?d) r s' (vop_read v r s')" by simp
  then show ?thesis using w(1) stored_bytes [OF w(2) len] by (auto simp: reads_def)
qed

theorem vop_write_read_witness:
  "\<exists>s' q. vop_write 0 (mk_kuio [72, 105] 2 3 UIO_WRITE) (volume [7, 0]) =
      Some (Inr (), uskip 2 (mk_kuio [72, 105] 2 3 UIO_WRITE), s') \<and>
    vop_read 0 (mk_kuio [0, 0] 2 3 UIO_READ) s' = Some (Inr (), uput [72, 105] (mk_kuio [0, 0] 2 3 UIO_READ, q))"
proof -
  let ?s = "volume [7, 0]"
  have "uio_ok (mk_kuio [72, 105] 2 3 UIO_WRITE) ?s" "uio_ok (mk_kuio [0, 0] 2 3 UIO_READ) ?s"
    by (simp_all add: uio_ok_mk_kuio)
  moreover have "take 2 (udata (mk_kuio [72, 105] 2 3 UIO_WRITE) ?s) = [72, 105]" by (simp add: udata_def mk_kuio_def sys_def)
  moreover have "plain_file ?s 0" by (intro volume_file) simp_all
  ultimately show ?thesis
    using vop_write_read [of 0 "mk_kuio [72, 105] 2 3 UIO_WRITE" 3 ?s "mk_kuio [0, 0] 2 3 UIO_READ"] volume_free
    by (simp add: can_write_def mk_kuio_def)
qed





end
