(* ===== verification/Kern_SfsDir.thy ===== *)
theory Kern_SfsDir
  imports Kern_SfsProps
begin

text \<open>
  Directories: the entries of a directory file as a finite map from names to inode numbers and slots,
  and the directory functions as the operations of that map.
\<close>

section \<open>The entries\<close>

definition dent :: "sfs_fs \<Rightarrow> nat \<Rightarrow> nat \<Rightarrow> sfs_dir" where
  "dent s v k = dir_of (bytes_of s v (k * 64) 64)"

definition dent_name :: "sfs_dir \<Rightarrow> 8 word list" where
  "dent_name d = cstr ((sfd_name d)[SFS_NAMELEN - 1 := 0])"

definition ndents :: "sfs_fs \<Rightarrow> nat \<Rightarrow> nat" where
  "ndents s v = unat (sfi_size (inode s v)) div 64"

definition live :: "sfs_fs \<Rightarrow> nat \<Rightarrow> nat \<Rightarrow> bool" where
  "live s v k \<longleftrightarrow> k < ndents s v \<and> sfd_ino (dent s v k) \<noteq> SFS_NOINO"

text \<open>A directory is a file of whole entries, and no name occurs twice.\<close>

definition dir_ok :: "nat \<Rightarrow> sfs_fs \<Rightarrow> bool" where
  "dir_ok v s \<longleftrightarrow> wf s v \<and> unat (sfi_size (inode s v)) \<le> 143 * 512 \<and> unat (sfi_size (inode s v)) mod 64 = 0 \<and>
     sfi_type (inode s v) = SFS_TYPE_DIR \<and>
     (\<forall>j k. live s v j \<and> live s v k \<and> dent_name (dent s v j) = dent_name (dent s v k) \<longrightarrow> j = k)"

definition dmap :: "nat \<Rightarrow> sfs_fs \<Rightarrow> 8 word list \<Rightarrow> (32 word \<times> nat) option" where
  "dmap v s name = map_option (\<lambda>k. (sfd_ino (dent s v k), k))
     (find (\<lambda>k. live s v k \<and> dent_name (dent s v k) = name) [0..<ndents s v])"

lemma dmap_None: "dmap v s name = None \<longleftrightarrow> (\<forall>k. live s v k \<longrightarrow> dent_name (dent s v k) \<noteq> name)"
  by (auto simp: dmap_def find_None_iff live_def)

lemma dmap_Some:
  assumes "dir_ok v s"
  shows "dmap v s name = Some (ino, k) \<longleftrightarrow> live s v k \<and> dent_name (dent s v k) = name \<and> sfd_ino (dent s v k) = ino"
proof
  assume "dmap v s name = Some (ino, k)"
  then show "live s v k \<and> dent_name (dent s v k) = name \<and> sfd_ino (dent s v k) = ino"
    by (auto simp: dmap_def find_Some_iff)
next
  assume k: "live s v k \<and> dent_name (dent s v k) = name \<and> sfd_ino (dent s v k) = ino"
  then obtain j i where ji: "dmap v s name = Some (i, j)" using dmap_None [of v s name] by (metis not_None_eq surj_pair)
  then have "live s v j" "dent_name (dent s v j) = name" "i = sfd_ino (dent s v j)" by (auto simp: dmap_def find_Some_iff)
  then show "dmap v s name = Some (ino, k)" using ji k assms unfolding dir_ok_def by metis
qed

lemma dent_untouched:
  assumes "untouched s s'"
  shows "dent s' v = dent s v" "ndents s' v = ndents s v" "live s' v = live s v" "dmap v s' = dmap v s" "dir_ok v s \<Longrightarrow> dir_ok v s'"
proof -
  show d: "dent s' v = dent s v" by (simp add: fun_eq_iff dent_def bytes_of_untouched [OF assms])
  show n: "ndents s' v = ndents s v" by (simp add: ndents_def untouched_simps [OF assms])
  show l: "live s' v = live s v" by (simp add: fun_eq_iff live_def d n)
  show "dmap v s' = dmap v s" by (simp add: fun_eq_iff dmap_def l d n)
  show "dir_ok v s'" if "dir_ok v s" using that untouched_wf [OF assms] by (simp add: dir_ok_def l d untouched_simps [OF assms])
qed

section \<open>Reading entries\<close>

lemma dent_end:
  assumes "dir_ok v s" "k < ndents s v"
  shows "k * 64 + 64 \<le> unat (sfi_size (inode s v))"
proof -
  have "ndents s v * 64 = unat (sfi_size (inode s v))" using assms(1) by (auto simp: dir_ok_def ndents_def)
  then show ?thesis using assms(2) by linarith
qed

lemma sfs_readdir_ok:
  assumes "dir_ok v s" "k < ndents s v"
  shows "\<exists>s'. sfs_readdir v (int k) s = Some (Inr (dent s v k), s') \<and> untouched s s'"
proof -
  let ?u = "mk_kuio (replicate 64 0) 64 (int (k * 64)) UIO_READ"
  note e = dent_end [OF assms]
  have sz: "unat (sfi_size (inode s v)) \<le> 73216" and w: "wf s v" using assms(1) by (simp_all add: dir_ok_def)
  then have ok: "uio_ok ?u s" using e by (intro uio_ok_mk_kuio) simp_all
  have "reads v (k * 64) (min (uio_resid ?u) (unat (sfi_size (inode s v)) - k * 64)) ?u s (sfs_io v ?u s)"
    using e sz w ok by (intro sfs_io_read) (simp_all add: mk_kuio_def)
  moreover have "min (uio_resid ?u) (unat (sfi_size (inode s v)) - k * 64) = 64" using e by (simp add: mk_kuio_def)
  ultimately obtain q where q: "untouched s q" "sfs_io v ?u s = Some (Inr (), uput (bytes_of s v (k * 64) 64) (?u, q))"
    by (auto simp: reads_def)
  have s32: "s32 (int k * 64) = int (k * 64)" using e sz by (subst s32_in) simp_all
  have "sfs_readdir v (int k) s = Some (Inr (dent s v k), q)"
    using q(2) by (simp add: sfs_readdir_def s32 uput_def mk_kuio_def sys_def uskip_def dent_def)
  then show ?thesis using q(1) by blast
qed

lemma sfs_dir_nentries_ok:
  assumes "dir_ok v s"
  shows "sfs_dir_nentries v s = Some (int (ndents s v))"
proof -
  obtain sv where "svs s v = Some sv" "sv_i sv = inode s v" using wf_svs [of s v] assms by (auto simp: dir_ok_def)
  moreover have "uint x mod 64 = int (unat x mod 64)" "uint x div 64 = int (unat x div 64)" for x :: "32 word"
    by (simp_all only: uint_nat zmod_int zdiv_int of_nat_numeral)
  then have "uint (sfi_size (inode s v)) mod 64 = 0" "uint (sfi_size (inode s v)) div 64 = int (ndents s v)"
    using assms by (simp_all only: dir_ok_def ndents_def)
  ultimately show ?thesis using assms by (simp add: sfs_dir_nentries_def dir_ok_def)
qed

text \<open>The search loop, for a name that none of the entries before the list has.\<close>

definition matches :: "sfs_fs \<Rightarrow> nat \<Rightarrow> 8 word list \<Rightarrow> nat \<Rightarrow> bool" where
  "matches s v name k \<longleftrightarrow> sfd_ino (dent s v k) \<noteq> SFS_NOINO \<and> dent_name (dent s v k) = name"

definition empties :: "sfs_fs \<Rightarrow> nat \<Rightarrow> nat list \<Rightarrow> int option \<Rightarrow> int option" where
  "empties s v is e = fold (\<lambda>k e. if sfd_ino (dent s v k) = SFS_NOINO then Some (int k) else e) is e"

lemma findname_from_ok:
  assumes "dir_ok v s" "set is \<subseteq> {..<ndents s v}"
    "length (filter (matches s v name) is) + (if found = None then 0 else 1) \<le> 1"
  shows "\<exists>s'. findname_from is v name found e s =
      Some (Inr (case filter (matches s v name) is of [] \<Rightarrow> found | k # _ \<Rightarrow> Some (sfd_ino (dent s v k), int k)),
        empties s v is e, s') \<and> untouched s s'"
  using assms
proof (induction "is" arbitrary: found e s)
  case Nil
  then have "disk_ok s" by (simp add: dir_ok_def wf_def fs_wf_def)
  then show ?case using untouched_refl by (auto simp: empties_def)
next
  case (Cons k ks)
  obtain s1 where 1: "sfs_readdir v (int k) s = Some (Inr (dent s v k), s1)" "untouched s s1"
    using sfs_readdir_ok [OF Cons.prems(1), of k] Cons.prems(2) by auto
  note q = dent_untouched [OF 1(2)]
  have m: "matches s1 v = matches s v" "empties s1 v = empties s v" by (simp_all add: fun_eq_iff matches_def empties_def q)
  let ?d = "dent s v k"
  let ?e = "if sfd_ino ?d = SFS_NOINO then Some (int k) else e"
  let ?f = "if matches s v name k then Some (sfd_ino ?d, int k) else found"
  have "\<exists>s'. findname_from ks v name ?f ?e s1 =
      Some (Inr (case filter (matches s1 v name) ks of [] \<Rightarrow> ?f | k # _ \<Rightarrow> Some (sfd_ino (dent s1 v k), int k)),
        empties s1 v ks ?e, s') \<and> untouched s1 s'"
    using Cons.prems q by (intro Cons.IH) (auto simp: m split: if_splits)
  then obtain s' where 2: "findname_from ks v name ?f ?e s1 =
      Some (Inr (case filter (matches s v name) ks of [] \<Rightarrow> ?f | k # _ \<Rightarrow> Some (sfd_ino (dent s v k), int k)),
        empties s v ks ?e, s')" "untouched s1 s'"
    unfolding m q(1) by blast
  have none: "filter (matches s v name) ks = []" "found = None" if "matches s v name k"
    using that Cons.prems(3) by (auto split: if_splits)
  have "findname_from (k # ks) v name found e s = findname_from ks v name ?f ?e s1"
    using 1(1) none by (auto simp: matches_def dent_name_def)
  moreover have "empties s v (k # ks) e = empties s v ks ?e" by (simp add: empties_def)
  ultimately show ?case
    using 2 none untouched_trans [OF 1(2) 2(2)] by (cases "matches s v name k") auto
qed

lemma find_filter: "find P xs = (case filter P xs of [] \<Rightarrow> None | x # _ \<Rightarrow> Some x)"
  by (induction xs) auto

lemma length_filter_unique:
  assumes "\<And>j k. j < n \<Longrightarrow> k < n \<Longrightarrow> P j \<Longrightarrow> P k \<Longrightarrow> j = k"
  shows "length (filter P [0..<n]) \<le> 1"
proof -
  have "length (filter P [0..<n]) = card (set (filter P [0..<n]))" by (simp only: distinct_card distinct_filter distinct_upt)
  moreover have "set (filter P [0..<n]) = {k. k < n \<and> P k}" by auto
  moreover have "card {k. k < n \<and> P k} \<le> 1" using assms by (auto simp: card_le_Suc0_iff_eq)
  ultimately show ?thesis by simp
qed

lemma empties_slot:
  assumes "set is \<subseteq> {..<ndents s v}" "e = None \<or> (\<exists>k < ndents s v. e = Some (int k) \<and> \<not> live s v k)"
  shows "empties s v is e = None \<or> (\<exists>k < ndents s v. empties s v is e = Some (int k) \<and> \<not> live s v k)"
  using assms by (induction "is" arbitrary: e) (auto simp: empties_def live_def)

definition as_result :: "(32 word \<times> nat) option \<Rightarrow> errno + 32 word \<times> int" where
  "as_result x = (case x of None \<Rightarrow> Inl ENOENT | Some (ino, k) \<Rightarrow> Inr (ino, int k))"

lemma sfs_dir_findname_ok:
  assumes "dir_ok v s"
  shows "\<exists>e s'. sfs_dir_findname v name s = Some (as_result (dmap v s name), e, s') \<and> untouched s s' \<and>
    (e = None \<or> (\<exists>k < ndents s v. e = Some (int k) \<and> \<not> live s v k))"
proof -
  let ?n = "ndents s v" and ?F = "filter (matches s v name) [0..<ndents s v]"
  have m: "matches s v name k \<longleftrightarrow> live s v k \<and> dent_name (dent s v k) = name" if "k < ?n" for k
    using that by (simp add: matches_def live_def)
  have "length ?F \<le> 1" using assms m by (intro length_filter_unique) (auto simp: dir_ok_def)
  then obtain s' where s': "findname_from [0..<?n] v name None None s =
      Some (Inr (case ?F of [] \<Rightarrow> None | k # _ \<Rightarrow> Some (sfd_ino (dent s v k), int k)), empties s v [0..<?n] None, s')" "untouched s s'"
    using findname_from_ok [OF assms, of "[0..<?n]" name None None] by (auto simp: atLeast0LessThan)
  have "?F = filter (\<lambda>k. live s v k \<and> dent_name (dent s v k) = name) [0..<?n]" using m by (intro filter_cong) auto
  then have d: "dmap v s name = map_option (\<lambda>k. (sfd_ino (dent s v k), k)) (case ?F of [] \<Rightarrow> None | k # _ \<Rightarrow> Some k)"
    by (simp add: dmap_def find_filter)
  have "sfs_dir_findname v name s = Some (as_result (dmap v s name), empties s v [0..<?n] None, s')"
    using s'(1) sfs_dir_nentries_ok [OF assms] by (cases ?F) (simp_all add: sfs_dir_findname_def d as_result_def)
  then show ?thesis using s'(2) empties_slot [of "[0..<?n]" s v None] by (auto simp: atLeast0LessThan)
qed

section \<open>Writing entries\<close>

lemma sfs_writedir_ok:
  assumes "dir_ok v s" "k * 64 + 64 \<le> 143 * 512" "length (sfd_name sd) = SFS_NAMELEN"
    "2 \<le> free s \<or> ptrs s (inode s v) ! pos (k * 64 div 512) \<noteq> 0"
  shows "\<exists>s'. sfs_writedir v sd (int k) s = Some (Inr (), s') \<and> stored v (k * 64) (dir_bytes sd) s s'"
proof -
  let ?u = "mk_kuio (dir_bytes sd) 64 (int (k * 64)) UIO_WRITE"
  have len: "length (dir_bytes sd) = 64" using assms(3) by (rule length_dir_bytes)
  have s32: "s32 (int k * 64) = int (k * 64)" using assms(2) by (subst s32_in) simp_all
  have ok: "uio_ok ?u s" using len assms(2) by (intro uio_ok_mk_kuio) simp_all
  have d: "take 64 (udata ?u s) = dir_bytes sd" using len by (simp add: udata_def mk_kuio_def sys_def)
  have "k * 64 mod 512 = (k mod 8) * 64" by (simp add: mult_mod_left)
  then have "k * 64 mod 512 + 64 \<le> 512" using mod_less_divisor [of 8 k] by simp
  then have "\<exists>s'. sfs_io v ?u s = Some (Inr (), uskip (uio_resid ?u) ?u, s') \<and>
      stored v (k * 64) (take (uio_resid ?u) (udata ?u s)) s s'"
    using assms ok by (intro sfs_io_write_one) (simp_all add: dir_ok_def mk_kuio_def)
  then show ?thesis using d by (auto simp: sfs_writedir_def s32 mk_kuio_def uskip_def)
qed

lemma stored_dent:
  assumes "stored v (k * 64) (dir_bytes sd) s s'" "length (sfd_name sd) = SFS_NAMELEN" "j * 64 + 64 \<le> 143 * 512"
  shows "dent s' v j = (if j = k then sd else dent s v j)"
proof (cases "j = k")
  case True
  have "bytes_of s' v (k * 64) (length (dir_bytes sd)) = dir_bytes sd"
    using assms True by (intro stored_bytes) simp_all
  then show ?thesis using True assms(2) by (simp add: dent_def)
next
  case False
  have "fbyte s' (inode s' v) m = fbyte s (inode s v) m" if "m \<in> set [j * 64..<j * 64 + 64]" for m
  proof -
    have "m < 143 * 512" "j * 64 \<le> m" "m < j * 64 + 64" using that assms(3) by auto
    moreover have "j + 1 \<le> k \<or> k + 1 \<le> j" using False by linarith
    ultimately have "m < 143 * 512" "\<not> (k * 64 \<le> m \<and> m < k * 64 + 64)" by linarith+
    then show ?thesis using assms(1,2) by (auto simp: stored_def)
  qed
  then have "bytes_of s' v (j * 64) 64 = bytes_of s v (j * 64) 64" unfolding bytes_of_def by (rule map_cong [OF refl])
  then show ?thesis using False by (simp add: dent_def)
qed

lemma stored_size:
  assumes "stored v (k * 64) (dir_bytes sd) s s'" "length (sfd_name sd) = SFS_NAMELEN" "dir_ok v s" "k * 64 + 64 \<le> 143 * 512"
  shows "unat (sfi_size (inode s' v)) = max (ndents s v) (Suc k) * 64" "ndents s' v = max (ndents s v) (Suc k)"
proof -
  have "ndents s v * 64 = unat (sfi_size (inode s v))" using assms(3) by (auto simp: dir_ok_def ndents_def)
  then show "unat (sfi_size (inode s' v)) = max (ndents s v) (Suc k) * 64"
    using assms(1,2) by (auto simp: stored_def max_def)
  then show "ndents s' v = max (ndents s v) (Suc k)" by (simp add: ndents_def)
qed

text \<open>An entry is overwritten or appended; its name, if it is in use, is not that of another entry.\<close>

lemma dir_ok_write:
  assumes st: "stored v (k * 64) (dir_bytes sd) s s'" and sd: "length (sfd_name sd) = SFS_NAMELEN" and ok: "dir_ok v s"
    and k: "k * 64 + 64 \<le> 143 * 512" "k \<le> ndents s v"
    and new: "\<And>j. sfd_ino sd \<noteq> SFS_NOINO \<Longrightarrow> live s v j \<Longrightarrow> j \<noteq> k \<Longrightarrow> dent_name (dent s v j) \<noteq> dent_name sd"
  shows "dir_ok v s'" "\<And>j. live s' v j \<longleftrightarrow> (if j = k then sfd_ino sd \<noteq> SFS_NOINO else live s v j)"
    "\<And>j. live s' v j \<Longrightarrow> dent s' v j = (if j = k then sd else dent s v j)"
proof -
  note sz = stored_size [OF st sd ok k(1)]
  have "ndents s v * 64 = unat (sfi_size (inode s v))" "unat (sfi_size (inode s v)) \<le> 143 * 512"
    using ok by (auto simp: dir_ok_def ndents_def)
  then have le: "max (ndents s v) (Suc k) * 64 \<le> 143 * 512" using k(1) by (simp add: max_def)
  have d: "dent s' v j = (if j = k then sd else dent s v j)" if "j < ndents s' v" for j
  proof (rule stored_dent [OF st sd])
    have "Suc j * 64 \<le> max (ndents s v) (Suc k) * 64" using that sz(2) by (intro mult_le_mono1) simp
    then have "Suc j * 64 \<le> 143 * 512" using le by (rule order_trans)
    then show "j * 64 + 64 \<le> 143 * 512" by simp
  qed
  show l: "live s' v j \<longleftrightarrow> (if j = k then sfd_ino sd \<noteq> SFS_NOINO else live s v j)" for j
    using d [of j] sz(2) k(2) by (auto simp: live_def max_def split: if_splits)
  show d': "dent s' v j = (if j = k then sd else dent s v j)" if "live s' v j" for j using d that by (simp add: live_def)
  have "j = i" if "live s' v j" "live s' v i" "dent_name (dent s' v j) = dent_name (dent s' v i)" for i j
    using that d' l new ok unfolding dir_ok_def by (metis (no_types, lifting))
  moreover have "wf s' v" "sfi_type (inode s' v) = sfi_type (inode s v)"
    using st same_meta_inode [of v s s'] by (simp_all add: stored_def evolves_def)
  ultimately show "dir_ok v s'" using ok le by (auto simp: dir_ok_def sz(1))
qed

lemma dmap_eqI:
  assumes "dir_ok v s" "\<And>i k. g = Some (i, k) \<longleftrightarrow> live s v k \<and> dent_name (dent s v k) = n \<and> sfd_ino (dent s v k) = i"
  shows "dmap v s n = g"
proof (cases g)
  case (Some ik)
  obtain i k where "ik = (i, k)" by (cases ik)
  then have "dmap v s n = Some (i, k)" using Some assms(2) [of i k] dmap_Some [OF assms(1)] by simp
  then show ?thesis using Some \<open>ik = (i, k)\<close> by simp
next
  case None
  then have "\<not> (live s v k \<and> dent_name (dent s v k) = n)" for k using assms(2) [of "sfd_ino (dent s v k)" k] by auto
  then show ?thesis using None dmap_None [of v s n] by auto
qed

lemma dmap_link:
  assumes st: "stored v (k * 64) (dir_bytes sd) s s'" and sd: "length (sfd_name sd) = SFS_NAMELEN" "sfd_ino sd \<noteq> SFS_NOINO"
    and ok: "dir_ok v s" and k: "k * 64 + 64 \<le> 143 * 512" "k \<le> ndents s v" "\<not> live s v k" and n: "dmap v s (dent_name sd) = None"
  shows "dir_ok v s'" "dmap v s' = (dmap v s)(dent_name sd \<mapsto> (sfd_ino sd, k))"
proof -
  have new: "dent_name (dent s v j) \<noteq> dent_name sd" if "live s v j" for j using n that by (simp add: dmap_None)
  note w = dir_ok_write [OF st sd(1) ok k(1,2) new]
  show ok': "dir_ok v s'" using w(1) by blast
  show "dmap v s' = (dmap v s)(dent_name sd \<mapsto> (sfd_ino sd, k))"
  proof (rule ext, rule dmap_eqI [OF ok'])
    fix n i j
    show "((dmap v s)(dent_name sd \<mapsto> (sfd_ino sd, k))) n = Some (i, j) \<longleftrightarrow>
        live s' v j \<and> dent_name (dent s' v j) = n \<and> sfd_ino (dent s' v j) = i"
      using w(2,3) [of j] new [of j] k(3) sd(2) dmap_Some [OF ok, of n i j] by (auto split: if_splits)
  qed
qed

lemma dmap_unlink:
  assumes st: "stored v (k * 64) (dir_bytes sd) s s'" and sd: "length (sfd_name sd) = SFS_NAMELEN" "sfd_ino sd = SFS_NOINO"
    and ok: "dir_ok v s" and k: "k * 64 + 64 \<le> 143 * 512" and n: "dmap v s n = Some (i, k)"
  shows "dir_ok v s'" "dmap v s' = (dmap v s)(n := None)"
proof -
  have lk: "live s v k" "dent_name (dent s v k) = n" using n dmap_Some [OF ok] by auto
  then have kn: "k \<le> ndents s v" by (simp add: live_def)
  note w = dir_ok_write [OF st sd(1) ok k kn]
  show ok': "dir_ok v s'" using w(1) sd(2) by blast
  have l: "live s' v j \<longleftrightarrow> j \<noteq> k \<and> live s v j" "live s' v j \<Longrightarrow> dent s' v j = dent s v j" for j
    using w(2,3) [of j] sd(2) by (auto split: if_splits)
  have uniq: "live s v j \<Longrightarrow> dent_name (dent s v j) = n \<longleftrightarrow> j = k" for j using lk ok unfolding dir_ok_def by blast
  show "dmap v s' = (dmap v s)(n := None)"
  proof (rule ext, rule dmap_eqI [OF ok'])
    fix m i j
    show "((dmap v s)(n := None)) m = Some (i, j) \<longleftrightarrow>
        live s' v j \<and> dent_name (dent s' v j) = m \<and> sfd_ino (dent s' v j) = i"
      using l [of j] uniq [of j] dmap_Some [OF ok, of m i j] by auto
  qed
qed

section \<open>The operations on the map\<close>

text \<open>The block of an entry in use is there.\<close>

lemma live_block:
  assumes "dir_ok v s" "live s v k"
  shows "ptrs s (inode s v) ! pos (k * 64 div 512) \<noteq> 0"
proof
  assume z: "ptrs s (inode s v) ! pos (k * 64 div 512) = 0"
  have f: "fs_wf s" using assms(1) by (simp add: dir_ok_def wf_def)
  have m: "k * 64 mod 512 = (k mod 8) * 64" by (simp add: mult_mod_left)
  then have "k * 64 mod 512 + 64 \<le> 512" using mod_less_divisor [of 8 k] by simp
  then have "take 64 (drop (k * 64 mod 512) (fblk s (inode s v) (k * 64 div 512))) =
      bytes_of s v (k * 64 div 512 * 512 + k * 64 mod 512) 64" by (rule fblk_bytes [OF f])
  moreover have "k * 64 div 512 * 512 + k * 64 mod 512 = k * 64" by (rule div_mult_mod_eq)
  moreover have "fblk s (inode s v) (k * 64 div 512) = replicate 512 0" using z by (simp add: fblk_def)
  ultimately have "bytes_of s v (k * 64) 64 = take 64 (drop (k * 64 mod 512) (replicate 512 0))" by simp
  then have "sfd_ino (dent s v k) = 0" by (simp add: dent_def dir_of_def drop_replicate take_replicate)
  then show False using assms(2) by (simp add: live_def)
qed

definition good_name :: "8 word list \<Rightarrow> bool" where
  "good_name name \<longleftrightarrow> length name < SFS_NAMELEN \<and> 0 \<notin> set name"

lemma dent_name_padded:
  assumes "good_name name"
  shows "dent_name \<lparr>sfd_ino = ino, sfd_name = name @ replicate (SFS_NAMELEN - length name) 0\<rparr> = name"
proof -
  let ?z = "replicate (60 - length name) (0 :: 8 word)"
  have l: "length name < 60" using assms by (simp add: good_name_def)
  have "(name @ ?z)[59 := 0] = name @ ?z"
    by (rule list_update_same_conv [THEN iffD2]) (use l in \<open>simp_all add: nth_append\<close>)
  moreover obtain n where "?z = 0 # replicate n 0" using l by (cases "60 - length name") auto
  moreover have "takeWhile (\<lambda>b. b \<noteq> 0) (name @ 0 # replicate n 0) = name" for n
    using assms by (subst takeWhile_append2) (auto simp: good_name_def)
  ultimately show ?thesis by (simp add: dent_name_def cstr_def)
qed

lemma untouched_free: "untouched s s' \<Longrightarrow> free s' = free s"
  by (rule untouched_simps)

lemma sfs_dir_link_new:
  assumes ok: "dir_ok v s" and n: "dmap v s name = None" "good_name name" and i: "ino \<noteq> SFS_NOINO"
    and room: "ndents s v * 64 + 64 \<le> 143 * 512" "2 \<le> free s"
  shows "\<exists>k s'. sfs_dir_link v name ino s = Some (Inr (int k), s') \<and> dir_ok v s' \<and> dmap v s' = (dmap v s)(name \<mapsto> (ino, k))"
proof -
  let ?sd = "\<lparr>sfd_ino = ino, sfd_name = name @ replicate (SFS_NAMELEN - length name) 0\<rparr>"
  obtain e s1 where 1: "sfs_dir_findname v name s = Some (Inl ENOENT, e, s1)" "untouched s s1"
    "e = None \<or> (\<exists>k < ndents s v. e = Some (int k) \<and> \<not> live s v k)"
    using sfs_dir_findname_ok [OF ok, of name] n(1) by (auto simp: as_result_def)
  note q = dent_untouched [OF 1(2)]
  obtain k where k: "(case e of Some i \<Rightarrow> Some i | None \<Rightarrow> sfs_dir_nentries v s1) = Some (int k)" "k \<le> ndents s v" "\<not> live s v k"
    using 1(3) sfs_dir_nentries_ok [OF q(5) [OF ok]] q(2) by (auto simp: live_def)
  have k64: "k * 64 + 64 \<le> 143 * 512" using room(1) k(2) by simp
  have len: "length (sfd_name ?sd) = SFS_NAMELEN" using n(2) by (simp add: good_name_def)
  obtain s' where s': "sfs_writedir v ?sd (int k) s1 = Some (Inr (), s')" "stored v (k * 64) (dir_bytes ?sd) s1 s'"
    using sfs_writedir_ok [OF q(5) [OF ok] k64 len] room(2) untouched_free [OF 1(2)] by auto
  have nm: "dent_name ?sd = name" using n(2) by (rule dent_name_padded)
  have "sfs_dir_link v name ino s = Some (Inr (int k), s')"
    using 1(1) n(2) k(1) s'(1) by (simp add: sfs_dir_link_def good_name_def)
  moreover have "dir_ok v s'" "dmap v s' = (dmap v s)(name \<mapsto> (ino, k))"
    using dmap_link [OF s'(2) len _ q(5) [OF ok] k64] k(2,3) i n(1) nm q by simp_all
  ultimately show ?thesis by blast
qed

lemma sfs_dir_link_old:
  assumes ok: "dir_ok v s" and n: "dmap v s name \<noteq> None"
  shows "\<exists>s'. sfs_dir_link v name ino s = Some (Inl EEXIST, s') \<and> dir_ok v s' \<and> dmap v s' = dmap v s"
proof -
  obtain ik where ik: "dmap v s name = Some ik" using n by blast
  obtain e s1 where 1: "sfs_dir_findname v name s = Some (as_result (Some ik), e, s1)" "untouched s s1"
    using sfs_dir_findname_ok [OF ok, of name] ik by auto
  then have "sfs_dir_link v name ino s = Some (Inl EEXIST, s1)"
    by (cases ik) (simp add: sfs_dir_link_def as_result_def)
  then show ?thesis using dent_untouched [OF 1(2)] ok by blast
qed

lemma sfs_dir_unlink_ok:
  assumes ok: "dir_ok v s" and n: "dmap v s name = Some (ino, k)"
  shows "\<exists>s'. sfs_dir_unlink v (int k) s = Some (Inr (), s') \<and> dir_ok v s' \<and> dmap v s' = (dmap v s)(name := None)"
proof -
  let ?sd = "\<lparr>sfd_ino = SFS_NOINO, sfd_name = replicate SFS_NAMELEN 0\<rparr>"
  have lk: "live s v k" using n dmap_Some [OF ok] by blast
  have "k * 64 + 64 \<le> unat (sfi_size (inode s v))" using lk by (intro dent_end [OF ok]) (simp add: live_def)
  then have k64: "k * 64 + 64 \<le> 143 * 512" using ok by (simp add: dir_ok_def)
  have len: "length (sfd_name ?sd) = SFS_NAMELEN" by simp
  obtain s' where s': "sfs_writedir v ?sd (int k) s = Some (Inr (), s')" "stored v (k * 64) (dir_bytes ?sd) s s'"
    using sfs_writedir_ok [OF ok k64 len] live_block [OF ok lk] by blast
  then show ?thesis using dmap_unlink [OF s'(2) len _ ok k64 n] by (simp add: sfs_dir_unlink_def)
qed

section \<open>A table of names\<close>

text \<open>
  What the name operations of a file system rely on: a search answers from the table, a new name is
  added, a name that is there is refused, and the slot of a name can be cleared.
\<close>

locale name_table =
  fixes ok :: "'s \<Rightarrow> bool"
    and room :: "'s \<Rightarrow> bool"
    and tab :: "'s \<Rightarrow> 'n \<Rightarrow> (32 word \<times> nat) option"
    and good :: "'n \<Rightarrow> bool"
    and findname :: "'n \<Rightarrow> 's \<Rightarrow> ((errno + 32 word \<times> int) \<times> int option \<times> 's) option"
    and link :: "'n \<Rightarrow> 32 word \<Rightarrow> 's \<Rightarrow> ((errno + int) \<times> 's) option"
    and unlink :: "int \<Rightarrow> 's \<Rightarrow> ((errno + unit) \<times> 's) option"
  assumes find_ok: "ok s \<Longrightarrow> \<exists>e s'. findname n s = Some (as_result (tab s n), e, s')"
    and link_new: "ok s \<Longrightarrow> room s \<Longrightarrow> good n \<Longrightarrow> i \<noteq> SFS_NOINO \<Longrightarrow> tab s n = None \<Longrightarrow>
      \<exists>k s'. link n i s = Some (Inr (int k), s') \<and> ok s' \<and> tab s' = (tab s)(n \<mapsto> (i, k))"
    and link_old: "ok s \<Longrightarrow> tab s n \<noteq> None \<Longrightarrow> \<exists>s'. link n i s = Some (Inl EEXIST, s') \<and> ok s' \<and> tab s' = tab s"
    and unlink_ok: "ok s \<Longrightarrow> tab s n = Some (i, k) \<Longrightarrow>
      \<exists>s'. unlink (int k) s = Some (Inr (), s') \<and> ok s' \<and> tab s' = (tab s)(n := None)"
begin

lemma link_find:
  assumes "ok s" "room s" "good n" "i \<noteq> SFS_NOINO" "tab s n = None"
  shows "\<exists>k s'. link n i s = Some (Inr (int k), s') \<and>
    (\<forall>m. \<exists>e s''. findname m s' = Some (as_result (((tab s)(n \<mapsto> (i, k))) m), e, s''))"
proof -
  obtain k s' where s': "link n i s = Some (Inr (int k), s')" "ok s'" "tab s' = (tab s)(n \<mapsto> (i, k))"
    using link_new [OF assms] by blast
  have "\<exists>e s''. findname m s' = Some (as_result (((tab s)(n \<mapsto> (i, k))) m), e, s'')" for m
    using find_ok [OF s'(2), of m] unfolding s'(3) .
  then show ?thesis using s'(1) by blast
qed

lemma link_unlink:
  assumes "ok s" "room s" "good n" "i \<noteq> SFS_NOINO" "tab s n = None"
  shows "\<exists>k s1 s2. link n i s = Some (Inr (int k), s1) \<and> unlink (int k) s1 = Some (Inr (), s2) \<and> ok s2 \<and> tab s2 = tab s"
proof -
  obtain k s1 where s1: "link n i s = Some (Inr (int k), s1)" "ok s1" "tab s1 = (tab s)(n \<mapsto> (i, k))"
    using link_new [OF assms] by blast
  have "\<exists>s2. unlink (int k) s1 = Some (Inr (), s2) \<and> ok s2 \<and> tab s2 = (tab s1)(n := None)"
    using s1(2,3) by (intro unlink_ok [of s1 n i k]) simp_all
  moreover have "(tab s1)(n := None) = tab s" using assms(5) by (simp add: s1(3) fun_upd_idem)
  ultimately show ?thesis using s1(1) by auto
qed

end

definition dir_room :: "nat \<Rightarrow> sfs_fs \<Rightarrow> bool" where
  "dir_room v s \<longleftrightarrow> ndents s v * 64 + 64 \<le> 143 * 512 \<and> 2 \<le> free s"

interpretation sd: name_table "dir_ok v" "dir_room v" "dmap v" good_name "sfs_dir_findname v" "sfs_dir_link v" "sfs_dir_unlink v" for v
proof (unfold_locales, goal_cases)
  case (1 s n)
  then show ?case using sfs_dir_findname_ok by blast
next
  case (2 s n i)
  then show ?case using sfs_dir_link_new by (simp add: dir_room_def)
next
  case (3 s n i)
  then show ?case using sfs_dir_link_old by blast
next
  case (4 s n i k)
  then show ?case using sfs_dir_unlink_ok by blast
qed

section \<open>Directories as maps\<close>

text \<open>An empty directory on the small volume.\<close>

definition dir_volume :: sfs_fs where
  "dir_volume = (volume [7, 0])\<lparr>svs := (\<lambda>_. Some (vnode0\<lparr>vn_isdir := True, sv_i := inode0\<lparr>sfi_type := SFS_TYPE_DIR\<rparr>\<rparr>))\<rparr>"

lemma dir_volume_ok: "dir_ok 0 dir_volume" "dir_room 0 dir_volume" "dmap 0 dir_volume = (\<lambda>_. None)"
proof -
  have i: "inode dir_volume 0 = inode0\<lparr>sfi_type := SFS_TYPE_DIR\<rparr>" by (simp add: inode_def dir_volume_def)
  have n: "ndents dir_volume 0 = 0" by (simp add: ndents_def i) (simp add: inode0_def)
  have "ptrs s (inode0\<lparr>sfi_type := t\<rparr>) = ptrs s inode0" for s t by (simp add: ptrs_def idwords_def)
  then have "file_ok dir_volume (inode0\<lparr>sfi_type := SFS_TYPE_DIR\<rparr>)"
    by (simp add: file_ok_def blocks_ok_def volume_ptrs inode_wf_def) (simp add: inode0_def)
  moreover have "fs_wf dir_volume" using volume_fs_wf [of "[7, 0]"] by (simp add: dir_volume_def)
  ultimately have "wf dir_volume 0" by (simp add: wf_def i) (simp add: dir_volume_def)
  then show "dir_ok 0 dir_volume" by (simp add: dir_ok_def i live_def n) (simp add: inode0_def)
  have "free dir_volume = 13" using volume_free by (simp add: free_def dir_volume_def)
  then show "dir_room 0 dir_volume" by (simp add: dir_room_def n)
  show "dmap 0 dir_volume = (\<lambda>_. None)" by (simp add: fun_eq_iff dmap_def n)
qed

text \<open>
  (C16) A directory implements a finite map from names to inode numbers. If there is room, \<open>sfs_dir_link\<close>
  of a new name succeeds with a slot, and afterwards \<open>sfs_dir_findname\<close> gives for the new name the new
  inode number and slot, and for every other name what the directory had for it before, \<open>ENOENT\<close> included.
\<close>

theorem sfs_dir_link_findname:
  assumes "dir_ok v s" "dir_room v s" "good_name name" "ino \<noteq> SFS_NOINO" "dmap v s name = None"
  shows "\<exists>k s'. sfs_dir_link v name ino s = Some (Inr (int k), s') \<and>
    (\<forall>m. \<exists>e s''. sfs_dir_findname v m s' = Some (as_result (((dmap v s)(name \<mapsto> (ino, k))) m), e, s''))"
  using assms by (rule sd.link_find)

theorem sfs_dir_link_findname_witness:
  "\<exists>k s'. sfs_dir_link 0 [97] 5 dir_volume = Some (Inr (int k), s') \<and>
    (\<exists>e s''. sfs_dir_findname 0 [97] s' = Some (Inr (5, int k), e, s'')) \<and>
    (\<exists>e s''. sfs_dir_findname 0 [98] s' = Some (Inl ENOENT, e, s''))"
proof -
  obtain k s' where s': "sfs_dir_link 0 [97] 5 dir_volume = Some (Inr (int k), s')"
    "\<forall>m. \<exists>e s''. sfs_dir_findname 0 m s' = Some (as_result ([[97] \<mapsto> (5, k)] m), e, s'')"
    using sfs_dir_link_findname [OF dir_volume_ok(1,2), of "[97]" 5] by (auto simp: good_name_def dir_volume_ok(3))
  then show ?thesis using s'(2) [rule_format, of "[97]"] s'(2) [rule_format, of "[98]"] by (auto simp: as_result_def)
qed

text \<open>
  (C17) Linking a name and clearing the slot that the link was given restores the directory: both calls
  succeed and the map from names to inode numbers is the one before.
\<close>

theorem sfs_dir_link_unlink:
  assumes "dir_ok v s" "dir_room v s" "good_name name" "ino \<noteq> SFS_NOINO" "dmap v s name = None"
  shows "\<exists>k s1 s2. sfs_dir_link v name ino s = Some (Inr (int k), s1) \<and> sfs_dir_unlink v (int k) s1 = Some (Inr (), s2) \<and>
    dir_ok v s2 \<and> dmap v s2 = dmap v s"
  using assms by (rule sd.link_unlink)

theorem sfs_dir_link_unlink_witness:
  "\<exists>k s1 s2. sfs_dir_link 0 [97] 5 dir_volume = Some (Inr (int k), s1) \<and> sfs_dir_unlink 0 (int k) s1 = Some (Inr (), s2) \<and>
    dir_ok 0 s2 \<and> dmap 0 s2 = (\<lambda>_. None)"
  using sfs_dir_link_unlink [OF dir_volume_ok(1,2), of "[97]" 5] by (simp add: good_name_def dir_volume_ok(3))

text \<open>
  (C19) A name that the directory has is refused with \<open>EEXIST\<close>, and the directory keeps its map.
\<close>

theorem sfs_dir_link_exists:
  assumes "dir_ok v s" "dmap v s name \<noteq> None"
  shows "\<exists>s'. sfs_dir_link v name ino s = Some (Inl EEXIST, s') \<and> dir_ok v s' \<and> dmap v s' = dmap v s"
  using assms by (rule sd.link_old)

theorem sfs_dir_link_exists_witness:
  "\<exists>k s1 s2. sfs_dir_link 0 [97] 5 dir_volume = Some (Inr (int k), s1) \<and> sfs_dir_link 0 [97] 6 s1 = Some (Inl EEXIST, s2)"
proof -
  obtain k s1 where s1: "sfs_dir_link 0 [97] 5 dir_volume = Some (Inr (int k), s1)" "dir_ok 0 s1" "dmap 0 s1 = [[97] \<mapsto> (5, k)]"
    using sd.link_new [OF dir_volume_ok(1,2), of "[97]" 5] by (auto simp: good_name_def dir_volume_ok(3))
  then show ?thesis using sfs_dir_link_exists [OF s1(2), of "[97]" 6] by auto
qed

end
