(* ===== verification/Kern_SfsTrunc.thy ===== *)
theory Kern_SfsTrunc
  imports Kern_SfsProps
begin

text \<open>
  Truncation: the blocks that a file gives up are exactly those that become free, and which blocks those
  are.
\<close>

section \<open>Releasing pointers\<close>

text \<open>A list of pointers in which some have become zero.\<close>

abbreviation fewer :: "32 word list \<Rightarrow> 32 word list \<Rightarrow> bool" where
  "fewer ps qs \<equiv> list_all2 (\<lambda>p q. q = p \<or> q = 0) ps qs"

definition named :: "32 word list \<Rightarrow> nat set" where
  "named ps = unat ` (set ps - {0})"

lemma owned_named: "owned s v = named (ptrs s (inode s v))"
  by (simp add: owned_def named_def)

lemma named_nth: "k < length ps \<Longrightarrow> ps ! k \<noteq> 0 \<Longrightarrow> unat (ps ! k) \<in> named ps"
  unfolding named_def by (intro imageI) simp

lemma named_iff: "x \<in> named ps \<longleftrightarrow> (\<exists>k < length ps. ps ! k \<noteq> 0 \<and> x = unat (ps ! k))"
proof
  assume "x \<in> named ps"
  then obtain b where "b \<in> set ps" "b \<noteq> 0" "x = unat b" by (auto simp: named_def)
  then show "\<exists>k < length ps. ps ! k \<noteq> 0 \<and> x = unat (ps ! k)" by (metis in_set_conv_nth)
qed (use named_nth in blast)

lemma fewer_filter:
  "fewer ps qs \<Longrightarrow> distinct (filter (\<lambda>b. b \<noteq> 0) ps) \<Longrightarrow>
    distinct (filter (\<lambda>b. b \<noteq> 0) qs) \<and> set (filter (\<lambda>b. b \<noteq> 0) qs) \<subseteq> set (filter (\<lambda>b. b \<noteq> 0) ps)"
proof (induction ps qs rule: list_all2_induct)
  case (Cons p ps q qs)
  then show ?case by (cases "q = 0") (auto split: if_splits)
qed simp

lemma fewer_named: "fewer ps qs \<Longrightarrow> distinct (filter (\<lambda>b. b \<noteq> 0) ps) \<Longrightarrow> named qs \<subseteq> named ps"
  using fewer_filter [of ps qs] by (auto simp: named_def)

lemma blocks_ok_fewer:
  assumes "blocks_ok s ps" "fewer ps qs" "used s' = used s - (named ps - named qs)" "nblocks s' = nblocks s"
  shows "blocks_ok s' qs"
proof -
  have f: "distinct (filter (\<lambda>b. b \<noteq> 0) qs)" "set (filter (\<lambda>b. b \<noteq> 0) qs) \<subseteq> set (filter (\<lambda>b. b \<noteq> 0) ps)"
    using fewer_filter [OF assms(2)] assms(1) by (auto simp: blocks_ok_def)
  have "b < nblocks s' \<and> unat b \<in> used s'" if "b \<in> set qs" "b \<noteq> 0" for b
  proof -
    have "b \<in> set ps" using f(2) that by auto
    then have "b < nblocks s" "unat b \<in> used s" using assms(1) that(2) by (auto simp: blocks_ok_def)
    moreover have "unat b \<in> named qs" using that by (auto simp: named_def)
    ultimately show ?thesis using assms(3,4) by simp
  qed
  then show ?thesis using f(1) by (simp add: blocks_ok_def)
qed

text \<open>Blocks of the volume are released.\<close>

lemma fs_wf_release:
  assumes "fs_wf s" "disk_ok s'" "hw_ok s'" "bm_ok (sfs_freemap s')" "b_nbits (sfs_freemap s') = b_nbits (sfs_freemap s)"
    "used s' = used s - X" "sfs_super s' = sfs_super s" "d_blocks s' = d_blocks s"
    "\<And>x. x \<in> X \<Longrightarrow> x \<noteq> 0 \<and> x < unat (nblocks s)"
  shows "fs_wf s'"
proof -
  have "bm_limit (sfs_freemap s') = bm_limit (sfs_freemap s)" using assms(5) by (simp add: bm_limit_def)
  moreover have "n \<notin> X" if "unat (nblocks s) \<le> n" for n using assms(9) [of n] that by linarith
  ultimately show ?thesis using assms by (auto simp: fs_wf_def)
qed

lemma named_range:
  assumes "blocks_ok s ps" "x \<in> named ps"
  shows "x \<noteq> 0 \<and> x < unat (nblocks s)" "x \<in> used s"
  using assms by (auto simp: blocks_ok_def named_def word_less_nat_alt unat_gt_0)

lemma sfs_bfree_ok:
  assumes "bm_ok (sfs_freemap s)" "unat b \<in> used s"
  shows "\<exists>fm. sfs_bfree b s = Some (s\<lparr>sfs_freemap := fm, sfs_freemapdirty := True\<rparr>) \<and> bm_ok fm \<and>
    b_nbits fm = b_nbits (sfs_freemap s) \<and> bm_used fm = used s - {unat b}"
proof -
  have "b < b_nbits (sfs_freemap s)" using assms(2) by (simp add: bm_used_def bm_limit_def word_less_nat_alt)
  then obtain fm where "bitmap_unmark (sfs_freemap s) b = Some fm" "bm_ok fm" "b_nbits fm = b_nbits (sfs_freemap s)"
    "bm_used fm = used s - {unat b}"
    using bitmap_unmark_ok [OF assms(1) _ assms(2)] by blast
  then show ?thesis by (intro exI [of _ fm]) (simp add: sfs_bfree_def)
qed

section \<open>A file that shrinks\<close>

text \<open>
  The pointers of the file become \<open>qs\<close>, and exactly the blocks that are no longer named become free. Only
  the indirect block may have changed on the disk.
\<close>

definition shrinks :: "nat \<Rightarrow> 32 word list \<Rightarrow> sfs_fs \<Rightarrow> sfs_fs \<Rightarrow> bool" where
  "shrinks v qs s s' \<longleftrightarrow> wf s' v \<and> same_meta v s s' \<and> ptrs s' (inode s' v) = qs \<and> fewer (ptrs s (inode s v)) qs \<and>
     used s' = used s - (owned s v - owned s' v) \<and>
     (\<forall>x. x \<noteq> unat (sfi_indirect (inode s v)) \<longrightarrow> sectors s' x = sectors s x)"

lemma shrinksI:
  assumes w: "wf s v" and m: "same_meta v s s'" and d: "disk_ok s'" "hw_ok s'" "bm_ok (sfs_freemap s')"
    and q: "ptrs s' (inode s' v) = qs" "fewer (ptrs s (inode s v)) qs"
    and u: "used s' = used s - (owned s v - named qs)"
    and x: "\<And>x. x \<noteq> unat (sfi_indirect (inode s v)) \<Longrightarrow> sectors s' x = sectors s x"
  shows "shrinks v qs s s'"
proof -
  have b: "blocks_ok s (ptrs s (inode s v))" using w by (simp add: wf_def file_ok_def)
  have sup: "sfs_super s' = sfs_super s" "d_blocks s' = d_blocks s" "b_nbits (sfs_freemap s') = b_nbits (sfs_freemap s)"
    using m by (simp_all add: same_meta_def)
  have "fs_wf s'"
  proof (rule fs_wf_release [OF _ d sup(3) u sup(1,2)])
    show "fs_wf s" using w by (simp add: wf_def)
    show "y \<noteq> 0 \<and> y < unat (nblocks s)" if "y \<in> owned s v - named qs" for y
      using named_range(1) [OF b] that by (simp add: owned_named)
  qed
  moreover have "blocks_ok s' qs" using blocks_ok_fewer [OF b q(2)] u sup(1) by (simp add: owned_named)
  ultimately have "wf s' v"
    using q(1) same_meta_inode [OF m] wf_inode_wf [OF w] by (simp add: wf_def file_ok_def)
  then show ?thesis using m q u x by (simp add: shrinks_def owned_named)
qed

lemma fewer_refl: "fewer ps ps"
  by (simp add: list_all2_refl)

lemma fewer_trans: "fewer ps qs \<Longrightarrow> fewer qs rs \<Longrightarrow> fewer ps rs"
  by (rule list_all2_trans [of "\<lambda>p q. q = p \<or> q = 0"]) auto

lemma shrinks_refl: "wf s v \<Longrightarrow> shrinks v (ptrs s (inode s v)) s s"
  using same_meta_refl [of s v] by (auto simp: shrinks_def fewer_refl wf_def)

lemma shrinks_owned: "wf s v \<Longrightarrow> shrinks v qs s s' \<Longrightarrow> owned s' v \<subseteq> owned s v"
  using fewer_named [of "ptrs s (inode s v)" qs] by (simp add: owned_named shrinks_def wf_def file_ok_def blocks_ok_def)

lemma shrinks_trans:
  assumes w: "wf s v" and 1: "shrinks v ps s s1" and 2: "shrinks v qs s1 s2"
    and i: "sfi_indirect (inode s1 v) = sfi_indirect (inode s v) \<or> sectors s2 = sectors s1"
  shows "shrinks v qs s s2"
proof -
  have w1: "wf s1 v" using 1 by (simp add: shrinks_def)
  have "owned s1 v \<subseteq> owned s v" "owned s2 v \<subseteq> owned s1 v" using shrinks_owned [OF w 1] shrinks_owned [OF w1 2] by simp_all
  then have "used s2 = used s - (owned s v - owned s2 v)" using 1 2 unfolding shrinks_def by blast
  moreover have "same_meta v s s2" using 1 2 same_meta_trans unfolding shrinks_def by blast
  moreover have "fewer (ptrs s (inode s v)) qs" using 1 2 fewer_trans unfolding shrinks_def by blast
  moreover have "sectors s2 x = sectors s x" if "x \<noteq> unat (sfi_indirect (inode s v))" for x
    using 1 2 i that by (auto simp: shrinks_def)
  ultimately show ?thesis using 2 by (simp add: shrinks_def)
qed

lemma named_zero:
  assumes "distinct (filter (\<lambda>b. b \<noteq> 0) ps)" "k < length ps" "ps ! k \<noteq> 0"
  shows "named (ps[k := 0]) = named ps - {unat (ps ! k)}" "fewer ps (ps[k := 0])"
proof -
  show "fewer ps (ps[k := 0])" using assms(2) by (auto simp: list_all2_conv_all_nth nth_list_update)
  have "x \<in> set (ps[k := 0]) \<and> x \<noteq> 0 \<longleftrightarrow> x \<in> set ps \<and> x \<noteq> 0 \<and> x \<noteq> ps ! k" for x
  proof
    assume "x \<in> set (ps[k := 0]) \<and> x \<noteq> 0"
    then obtain j where j: "j < length ps" "ps[k := 0] ! j = x" "x \<noteq> 0" by (auto simp: in_set_conv_nth)
    then have "j \<noteq> k" "ps ! j = x" using assms(2) by (auto simp: nth_list_update split: if_splits)
    then show "x \<in> set ps \<and> x \<noteq> 0 \<and> x \<noteq> ps ! k" using distinct_filter_nth [OF assms(1) j(1) assms(2)] j by auto
  next
    assume "x \<in> set ps \<and> x \<noteq> 0 \<and> x \<noteq> ps ! k"
    then obtain j where "j < length ps" "ps ! j = x" "x \<noteq> 0" "j \<noteq> k" by (auto simp: in_set_conv_nth)
    then show "x \<in> set (ps[k := 0]) \<and> x \<noteq> 0" by (auto simp: in_set_conv_nth intro!: exI [of _ j])
  qed
  then have "set (ps[k := 0]) - {0} = (set ps - {0}) - {ps ! k}" by auto
  moreover have "inj (unat :: 32 word \<Rightarrow> nat)" by (rule injI) (simp add: word_unat_eq_iff)
  ultimately show "named (ps[k := 0]) = named ps - {unat (ps ! k)}" by (simp add: named_def image_set_diff)
qed

lemma same_meta_upd:
  assumes "svs s v = Some sv" "sfi_type i = sfi_type (sv_i sv)" "sfi_linkcount i = sfi_linkcount (sv_i sv)"
    "inode_wf i = inode_wf (sv_i sv)" "b_nbits fm = b_nbits (sfs_freemap s)"
  shows "same_meta v s (s\<lparr>sfs_freemap := fm, sfs_freemapdirty := f, svs := (svs s)(v \<mapsto> sv\<lparr>sv_i := i, sv_dirty := d\<rparr>)\<rparr>)"
    (is "same_meta v s ?s")
proof -
  have "svs s v = Some sv \<and> svs ?s = (svs s)(v \<mapsto> sv\<lparr>sv_i := i, sv_dirty := d\<rparr>) \<and> sfi_type i = sfi_type (sv_i sv) \<and>
      sfi_linkcount i = sfi_linkcount (sv_i sv) \<and> inode_wf i = inode_wf (sv_i sv)"
    using assms by simp
  then have "\<exists>sv i d. svs s v = Some sv \<and> svs ?s = (svs s)(v \<mapsto> sv\<lparr>sv_i := i, sv_dirty := d\<rparr>) \<and>
       sfi_type i = sfi_type (sv_i sv) \<and> sfi_linkcount i = sfi_linkcount (sv_i sv) \<and> inode_wf i = inode_wf (sv_i sv)"
    by blast
  then show ?thesis unfolding same_meta_def using assms(5) by (intro conjI) simp_all
qed

lemma ptrs_freemap [simp]: "ptrs (s\<lparr>sfs_freemap := fm, sfs_freemapdirty := f\<rparr>) i = ptrs s i"
  by (rule ptrs_cong) simp

section \<open>The direct blocks\<close>

lemma free_direct:
  assumes w: "wf s v" and sv: "svs s v = Some sv" and k: "k < 15" and b: "ptrs s (inode s v) ! k = b" "b \<noteq> 0"
  shows "\<exists>s1 s2. sfs_bfree b s = Some s1 \<and>
    upd_sv v (\<lambda>sv. sv\<lparr>sv_i := (sv_i sv)\<lparr>sfi_direct := (sfi_direct (sv_i sv))[k := 0]\<rparr>, sv_dirty := True\<rparr>) s1 = Some s2 \<and>
    shrinks v ((ptrs s (inode s v))[k := 0]) s s2 \<and> sfi_indirect (inode s2 v) = sfi_indirect (inode s v) \<and>
    sectors s2 = sectors s"
proof -
  let ?ps = "ptrs s (inode s v)"
  have i: "inode_wf (inode s v)" and f: "fs_wf s" and bo: "blocks_ok s ?ps" using w by (simp_all add: wf_def file_ok_def)
  have iv: "sv_i sv = inode s v" using sv by (simp add: inode_def)
  have kl: "k < length ?ps" using k length_ptrs [OF i, of s] by simp
  have "unat b \<in> named ?ps" using named_nth [OF kl] b by simp
  then have "unat b \<in> used s" using named_range [OF bo] by blast
  then obtain fm where fm: "sfs_bfree b s = Some (s\<lparr>sfs_freemap := fm, sfs_freemapdirty := True\<rparr>)" "bm_ok fm"
    "b_nbits fm = b_nbits (sfs_freemap s)" "bm_used fm = used s - {unat b}"
    using sfs_bfree_ok [of s b] f unfolding fs_wf_def by blast
  let ?i = "(sv_i sv)\<lparr>sfi_direct := (sfi_direct (sv_i sv))[k := 0]\<rparr>"
  let ?s = "s\<lparr>sfs_freemap := fm, sfs_freemapdirty := True, svs := (svs s)(v \<mapsto> sv\<lparr>sv_i := ?i, sv_dirty := True\<rparr>)\<rparr>"
  have iw: "inode ?s v = ?i" by (simp add: inode_def)
  have "ptrs s ?i = ?ps[k := 0]"
    using k i by (simp add: ptrs_def idwords_def iv inode_wf_def list_update_append1)
  then have p: "ptrs ?s (inode ?s v) = ?ps[k := 0]" unfolding iw by simp
  note nz = named_zero [OF _ kl, unfolded b]
  have dist: "distinct (filter (\<lambda>b. b \<noteq> 0) ?ps)" using bo by (simp add: blocks_ok_def)
  have m: "same_meta v s ?s" using sv fm(3) by (intro same_meta_upd) (simp_all add: inode_wf_def)
  have dk: "disk_ok ?s" "hw_ok ?s" "bm_ok (sfs_freemap ?s)" using f fm(2) by (simp_all add: fs_wf_def disk_ok_def hw_ok_def)
  have "used ?s = used s - (owned s v - named (?ps[k := 0]))"
    using fm(4) nz(1) [OF dist b(2)] \<open>unat b \<in> named ?ps\<close> by (auto simp: owned_named)
  then have "shrinks v (?ps[k := 0]) s ?s"
    using nz(2) [OF dist b(2)] by (intro shrinksI [OF w m dk p]) simp_all
  moreover have "sfi_indirect (inode ?s v) = sfi_indirect (inode s v)" unfolding iw by (simp add: iv)
  ultimately show ?thesis
    using fm(1) sv by (intro exI [of _ "s\<lparr>sfs_freemap := fm, sfs_freemapdirty := True\<rparr>"] exI [of _ ?s]) (simp add: upd_sv_def)
qed

definition cut :: "nat list \<Rightarrow> nat \<Rightarrow> 32 word list \<Rightarrow> 32 word list" where
  "cut is L ps = map (\<lambda>k. if k \<in> set is \<and> L \<le> k then 0 else ps ! k) [0..<length ps]"

lemma cut_Nil: "cut [] L ps = ps"
  by (simp add: cut_def map_nth)

lemma cut_keep: "\<not> (L \<le> k \<and> ps ! k \<noteq> 0) \<Longrightarrow> cut (k # ks) L ps = cut ks L ps"
  by (auto simp: cut_def)

lemma cut_zero: "L \<le> k \<Longrightarrow> k < length ps \<Longrightarrow> cut ks L (ps[k := 0]) = cut (k # ks) L ps"
  by (auto simp: cut_def nth_list_update)

lemma trunc_direct_ok:
  assumes "wf s v" "set is \<subseteq> {..<15}"
  shows "\<exists>s'. trunc_direct is L v s = Some s' \<and> sectors s' = sectors s \<and> sfi_indirect (inode s' v) = sfi_indirect (inode s v) \<and>
    shrinks v (cut is L (ptrs s (inode s v))) s s'"
  using assms
proof (induction "is" arbitrary: s)
  case Nil
  then show ?case using shrinks_refl [OF Nil(1)] by (simp add: cut_Nil)
next
  case (Cons k ks)
  let ?ps = "ptrs s (inode s v)"
  have i: "inode_wf (inode s v)" using Cons.prems(1) by (rule wf_inode_wf)
  have k: "k < 15" using Cons.prems(2) by simp
  then have kl: "k < length ?ps" using length_ptrs [OF i, of s] by simp
  obtain sv where sv: "svs s v = Some sv" "sv_i sv = inode s v" using wf_svs [OF Cons.prems(1)] by blast
  have rd: "rd (sfi_direct (sv_i sv)) (int k) = Some (?ps ! k)"
    using k i ptrs_direct [OF i k, of s] by (simp add: rd_def sv(2) inode_wf_def)
  show ?case
  proof (cases "L \<le> k \<and> ?ps ! k \<noteq> 0")
    case False
    then have "trunc_direct (k # ks) L v s = trunc_direct ks L v s" using sv(1) rd by auto
    then show ?thesis using Cons.IH [OF Cons.prems(1)] Cons.prems(2) cut_keep [OF False, of ks] by simp
  next
    case True
    then obtain s1 s2 where 1: "sfs_bfree (?ps ! k) s = Some s1"
      "upd_sv v (\<lambda>sv. sv\<lparr>sv_i := (sv_i sv)\<lparr>sfi_direct := (sfi_direct (sv_i sv))[k := 0]\<rparr>, sv_dirty := True\<rparr>) s1 = Some s2"
      "shrinks v (?ps[k := 0]) s s2" "sfi_indirect (inode s2 v) = sfi_indirect (inode s v)" "sectors s2 = sectors s"
      using free_direct [OF Cons.prems(1) sv(1) k refl] by blast
    have w2: "wf s2 v" "ptrs s2 (inode s2 v) = ?ps[k := 0]" using 1(3) by (simp_all add: shrinks_def)
    obtain s' where s': "trunc_direct ks L v s2 = Some s'" "sectors s' = sectors s2"
      "sfi_indirect (inode s' v) = sfi_indirect (inode s2 v)" "shrinks v (cut (k # ks) L ?ps) s2 s'"
      using Cons.IH [OF w2(1)] Cons.prems(2) w2(2) cut_zero [OF _ kl, of L ks] True by auto
    have "shrinks v (cut (k # ks) L ?ps) s s'" using shrinks_trans [OF Cons.prems(1) 1(3) s'(4)] 1(4) by simp
    moreover have "trunc_direct (k # ks) L v s = Some s'" using s'(1) 1(1,2) sv(1) rd True by simp
    ultimately show ?thesis using s'(2,3) 1(4,5) by simp
  qed
qed

section \<open>The indirect block\<close>

definition dropped :: "nat \<Rightarrow> nat list \<Rightarrow> 8 word list \<Rightarrow> nat set" where
  "dropped L js buf = {unat (word_at buf j) | j. j \<in> set js \<and> L < 15 + j \<and> word_at buf j \<noteq> 0}"

lemma dropped_Cons:
  "dropped L (j # js) buf = (if L < 15 + j \<and> word_at buf j \<noteq> 0 then {unat (word_at buf j)} else {}) \<union> dropped L js buf"
  by (auto simp: dropped_def)

lemma dropped_cong: "(\<And>j. j \<in> set js \<Longrightarrow> word_at buf' j = word_at buf j) \<Longrightarrow> dropped L js buf' = dropped L js buf"
  by (auto simp: dropped_def) metis+

lemma trunc_indirect_ok:
  assumes "distinct js" "set js \<subseteq> {..<128}" "length buf = 512" "bm_ok (sfs_freemap s)"
    "\<And>j. j \<in> set js \<Longrightarrow> word_at buf j \<noteq> 0 \<Longrightarrow> unat (word_at buf j) \<in> used s"
    "\<And>i j. i \<in> set js \<Longrightarrow> j \<in> set js \<Longrightarrow> word_at buf i = word_at buf j \<Longrightarrow> word_at buf i \<noteq> 0 \<Longrightarrow> i = j"
  shows "\<exists>buf' d' fm f. trunc_indirect js L buf h d s =
      Some (buf', h \<or> (\<exists>j \<in> set js. word_at buf' j \<noteq> 0), d', s\<lparr>sfs_freemap := fm, sfs_freemapdirty := f\<rparr>) \<and>
    length buf' = 512 \<and> bm_ok fm \<and> b_nbits fm = b_nbits (sfs_freemap s) \<and>
    bm_used fm = used s - dropped L js buf \<and>
    (\<forall>j < 128. word_at buf' j = (if j \<in> set js \<and> L < 15 + j then 0 else word_at buf j)) \<and> (d \<longrightarrow> d') \<and> (d' \<or> buf' = buf)"
  using assms
proof (induction js arbitrary: buf h d s)
  case Nil
  show ?case
    using Nil.prems(3,4)
    by (intro exI [of _ buf] exI [of _ d] exI [of _ "sfs_freemap s"] exI [of _ "sfs_freemapdirty s"]) (simp add: dropped_def)
next
  case (Cons j js)
  let ?b = "word_at buf j"
  have jb: "j < 128" "j \<notin> set js" "distinct js" "set js \<subseteq> {..<128}" using Cons.prems(1,2) by auto
  show ?case
  proof (cases "L < 15 + j \<and> ?b \<noteq> 0")
    case True
    obtain fm1 where 1: "sfs_bfree ?b s = Some (s\<lparr>sfs_freemap := fm1, sfs_freemapdirty := True\<rparr>)" "bm_ok fm1"
      "b_nbits fm1 = b_nbits (sfs_freemap s)" "bm_used fm1 = used s - {unat ?b}"
      using sfs_bfree_ok [OF Cons.prems(4), of ?b] Cons.prems(5) [of j] True by auto
    let ?s = "s\<lparr>sfs_freemap := fm1, sfs_freemapdirty := True\<rparr>" and ?buf = "set_word buf j 0"
    have w: "word_at ?buf i = (if i = j then 0 else word_at buf i)" if "i < 128" for i
      using word_at_set_word [of j buf i 0] that jb(1) Cons.prems(3) by auto
    have ws: "word_at ?buf i = word_at buf i" if "i \<in> set js" for i using w [of i] that jb(2,4) by auto
    have ne: "unat (word_at buf i) \<noteq> unat ?b" if "i \<in> set js" "word_at buf i \<noteq> 0" for i
      using Cons.prems(6) [of i j] that jb(2) by (auto simp: word_unat_eq_iff [symmetric])
    have "\<exists>buf' d' fm f. trunc_indirect js L ?buf h True ?s =
        Some (buf', h \<or> (\<exists>j \<in> set js. word_at buf' j \<noteq> 0), d', ?s\<lparr>sfs_freemap := fm, sfs_freemapdirty := f\<rparr>) \<and>
      length buf' = 512 \<and> bm_ok fm \<and> b_nbits fm = b_nbits (sfs_freemap ?s) \<and>
      bm_used fm = used ?s - dropped L js ?buf \<and>
      (\<forall>j < 128. word_at buf' j = (if j \<in> set js \<and> L < 15 + j then 0 else word_at ?buf j)) \<and> d'"
    proof -
      have "unat (word_at ?buf i) \<in> used ?s" if "i \<in> set js" "word_at ?buf i \<noteq> 0" for i
        using that ws [of i] ne [of i] Cons.prems(5) [of i] 1(4) by simp
      moreover have "i = k" if "i \<in> set js" "k \<in> set js" "word_at ?buf i = word_at ?buf k" "word_at ?buf i \<noteq> 0" for i k
        using Cons.prems(6) [of i k] that ws by simp
      moreover have "length ?buf = 512" "bm_ok (sfs_freemap ?s)" using jb(1) Cons.prems(3) 1(2) by simp_all
      ultimately have "\<exists>buf' d' fm f. trunc_indirect js L ?buf h True ?s =
          Some (buf', h \<or> (\<exists>j \<in> set js. word_at buf' j \<noteq> 0), d', ?s\<lparr>sfs_freemap := fm, sfs_freemapdirty := f\<rparr>) \<and>
        length buf' = 512 \<and> bm_ok fm \<and> b_nbits fm = b_nbits (sfs_freemap ?s) \<and>
        bm_used fm = used ?s - dropped L js ?buf \<and>
        (\<forall>j < 128. word_at buf' j = (if j \<in> set js \<and> L < 15 + j then 0 else word_at ?buf j)) \<and> (True \<longrightarrow> d') \<and> (d' \<or> buf' = ?buf)"
        by (intro Cons.IH [OF jb(3,4)])
      then show ?thesis by blast
    qed
    then obtain buf' d' fm f where 3: "trunc_indirect js L ?buf h True ?s =
        Some (buf', h \<or> (\<exists>j \<in> set js. word_at buf' j \<noteq> 0), d', ?s\<lparr>sfs_freemap := fm, sfs_freemapdirty := f\<rparr>)"
      "length buf' = 512" "bm_ok fm" "b_nbits fm = b_nbits (sfs_freemap ?s)" "bm_used fm = used ?s - dropped L js ?buf"
      "\<forall>j < 128. word_at buf' j = (if j \<in> set js \<and> L < 15 + j then 0 else word_at ?buf j)" "d'"
      by blast
    have 2: "trunc_indirect js L ?buf h True ?s =
        Some (buf', h \<or> (\<exists>j \<in> set js. word_at buf' j \<noteq> 0), d', s\<lparr>sfs_freemap := fm, sfs_freemapdirty := f\<rparr>)"
      "b_nbits fm = b_nbits (sfs_freemap s)" "bm_used fm = bm_used fm1 - dropped L js ?buf"
      using 3(1,4,5) 1(3) by simp_all
    have u: "bm_used fm = used s - dropped L (j # js) buf"
      unfolding 2(3) 1(4) dropped_Cons using True dropped_cong [of js ?buf buf L, OF ws] by auto
    have b': "\<forall>i < 128. word_at buf' i = (if i \<in> set (j # js) \<and> L < 15 + i then 0 else word_at buf i)"
      using 3(6) w True by auto
    then have "word_at buf' j = 0" using jb(1) True by simp
    then have "trunc_indirect (j # js) L buf h d s =
        Some (buf', h \<or> (\<exists>j \<in> set (j # js). word_at buf' j \<noteq> 0), d', s\<lparr>sfs_freemap := fm, sfs_freemapdirty := f\<rparr>)"
      using 2(1) 1(1) True by simp
    then show ?thesis using 3(2,3,7) 2(2) u b' by (intro exI [of _ buf'] exI [of _ d'] exI [of _ fm] exI [of _ f]) simp
  next
    case False
    let ?h = "h \<or> ?b \<noteq> 0"
    have prem: "\<And>j. j \<in> set js \<Longrightarrow> word_at buf j \<noteq> 0 \<Longrightarrow> unat (word_at buf j) \<in> used s"
      "\<And>i j. i \<in> set js \<Longrightarrow> j \<in> set js \<Longrightarrow> word_at buf i = word_at buf j \<Longrightarrow> word_at buf i \<noteq> 0 \<Longrightarrow> i = j"
      using Cons.prems(5,6) by (meson list.set_intros(2))+
    obtain buf' d' fm f where 2: "trunc_indirect js L buf ?h d s =
        Some (buf', ?h \<or> (\<exists>j \<in> set js. word_at buf' j \<noteq> 0), d', s\<lparr>sfs_freemap := fm, sfs_freemapdirty := f\<rparr>)"
      "length buf' = 512" "bm_ok fm" "b_nbits fm = b_nbits (sfs_freemap s)"
      "bm_used fm = used s - dropped L js buf"
      "\<forall>j < 128. word_at buf' j = (if j \<in> set js \<and> L < 15 + j then 0 else word_at buf j)" "d \<longrightarrow> d'" "d' \<or> buf' = buf"
      using Cons.IH [OF jb(3,4) Cons.prems(3,4) prem, of ?h d] by blast
    have j0: "word_at buf' j = ?b" using 2(6) jb(1,2) by simp
    have u: "dropped L (j # js) buf = dropped L js buf" unfolding dropped_Cons using False by auto
    have b': "\<forall>i < 128. word_at buf' i = (if i \<in> set (j # js) \<and> L < 15 + i then 0 else word_at buf i)"
      using 2(6) j0 False by auto
    have "trunc_indirect (j # js) L buf h d s =
        Some (buf', h \<or> (\<exists>j \<in> set (j # js). word_at buf' j \<noteq> 0), d', s\<lparr>sfs_freemap := fm, sfs_freemapdirty := f\<rparr>)"
      using 2(1) False j0 by auto
    then show ?thesis using 2(2-5,7,8) u b' by (intro exI [of _ buf'] exI [of _ d'] exI [of _ fm] exI [of _ f]) simp
  qed
qed

lemma fewer_diff:
  assumes d: "distinct (filter (\<lambda>b. b \<noteq> 0) ps)" and f: "fewer ps qs"
  shows "named ps - named qs = {unat (ps ! k) | k. k < length ps \<and> ps ! k \<noteq> 0 \<and> qs ! k = 0}"
proof -
  have len: "length qs = length ps" using list_all2_lengthD [OF f] by simp
  have nth: "qs ! k = ps ! k \<or> qs ! k = 0" if "k < length ps" for k using list_all2_nthD [OF f that] .
  have in_qs: "unat (ps ! k) \<in> named qs \<longleftrightarrow> qs ! k \<noteq> 0" if k: "k < length ps" "ps ! k \<noteq> 0" for k
  proof
    assume "unat (ps ! k) \<in> named qs"
    then obtain j where j: "j < length ps" "qs ! j \<noteq> 0" "unat (qs ! j) = unat (ps ! k)" unfolding named_iff len by metis
    then have "ps ! j = ps ! k" using nth [OF j(1)] word_unat_eq_iff by metis
    then have "j = k" using distinct_filter_nth [OF d j(1) k(1)] k(2) by simp
    then show "qs ! k \<noteq> 0" using j(2) by simp
  next
    assume "qs ! k \<noteq> 0"
    then show "unat (ps ! k) \<in> named qs" using nth [OF k(1)] named_nth [of k qs] k(1) len by auto
  qed
  show ?thesis
  proof (intro set_eqI)
    fix x
    show "x \<in> named ps - named qs \<longleftrightarrow> x \<in> {unat (ps ! k) | k. k < length ps \<and> ps ! k \<noteq> 0 \<and> qs ! k = 0}"
      using in_qs named_iff [of x ps] by auto
  qed
qed

lemma wf_read_indirect:
  assumes "wf s v" "sfi_indirect (inode s v) \<noteq> 0"
  shows "sfs_rblock (replicate 512 0) (sfi_indirect (inode s v)) s =
      Some (Inr (), sectors s (unat (sfi_indirect (inode s v))), disk_read (unat (sfi_indirect (inode s v))) s)"
    "sfi_indirect (inode s v) < d_blocks s" "unat (sfi_indirect (inode s v)) \<in> used s" "length (sectors s x) = 512"
proof -
  have f: "fs_wf s" and i: "inode_wf (inode s v)" using assms(1) by (simp_all add: wf_def file_ok_def)
  note p = wf_ptr [OF assms(1), of 15]
  show b: "sfi_indirect (inode s v) < d_blocks s" and "unat (sfi_indirect (inode s v)) \<in> used s"
    using p ptrs_indirect [OF i, of s] assms(2) fs_wf_block [OF f] by simp_all
  show "sfs_rblock (replicate 512 0) (sfi_indirect (inode s v)) s =
      Some (Inr (), sectors s (unat (sfi_indirect (inode s v))), disk_read (unat (sfi_indirect (inode s v))) s)"
    using fs_wf_disk [OF f] b by (intro sfs_rblock_ok) simp_all
  show "length (sectors s x) = 512" using fs_wf_disk [OF f] by (simp add: disk_ok_def)
qed

text \<open>The pointers after the indirect block has been cut, if anything is left in it.\<close>

definition cut_id :: "nat \<Rightarrow> 32 word \<Rightarrow> 32 word list \<Rightarrow> 32 word list" where
  "cut_id L ib ps = take 15 ps @ ib # map (\<lambda>j. if L < 15 + j then 0 else ps ! (16 + j)) [0..<128]"

lemma cut_id_nth:
  assumes "length ps = 144"
  shows "length (cut_id L ib ps) = 144" "k < 15 \<Longrightarrow> cut_id L ib ps ! k = ps ! k" "cut_id L ib ps ! 15 = ib"
    "j < 128 \<Longrightarrow> cut_id L ib ps ! (16 + j) = (if L < 15 + j then 0 else ps ! (16 + j))"
  using assms by (simp_all add: cut_id_def nth_append)

lemma index_cases: "k < 144 \<Longrightarrow> k < 15 \<or> k = 15 \<or> (\<exists>j < 128. k = 16 + j)" for k :: nat
  by presburger

lemma cut_id_fewer:
  assumes "length ps = 144" "ib = ps ! 15 \<or> ib = 0"
  shows "fewer ps (cut_id L ib ps)"
proof (rule list_all2_all_nthI)
  show "length ps = length (cut_id L ib ps)" using assms(1) cut_id_nth(1) by simp
  show "cut_id L ib ps ! k = ps ! k \<or> cut_id L ib ps ! k = 0" if "k < length ps" for k
    using index_cases [of k] that assms cut_id_nth [OF assms(1)] by auto
qed

lemma cut_id_diff:
  assumes "length ps = 144" "ib = ps ! 15 \<or> ib = 0" "distinct (filter (\<lambda>b. b \<noteq> 0) ps)"
    "\<And>j. j < 128 \<Longrightarrow> word_at buf j = ps ! (16 + j)"
  shows "named ps - named (cut_id L ib ps) =
    dropped L [0..<128] buf \<union> (if ib = 0 \<and> ps ! 15 \<noteq> 0 then {unat (ps ! 15)} else {})"
proof -
  note c = cut_id_nth [OF assms(1)]
  have eqv: "(\<exists>k < 144. ps ! k \<noteq> 0 \<and> cut_id L ib ps ! k = 0 \<and> x = unat (ps ! k)) \<longleftrightarrow>
      (\<exists>j < 128. L < 15 + j \<and> ps ! (16 + j) \<noteq> 0 \<and> x = unat (ps ! (16 + j))) \<or> ib = 0 \<and> ps ! 15 \<noteq> 0 \<and> x = unat (ps ! 15)" for x
  proof
    assume "\<exists>k < 144. ps ! k \<noteq> 0 \<and> cut_id L ib ps ! k = 0 \<and> x = unat (ps ! k)"
    then obtain k where k: "k < 144" "ps ! k \<noteq> 0" "cut_id L ib ps ! k = 0" "x = unat (ps ! k)" by blast
    then show "(\<exists>j < 128. L < 15 + j \<and> ps ! (16 + j) \<noteq> 0 \<and> x = unat (ps ! (16 + j))) \<or> ib = 0 \<and> ps ! 15 \<noteq> 0 \<and> x = unat (ps ! 15)"
      using index_cases [OF k(1)] c by (auto split: if_splits)
  next
    assume "(\<exists>j < 128. L < 15 + j \<and> ps ! (16 + j) \<noteq> 0 \<and> x = unat (ps ! (16 + j))) \<or> ib = 0 \<and> ps ! 15 \<noteq> 0 \<and> x = unat (ps ! 15)"
    then show "\<exists>k < 144. ps ! k \<noteq> 0 \<and> cut_id L ib ps ! k = 0 \<and> x = unat (ps ! k)"
    proof (elim disjE exE conjE)
      fix j assume "j < 128" "L < 15 + j" "ps ! (16 + j) \<noteq> 0" "x = unat (ps ! (16 + j))"
      then show ?thesis using c(4) [of j] by (intro exI [of _ "16 + j"]) simp
    next
      assume "ib = 0" "ps ! 15 \<noteq> 0" "x = unat (ps ! 15)"
      then show ?thesis using c(3) by (intro exI [of _ 15]) simp
    qed
  qed
  have dr: "dropped L [0..<128] buf = {x. \<exists>j < 128. L < 15 + j \<and> ps ! (16 + j) \<noteq> 0 \<and> x = unat (ps ! (16 + j))}"
    unfolding dropped_def using assms(4) by (intro Collect_cong) (metis atLeastLessThan_iff le0 set_upt)
  have "named ps - named (cut_id L ib ps) = {x. \<exists>k < 144. ps ! k \<noteq> 0 \<and> cut_id L ib ps ! k = 0 \<and> x = unat (ps ! k)}"
    unfolding fewer_diff [OF assms(3) cut_id_fewer [OF assms(1,2)]] using assms(1) by (intro Collect_cong) metis
  then show ?thesis unfolding eqv dr by auto
qed

lemma ptrs_cut_id:
  assumes "inode_wf i" "sfi_indirect i = ib" "ib \<noteq> 0" "take 15 ps = sfi_direct i"
    "\<And>j. j < 128 \<Longrightarrow> word_at (sectors s (unat ib)) j = (if L < 15 + j then 0 else ps ! (16 + j))"
  shows "ptrs s i = cut_id L ib ps"
  using assms by (simp add: ptrs_def cut_id_def idwords_def)

lemma ptrs_cut_id_0:
  assumes "sfi_indirect i = 0" "take 15 ps = sfi_direct i" "\<And>j. j < 128 \<Longrightarrow> (if L < 15 + j then 0 else ps ! (16 + j)) = 0"
  shows "ptrs s i = cut_id L 0 ps"
  using assms by (simp add: ptrs_def cut_id_def idwords_def)

text \<open>The entries and the free map after the loop over the indirect block, which has been read.\<close>

definition looped :: "nat \<Rightarrow> nat \<Rightarrow> sfs_fs \<Rightarrow> 8 word list \<Rightarrow> bool \<Rightarrow> bitmap \<Rightarrow> bool" where
  "looped v L s buf d fm \<longleftrightarrow> length buf = 512 \<and> bm_ok fm \<and> b_nbits fm = b_nbits (sfs_freemap s) \<and>
     bm_used fm = used s - dropped L [0..<128] (sectors s (unat (sfi_indirect (inode s v)))) \<and>
     (\<forall>j < 128. word_at buf j = (if L < 15 + j then 0 else ptrs s (inode s v) ! (16 + j))) \<and>
     (d \<or> buf = sectors s (unat (sfi_indirect (inode s v))))"

lemma idblock_loop:
  assumes w: "wf s v" and ib: "sfi_indirect (inode s v) \<noteq> 0"
  shows "\<exists>buf d fm g. trunc_indirect [0..<128] L (sectors s (unat (sfi_indirect (inode s v)))) False False
      (disk_read (unat (sfi_indirect (inode s v))) s) = Some (buf, \<exists>j < 128. word_at buf j \<noteq> 0, d,
        (disk_read (unat (sfi_indirect (inode s v))) s)\<lparr>sfs_freemap := fm, sfs_freemapdirty := g\<rparr>) \<and> looped v L s buf d fm"
proof -
  let ?ps = "ptrs s (inode s v)" and ?b = "sectors s (unat (sfi_indirect (inode s v)))"
  let ?s0 = "disk_read (unat (sfi_indirect (inode s v))) s"
  have i: "inode_wf (inode s v)" and f: "fs_wf s" and bo: "blocks_ok s ?ps" using w by (simp_all add: wf_def file_ok_def)
  have len: "length ?ps = 144" using length_ptrs [OF i] .
  have dist: "distinct (filter (\<lambda>b. b \<noteq> 0) ?ps)" using bo by (simp add: blocks_ok_def)
  have wb: "word_at ?b j = ?ps ! (16 + j)" if "j < 128" for j using ptrs_idword [OF i that, of s] ib by simp
  have q: "untouched s ?s0" using untouched_read fs_wf_disk [OF f] by simp
  note qs = untouched_simps [OF q]
  have prem: "unat (word_at ?b j) \<in> used ?s0" if "j \<in> set [0..<128]" "word_at ?b j \<noteq> 0" for j
    using that wf_ptr(2) [OF w, of "16 + j"] wb [of j] qs by simp
  have inj: "k = j" if "k \<in> set [0..<128]" "j \<in> set [0..<128]" "word_at ?b k = word_at ?b j" "word_at ?b k \<noteq> 0" for k j
    using that distinct_filter_nth [OF dist, of "16 + k" "16 + j"] wb len by simp
  have "set [0..<128] \<subseteq> {..<128 :: nat}" "bm_ok (sfs_freemap ?s0)" using untouched_fs_wf [OF q f] by (auto simp: fs_wf_def)
  from trunc_indirect_ok [OF distinct_upt this(1) wf_read_indirect(4) [OF w ib] this(2) prem inj, of L False False]
  obtain buf d fm g where 1: "trunc_indirect [0..<128] L ?b False False ?s0 =
      Some (buf, False \<or> (\<exists>j \<in> set [0..<128]. word_at buf j \<noteq> 0), d, ?s0\<lparr>sfs_freemap := fm, sfs_freemapdirty := g\<rparr>)"
    "length buf = 512" "bm_ok fm" "b_nbits fm = b_nbits (sfs_freemap ?s0)" "bm_used fm = used ?s0 - dropped L [0..<128] ?b"
    "\<forall>j < 128. word_at buf j = (if j \<in> set [0..<128] \<and> L < 15 + j then 0 else word_at ?b j)" "d \<or> buf = ?b"
    by blast
  have "(False \<or> (\<exists>j \<in> set [0..<128]. word_at buf j \<noteq> 0)) \<longleftrightarrow> (\<exists>j < 128. word_at buf j \<noteq> 0)" by auto
  moreover have "looped v L s buf d fm" using 1(2-7) qs wb by (simp add: looped_def)
  ultimately show ?thesis using 1(1) by auto
qed

lemma wf_ptrs_facts:
  assumes "wf s v"
  shows "inode_wf (inode s v)" "length (ptrs s (inode s v)) = 144" "distinct (filter (\<lambda>b. b \<noteq> 0) (ptrs s (inode s v)))"
    "ptrs s (inode s v) ! 15 = sfi_indirect (inode s v)" "take 15 (ptrs s (inode s v)) = sfi_direct (inode s v)"
  using assms length_ptrs [of "inode s v" s] ptrs_indirect [of "inode s v" s]
  by (simp_all add: wf_def file_ok_def blocks_ok_def ptrs_def inode_wf_def)

lemma looped_used:
  assumes w: "wf s v" and ib: "sfi_indirect (inode s v) \<noteq> 0" and l: "looped v L s buf d fm"
    and b: "b = sfi_indirect (inode s v) \<or> b = 0"
  shows "bm_used fm - (if b = 0 then {unat (sfi_indirect (inode s v))} else {}) =
      used s - (owned s v - named (cut_id L b (ptrs s (inode s v))))"
    "fewer (ptrs s (inode s v)) (cut_id L b (ptrs s (inode s v)))"
proof -
  note p = wf_ptrs_facts [OF w]
  have b': "b = ptrs s (inode s v) ! 15 \<or> b = 0" using b p(4) by simp
  have "word_at (sectors s (unat (sfi_indirect (inode s v)))) j = ptrs s (inode s v) ! (16 + j)" if "j < 128" for j
    using ptrs_idword [OF p(1) that, of s] ib by simp
  then have "named (ptrs s (inode s v)) - named (cut_id L b (ptrs s (inode s v))) =
      dropped L [0..<128] (sectors s (unat (sfi_indirect (inode s v)))) \<union> (if b = 0 then {unat (sfi_indirect (inode s v))} else {})"
    using cut_id_diff [OF p(2) b' p(3)] p(4) ib by (simp only: simp_thms)
  then show "bm_used fm - (if b = 0 then {unat (sfi_indirect (inode s v))} else {}) =
      used s - (owned s v - named (cut_id L b (ptrs s (inode s v))))"
    using l by (simp add: looped_def owned_named Diff_Diff_Int Diff_eq Int_assoc)
  show "fewer (ptrs s (inode s v)) (cut_id L b (ptrs s (inode s v)))" using cut_id_fewer [OF p(2) b'] .
qed

text \<open>Something is left in the indirect block; it is on the disk as the loop left it.\<close>

lemma shrinks_kept:
  assumes w: "wf s v" and ib: "sfi_indirect (inode s v) \<noteq> 0" and l: "looped v L s buf d fm"
    and s': "svs s' = svs s" "sfs_super s' = sfs_super s" "same_meta v s s'" "sfs_freemap s' = fm" "disk_ok s'" "hw_ok s'"
      "sectors s' = (sectors s)(unat (sfi_indirect (inode s v)) := buf)"
  shows "shrinks v (cut_id L (sfi_indirect (inode s v)) (ptrs s (inode s v))) s s'"
proof (rule shrinksI [OF w s'(3,5,6)])
  have i: "inode s' v = inode s v" using s'(1) by (simp add: inode_def)
  show "ptrs s' (inode s' v) = cut_id L (sfi_indirect (inode s v)) (ptrs s (inode s v))"
    unfolding i using wf_ptrs_facts [OF w] ib l s'(7) by (intro ptrs_cut_id) (simp_all add: looped_def)
  show "bm_ok (sfs_freemap s')" using l s'(4) by (simp add: looped_def)
  show "used s' = used s - (owned s v - named (cut_id L (sfi_indirect (inode s v)) (ptrs s (inode s v))))"
    using looped_used(1) [OF w ib l, of "sfi_indirect (inode s v)"] ib s'(4) by simp
  show "fewer (ptrs s (inode s v)) (cut_id L (sfi_indirect (inode s v)) (ptrs s (inode s v)))"
    using looped_used(2) [OF w ib l] by simp
qed (use s'(7) in simp)

text \<open>Nothing is left in the indirect block; it is freed too.\<close>

lemma shrinks_empty:
  assumes w: "wf s v" and sv: "svs s v = Some sv" and ib: "sfi_indirect (inode s v) \<noteq> 0" and l: "looped v L s buf d fm"
    and z: "\<forall>j < 128. word_at buf j = 0" and q: "untouched s s0"
    and fm: "bm_ok fm2" "b_nbits fm2 = b_nbits fm" "bm_used fm2 = bm_used fm - {unat (sfi_indirect (inode s v))}"
  shows "shrinks v (cut_id L 0 (ptrs s (inode s v))) s (s0\<lparr>sfs_freemap := fm2, sfs_freemapdirty := g,
    svs := (svs s0)(v \<mapsto> sv\<lparr>sv_i := (sv_i sv)\<lparr>sfi_indirect := 0\<rparr>, sv_dirty := True\<rparr>)\<rparr>)" (is "shrinks _ _ _ ?s")
proof -
  have iv: "sv_i sv = inode s v" using sv by (simp add: inode_def)
  note qs = untouched_simps [OF q]
  have "same_meta v s s0" using untouched_same_meta [OF q, of v] sv by simp
  moreover have "same_meta v s0 ?s"
    using sv fm(2) l qs by (intro same_meta_upd) (simp_all add: inode_wf_def looped_def)
  ultimately have m: "same_meta v s ?s" by (rule same_meta_trans)
  have f0: "fs_wf s0" using untouched_fs_wf [OF q] w by (simp add: wf_def)
  show ?thesis
  proof (rule shrinksI [OF w m])
    have i: "inode ?s v = (inode s v)\<lparr>sfi_indirect := 0\<rparr>" by (simp add: inode_def) (simp add: sv)
    show "ptrs ?s (inode ?s v) = cut_id L 0 (ptrs s (inode s v))"
      unfolding i using wf_ptrs_facts [OF w] z l by (intro ptrs_cut_id_0) (simp_all add: looped_def)
    show "disk_ok ?s" "hw_ok ?s" using f0 by (simp_all add: fs_wf_def disk_ok_def hw_ok_def)
    show "used ?s = used s - (owned s v - named (cut_id L 0 (ptrs s (inode s v))))"
      using looped_used(1) [OF w ib l, of 0] fm(3) by simp
    show "fewer (ptrs s (inode s v)) (cut_id L 0 (ptrs s (inode s v)))" using looped_used(2) [OF w ib l] by simp
  qed (use fm(1) qs in simp_all)
qed

lemma indirect_not_dropped:
  assumes w: "wf s v" and ib: "sfi_indirect (inode s v) \<noteq> 0" and l: "looped v L s buf d fm"
  shows "unat (sfi_indirect (inode s v)) \<in> bm_used fm"
proof -
  note p = wf_ptrs_facts [OF w]
  have "unat (sfi_indirect (inode s v)) \<notin> dropped L [0..<128] (sectors s (unat (sfi_indirect (inode s v))))"
  proof
    assume "unat (sfi_indirect (inode s v)) \<in> dropped L [0..<128] (sectors s (unat (sfi_indirect (inode s v))))"
    then obtain j where j: "j < 128" "unat (sfi_indirect (inode s v)) = unat (ptrs s (inode s v) ! (16 + j))"
      using ptrs_idword [OF p(1), of _ s] ib unfolding dropped_def by auto
    then show False using wf_distinct_ptr [OF w, of 15 "16 + j"] p(4) ib by simp
  qed
  then show ?thesis using wf_read_indirect(3) [OF w ib] l by (simp add: looped_def)
qed

lemma trunc_idblock_ok:
  assumes w: "wf s v" and ib: "sfi_indirect (inode s v) \<noteq> 0"
  shows "\<exists>s' b. trunc_idblock v L (sfi_indirect (inode s v)) s = Some (Inr (), s') \<and>
    shrinks v (cut_id L b (ptrs s (inode s v))) s s'"
proof -
  let ?ib = "sfi_indirect (inode s v)"
  let ?s0 = "disk_read (unat ?ib) s"
  have f: "fs_wf s" using w by (simp add: wf_def)
  obtain sv where sv: "svs s v = Some sv" using wf_svs [OF w] by blast
  note r = wf_read_indirect [OF w ib]
  obtain buf d fm g where 1: "trunc_indirect [0..<128] L (sectors s (unat ?ib)) False False ?s0 =
      Some (buf, \<exists>j < 128. word_at buf j \<noteq> 0, d, ?s0\<lparr>sfs_freemap := fm, sfs_freemapdirty := g\<rparr>)" "looped v L s buf d fm"
    using idblock_loop [OF w ib, of L] by blast
  let ?s1 = "?s0\<lparr>sfs_freemap := fm, sfs_freemapdirty := g\<rparr>"
  have q: "untouched s ?s0" using untouched_read fs_wf_disk [OF f] by simp
  have dk: "disk_ok ?s1" "hw_ok ?s1" using untouched_fs_wf [OF q f] by (simp_all add: fs_wf_def disk_ok_def hw_ok_def)
  have fmo: "bm_ok fm" "length buf = 512" "b_nbits fm = b_nbits (sfs_freemap s)" using 1(2) by (simp_all add: looped_def)
  have m1: "same_meta v s ?s1"
    using same_meta_refl [of s v] sv fmo(3) by (simp add: same_meta_def disk_read_def)
  show ?thesis
  proof (cases "\<exists>j < 128. word_at buf j \<noteq> 0")
    case False
    obtain fm2 where 2: "sfs_bfree ?ib ?s1 = Some (?s1\<lparr>sfs_freemap := fm2, sfs_freemapdirty := True\<rparr>)" "bm_ok fm2"
      "b_nbits fm2 = b_nbits fm" "bm_used fm2 = bm_used fm - {unat ?ib}"
      using sfs_bfree_ok [of ?s1 ?ib] indirect_not_dropped [OF w ib 1(2)] fmo(1) by auto
    let ?s2 = "?s0\<lparr>sfs_freemap := fm2, sfs_freemapdirty := True,
      svs := (svs ?s0)(v \<mapsto> sv\<lparr>sv_i := (sv_i sv)\<lparr>sfi_indirect := 0\<rparr>, sv_dirty := True\<rparr>)\<rparr>"
    have "trunc_idblock v L ?ib s = Some (Inr (), ?s2)"
      using r(1) 1(1) 2(1) False sv by (simp add: trunc_idblock_def upd_sv_def disk_read_def)
    then show ?thesis using shrinks_empty [OF w sv ib 1(2) _ q 2(2-4)] False by blast
  next
    case True
    show ?thesis
    proof (cases d)
      case d: True
      let ?s2 = "disk_write (unat ?ib) buf ?s1"
      have "sfs_wblock buf ?ib ?s1 = Some (Inr (), ?s2)" using dk r(2) fmo(2) by (intro sfs_wblock_ok) simp_all
      then have "trunc_idblock v L ?ib s = Some (Inr (), ?s2)" using r(1) 1(1) True d by (auto simp: trunc_idblock_def)
      moreover have m2: "same_meta v s ?s2" using m1 by (simp add: same_meta_def disk_write_def)
      have dk2: "disk_ok ?s2" "hw_ok ?s2" using dk fmo(2) by simp_all
      have "shrinks v (cut_id L ?ib (ptrs s (inode s v))) s ?s2"
        by (intro shrinks_kept [OF w ib 1(2) _ _ m2 _ dk2]) (simp_all add: disk_write_def disk_read_def)
      ultimately show ?thesis by blast
    next
      case d: False
      then have "trunc_idblock v L ?ib s = Some (Inr (), ?s1)" using r(1) 1(1) True by (auto simp: trunc_idblock_def)
      moreover have "buf = sectors s (unat ?ib)" using 1(2) d by (simp add: looped_def)
      then have "shrinks v (cut_id L ?ib (ptrs s (inode s v))) s ?s1"
        by (intro shrinks_kept [OF w ib 1(2) _ _ m1 _ dk]) (simp_all add: disk_read_def)
      ultimately show ?thesis by blast
    qed
  qed
qed

section \<open>Truncation\<close>

lemma shrinks_size:
  assumes w: "wf s v"
  shows "\<exists>s'. upd_sv v (\<lambda>sv. sv\<lparr>sv_i := (sv_i sv)\<lparr>sfi_size := x\<rparr>, sv_dirty := True\<rparr>) s = Some s' \<and>
    shrinks v (ptrs s (inode s v)) s s' \<and> sfi_size (inode s' v) = x \<and> sectors s' = sectors s"
proof -
  obtain sv where sv: "svs s v = Some sv" "sv_i sv = inode s v" using wf_svs [OF w] by blast
  let ?s = "s\<lparr>sfs_freemap := sfs_freemap s, sfs_freemapdirty := sfs_freemapdirty s,
    svs := (svs s)(v \<mapsto> sv\<lparr>sv_i := (sv_i sv)\<lparr>sfi_size := x\<rparr>, sv_dirty := True\<rparr>)\<rparr>"
  have i: "inode ?s v = (inode s v)\<lparr>sfi_size := x\<rparr>" by (simp add: inode_def) (simp add: sv(1))
  have m: "same_meta v s ?s" using sv(1) by (intro same_meta_upd) (simp_all add: inode_wf_def)
  have f: "fs_wf ?s" using w by (simp add: wf_def)
  have p: "ptrs ?s (inode ?s v) = ptrs s (inode s v)" unfolding i by simp
  have "used s = used s - (owned s v - named (ptrs s (inode s v)))" by (simp add: owned_named)
  then have "shrinks v (ptrs s (inode s v)) s ?s"
    using f p by (intro shrinksI [OF w m]) (simp_all add: fewer_refl fs_wf_def)
  then show ?thesis using sv(1) i by (intro exI [of _ ?s]) (simp add: upd_sv_def)
qed

definition kept :: "nat \<Rightarrow> nat \<Rightarrow> bool" where
  "kept L fb \<longleftrightarrow> fb < L \<or> 15 \<le> fb \<and> fb \<le> L"

lemma cut_nth: "length ps = 144 \<Longrightarrow> k < 144 \<Longrightarrow> cut [0..<15] L ps ! k = (if k < 15 \<and> L \<le> k then 0 else ps ! k)"
  by (simp add: cut_def)

lemma cut_kept:
  assumes "length ps = 144" "fb < 143"
  shows "cut_id L b (cut [0..<15] L ps) ! pos fb = (if kept L fb then ps ! pos fb else 0)"
proof -
  have l: "length (cut [0..<15] L ps) = 144" using assms(1) by (simp add: cut_def)
  show ?thesis
  proof (cases "fb < 15")
    case True
    then show ?thesis using cut_id_nth(2) [OF l, of fb L b] cut_nth [OF assms(1), of fb L] by (auto simp: pos_def kept_def)
  next
    case False
    then have "pos fb = 16 + (fb - 15)" "fb - 15 < 128" using assms(2) by (simp_all add: pos_def)
    then show ?thesis
      using cut_id_nth(4) [OF l, of "fb - 15" L b] cut_nth [OF assms(1), of "16 + (fb - 15)" L] False by (auto simp: kept_def)
  qed
qed

lemma cut_kept_all:
  assumes "length ps = 144" "fb < 143" "142 \<le> L \<or> (15 \<le> fb \<longrightarrow> ps ! pos fb = 0)"
  shows "cut [0..<15] L ps ! pos fb = (if kept L fb then ps ! pos fb else 0)"
  using assms cut_nth [OF assms(1), of "pos fb" L] pos_less [OF assms(2)] by (auto simp: kept_def pos_def)

lemma truncate_blocks:
  assumes w: "wf s v"
  shows "\<exists>s1 s2 qs. trunc_direct [0..<15] L v s = Some s1 \<and> svs s1 v \<noteq> None \<and>
    (if L < 142 \<and> sfi_indirect (inode s1 v) \<noteq> 0 then trunc_idblock v L (sfi_indirect (inode s1 v)) s1 else Some (Inr (), s1)) =
      Some (Inr (), s2) \<and> shrinks v qs s s2 \<and>
    (\<forall>fb < 143. qs ! pos fb = (if kept L fb then ptrs s (inode s v) ! pos fb else 0))"
proof -
  let ?ps = "ptrs s (inode s v)"
  note p = wf_ptrs_facts [OF w]
  obtain s1 where 1: "trunc_direct [0..<15] L v s = Some s1" "sectors s1 = sectors s"
    "sfi_indirect (inode s1 v) = sfi_indirect (inode s v)" "shrinks v (cut [0..<15] L ?ps) s s1"
    using trunc_direct_ok [OF w, of "[0..<15]" L] by (auto simp: atLeast0LessThan)
  have w1: "wf s1 v" "ptrs s1 (inode s1 v) = cut [0..<15] L ?ps" using 1(4) by (simp_all add: shrinks_def)
  have sv1: "svs s1 v \<noteq> None" using w1(1) by (simp add: wf_def)
  show ?thesis
  proof (cases "L < 142 \<and> sfi_indirect (inode s1 v) \<noteq> 0")
    case True
    then obtain s2 b where 2: "trunc_idblock v L (sfi_indirect (inode s1 v)) s1 = Some (Inr (), s2)"
      "shrinks v (cut_id L b (cut [0..<15] L ?ps)) s1 s2"
      using trunc_idblock_ok [OF w1(1), of L] unfolding w1(2) by blast
    then show ?thesis
      using 1(1) sv1 True shrinks_trans [OF w 1(4) 2(2)] 1(3) cut_kept [OF p(2)]
      by (intro exI [of _ s1] exI [of _ s2] exI [of _ "cut_id L b (cut [0..<15] L ?ps)"]) simp
  next
    case False
    have "142 \<le> L \<or> (15 \<le> fb \<longrightarrow> ?ps ! pos fb = 0)" if "fb < 143" for fb
    proof (cases "142 \<le> L \<or> fb < 15")
      case no: False
      then have "sfi_indirect (inode s v) = 0" "fb - 15 < 128" using False 1(3) that by auto
      then show ?thesis using ptrs_idword [OF p(1), of "fb - 15" s] no by (simp add: pos_def)
    qed auto
    then have "\<forall>fb < 143. cut [0..<15] L ?ps ! pos fb = (if kept L fb then ?ps ! pos fb else 0)"
      using cut_kept_all [OF p(2)] by blast
    then show ?thesis using 1(1,4) sv1 False by (intro exI [of _ s1] exI [of _ s1] exI [of _ "cut [0..<15] L ?ps"]) auto
  qed
qed

lemma blocklen:
  assumes "0 \<le> len" "len \<le> 143 * 512"
  shows "cint (len + 512) = Some (len + 512)" "nat ((len + 512 - 1) sdiv 512 mod 2 ^ 32) = (nat len + 511) div 512"
proof -
  show "cint (len + 512) = Some (len + 512)" using assms by (intro cint_in) simp_all
  have "(len + 512 - 1) sdiv 512 = int ((nat len + 511) div 512)"
    using assms by (simp add: sdiv_eq_div zdiv_int algebra_simps)
  moreover have "(nat len + 511) div 512 < 2 ^ 32" using assms by (simp add: div_less_iff_less_mult)
  ultimately show "nat ((len + 512 - 1) sdiv 512 mod 2 ^ 32) = (nat len + 511) div 512" by simp
qed

text \<open>
  (C15) \<open>sfs_truncate\<close> to a length of at most 143 blocks always succeeds on a well-formed file, sets the
  size, and frees exactly the blocks that the file names before and not after. With \<open>L\<close> blocks needed for
  the new length, it drops every pointer from block \<open>L\<close> on, except that block \<open>L\<close> itself stays when it is
  in the range of the indirect block: there the code compares with \<open><\<close> where the direct blocks have \<open>\<le>\<close>.
\<close>

theorem sfs_truncate_correct:
  assumes "wf s v" "0 \<le> len" "len \<le> 143 * 512"
  shows "\<exists>s'. sfs_truncate v len s = Some (Inr (), s') \<and> wf s' v \<and> uint (sfi_size (inode s' v)) = len \<and>
    used s' = used s - (owned s v - owned s' v) \<and>
    (\<forall>fb < 143. ptrs s' (inode s' v) ! pos fb = (if kept ((nat len + 511) div 512) fb then ptrs s (inode s v) ! pos fb else 0))"
proof -
  let ?L = "(nat len + 511) div 512"
  obtain s1 s2 qs where 1: "trunc_direct [0..<15] ?L v s = Some s1" "svs s1 v \<noteq> None"
    "(if ?L < 142 \<and> sfi_indirect (inode s1 v) \<noteq> 0 then trunc_idblock v ?L (sfi_indirect (inode s1 v)) s1 else Some (Inr (), s1)) =
      Some (Inr (), s2)" "shrinks v qs s s2"
    "\<forall>fb < 143. qs ! pos fb = (if kept ?L fb then ptrs s (inode s v) ! pos fb else 0)"
    using truncate_blocks [OF assms(1), of ?L] by blast
  obtain sv1 where sv1: "svs s1 v = Some sv1" "sv_i sv1 = inode s1 v" using 1(2) by (auto simp: inode_def)
  have w2: "wf s2 v" "ptrs s2 (inode s2 v) = qs" using 1(4) by (simp_all add: shrinks_def)
  obtain s' where s': "upd_sv v (\<lambda>sv. sv\<lparr>sv_i := (sv_i sv)\<lparr>sfi_size := word_of_int len\<rparr>, sv_dirty := True\<rparr>) s2 = Some s'"
    "shrinks v qs s2 s'" "sfi_size (inode s' v) = word_of_int len" "sectors s' = sectors s2"
    using shrinks_size [OF w2(1), of "word_of_int len"] w2(2) by blast
  have "sfs_truncate v len s = Some (Inr (), s')"
    using blocklen [OF assms(2,3)] 1(1,3) sv1 s'(1)
    by (cases "?L < 142 \<and> sfi_indirect (inode s1 v) \<noteq> 0") (auto simp: sfs_truncate_def Let_def)
  moreover have "shrinks v qs s s'" using shrinks_trans [OF assms(1) 1(4) s'(2)] s'(4) by simp
  moreover have "uint (word_of_int len :: 32 word) = len" using assms(2,3) by (simp add: uint_word_of_int)
  ultimately show ?thesis using 1(5) s'(3) by (auto simp: shrinks_def)
qed

text \<open>Truncating an empty file of the small volume to no blocks.\<close>

theorem sfs_truncate_correct_witness:
  "\<exists>s'. sfs_truncate 0 0 (volume [7, 0]) = Some (Inr (), s') \<and> wf s' 0 \<and> sfi_size (inode s' 0) = 0"
proof -
  have "wf (volume [7, 0]) 0" using volume_file(1) [of "[7, 0]" 0] by (simp add: plain_file_def)
  then show ?thesis using sfs_truncate_correct [of "volume [7, 0]" 0 0] by (auto simp: uint_0_iff)
qed

end
