(* ===== verification/Kern_Heap.thy ===== *)
theory Kern_Heap
  imports Kern_Machine
begin

text \<open>
  The kernel heap (\<^verbatim>\<open>kern/lib/kheap.c\<close>): the subpage allocator with its page table, its lists of pages
  and the free list inside every page, and \<open>kmalloc\<close> and \<open>kfree\<close> on top of it.

  A \<open>struct pageref *\<close> is the index of the structure in \<open>pagerefs\<close>, or \<open>None\<close> for the null pointer. The
  free lists are in the memory of the pages: \<open>kmem\<close> holds the words of kernel memory by address. The
  consistency checks that the source compiles only under \<open>SLOW\<close> and the output of \<open>kprintf\<close> are left out.
\<close>

section \<open>State\<close>

record pageref =
  next_samesize :: "nat option"
  next_all :: "nat option"
  pageaddr_and_blocktype :: "32 word"
  freelist_offset :: "16 word"
  nfree :: "16 word"

record kheap = machine +
  pagerefs :: "pageref list"
  pagerefs_inuse :: "32 word list"
  sizebases :: "nat option list"
  allbase :: "nat option"
  kmem :: "32 word \<Rightarrow> 32 word"

definition sizes :: "32 word list" where
  "sizes = [16, 32, 64, 128, 256, 512, 1024, 2048]"

abbreviation (input) NSIZES :: nat where "NSIZES \<equiv> 8"
abbreviation (input) NPAGEREFS :: nat where "NPAGEREFS \<equiv> 256"
abbreviation (input) INUSE_WORDS :: nat where "INUSE_WORDS \<equiv> 8"
abbreviation (input) LARGEST_SUBPAGE_SIZE :: "32 word" where "LARGEST_SUBPAGE_SIZE \<equiv> 2048"
abbreviation (input) INVALID_OFFSET :: "16 word" where "INVALID_OFFSET \<equiv> 0xffff"

definition PR_PAGEADDR :: "pageref \<Rightarrow> 32 word" where
  "PR_PAGEADDR pr = pageaddr_and_blocktype pr AND PAGE_FRAME"

definition PR_BLOCKTYPE :: "pageref \<Rightarrow> 32 word" where
  "PR_BLOCKTYPE pr = pageaddr_and_blocktype pr AND NOT PAGE_FRAME"

definition MKPAB :: "32 word \<Rightarrow> 32 word \<Rightarrow> 32 word" where
  "MKPAB pa blk = (pa AND PAGE_FRAME) OR (blk AND NOT PAGE_FRAME)"

definition get_pr :: "nat \<Rightarrow> kheap \<Rightarrow> pageref option" where
  "get_pr p h = rd (pagerefs h) (int p)"

definition upd_pr :: "nat \<Rightarrow> (pageref \<Rightarrow> pageref) \<Rightarrow> kheap \<Rightarrow> kheap option" where
  "upd_pr p f h = do {
     pr \<leftarrow> get_pr p h;
     prs \<leftarrow> wr (pagerefs h) (int p) (f pr);
     Some (h\<lparr>pagerefs := prs\<rparr>) }"

primrec fill_deadbeef :: "nat \<Rightarrow> 32 word \<Rightarrow> (32 word \<Rightarrow> 32 word) \<Rightarrow> 32 word \<Rightarrow> 32 word" where
  "fill_deadbeef 0 ptr m = m"
| "fill_deadbeef (Suc i) ptr m = (fill_deadbeef i ptr m)(ptr + of_nat (4 * i) := 0xdeadbeef)"

section \<open>The table of page references\<close>

primrec allocpageref_from :: "nat list \<Rightarrow> kheap \<Rightarrow> (nat option \<times> kheap) option" where
  "allocpageref_from [] h = Some (None, h)"
| "allocpageref_from (i # is) h = do {
     w \<leftarrow> rd (pagerefs_inuse h) (int i);
     if w = 0xffffffff then allocpageref_from is h
     else (case find (\<lambda>j. w AND push_bit j 1 = 0) [0..<32] of
         None \<Rightarrow> None
       | Some j \<Rightarrow> do {
           ws \<leftarrow> wr (pagerefs_inuse h) (int i) (w OR push_bit j 1);
           Some (Some (i * 32 + j), h\<lparr>pagerefs_inuse := ws\<rparr>) }) }"

definition allocpageref :: "kheap \<Rightarrow> (nat option \<times> kheap) option" where
  "allocpageref h = allocpageref_from [0..<INUSE_WORDS] h"

definition freepageref :: "nat \<Rightarrow> kheap \<Rightarrow> kheap option" where
  "freepageref p h = do {
     kassert (p < NPAGEREFS);
     let i = p div 32;
     let k = push_bit (p mod 32) (1 :: 32 word);
     w \<leftarrow> rd (pagerefs_inuse h) (int i);
     kassert (w AND k \<noteq> 0);
     ws \<leftarrow> wr (pagerefs_inuse h) (int i) (w AND NOT k);
     Some (h\<lparr>pagerefs_inuse := ws\<rparr>) }"

section \<open>The lists of pages\<close>

text \<open>
  The two loops of \<open>remove_lists\<close>. The variable \<open>guy\<close> of the source is the address of the base of the list
  (\<open>None\<close>) or of the link of a page (\<open>Some\<close>).
\<close>

partial_function (option) unlink_samesize :: "nat \<Rightarrow> nat \<Rightarrow> nat option \<Rightarrow> kheap \<Rightarrow> kheap option" where
  "unlink_samesize pr blktype guy h = do {
     cur \<leftarrow> (case guy of None \<Rightarrow> rd (sizebases h) (int blktype) | Some q \<Rightarrow> map_option next_samesize (get_pr q h));
     (case cur of
        None \<Rightarrow> Some h
      | Some p \<Rightarrow>
          if p = pr then do {
            r \<leftarrow> get_pr pr h;
            (case guy of
               None \<Rightarrow> do {
                 bs \<leftarrow> wr (sizebases h) (int blktype) (next_samesize r);
                 Some (h\<lparr>sizebases := bs\<rparr>) }
             | Some q \<Rightarrow> upd_pr q (\<lambda>x. x\<lparr>next_samesize := next_samesize r\<rparr>) h) }
          else unlink_samesize pr blktype (Some p) h) }"

partial_function (option) unlink_all :: "nat \<Rightarrow> nat option \<Rightarrow> kheap \<Rightarrow> kheap option" where
  "unlink_all pr guy h = do {
     cur \<leftarrow> (case guy of None \<Rightarrow> Some (allbase h) | Some q \<Rightarrow> map_option next_all (get_pr q h));
     (case cur of
        None \<Rightarrow> Some h
      | Some p \<Rightarrow>
          if p = pr then do {
            r \<leftarrow> get_pr pr h;
            (case guy of
               None \<Rightarrow> Some (h\<lparr>allbase := next_all r\<rparr>)
             | Some q \<Rightarrow> upd_pr q (\<lambda>x. x\<lparr>next_all := next_all r\<rparr>) h) }
          else unlink_all pr (Some p) h) }"

definition remove_lists :: "nat \<Rightarrow> nat \<Rightarrow> kheap \<Rightarrow> kheap option" where
  "remove_lists pr blktype h = do {
     kassert (blktype < NSIZES);
     h \<leftarrow> unlink_samesize pr blktype None h;
     unlink_all pr None h }"

text \<open>The panic for a size that no block type has is \<open>None\<close>.\<close>

definition blocktype :: "32 word \<Rightarrow> nat option" where
  "blocktype sz = find (\<lambda>i. sz \<le> sizes ! i) [0..<NSIZES]"

section \<open>Allocation within a page\<close>

text \<open>The loop over the pages of a size, up to one with a free block.\<close>

partial_function (option) find_page :: "nat \<Rightarrow> nat option \<Rightarrow> kheap \<Rightarrow> nat option option" where
  "find_page blktype pr h = (case pr of
      None \<Rightarrow> Some None
    | Some p \<Rightarrow> do {
        r \<leftarrow> get_pr p h;
        kassert (PR_BLOCKTYPE r = of_nat blktype);
        if 0 < nfree r then Some (Some p) else find_page blktype (next_samesize r) h })"

text \<open>The code at the label \<open>doalloc\<close>.\<close>

definition doalloc :: "nat \<Rightarrow> kheap \<Rightarrow> (32 word \<times> kheap) option" where
  "doalloc p h = do {
     r \<leftarrow> get_pr p h;
     kassert (ucast (freelist_offset r) < PAGE_SIZE);
     let prpage = PR_PAGEADDR r;
     let retptr = prpage + ucast (freelist_offset r);
     let fl = kmem h retptr;
     let n = nfree r - 1;
     if fl \<noteq> 0 then do {
       kassert (0 < n);
       kassert (fl - prpage < PAGE_SIZE);
       h \<leftarrow> upd_pr p (\<lambda>r. r\<lparr>nfree := n, freelist_offset := ucast (fl - prpage)\<rparr>) h;
       Some (retptr, h) }
     else do {
       kassert (n = 0);
       h \<leftarrow> upd_pr p (\<lambda>r. r\<lparr>nfree := n, freelist_offset := INVALID_OFFSET\<rparr>) h;
       Some (retptr, h) } }"

primrec init_freelist :: "nat list \<Rightarrow> 32 word \<Rightarrow> 32 word \<Rightarrow> (32 word \<Rightarrow> 32 word) \<Rightarrow> (32 word \<Rightarrow> 32 word) option" where
  "init_freelist [] fla sz m = Some m"
| "init_freelist (i # is) fla sz m = do {
     let fl = fla + of_nat i * sz;
     let nx = fla + of_nat (i - 1) * sz;
     kassert (fl \<noteq> nx);
     init_freelist is fla sz (m(fl := nx)) }"

text \<open>A fresh page for blocks of a type, up to the jump to \<open>doalloc\<close>; \<open>None\<close> if there is no page.\<close>

definition new_page :: "nat \<Rightarrow> kheap \<Rightarrow> (nat option \<times> kheap) option" where
  "new_page blktype h = do {
     (p, h) \<leftarrow> allocpageref h;
     (case p of
        None \<Rightarrow> Some (None, h)
      | Some p \<Rightarrow> do {
          let (prpage, h) = alloc_kpages 1 h;
          if prpage = 0 then do {
            h \<leftarrow> freepageref p h;
            Some (None, h) }
          else do {
            let sz = sizes ! blktype;
            let n = ucast (PAGE_SIZE div sz);
            h \<leftarrow> upd_pr p (\<lambda>r. r\<lparr>pageaddr_and_blocktype := MKPAB prpage (of_nat blktype), nfree := n\<rparr>) h;
            m \<leftarrow> init_freelist [1..<unat n] prpage sz ((kmem h)(prpage := 0));
            let h = h\<lparr>kmem := m\<rparr>;
            let off = (ucast (of_nat (unat n - 1) * sz) :: 16 word);
            kassert (ucast off = (ucast n - 1) * sz);
            base \<leftarrow> rd (sizebases h) (int blktype);
            h \<leftarrow> upd_pr p (\<lambda>r. r\<lparr>freelist_offset := off, next_samesize := base, next_all := allbase h\<rparr>) h;
            bs \<leftarrow> wr (sizebases h) (int blktype) (Some p);
            Some (Some p, h\<lparr>sizebases := bs, allbase := Some p\<rparr>) } }) }"

definition subpage_kmalloc :: "32 word \<Rightarrow> kheap \<Rightarrow> (32 word \<times> kheap) option" where
  "subpage_kmalloc sz h = do {
     blktype \<leftarrow> blocktype sz;
     let (spl, h) = splhigh h;
     base \<leftarrow> rd (sizebases h) (int blktype);
     found \<leftarrow> find_page blktype base h;
     (pr, h) \<leftarrow> (case found of Some p \<Rightarrow> Some (Some p, h) | None \<Rightarrow> new_page blktype h);
     (case pr of
        None \<Rightarrow> Some (0, snd (splx spl h))
      | Some p \<Rightarrow> do {
          (retptr, h) \<leftarrow> doalloc p h;
          Some (retptr, snd (splx spl h)) }) }"

section \<open>Freeing\<close>

text \<open>The loop of \<open>subpage_kfree\<close> over all pages, for the page that holds an address.\<close>

partial_function (option) page_of :: "32 word \<Rightarrow> nat option \<Rightarrow> kheap \<Rightarrow> nat option option" where
  "page_of ptraddr pr h = (case pr of
      None \<Rightarrow> Some None
    | Some p \<Rightarrow> do {
        r \<leftarrow> get_pr p h;
        kassert (PR_BLOCKTYPE r < of_nat NSIZES);
        if PR_PAGEADDR r \<le> ptraddr \<and> ptraddr < PR_PAGEADDR r + PAGE_SIZE then Some (Some p)
        else page_of ptraddr (next_all r) h })"

text \<open>\<open>False\<close> stands for the return value -1: the address is on none of the pages.\<close>

definition subpage_kfree :: "32 word \<Rightarrow> kheap \<Rightarrow> (bool \<times> kheap) option" where
  "subpage_kfree ptraddr h = do {
     let (spl, h) = splhigh h;
     found \<leftarrow> page_of ptraddr (allbase h) h;
     (case found of
        None \<Rightarrow> Some (False, snd (splx spl h))
      | Some p \<Rightarrow> do {
          r \<leftarrow> get_pr p h;
          let prpage = PR_PAGEADDR r;
          let sz = sizes ! unat (PR_BLOCKTYPE r);
          let offset = ptraddr - prpage;
          kassert (\<not> (PAGE_SIZE \<le> offset \<or> offset mod sz \<noteq> 0));
          let m = fill_deadbeef (unat sz div 4) ptraddr (kmem h);
          let nx = (if freelist_offset r = INVALID_OFFSET then 0 else prpage + ucast (freelist_offset r));
          let h = h\<lparr>kmem := m(prpage + offset := nx)\<rparr>;
          h \<leftarrow> upd_pr p (\<lambda>r. r\<lparr>freelist_offset := ucast offset, nfree := nfree r + 1\<rparr>) h;
          let n = (ucast (nfree r + 1) :: 32 word);
          kassert (n \<le> PAGE_SIZE div sz);
          h \<leftarrow> (if n = PAGE_SIZE div sz then do {
                  h \<leftarrow> remove_lists p (unat (PR_BLOCKTYPE r)) h;
                  freepageref p (free_kpages prpage h) }
                else Some h);
          Some (True, snd (splx spl h)) }) }"

section \<open>\<open>kmalloc\<close> and \<open>kfree\<close>\<close>

definition kmalloc :: "32 word \<Rightarrow> kheap \<Rightarrow> (32 word \<times> kheap) option" where
  "kmalloc sz h =
     (if LARGEST_SUBPAGE_SIZE \<le> sz then
        (let npages = (sz + PAGE_SIZE - 1) div PAGE_SIZE in Some (alloc_kpages (uint npages) h))
      else subpage_kmalloc sz h)"

definition kfree :: "32 word \<Rightarrow> kheap \<Rightarrow> kheap option" where
  "kfree ptr h =
     (if ptr = 0 then Some h
      else do {
        (sub, h) \<leftarrow> subpage_kfree ptr h;
        if sub then Some h
        else do {
          kassert (ptr mod PAGE_SIZE = 0);
          Some (free_kpages ptr h) } })"

end
