(* ===== verification/Kern_HeapInv.thy ===== *)
theory Kern_HeapInv
  imports Kern_Heap Kern_VM
begin

text \<open>
  The shape of a consistent heap: the lists of pages, the free list of every page, and the blocks that are
  handed out.
\<close>

section \<open>Sizes and addresses\<close>

definition bsz :: "nat \<Rightarrow> nat" where
  "bsz t = 2 ^ (t + 4)"

definition bcap :: "nat \<Rightarrow> nat" where
  "bcap t = 2 ^ (8 - t)"

lemma less_8: "t < 8 \<Longrightarrow> t \<in> {0, 1, 2, 3, 4, 5, 6, 7 :: nat}"
  by auto

lemma sizes_nth: "t < 8 \<Longrightarrow> sizes ! t = of_nat (bsz t)" "t < 8 \<Longrightarrow> unat (sizes ! t) = bsz t"
  by (drule less_8, auto simp: sizes_def bsz_def)+

lemma bsz_bcap: "t < 8 \<Longrightarrow> bsz t * bcap t = 4096" "t < 8 \<Longrightarrow> 4096 div bsz t = bcap t" "0 < bsz t" "0 < bcap t"
  "t < 8 \<Longrightarrow> bsz t \<le> 2048" "t < 8 \<Longrightarrow> bcap t \<le> 256" "t < 8 \<Longrightarrow> 2 \<le> bcap t" "4 dvd bsz t" "16 \<le> bsz t"
proof -
  show "t < 8 \<Longrightarrow> bsz t * bcap t = 4096" "t < 8 \<Longrightarrow> 4096 div bsz t = bcap t" "t < 8 \<Longrightarrow> bsz t \<le> 2048"
    "t < 8 \<Longrightarrow> bcap t \<le> 256" "t < 8 \<Longrightarrow> 2 \<le> bcap t"
    by (drule less_8, auto simp: bsz_def bcap_def)+
  show "0 < bsz t" "0 < bcap t" by (simp_all add: bsz_def bcap_def)
  have "bsz t = 16 * 2 ^ t" by (simp add: bsz_def power_add)
  then show "4 dvd bsz t" "16 \<le> bsz t" by simp_all
qed

lemma block_bound:
  assumes "t < 8" "i < bcap t"
  shows "i * bsz t + bsz t \<le> 4096"
proof -
  have "Suc i * bsz t \<le> bcap t * bsz t" using assms(2) by (intro mult_le_mono1) simp
  then show ?thesis using bsz_bcap(1) [OF assms(1)] by (simp add: mult.commute)
qed

lemma blocktype_Some:
  assumes "unat sz \<le> 2048"
  shows "\<exists>t. blocktype sz = Some t \<and> t < 8 \<and> unat sz \<le> bsz t"
proof -
  have le: "sz \<le> sizes ! i \<longleftrightarrow> unat sz \<le> bsz i" if "i < 8" for i using sizes_nth(2) [OF that] by (simp add: word_le_nat_alt)
  have "sz \<le> sizes ! 7" using assms le [of 7] by (simp add: bsz_def)
  then have "find (\<lambda>i. sz \<le> sizes ! i) [0..<8] \<noteq> None" by (auto simp: find_None_iff intro!: exI [of _ 7])
  then obtain t where t: "blocktype sz = Some t" by (auto simp: blocktype_def)
  then have "t < 8" "sz \<le> sizes ! t" by (auto simp: blocktype_def find_Some_iff)
  then show ?thesis using t le by blast
qed

text \<open>The address of a block on a page.\<close>

definition adr :: "32 word \<Rightarrow> nat \<Rightarrow> nat \<Rightarrow> 32 word" where
  "adr base t i = base + of_nat (i * bsz t)"

definition page_base :: "32 word \<Rightarrow> bool" where
  "page_base a \<longleftrightarrow> 4096 dvd unat a \<and> unat a + 4096 \<le> 2 ^ 32 \<and> a \<noteq> 0"

lemma unat_off:
  assumes "page_base a" "x < 4096"
  shows "unat (a + of_nat x) = unat a + x"
proof -
  have "unat (of_nat x :: 32 word) = x" using assms(2) by (simp add: unat_of_nat)
  then show ?thesis using assms by (subst unat_word_ariths) (simp add: page_base_def)
qed

lemma unat_adr:
  assumes "page_base a" "t < 8" "i < bcap t"
  shows "unat (adr a t i) = unat a + i * bsz t"
  using unat_off [OF assms(1), of "i * bsz t"] block_bound [OF assms(2,3)] bsz_bcap(3) [of t] by (simp add: adr_def)

lemma adr_inj:
  assumes "page_base a" "t < 8" "i < bcap t" "j < bcap t"
  shows "adr a t i = adr a t j \<longleftrightarrow> i = j"
proof
  assume "adr a t i = adr a t j"
  then have "unat a + i * bsz t = unat a + j * bsz t" using unat_adr assms by metis
  then show "i = j" using bsz_bcap(3) [of t] by simp
qed simp

lemma adr_nonzero: "page_base a \<Longrightarrow> t < 8 \<Longrightarrow> i < bcap t \<Longrightarrow> adr a t i \<noteq> 0"
  by (metis add_is_0 page_base_def unat_0 unat_adr unat_eq_zero)

section \<open>Lists\<close>

text \<open>A list of pages that is linked by a field.\<close>

primrec chain :: "(nat \<Rightarrow> nat option) \<Rightarrow> nat option \<Rightarrow> nat list \<Rightarrow> bool" where
  "chain nx b [] \<longleftrightarrow> b = None"
| "chain nx b (x # xs) \<longleftrightarrow> b = Some x \<and> chain nx (nx x) xs"

lemma chain_cong: "(\<And>x. x \<in> set xs \<Longrightarrow> nx' x = nx x) \<Longrightarrow> chain nx' b xs = chain nx b xs"
  by (induction xs arbitrary: b) auto

text \<open>Free blocks that are linked through memory.\<close>

primrec linked :: "(32 word \<Rightarrow> 32 word) \<Rightarrow> (nat \<Rightarrow> 32 word) \<Rightarrow> nat list \<Rightarrow> bool" where
  "linked m f [] \<longleftrightarrow> True"
| "linked m f (i # is) \<longleftrightarrow> m (f i) = (case is of [] \<Rightarrow> 0 | j # _ \<Rightarrow> f j) \<and> linked m f is"

lemma linked_cong: "(\<And>i. i \<in> set is \<Longrightarrow> m' (f i) = m (f i)) \<Longrightarrow> linked m' f is = linked m f is"
  by (induction "is") auto

section \<open>A consistent heap\<close>

abbreviation pr :: "kheap \<Rightarrow> nat \<Rightarrow> pageref" where
  "pr h p \<equiv> pagerefs h ! p"

abbreviation paddr :: "kheap \<Rightarrow> nat \<Rightarrow> 32 word" where
  "paddr h p \<equiv> PR_PAGEADDR (pr h p)"

definition pty :: "kheap \<Rightarrow> nat \<Rightarrow> nat" where
  "pty h p = unat (PR_BLOCKTYPE (pr h p))"

definition inuse :: "kheap \<Rightarrow> nat \<Rightarrow> bool" where
  "inuse h p \<longleftrightarrow> bit (pagerefs_inuse h ! (p div 32)) (p mod 32)"

definition fl_off :: "nat \<Rightarrow> nat list \<Rightarrow> 16 word" where
  "fl_off t is = (case is of [] \<Rightarrow> 0xffff | i # _ \<Rightarrow> of_nat (i * bsz t))"

text \<open>A page with the indices of its free blocks.\<close>

definition page_ok :: "kheap \<Rightarrow> nat \<Rightarrow> nat list \<Rightarrow> bool" where
  "page_ok h p is \<longleftrightarrow> pty h p < 8 \<and> page_base (paddr h p) \<and> distinct is \<and> set is \<subseteq> {..<bcap (pty h p)} \<and>
     unat (nfree (pr h p)) = length is \<and> freelist_offset (pr h p) = fl_off (pty h p) is \<and>
     linked (kmem h) (adr (paddr h p) (pty h p)) is"

definition lists_ok :: "kheap \<Rightarrow> nat list \<Rightarrow> bool" where
  "lists_ok h ps \<longleftrightarrow> length (pagerefs h) = 256 \<and> length (pagerefs_inuse h) = 8 \<and> length (sizebases h) = 8 \<and>
     distinct ps \<and> set ps = {p. p < 256 \<and> inuse h p} \<and> chain (\<lambda>p. next_all (pr h p)) (allbase h) ps \<and>
     (\<forall>t < 8. chain (\<lambda>p. next_samesize (pr h p)) (sizebases h ! t) (filter (\<lambda>p. pty h p = t) ps))"

text \<open>The pages are different, and below the memory that is not yet in use.\<close>

definition pages_ok :: "kheap \<Rightarrow> nat list \<Rightarrow> (nat \<Rightarrow> nat list) \<Rightarrow> bool" where
  "pages_ok h ps fl \<longleftrightarrow> ram_ok h \<and> inj_on (paddr h) (set ps) \<and>
     (\<forall>p \<in> set ps. page_ok h p (fl p) \<and> 0x80000000 \<le> unat (paddr h p) \<and>
        unat (paddr h p) + 4096 \<le> 0x80000000 + unat (firstpaddr h))"

text \<open>The blocks of a page that are handed out, as addresses and sizes.\<close>

definition page_blocks :: "kheap \<Rightarrow> nat \<Rightarrow> nat list \<Rightarrow> (nat \<times> nat) set" where
  "page_blocks h p is = (\<lambda>i. (unat (paddr h p) + i * bsz (pty h p), bsz (pty h p))) ` ({..<bcap (pty h p)} - set is)"

definition blocks :: "kheap \<Rightarrow> nat list \<Rightarrow> (nat \<Rightarrow> nat list) \<Rightarrow> (nat \<times> nat) set" where
  "blocks h ps fl = (\<Union>p \<in> set ps. page_blocks h p (fl p))"

definition area :: "nat \<times> nat \<Rightarrow> nat set" where
  "area b = {fst b..<fst b + snd b}"

abbreviation page_area :: "kheap \<Rightarrow> nat \<Rightarrow> nat set" where
  "page_area h p \<equiv> area (unat (paddr h p), 4096)"

text \<open>The blocks of whole pages, which \<open>kmalloc\<close> takes from \<open>alloc_kpages\<close>.\<close>

definition bigs_ok :: "kheap \<Rightarrow> nat list \<Rightarrow> (nat \<times> nat) set \<Rightarrow> bool" where
  "bigs_ok h ps B \<longleftrightarrow> (\<forall>b \<in> B. 0 < snd b \<and> 4096 dvd fst b \<and> 0x80000000 \<le> fst b \<and> fst b + snd b \<le> 0x80000000 + unat (firstpaddr h) \<and>
     (\<forall>p \<in> set ps. area b \<inter> page_area h p = {})) \<and> (\<forall>b \<in> B. \<forall>c \<in> B. b \<noteq> c \<longrightarrow> area b \<inter> area c = {})"

definition heap_inv :: "kheap \<Rightarrow> nat list \<Rightarrow> (nat \<Rightarrow> nat list) \<Rightarrow> (nat \<times> nat) set \<Rightarrow> bool" where
  "heap_inv h ps fl B \<longleftrightarrow> lists_ok h ps \<and> pages_ok h ps fl \<and> bigs_ok h ps B"

text \<open>A consistent heap with the blocks \<open>A\<close> handed out.\<close>

definition heap :: "kheap \<Rightarrow> (nat \<times> nat) set \<Rightarrow> bool" where
  "heap h A \<longleftrightarrow> (\<exists>ps fl B. heap_inv h ps fl B \<and> A = blocks h ps fl \<union> B)"

text \<open>The words of the blocks are the same in two heaps.\<close>

definition same_words :: "(nat \<times> nat) set \<Rightarrow> kheap \<Rightarrow> kheap \<Rightarrow> bool" where
  "same_words A h h' \<longleftrightarrow> (\<forall>a. (\<exists>b \<in> A. unat a \<in> area b) \<longrightarrow> kmem h' a = kmem h a)"

lemma in_area: "x \<in> area (a, n) \<longleftrightarrow> a \<le> x \<and> x < a + n"
  by (simp add: area_def)

lemma page_blocks_inside:
  assumes "page_ok h p is" "b \<in> page_blocks h p is"
  shows "area b \<subseteq> page_area h p" "0 < snd b"
proof -
  obtain i where i: "i < bcap (pty h p)" "b = (unat (paddr h p) + i * bsz (pty h p), bsz (pty h p))"
    using assms(2) by (auto simp: page_blocks_def)
  have "pty h p < 8" using assms(1) by (simp add: page_ok_def)
  note bb = block_bound [OF this i(1)]
  show "area b \<subseteq> page_area h p" using bb i(2) by (auto simp: area_def)
  show "0 < snd b" using i(2) bsz_bcap(3) by simp
qed

text \<open>The interrupt level is no part of the heap.\<close>

lemma heap_inv_spl [simp]: "heap_inv (h\<lparr>curspl := x\<rparr>) ps fl B = heap_inv h ps fl B"
  by (simp add: heap_inv_def lists_ok_def pages_ok_def bigs_ok_def page_ok_def pty_def inuse_def ram_ok_def)

lemma blocks_spl [simp]: "blocks (h\<lparr>curspl := x\<rparr>) ps fl = blocks h ps fl"
  by (simp add: blocks_def page_blocks_def pty_def)

lemma pages_apart:
  assumes "pages_ok h ps fl" "p \<in> set ps" "q \<in> set ps" "p \<noteq> q"
  shows "page_area h p \<inter> page_area h q = {}"
proof -
  have "paddr h p \<noteq> paddr h q" using assms by (auto simp: pages_ok_def inj_on_def)
  then have ne: "unat (paddr h p) \<noteq> unat (paddr h q)" by (simp add: word_unat_eq_iff)
  have "4096 dvd unat (paddr h p)" "4096 dvd unat (paddr h q)" using assms by (auto simp: pages_ok_def page_ok_def page_base_def)
  then obtain k l where "unat (paddr h p) = 4096 * k" "unat (paddr h q) = 4096 * l" by (auto simp: dvd_def)
  then show ?thesis using ne by (auto simp: area_def)
qed

lemma adr_in_page:
  assumes "page_ok h p is" "i < bcap (pty h p)"
  shows "unat (adr (paddr h p) (pty h p) i) \<in> page_area h p"
  using assms unat_adr [of "paddr h p" "pty h p" i] block_bound [of "pty h p" i] bsz_bcap(3) [of "pty h p"]
  by (auto simp: page_ok_def in_area)

section \<open>A change to one page\<close>

text \<open>The blocks and the words of one page change; its place in the lists stays.\<close>

definition set_page :: "nat \<Rightarrow> 16 word \<Rightarrow> 16 word \<Rightarrow> (32 word \<Rightarrow> 32 word) \<Rightarrow> kheap \<Rightarrow> kheap" where
  "set_page p off n m h = h\<lparr>pagerefs := (pagerefs h)[p := (pr h p)\<lparr>freelist_offset := off, nfree := n\<rparr>], kmem := m\<rparr>"

lemma set_page_fields [simp]:
  "firstpaddr (set_page p off n m h) = firstpaddr h" "lastpaddr (set_page p off n m h) = lastpaddr h"
  "pagerefs_inuse (set_page p off n m h) = pagerefs_inuse h" "sizebases (set_page p off n m h) = sizebases h"
  "allbase (set_page p off n m h) = allbase h" "kmem (set_page p off n m h) = m"
  "length (pagerefs (set_page p off n m h)) = length (pagerefs h)"
  by (simp_all add: set_page_def)

lemma set_page_pr: "pr (set_page p off n m h) q =
    (if q = p \<and> p < length (pagerefs h) then (pr h p)\<lparr>freelist_offset := off, nfree := n\<rparr> else pr h q)"
  by (cases "q = p"; cases "p < length (pagerefs h)") (simp_all add: set_page_def list_update_beyond)

lemma set_page_same [simp]:
  "paddr (set_page p off n m h) q = paddr h q" "pty (set_page p off n m h) q = pty h q"
  "next_all (pr (set_page p off n m h) q) = next_all (pr h q)"
  "next_samesize (pr (set_page p off n m h) q) = next_samesize (pr h q)"
  by (simp_all add: set_page_pr pty_def PR_PAGEADDR_def PR_BLOCKTYPE_def)

lemma set_page_inv:
  assumes inv: "heap_inv h ps fl B" and p: "p \<in> set ps" and ok: "page_ok (set_page p off n m h) p is"
    and m: "\<And>a. unat a \<notin> page_area h p \<Longrightarrow> m a = kmem h a"
  shows "heap_inv (set_page p off n m h) ps (fl(p := is)) B"
proof -
  let ?h = "set_page p off n m h"
  have po: "pages_ok h ps fl" using inv by (simp add: heap_inv_def)
  have other: "page_ok ?h q (fl q)" if q: "q \<in> set ps" "q \<noteq> p" for q
  proof -
    have qo: "page_ok h q (fl q)" using po q(1) by (simp add: pages_ok_def)
    have "m (adr (paddr h q) (pty h q) i) = kmem h (adr (paddr h q) (pty h q) i)" if i: "i \<in> set (fl q)" for i
    proof -
      have "i < bcap (pty h q)" using i qo by (auto simp: page_ok_def)
      from adr_in_page [OF qo this] show ?thesis using m pages_apart [OF po p q(1)] q(2) by blast
    qed
    then have "linked m (adr (paddr h q) (pty h q)) (fl q) = linked (kmem h) (adr (paddr h q) (pty h q)) (fl q)"
      by (rule linked_cong)
    then show ?thesis using qo by (simp add: page_ok_def set_page_pr q(2))
  qed
  have "lists_ok ?h ps" using inv by (simp add: heap_inv_def lists_ok_def inuse_def)
  moreover have "pages_ok ?h ps (fl(p := is))" using po ok other by (simp add: pages_ok_def ram_ok_def)
  moreover have "bigs_ok ?h ps B" using inv by (simp add: heap_inv_def bigs_ok_def)
  ultimately show ?thesis by (simp add: heap_inv_def)
qed

lemma blocks_split: "p \<in> set ps \<Longrightarrow> blocks h ps fl = (\<Union>q \<in> set ps - {p}. page_blocks h q (fl q)) \<union> page_blocks h p (fl p)"
  unfolding blocks_def by blast

lemma set_page_blocks:
  assumes "p \<in> set ps"
  shows "blocks (set_page p off n m h) ps (fl(p := is)) =
     (\<Union>q \<in> set ps - {p}. page_blocks h q (fl q)) \<union> page_blocks h p is"
proof -
  have "page_blocks (set_page p off n m h) q js = page_blocks h q js" for q js by (simp add: page_blocks_def)
  then show ?thesis by (simp add: blocks_split [OF assms])
qed

end
