(* ===== verification/Kern_HeapOps.thy ===== *)
theory Kern_HeapOps
  imports Kern_HeapInv
begin

text \<open>
  The steps of the kernel heap on a consistent heap: to take a block of a page, to make a new page, to find
  the page of an address, and to drop a page that is free.
\<close>

section \<open>Page references\<close>

lemma get_pr_in: "p < length (pagerefs h) \<Longrightarrow> get_pr p h = Some (pr h p)"
  by (simp add: get_pr_def)

lemma upd_pr_in: "p < length (pagerefs h) \<Longrightarrow> upd_pr p f h = Some (h\<lparr>pagerefs := (pagerefs h)[p := f (pr h p)]\<rparr>)"
  by (simp add: upd_pr_def get_pr_in)

lemma inv_page:
  assumes "heap_inv h ps fl B" "p \<in> set ps"
  shows "p < length (pagerefs h)" "page_ok h p (fl p)" "pty h p < 8" "page_base (paddr h p)"
  using assms by (auto simp: heap_inv_def lists_ok_def pages_ok_def page_ok_def)

lemma PR_PAGEADDR_upd [simp]: "PR_PAGEADDR (r\<lparr>freelist_offset := x, nfree := y\<rparr>) = PR_PAGEADDR r"
  by (simp add: PR_PAGEADDR_def)

lemma free_length: "page_ok h p is \<Longrightarrow> length is \<le> bcap (pty h p)"
  by (metis card_lessThan card_mono distinct_card finite_lessThan page_ok_def)

lemma PR_BLOCKTYPE_pty: "PR_BLOCKTYPE (pr h p) = of_nat (pty h p)"
  by (simp add: pty_def)

section \<open>To take a block\<close>

lemma ucast_off: "x < 4096 \<Longrightarrow> ucast (of_nat x :: 16 word) = (of_nat x :: 32 word)"
  "x < 4096 \<Longrightarrow> ucast (of_nat x :: 32 word) = (of_nat x :: 16 word)"
  by (rule word_unat_eq_iff [THEN iffD2], simp add: unsigned_ucast_eq unat_of_nat take_bit_eq_mod)+

lemma off_less: "x < 4096 \<Longrightarrow> (of_nat x :: 32 word) < PAGE_SIZE"
  by (simp add: word_less_nat_alt unat_of_nat)

lemma page_off:
  assumes "t < 8" "i < bcap t"
  shows "i * bsz t < 4096"
  using block_bound [OF assms] bsz_bcap(3) [of t] by linarith

lemma doalloc_ok:
  assumes inv: "heap_inv h ps fl B" and p: "p \<in> set ps" and f: "fl p = i # is"
  shows "doalloc p h = Some (adr (paddr h p) (pty h p) i, set_page p (fl_off (pty h p) is) (of_nat (length is)) (kmem h) h)"
proof -
  note P = inv_page [OF inv p]
  let ?t = "pty h p" and ?a = "paddr h p"
  have i: "i < bcap ?t" and off: "freelist_offset (pr h p) = of_nat (i * bsz ?t)" and n: "unat (nfree (pr h p)) = Suc (length is)"
    and lk: "kmem h (adr ?a ?t i) = (case is of [] \<Rightarrow> 0 | j # _ \<Rightarrow> adr ?a ?t j)"
    using P(2) f by (auto simp: page_ok_def fl_off_def)
  have l: "length is < 256" using free_length [OF P(2)] f bsz_bcap(6) [OF P(3)] by simp
  have u: "unat (of_nat (length is) :: 16 word) = length is" using l by (simp add: unat_of_nat)
  have "nfree (pr h p) \<noteq> 0" using n by auto
  then have "unat (nfree (pr h p) - 1) = unat (of_nat (length is) :: 16 word)" using n u by (simp add: unat_minus_one)
  then have n1: "nfree (pr h p) - 1 = of_nat (length is)" by (simp only: word_unat_eq_iff)
  note o4 = page_off [OF P(3) i]
  have c1: "ucast (freelist_offset (pr h p)) = (of_nat (i * bsz ?t) :: 32 word)" by (simp only: off ucast_off(1) [OF o4])
  have c2: "(ucast (freelist_offset (pr h p)) :: 32 word) < PAGE_SIZE" by (simp only: c1 off_less [OF o4])
  have r: "?a + ucast (freelist_offset (pr h p)) = adr ?a ?t i" by (simp only: c1 adr_def)
  have up: "upd_pr p (\<lambda>r. r\<lparr>nfree := x, freelist_offset := y\<rparr>) h = Some (set_page p y x (kmem h) h)" for x y
  proof -
    have "(pr h p)\<lparr>nfree := x, freelist_offset := y\<rparr> = (pr h p)\<lparr>freelist_offset := y, nfree := x\<rparr>" by (cases "pr h p") simp
    then show ?thesis unfolding set_page_def upd_pr_in [OF P(1)] by (simp only:) simp
  qed
  show ?thesis
  proof (cases "is")
    case Nil
    then show ?thesis using lk by (simp add: doalloc_def get_pr_in P(1) c2 r n1 Let_def up fl_off_def)
  next
    case (Cons j js)
    have j: "j < bcap ?t" using P(2) f Cons by (auto simp: page_ok_def)
    note j4 = page_off [OF P(3) j]
    have nz: "adr ?a ?t j \<noteq> 0" by (rule adr_nonzero [OF P(4,3) j])
    have d: "adr ?a ?t j - ?a = of_nat (j * bsz ?t)" by (simp add: adr_def)
    have pos: "0 < (of_nat (length is) :: 16 word)" using u Cons by (simp add: word_less_nat_alt)
    show ?thesis using lk Cons nz pos
      by (simp add: doalloc_def get_pr_in P(1) c2 r n1 Let_def up fl_off_def d off_less [OF j4] ucast_off(2) [OF j4]
          del: of_nat_mult of_nat_Suc)
  qed
qed

lemma doalloc_inv:
  assumes inv: "heap_inv h ps fl B" and p: "p \<in> set ps" and f: "fl p = i # is"
  defines "h' \<equiv> set_page p (fl_off (pty h p) is) (of_nat (length is)) (kmem h) h"
    and "b \<equiv> (unat (adr (paddr h p) (pty h p) i), bsz (pty h p))"
  shows "heap_inv h' ps (fl(p := is)) B" "blocks h' ps (fl(p := is)) = insert b (blocks h ps fl)"
proof -
  note P = inv_page [OF inv p]
  have i: "i < bcap (pty h p)" "i \<notin> set is" "distinct is" "set is \<subseteq> {..<bcap (pty h p)}"
    "linked (kmem h) (adr (paddr h p) (pty h p)) is"
    using P(2) f by (auto simp: page_ok_def)
  have "length is < 256" using free_length [OF P(2)] f bsz_bcap(6) [OF P(3)] by simp
  then have "page_ok h' p is" using i P by (simp add: page_ok_def h'_def set_page_pr unat_of_nat)
  then show "heap_inv h' ps (fl(p := is)) B" unfolding h'_def by (rule set_page_inv [OF inv p]) simp
  have "page_blocks h p is = insert b (page_blocks h p (fl p))"
  proof -
    have "{..<bcap (pty h p)} - set is = insert i ({..<bcap (pty h p)} - set (fl p))" using i f by auto
    then show ?thesis by (simp add: page_blocks_def b_def unat_adr [OF P(4,3) i(1)])
  qed
  then show "blocks h' ps (fl(p := is)) = insert b (blocks h ps fl)"
    unfolding h'_def set_page_blocks [OF p] by (simp add: blocks_split [OF p])
qed

section \<open>To find a page\<close>

lemma find_page_find:
  assumes "chain (\<lambda>q. next_samesize (pr h q)) b qs" "\<forall>q \<in> set qs. q < length (pagerefs h) \<and> pty h q = t"
  shows "find_page t b h = Some (find (\<lambda>q. 0 < nfree (pr h q)) qs)"
  using assms
proof (induction qs arbitrary: b)
  case Nil
  then show ?case by (simp add: find_page.simps [of t None])
next
  case (Cons q qs)
  then have "b = Some q" "PR_BLOCKTYPE (pr h q) = of_nat t" by (auto simp: PR_BLOCKTYPE_pty)
  then show ?case using Cons by (simp add: find_page.simps [of t "Some q"] get_pr_in)
qed

lemma page_of_find:
  assumes "chain (\<lambda>q. next_all (pr h q)) b qs" "\<forall>q \<in> set qs. q < length (pagerefs h) \<and> pty h q < 8"
  shows "page_of a b h = Some (find (\<lambda>q. paddr h q \<le> a \<and> a < paddr h q + PAGE_SIZE) qs)"
  using assms
proof (induction qs arbitrary: b)
  case Nil
  then show ?case by (simp add: page_of.simps [of a None])
next
  case (Cons q qs)
  have "unat (PR_BLOCKTYPE (pr h q)) < 8" using Cons.prems(2) by (simp add: pty_def)
  then have "PR_BLOCKTYPE (pr h q) < 8" by (simp add: word_less_nat_alt)
  then show ?case using Cons by (simp add: page_of.simps [of a "Some q"] get_pr_in)
qed

section \<open>The table of page references\<close>

lemma and_bit_iff: "w AND push_bit j 1 = 0 \<longleftrightarrow> \<not> bit w j" "w AND 2 ^ j = 0 \<longleftrightarrow> \<not> bit w j" for w :: "32 word"
  by (simp_all add: and_exp_eq_0_iff_not_bit)

lemma full_word: "w = 0xffffffff \<longleftrightarrow> (\<forall>j < 32. bit w j)" for w :: "32 word"
proof -
  have "(0xffffffff :: 32 word) = - 1" by simp
  then show ?thesis by (simp add: bit_eq_iff)
qed

lemma inuse_update:
  assumes "length (pagerefs_inuse h) = 8" "p < 256" "q < 256"
  shows "inuse (h\<lparr>pagerefs_inuse := (pagerefs_inuse h)[p div 32 := w]\<rparr>) q \<longleftrightarrow>
    (if q div 32 = p div 32 then bit w (q mod 32) else inuse h q)"
  using assms by (auto simp: inuse_def nth_list_update)

lemma same_index: "p div 32 = q div 32 \<and> p mod 32 = q mod 32 \<longleftrightarrow> p = q" for p q :: nat
  by (metis div_mult_mod_eq)

lemma allocpageref_from_cases:
  assumes l: "length (pagerefs_inuse h) = 8" and "set is \<subseteq> {..<8}"
  shows "(allocpageref_from is h = Some (None, h) \<and> (\<forall>i \<in> set is. \<forall>j < 32. bit (pagerefs_inuse h ! i) j)) \<or>
    (\<exists>p < 256. \<not> inuse h p \<and> allocpageref_from is h =
      Some (Some p, h\<lparr>pagerefs_inuse := (pagerefs_inuse h)[p div 32 := (pagerefs_inuse h ! (p div 32)) OR push_bit (p mod 32) 1]\<rparr>))"
  using assms(2)
proof (induction "is")
  case (Cons i "is")
  let ?w = "pagerefs_inuse h ! i"
  have i: "i < 8" using Cons.prems by simp
  show ?case
  proof (cases "?w = 0xffffffff")
    case True
    moreover have "\<forall>j < 32. bit ?w j" using True by (simp add: full_word)
    ultimately show ?thesis using Cons.IH Cons.prems i l by simp
  next
    case False
    then obtain j where "j < 32" "\<not> bit ?w j" by (auto simp: full_word)
    then have "find (\<lambda>j. ?w AND push_bit j 1 = 0) [0..<32] \<noteq> None" by (auto simp: find_None_iff and_bit_iff(2))
    then obtain k where f: "find (\<lambda>j. ?w AND push_bit j 1 = 0) [0..<32] = Some k" by auto
    then have k: "k < 32" "\<not> bit ?w k" by (auto simp: find_Some_iff and_bit_iff)
    have d: "(i * 32 + k) div 32 = i" "(i * 32 + k) mod 32 = k" using k(1) by simp_all
    have "allocpageref_from (i # is) h = Some (Some (i * 32 + k), h\<lparr>pagerefs_inuse := (pagerefs_inuse h)[i := ?w OR push_bit k 1]\<rparr>)"
      using False f i l by simp
    moreover have "i * 32 + k < 256" "\<not> inuse h (i * 32 + k)" using i k d by (simp_all add: inuse_def)
    ultimately show ?thesis using d by (intro disjI2 exI [of _ "i * 32 + k"]) simp
  qed
qed simp

lemma allocpageref_cases:
  assumes l: "length (pagerefs_inuse h) = 8"
  obtains "allocpageref h = Some (None, h)"
  | p ws where "allocpageref h = Some (Some p, h\<lparr>pagerefs_inuse := ws\<rparr>)" "p < 256" "\<not> inuse h p" "length ws = 8"
      "ws ! (p div 32) = (pagerefs_inuse h ! (p div 32)) OR push_bit (p mod 32) 1"
      "\<And>q. q < 256 \<Longrightarrow> inuse (h\<lparr>pagerefs_inuse := ws\<rparr>) q \<longleftrightarrow> q = p \<or> inuse h q"
proof -
  consider "allocpageref h = Some (None, h)" | p where "p < 256" "\<not> inuse h p" "allocpageref h =
      Some (Some p, h\<lparr>pagerefs_inuse := (pagerefs_inuse h)[p div 32 := (pagerefs_inuse h ! (p div 32)) OR push_bit (p mod 32) 1]\<rparr>)"
    using allocpageref_from_cases [OF l, of "[0..<8]"] unfolding allocpageref_def by fastforce
  then show ?thesis
  proof cases
    case (2 p)
    have "inuse (h\<lparr>pagerefs_inuse := (pagerefs_inuse h)[p div 32 := (pagerefs_inuse h ! (p div 32)) OR push_bit (p mod 32) 1]\<rparr>) q
        \<longleftrightarrow> q = p \<or> inuse h q" if "q < 256" for q
      unfolding inuse_update [OF l 2(1) that]
      using same_index [of p q] by (auto simp: bit_or_iff bit_exp_iff inuse_def)
    then show ?thesis using that(2) [OF 2(3) 2(1,2)] l 2(1) by (simp add: nth_list_update)
  qed (rule that(1))
qed

lemma freepageref_ok:
  assumes l: "length (pagerefs_inuse h) = 8" and p: "p < 256" "inuse h p"
  obtains ws where "freepageref p h = Some (h\<lparr>pagerefs_inuse := ws\<rparr>)" "length ws = 8"
    "\<And>q. q < 256 \<Longrightarrow> inuse (h\<lparr>pagerefs_inuse := ws\<rparr>) q \<longleftrightarrow> q \<noteq> p \<and> inuse h q"
proof -
  let ?w = "pagerefs_inuse h ! (p div 32)"
  let ?v = "?w AND NOT (push_bit (p mod 32) 1)"
  have "freepageref p h = Some (h\<lparr>pagerefs_inuse := (pagerefs_inuse h)[p div 32 := ?v]\<rparr>)"
    using l p by (simp add: freepageref_def Let_def and_bit_iff inuse_def)
  moreover have "inuse (h\<lparr>pagerefs_inuse := (pagerefs_inuse h)[p div 32 := ?v]\<rparr>) q \<longleftrightarrow> q \<noteq> p \<and> inuse h q" if "q < 256" for q
    unfolding inuse_update [OF l p(1) that]
    using same_index [of p q] by (auto simp: bit_and_iff bit_not_iff bit_exp_iff inuse_def)
  ultimately show ?thesis using that l by simp
qed

section \<open>To take a page off the lists\<close>

lemma chain_remove:
  assumes "chain nx b (xs @ p # ys)" "xs \<noteq> []" "distinct (xs @ p # ys)"
  shows "chain (nx(last xs := nx p)) b (xs @ ys)"
  using assms
proof (induction xs arbitrary: b)
  case (Cons x xs)
  show ?case
  proof (cases "xs = []")
    case True
    have "chain (nx(x := nx p)) (nx p) ys = chain nx (nx p) ys" by (rule chain_cong) (use Cons.prems(3) in auto)
    then show ?thesis using Cons.prems True by (simp add: fun_upd_def)
  next
    case False
    then have "x \<noteq> last xs" using Cons.prems(3) by auto
    then show ?thesis using Cons False by simp
  qed
qed simp

text \<open>The store through the pointer \<open>guy\<close> of \<open>remove_lists\<close>.\<close>

definition link_same :: "nat \<Rightarrow> nat option \<Rightarrow> nat option \<Rightarrow> kheap \<Rightarrow> kheap" where
  "link_same t g nx h = (case g of None \<Rightarrow> h\<lparr>sizebases := (sizebases h)[t := nx]\<rparr>
     | Some q \<Rightarrow> h\<lparr>pagerefs := (pagerefs h)[q := (pr h q)\<lparr>next_samesize := nx\<rparr>]\<rparr>)"

definition link_all :: "nat option \<Rightarrow> nat option \<Rightarrow> kheap \<Rightarrow> kheap" where
  "link_all g nx h = (case g of None \<Rightarrow> h\<lparr>allbase := nx\<rparr>
     | Some q \<Rightarrow> h\<lparr>pagerefs := (pagerefs h)[q := (pr h q)\<lparr>next_all := nx\<rparr>]\<rparr>)"

definition pred_of :: "nat option \<Rightarrow> nat list \<Rightarrow> nat option" where
  "pred_of g xs = (if xs = [] then g else Some (last xs))"

lemma unlink_samesize_eq:
  assumes "t < length (sizebases h)" "\<forall>q \<in> set (xs @ p # ys). q < length (pagerefs h)" "p \<notin> set xs"
    "chain (\<lambda>q. next_samesize (pr h q)) (case g of None \<Rightarrow> sizebases h ! t | Some q \<Rightarrow> next_samesize (pr h q)) (xs @ p # ys)"
    "\<And>q. g = Some q \<Longrightarrow> q < length (pagerefs h)"
  shows "unlink_samesize p t g h = Some (link_same t (pred_of g xs) (next_samesize (pr h p)) h)"
  using assms
proof (induction xs arbitrary: g)
  case Nil
  then show ?case
    by (cases g) (simp_all add: unlink_samesize.simps [of p t None] unlink_samesize.simps [of p t "Some q" for q]
        get_pr_in upd_pr_in pred_of_def link_same_def)
next
  case (Cons x xs)
  have "unlink_samesize p t g h = unlink_samesize p t (Some x) h"
    using Cons.prems by (cases g) (auto simp: unlink_samesize.simps [of p t None] unlink_samesize.simps [of p t "Some q" for q] get_pr_in)
  also have "\<dots> = Some (link_same t (pred_of (Some x) xs) (next_samesize (pr h p)) h)"
    using Cons.prems by (intro Cons.IH) auto
  finally show ?case by (simp add: pred_of_def)
qed

lemma unlink_all_eq:
  assumes "\<forall>q \<in> set (xs @ p # ys). q < length (pagerefs h)" "p \<notin> set xs"
    "chain (\<lambda>q. next_all (pr h q)) (case g of None \<Rightarrow> allbase h | Some q \<Rightarrow> next_all (pr h q)) (xs @ p # ys)"
    "\<And>q. g = Some q \<Longrightarrow> q < length (pagerefs h)"
  shows "unlink_all p g h = Some (link_all (pred_of g xs) (next_all (pr h p)) h)"
  using assms
proof (induction xs arbitrary: g)
  case Nil
  then show ?case
    by (cases g) (simp_all add: unlink_all.simps [of p None] unlink_all.simps [of p "Some q" for q]
        get_pr_in upd_pr_in pred_of_def link_all_def)
next
  case (Cons x xs)
  have "unlink_all p g h = unlink_all p (Some x) h"
    using Cons.prems by (cases g) (auto simp: unlink_all.simps [of p None] unlink_all.simps [of p "Some q" for q] get_pr_in)
  also have "\<dots> = Some (link_all (pred_of (Some x) xs) (next_all (pr h p)) h)"
    using Cons.prems by (intro Cons.IH) auto
  finally show ?case by (simp add: pred_of_def)
qed

text \<open>What a page reference holds besides the links.\<close>

definition core :: "pageref \<Rightarrow> 32 word \<times> 16 word \<times> 16 word" where
  "core r = (pageaddr_and_blocktype r, freelist_offset r, nfree r)"

lemma link_same_links:
  assumes "chain (\<lambda>q. next_samesize (pr h q)) (sizebases h ! t) (xs @ p # ys)" "distinct (xs @ p # ys)" "t < length (sizebases h)"
    "\<forall>q \<in> set (xs @ p # ys). q < length (pagerefs h)"
  defines "h' \<equiv> link_same t (pred_of None xs) (next_samesize (pr h p)) h"
  shows "chain (\<lambda>q. next_samesize (pr h' q)) (sizebases h' ! t) (xs @ ys)"
proof (cases "xs = []")
  case True
  then show ?thesis using assms(1,3) by (simp add: h'_def link_same_def pred_of_def)
next
  case False
  then have "last xs < length (pagerefs h)" using assms(4) by simp
  then have "(\<lambda>q. next_samesize (pr h' q)) = (\<lambda>q. next_samesize (pr h q))(last xs := next_samesize (pr h p))"
    using False by (auto simp: h'_def link_same_def pred_of_def nth_list_update)
  moreover have "sizebases h' = sizebases h" using False by (simp add: h'_def link_same_def pred_of_def)
  ultimately show ?thesis using chain_remove [OF assms(1) False assms(2)] by simp
qed

lemma link_same_other:
  fixes nx :: "nat option"
  assumes "chain (\<lambda>q. next_samesize (pr h q)) (sizebases h ! u) zs" "u \<noteq> t" "set xs \<inter> set zs = {}"
  defines "h' \<equiv> link_same t (pred_of None xs) nx h"
  shows "chain (\<lambda>q. next_samesize (pr h' q)) (sizebases h' ! u) zs"
proof -
  have "next_samesize (pr h' q) = next_samesize (pr h q)" if "q \<in> set zs" for q
  proof (cases "xs = []")
    case False
    then have "last xs \<noteq> q" using assms(3) that by (metis disjoint_iff last_in_set)
    then show ?thesis using False by (simp add: h'_def link_same_def pred_of_def)
  qed (simp add: h'_def link_same_def pred_of_def)
  then have "chain (\<lambda>q. next_samesize (pr h' q)) b zs = chain (\<lambda>q. next_samesize (pr h q)) b zs" for b by (rule chain_cong)
  moreover have "sizebases h' ! u = sizebases h ! u" using assms(2) by (simp add: h'_def link_same_def pred_of_def split: option.splits)
  ultimately show ?thesis using assms(1) by simp
qed

lemma link_all_links:
  assumes "chain (\<lambda>q. next_all (pr h q)) (allbase h) (xs @ p # ys)" "distinct (xs @ p # ys)"
    "\<forall>q \<in> set (xs @ p # ys). q < length (pagerefs h)"
  defines "h' \<equiv> link_all (pred_of None xs) (next_all (pr h p)) h"
  shows "chain (\<lambda>q. next_all (pr h' q)) (allbase h') (xs @ ys)"
proof (cases "xs = []")
  case True
  then show ?thesis using assms(1) by (simp add: h'_def link_all_def pred_of_def)
next
  case False
  then have "last xs < length (pagerefs h)" using assms(3) by simp
  then have "(\<lambda>q. next_all (pr h' q)) = (\<lambda>q. next_all (pr h q))(last xs := next_all (pr h p))"
    using False by (auto simp: h'_def link_all_def pred_of_def nth_list_update)
  moreover have "allbase h' = allbase h" using False by (simp add: h'_def link_all_def pred_of_def)
  ultimately show ?thesis using chain_remove [OF assms(1) False assms(2)] by simp
qed

lemma link_frame:
  "next_all (pr (link_same t g nx h) q) = next_all (pr h q)" "core (pr (link_same t g nx h) q) = core (pr h q)"
  "next_samesize (pr (link_all g nx h) q) = next_samesize (pr h q)" "core (pr (link_all g nx h) q) = core (pr h q)"
  "allbase (link_same t g nx h) = allbase h" "sizebases (link_all g nx h) = sizebases h"
  "length (pagerefs (link_same t g nx h)) = length (pagerefs h)" "length (pagerefs (link_all g nx h)) = length (pagerefs h)"
  "length (sizebases (link_same t g nx h)) = length (sizebases h)"
  "\<exists>prs bs. link_same t g nx h = h\<lparr>pagerefs := prs, sizebases := bs\<rparr>"
  "\<exists>prs ab. link_all g nx h = h\<lparr>pagerefs := prs, allbase := ab\<rparr>"
proof -
  have u: "(xs[i := x]) ! j = (if i = j \<and> i < length xs then x else xs ! j)" for xs :: "pageref list" and i j x
    by (cases "i < length xs") (auto simp: nth_list_update list_update_beyond)
  show "next_all (pr (link_same t g nx h) q) = next_all (pr h q)" "core (pr (link_same t g nx h) q) = core (pr h q)"
    "next_samesize (pr (link_all g nx h) q) = next_samesize (pr h q)" "core (pr (link_all g nx h) q) = core (pr h q)"
    by (simp_all add: link_same_def link_all_def core_def u split: option.splits)
  show "allbase (link_same t g nx h) = allbase h" "sizebases (link_all g nx h) = sizebases h"
    "length (pagerefs (link_same t g nx h)) = length (pagerefs h)" "length (pagerefs (link_all g nx h)) = length (pagerefs h)"
    "length (sizebases (link_same t g nx h)) = length (sizebases h)"
    by (simp_all add: link_same_def link_all_def split: option.splits)
  have "link_same t g nx h = h\<lparr>pagerefs := pagerefs (link_same t g nx h), sizebases := sizebases (link_same t g nx h)\<rparr>"
    by (cases g) (simp_all add: link_same_def)
  then show "\<exists>prs bs. link_same t g nx h = h\<lparr>pagerefs := prs, sizebases := bs\<rparr>" by blast
  have "link_all g nx h = h\<lparr>pagerefs := pagerefs (link_all g nx h), allbase := allbase (link_all g nx h)\<rparr>"
    by (cases g) (simp_all add: link_all_def)
  then show "\<exists>prs ab. link_all g nx h = h\<lparr>pagerefs := prs, allbase := ab\<rparr>" by blast
qed

lemma remove_lists_ok:
  assumes L: "lists_ok h ps" and p: "p \<in> set ps" "pty h p < 8"
  obtains prs bs ab where "remove_lists p (pty h p) h = Some (h\<lparr>pagerefs := prs, sizebases := bs, allbase := ab\<rparr>)"
    "length prs = 256" "length bs = 8" "\<And>q. core (prs ! q) = core (pr h q)" "chain (\<lambda>q. next_all (prs ! q)) ab (remove1 p ps)"
    "\<And>t. t < 8 \<Longrightarrow> chain (\<lambda>q. next_samesize (prs ! q)) (bs ! t) (filter (\<lambda>q. pty h q = t) (remove1 p ps))"
proof -
  let ?t = "pty h p" and ?f = "\<lambda>t. filter (\<lambda>q. pty h q = t)"
  have len: "length (pagerefs h) = 256" "length (sizebases h) = 8" and d: "distinct ps" and b: "\<And>q. q \<in> set ps \<Longrightarrow> q < 256"
    and ca: "chain (\<lambda>q. next_all (pr h q)) (allbase h) ps"
    and cs: "\<And>t. t < 8 \<Longrightarrow> chain (\<lambda>q. next_samesize (pr h q)) (sizebases h ! t) (?f t ps)"
    using L by (auto simp: lists_ok_def)
  obtain us vs where ps: "ps = us @ p # vs" using p(1) by (meson split_list)
  then have uv: "p \<notin> set us" "p \<notin> set vs" "remove1 p ps = us @ vs" using d by (auto simp: remove1_append)
  let ?xs = "?f ?t us" and ?ys = "?f ?t vs"
  have fs: "?f ?t ps = ?xs @ p # ?ys" by (simp add: ps)
  define h1 where "h1 = link_same ?t (pred_of None ?xs) (next_samesize (pr h p)) h"
  define h2 where "h2 = link_all (pred_of None us) (next_all (pr h1 p)) h1"
  have c1: "chain (\<lambda>q. next_samesize (pr h q)) (sizebases h ! ?t) (?xs @ p # ?ys)" using cs [OF p(2)] fs by simp
  have d1: "distinct (?xs @ p # ?ys)" using d ps by auto
  have b1: "\<forall>q \<in> set (?xs @ p # ?ys). q < length (pagerefs h)" using b len(1) ps by auto
  have "unlink_samesize p ?t None h = Some h1"
    unfolding h1_def by (rule unlink_samesize_eq) (use b1 c1 p(2) len(2) uv(1) in auto)
  moreover have c2: "chain (\<lambda>q. next_all (pr h1 q)) (allbase h1) (us @ p # vs)" using ca by (simp add: h1_def link_frame ps)
  moreover have b2: "\<forall>q \<in> set (us @ p # vs). q < length (pagerefs h1)" using b len(1) ps by (simp add: h1_def link_frame)
  then have "unlink_all p None h1 = Some h2"
    unfolding h2_def by (intro unlink_all_eq) (use c2 uv(1) in auto)
  ultimately have "remove_lists p ?t h = Some h2" using p(2) by (simp add: remove_lists_def)
  moreover obtain prs bs where e1: "h1 = h\<lparr>pagerefs := prs, sizebases := bs\<rparr>" unfolding h1_def using link_frame(10) by blast
  obtain prs' ab where "h2 = h1\<lparr>pagerefs := prs', allbase := ab\<rparr>" unfolding h2_def using link_frame(11) by blast
  with e1 have e2: "h2 = h\<lparr>pagerefs := prs', sizebases := bs, allbase := ab\<rparr>" by simp
  moreover have "length (pagerefs h2) = 256" "length (sizebases h2) = 8" "\<And>q. core (pr h2 q) = core (pr h q)"
    using len by (simp_all add: h2_def h1_def link_frame)
  moreover have "chain (\<lambda>q. next_all (pr h2 q)) (allbase h2) (remove1 p ps)"
    unfolding h2_def uv(3) by (rule link_all_links [OF c2]) (use d b2 in \<open>auto simp: ps\<close>)
  moreover have "chain (\<lambda>q. next_samesize (pr h1 q)) (sizebases h1 ! t) (?f t (remove1 p ps))" if "t < 8" for t
  proof (cases "t = ?t")
    case True
    have "?f t (remove1 p ps) = ?xs @ ?ys" using True uv(3) by simp
    then show ?thesis using link_same_links [OF c1 d1 _ b1] p(2) len(2) by (simp add: h1_def True)
  next
    case False
    have "?f t (remove1 p ps) = ?f t ps" using False ps uv(3) by auto
    moreover have "set ?xs \<inter> set (?f t ps) = {}" using False by auto
    ultimately show ?thesis using link_same_other [OF cs [OF that] False] by (simp add: h1_def)
  qed
  then have "chain (\<lambda>q. next_samesize (pr h2 q)) (sizebases h2 ! t) (?f t (remove1 p ps))" if "t < 8" for t
    using that by (simp add: h2_def link_frame)
  ultimately show ?thesis using that [of ab bs prs'] by simp
qed

lemma core_page:
  assumes "core (pr h' p) = core (pr h p)"
  shows "paddr h' p = paddr h p" "pty h' p = pty h p" "nfree (pr h' p) = nfree (pr h p)"
    "freelist_offset (pr h' p) = freelist_offset (pr h p)"
  using assms by (simp_all add: core_def pty_def PR_PAGEADDR_def PR_BLOCKTYPE_def)

text \<open>A page whose blocks are all free leaves the heap.\<close>

lemma drop_page:
  assumes inv: "heap_inv h ps fl B" and p: "p \<in> set ps" and full: "set (fl p) = {..<bcap (pty h p)}"
  obtains h1 h' where "remove_lists p (pty h p) h = Some h1" "freepageref p h1 = Some h'"
    "heap_inv h' (remove1 p ps) fl B" "blocks h' (remove1 p ps) fl = blocks h ps fl" "kmem h' = kmem h"
    "curspl h' = curspl h"
proof -
  note P = inv_page [OF inv p]
  have L: "lists_ok h ps" and Pg: "pages_ok h ps fl" and Bg: "bigs_ok h ps B" using inv by (simp_all add: heap_inv_def)
  obtain prs bs ab where rm: "remove_lists p (pty h p) h = Some (h\<lparr>pagerefs := prs, sizebases := bs, allbase := ab\<rparr>)"
    "length prs = 256" "length bs = 8" "\<And>q. core (prs ! q) = core (pr h q)" "chain (\<lambda>q. next_all (prs ! q)) ab (remove1 p ps)"
    "\<And>t. t < 8 \<Longrightarrow> chain (\<lambda>q. next_samesize (prs ! q)) (bs ! t) (filter (\<lambda>q. pty h q = t) (remove1 p ps))"
    using remove_lists_ok [OF L p P(3)] by metis
  let ?h1 = "h\<lparr>pagerefs := prs, sizebases := bs, allbase := ab\<rparr>"
  have iu: "length (pagerefs_inuse ?h1) = 8" "p < 256" "inuse ?h1 p" "distinct ps" "set ps = {q. q < 256 \<and> inuse h q}"
    "\<And>q. inuse ?h1 q = inuse h q"
    using L p by (auto simp: lists_ok_def inuse_def)
  obtain ws where ws: "freepageref p ?h1 = Some (?h1\<lparr>pagerefs_inuse := ws\<rparr>)" "length ws = 8"
    "\<And>q. q < 256 \<Longrightarrow> inuse (?h1\<lparr>pagerefs_inuse := ws\<rparr>) q \<longleftrightarrow> q \<noteq> p \<and> inuse ?h1 q"
    using freepageref_ok [OF iu(1-3)] by metis
  let ?h = "?h1\<lparr>pagerefs_inuse := ws\<rparr>"
  have c: "paddr ?h q = paddr h q" "pty ?h q = pty h q" "nfree (pr ?h q) = nfree (pr h q)"
    "freelist_offset (pr ?h q) = freelist_offset (pr h q)" for q
    using core_page [of ?h q h] rm(4) by simp_all
  have s: "set (remove1 p ps) = set ps - {p}" using iu(4) by simp
  have "set ps - {p} = {q. q < 256 \<and> inuse ?h q}" using ws(3) iu(5,6) by auto
  then have "lists_ok ?h (remove1 p ps)" using rm ws(2) iu(4) c(2) s by (simp add: lists_ok_def)
  moreover have "pages_ok ?h (remove1 p ps) fl"
    using Pg unfolding pages_ok_def page_ok_def c s by (auto simp: ram_ok_def inj_on_def)
  moreover have "bigs_ok ?h (remove1 p ps) B" using Bg unfolding bigs_ok_def c s by auto
  moreover have "blocks ?h (remove1 p ps) fl = blocks h ps fl"
  proof -
    have "page_blocks h p (fl p) = {}" using full by (simp add: page_blocks_def)
    moreover have "page_blocks ?h q js = page_blocks h q js" for q js unfolding page_blocks_def c ..
    ultimately show ?thesis unfolding blocks_split [OF p] by (simp only: blocks_def s Un_empty_right)
  qed
  ultimately show ?thesis using that [OF rm(1) ws(1)] by (simp add: heap_inv_def)
qed

section \<open>A new page\<close>

lemma mask_mix: "((a AND f) OR (b AND NOT f)) AND f = a AND f" "((a AND f) OR (b AND NOT f)) AND NOT f = b AND NOT f" for f :: "32 word"
  by (rule bit_eqI, auto simp: bit_and_iff bit_or_iff bit_not_iff)+

lemma pab:
  assumes "4096 dvd unat a" "t < 4096" "pageaddr_and_blocktype r = MKPAB a (of_nat t)"
  shows "PR_PAGEADDR r = a" "unat (PR_BLOCKTYPE r) = t"
proof -
  have "PR_PAGEADDR r = a AND PAGE_FRAME"
    unfolding PR_PAGEADDR_def assms(3) MKPAB_def by (rule mask_mix)
  moreover have "a AND PAGE_FRAME = a" using assms(1) by (simp only: page_aligned_iff) presburger
  ultimately show "PR_PAGEADDR r = a" by simp
  have "PR_BLOCKTYPE r = of_nat t AND NOT PAGE_FRAME"
    unfolding PR_BLOCKTYPE_def assms(3) MKPAB_def by (rule mask_mix)
  then show "unat (PR_BLOCKTYPE r) = t" using assms(2) by (simp only: and_not_page_frame) (simp add: unat_of_nat)
qed

lemma init_freelist_snoc: "init_freelist (is @ [i]) a sz m = do {
    m \<leftarrow> init_freelist is a sz m;
    kassert (a + of_nat i * sz \<noteq> a + of_nat (i - 1) * sz);
    Some (m(a + of_nat i * sz := a + of_nat (i - 1) * sz)) }"
  by (induction "is" arbitrary: m) (auto simp: Let_def kassert_def)

lemma init_freelist_ok:
  assumes a: "page_base a" "t < 8" and n: "n \<le> bcap t" "0 < n"
  shows "\<exists>m'. init_freelist [1..<n] a (sizes ! t) (m(a := 0)) = Some m' \<and> linked m' (adr a t) (rev [0..<n]) \<and>
    (\<forall>x. (\<forall>i < n. x \<noteq> adr a t i) \<longrightarrow> m' x = m x)"
  using n
proof (induction n)
  case (Suc k)
  have ad: "a + of_nat i * (sizes ! t) = adr a t i" for i by (simp add: adr_def sizes_nth(1) [OF a(2)])
  have a0: "adr a t 0 = a" by (simp add: adr_def)
  show ?case
  proof (cases "k = 0")
    case True
    then show ?thesis by (simp add: a0)
  next
    case False
    then have "k \<le> bcap t" "0 < k" using Suc.prems(1) by simp_all
    then obtain m' where m': "init_freelist [1..<k] a (sizes ! t) (m(a := 0)) = Some m'" "linked m' (adr a t) (rev [0..<k])"
      "\<And>x. \<forall>i < k. x \<noteq> adr a t i \<Longrightarrow> m' x = m x"
      using Suc.IH by blast
    have ne: "adr a t k \<noteq> adr a t i" if "i < k" for i using adr_inj [OF a, of k i] that Suc.prems(1) by simp
    let ?m = "m'(adr a t k := adr a t (k - 1))"
    have "init_freelist [1..<Suc k] a (sizes ! t) (m(a := 0)) = Some ?m"
    proof -
      have "[1..<Suc k] = [1..<k] @ [k]" using False by simp
      moreover have "adr a t k \<noteq> adr a t (k - 1)" using ne [of "k - 1"] False by simp
      ultimately show ?thesis by (simp only: init_freelist_snoc ad m'(1) bind.bind_lunit kassert_simps simp_thms)
    qed
    moreover have "linked ?m (adr a t) (rev [0..<Suc k])"
    proof -
      have "?m (adr a t i) = m' (adr a t i)" if "i < k" for i using ne [OF that] by simp
      then have "linked ?m (adr a t) (rev [0..<k]) = linked m' (adr a t) (rev [0..<k])" by (intro linked_cong) simp
      moreover obtain j where "k = Suc j" using False by (cases k) auto
      ultimately show ?thesis using m'(2) by simp
    qed
    moreover have "?m x = m x" if "\<forall>i < Suc k. x \<noteq> adr a t i" for x using that m'(3) [of x] by auto
    ultimately show ?thesis by blast
  qed
qed simp

lemma alloc_kpages_cases:
  assumes "ram_ok m" "n < 2 ^ 19"
  obtains "alloc_kpages (int n) m = (0, m)" "unat (lastpaddr m) < unat (firstpaddr m) + n * 4096"
  | a f where "alloc_kpages (int n) m = (a, m\<lparr>firstpaddr := f\<rparr>)" "a \<noteq> 0" "unat a = 0x80000000 + unat (firstpaddr m)"
      "unat f = unat (firstpaddr m) + n * 4096" "ram_ok (m\<lparr>firstpaddr := f\<rparr>)"
proof -
  have u: "unat (of_nat n :: 32 word) = n" using assms(2) by (simp add: unat_of_nat)
  have b: "0 < unat (firstpaddr m)" "unat (firstpaddr m) \<le> 508 * 1024 * 1024" using assms(1) by (simp_all add: ram_ok_def)
  have k: "unat (firstpaddr m + MIPS_KSEG0) = 0x80000000 + unat (firstpaddr m)" using b by (subst unat_word_ariths) simp
  then have nz: "firstpaddr m + MIPS_KSEG0 \<noteq> 0" by (metis add_is_0 unat_0 zero_neq_numeral)
  show ?thesis
  proof (cases "unat (firstpaddr m) + n * 4096 \<le> unat (lastpaddr m)")
    case True
    then obtain f where f: "ram_stealmem (of_nat n) m = (firstpaddr m, m\<lparr>firstpaddr := f\<rparr>)" "firstpaddr m \<noteq> 0"
      "unat f = unat (firstpaddr m) + n * 4096" "ram_ok (m\<lparr>firstpaddr := f\<rparr>)"
      using ram_stealmem_next [OF assms(1), of "of_nat n"] u assms(2) by auto
    then show ?thesis using that(2) [OF _ nz k] by (simp add: alloc_kpages_def getppages_eq)
  next
    case False
    then have "ram_stealmem (of_nat n) m = (0, m)" using ram_stealmem_next [OF assms(1), of "of_nat n"] u assms(2) by simp
    then show ?thesis using that(1) False by (simp add: alloc_kpages_def getppages_eq)
  qed
qed

lemma add_page_lists:
  assumes L: "lists_ok h ps" and p: "p < 256" "\<not> inuse h p" and t: "t < 8" "pty h' p = t"
    and prs: "pagerefs h' = (pagerefs h)[p := r]" "next_samesize r = sizebases h ! t" "next_all r = allbase h"
    and b: "sizebases h' = (sizebases h)[t := Some p]" "allbase h' = Some p"
    and iu: "length (pagerefs_inuse h') = 8" "\<And>q. q < 256 \<Longrightarrow> inuse h' q \<longleftrightarrow> q = p \<or> inuse h q"
  shows "lists_ok h' (p # ps)"
proof -
  have np: "p \<notin> set ps" and len: "length (pagerefs h) = 256" "length (sizebases h) = 8" and d: "distinct ps"
    and S: "set ps = {q. q < 256 \<and> inuse h q}" and ca: "chain (\<lambda>q. next_all (pr h q)) (allbase h) ps"
    and cs: "\<And>t. t < 8 \<Longrightarrow> chain (\<lambda>q. next_samesize (pr h q)) (sizebases h ! t) (filter (\<lambda>q. pty h q = t) ps)"
    using L p by (auto simp: lists_ok_def)
  have same: "pr h' q = pr h q" if "q \<in> set ps" for q using that np unfolding prs(1) by (metis nth_list_update_neq)
  have ty: "filter (\<lambda>q. pty h' q = u) ps = filter (\<lambda>q. pty h q = u) ps" for u
    by (rule filter_cong) (simp_all add: pty_def same)
  have at: "pr h' p = r" using p len by (simp add: prs(1))
  have "set (p # ps) = {q. q < 256 \<and> inuse h' q}" using S p iu(2) by auto
  moreover have "chain (\<lambda>q. next_all (pr h' q)) (allbase h') (p # ps)"
    using ca chain_cong [of ps "\<lambda>q. next_all (pr h' q)"] same by (simp add: b(2) at prs(3))
  moreover have "chain (\<lambda>q. next_samesize (pr h' q)) (sizebases h' ! u) (filter (\<lambda>q. pty h' q = u) (p # ps))" if "u < 8" for u
  proof -
    have "chain (\<lambda>q. next_samesize (pr h' q)) (sizebases h ! u) (filter (\<lambda>q. pty h q = u) ps)"
      using cs [OF that] chain_cong [of "filter (\<lambda>q. pty h q = u) ps" "\<lambda>q. next_samesize (pr h' q)" "\<lambda>q. next_samesize (pr h q)"] same
      by simp
    then show ?thesis using t that len(2) at prs(2) b(1) by (cases "u = t") (simp_all add: ty)
  qed
  ultimately show ?thesis using d np len iu(1) b(1) by (simp add: lists_ok_def prs(1))
qed

lemma add_page_inv:
  assumes inv: "heap_inv h ps fl B" and p: "p < 256" "\<not> inuse h p" and t: "t < 8"
    and prs: "pagerefs h' = (pagerefs h)[p := r]" "next_samesize r = sizebases h ! t" "next_all r = allbase h"
      "pageaddr_and_blocktype r = MKPAB a (of_nat t)" "nfree r = of_nat (bcap t)" "freelist_offset r = fl_off t (rev [0..<bcap t])"
    and b: "sizebases h' = (sizebases h)[t := Some p]" "allbase h' = Some p"
    and iu: "length (pagerefs_inuse h') = 8" "\<And>q. q < 256 \<Longrightarrow> inuse h' q \<longleftrightarrow> q = p \<or> inuse h q"
    and ram: "ram_ok h'" "unat a = 0x80000000 + unat (firstpaddr h)" "unat (firstpaddr h') = unat (firstpaddr h) + 4096"
    and m: "linked (kmem h') (adr a t) (rev [0..<bcap t])" "\<And>x. unat x \<notin> area (unat a, 4096) \<Longrightarrow> kmem h' x = kmem h x"
  shows "heap_inv h' (p # ps) (fl(p := rev [0..<bcap t])) B" "blocks h' (p # ps) (fl(p := rev [0..<bcap t])) = blocks h ps fl"
    "pty h' p = t" "paddr h' p = a" "p \<notin> set ps"
proof -
  have L: "lists_ok h ps" and Pg: "pages_ok h ps fl" and Bg: "bigs_ok h ps B" using inv by (simp_all add: heap_inv_def)
  have np: "p \<notin> set ps" and len: "length (pagerefs h) = 256" using L p by (auto simp: lists_ok_def)
  have rh: "unat (firstpaddr h) mod 4096 = 0" "unat (firstpaddr h) \<le> 508 * 1024 * 1024" using Pg by (simp_all add: pages_ok_def ram_ok_def)
  have da: "4096 dvd unat a" unfolding ram(2) using rh(1) by (intro dvd_add) (simp_all add: dvd_eq_mod_eq_0)
  have a: "page_base a" using da ram(2) rh(2) by (auto simp: page_base_def)
  have at: "pr h' p = r" using p len by (simp add: prs(1))
  have pa: "paddr h' p = a" "pty h' p = t" using pab [OF da _ prs(4)] t by (simp_all add: at pty_def)
  have same: "pr h' q = pr h q" if "q \<in> set ps" for q using that np unfolding prs(1) by (metis nth_list_update_neq)
  then have ty: "pty h' q = pty h q" if "q \<in> set ps" for q using that by (simp add: pty_def)
  have below: "unat (paddr h q) + 4096 \<le> unat a" if "q \<in> set ps" for q using that Pg ram(2) by (simp add: pages_ok_def)
  have okp: "page_ok h' p (rev [0..<bcap t])"
    using a t m(1) bsz_bcap(6) [OF t] pa by (auto simp: page_ok_def at prs(5,6) unat_of_nat)
  have okq: "page_ok h' q (fl q)" if q: "q \<in> set ps" for q
  proof -
    have o: "page_ok h q (fl q)" using Pg q by (simp add: pages_ok_def)
    have "kmem h' (adr (paddr h q) (pty h q) i) = kmem h (adr (paddr h q) (pty h q) i)" if "i \<in> set (fl q)" for i
    proof -
      have "i < bcap (pty h q)" using o that by (auto simp: page_ok_def)
      from adr_in_page [OF o this] show ?thesis using below [OF q] m(2) by (auto simp: in_area)
    qed
    then have "linked (kmem h') (adr (paddr h q) (pty h q)) (fl q)" using o linked_cong unfolding page_ok_def by metis
    then show ?thesis using o by (simp add: page_ok_def same [OF q] ty [OF q])
  qed
  have "lists_ok h' (p # ps)" by (rule add_page_lists [OF L p t pa(2) prs(1-3) b iu])
  moreover have "pages_ok h' (p # ps) (fl(p := rev [0..<bcap t]))"
  proof -
    have "a \<noteq> paddr h q" if "q \<in> set ps" for q using below [OF that] by auto
    then have "paddr h' p \<notin> paddr h' ` set ps" using pa(1) same by auto
    moreover have "inj_on (paddr h') (set ps)" using Pg same by (simp add: pages_ok_def inj_on_def)
    ultimately have "inj_on (paddr h') (set (p # ps))" using np by simp
    then show ?thesis using Pg okp okq ram np pa(1) same by (auto simp: pages_ok_def)
  qed
  moreover have "bigs_ok h' (p # ps) B"
  proof -
    have e: "fst b + snd b \<le> 0x80000000 + unat (firstpaddr h)" if "b \<in> B" for b using Bg that by (simp add: bigs_ok_def)
    have "area b \<inter> page_area h' p = {}" if "b \<in> B" for b using e [OF that] ram(2) pa(1) by (auto simp: area_def)
    moreover have "fst b + snd b \<le> 0x80000000 + unat (firstpaddr h')" if "b \<in> B" for b using e [OF that] ram(3) by linarith
    ultimately show ?thesis using Bg same by (simp add: bigs_ok_def)
  qed
  ultimately show "heap_inv h' (p # ps) (fl(p := rev [0..<bcap t])) B" by (simp add: heap_inv_def)
  have "page_blocks h' q ((fl(p := rev [0..<bcap t])) q) = page_blocks h q (fl q)" if "q \<in> set ps" for q
  proof -
    have "q \<noteq> p" using that np by blast
    then show ?thesis using that same ty by (simp add: page_blocks_def)
  qed
  then have "(\<Union>q \<in> set ps. page_blocks h' q ((fl(p := rev [0..<bcap t])) q)) = blocks h ps fl" unfolding blocks_def by blast
  moreover have "page_blocks h' p (rev [0..<bcap t]) = {}" using pa(2) by (auto simp: page_blocks_def)
  ultimately show "blocks h' (p # ps) (fl(p := rev [0..<bcap t])) = blocks h ps fl" by (simp add: blocks_def)
  show "pty h' p = t" "paddr h' p = a" "p \<notin> set ps" using pa np by simp_all
qed

lemma page_div:
  assumes "t < 8"
  shows "unat (PAGE_SIZE div sizes ! t) = bcap t" "unat (ucast (PAGE_SIZE div sizes ! t) :: 16 word) = bcap t"
proof -
  show d: "unat (PAGE_SIZE div sizes ! t) = bcap t"
    using bsz_bcap(2) [OF assms] by (simp add: unat_div sizes_nth(2) [OF assms])
  show "unat (ucast (PAGE_SIZE div sizes ! t) :: 16 word) = bcap t"
    using bsz_bcap(6) [OF assms] by (simp add: unsigned_ucast_eq d take_bit_eq_mod)
qed

lemma last_offset:
  assumes t: "t < 8" and n: "unat (n :: 16 word) = bcap t"
  shows "ucast (of_nat (unat n - 1) * (sizes ! t)) = fl_off t (rev [0..<bcap t])"
    "ucast (fl_off t (rev [0..<bcap t])) = (ucast n - 1) * (sizes ! t)"
proof -
  obtain k where k: "bcap t = Suc k" using bsz_bcap(4) [of t] by (metis Suc_pred')
  have o4: "k * bsz t < 4096" using page_off [OF t, of k] k by simp
  have nk: "unat n - 1 = k" using n k by simp
  have e: "fl_off t (rev [0..<bcap t]) = of_nat (k * bsz t)" by (simp add: fl_off_def k)
  have s: "of_nat k * (sizes ! t) = of_nat (k * bsz t)" by (simp add: sizes_nth(1) [OF t])
  show "ucast (of_nat (unat n - 1) * (sizes ! t)) = fl_off t (rev [0..<bcap t])"
    by (simp only: e nk s ucast_off(2) [OF o4])
  have k256: "Suc k \<le> 256" using bsz_bcap(6) [OF t] k by simp
  then have "unat (of_nat (Suc k) :: 16 word) = Suc k" by (simp add: unat_of_nat del: of_nat_Suc)
  then have "n = of_nat (Suc k)" using n k by (simp only: word_unat_eq_iff)
  moreover from k256 have "Suc k < 4096" by simp
  ultimately have "ucast n = (of_nat (Suc k) :: 32 word)" using ucast_off(1) by blast
  then have "ucast n - 1 = (of_nat k :: 32 word)" by simp
  then show "ucast (fl_off t (rev [0..<bcap t])) = (ucast n - 1) * (sizes ! t)"
    by (simp only: e s ucast_off(1) [OF o4])
qed

lemma inuse_ram [simp]: "inuse (h\<lparr>firstpaddr := f\<rparr>) q = inuse h q"
  by (simp add: inuse_def)

lemma new_page_fresh:
  assumes inv: "heap_inv h ps fl B" and t: "t < 8" and p: "p < 256" "\<not> inuse h p"
    and al: "allocpageref h = Some (Some p, h\<lparr>pagerefs_inuse := ws\<rparr>)"
    and ws: "length ws = 8" "\<And>q. q < 256 \<Longrightarrow> inuse (h\<lparr>pagerefs_inuse := ws\<rparr>) q \<longleftrightarrow> q = p \<or> inuse h q"
    and A: "alloc_kpages (int 1) (h\<lparr>pagerefs_inuse := ws\<rparr>) = (a, h\<lparr>pagerefs_inuse := ws, firstpaddr := f\<rparr>)" "a \<noteq> 0"
      "unat a = 0x80000000 + unat (firstpaddr h)" "unat f = unat (firstpaddr h) + 4096" "ram_ok (h\<lparr>pagerefs_inuse := ws, firstpaddr := f\<rparr>)"
  shows "\<exists>h'. new_page t h = Some (Some p, h') \<and> heap_inv h' (p # ps) (fl(p := rev [0..<bcap t])) B \<and>
      blocks h' (p # ps) (fl(p := rev [0..<bcap t])) = blocks h ps fl \<and> pty h' p = t \<and> p \<notin> set ps \<and>
      (\<forall>x. unat x \<notin> page_area h' p \<longrightarrow> kmem h' x = kmem h x) \<and> curspl h' = curspl h"
proof -
  have ram: "ram_ok h" and len: "length (pagerefs h) = 256" "length (pagerefs_inuse h) = 8" "length (sizebases h) = 8"
    using inv by (simp_all add: heap_inv_def pages_ok_def lists_ok_def)
  have pb: "page_base a"
    using A(3) ram by (auto simp: page_base_def ram_ok_def intro: mod_greater_zero_iff_not_dvd [THEN iffD1])
  let ?n = "ucast (PAGE_SIZE div sizes ! t) :: 16 word"
  note N = page_div(2) [OF t]
  obtain m' where m': "init_freelist [1..<bcap t] a (sizes ! t) ((kmem h)(a := 0)) = Some m'" "linked m' (adr a t) (rev [0..<bcap t])"
    "\<And>x. \<forall>i < bcap t. x \<noteq> adr a t i \<Longrightarrow> m' x = kmem h x"
    using init_freelist_ok [OF pb t order_refl bsz_bcap(4)] by blast
  define r where "r = (pr h p)\<lparr>pageaddr_and_blocktype := MKPAB a (of_nat t), nfree := ?n,
      freelist_offset := fl_off t (rev [0..<bcap t]), next_samesize := sizebases h ! t, next_all := allbase h\<rparr>"
  define h' where "h' = (h\<lparr>pagerefs_inuse := ws\<rparr>)\<lparr>firstpaddr := f, pagerefs := (pagerefs h)[p := r], kmem := m', sizebases := (sizebases h)[t := Some p], allbase := Some p\<rparr>"
  have ex: "new_page t h = Some (Some p, h')"
    using al p(1) A(1,2) N m'(1) t len last_offset [OF t N]
    by (simp add: new_page_def Let_def upd_pr_in r_def h'_def)
  have nb: "?n = of_nat (bcap t)" using N bsz_bcap(6) [OF t] by (simp add: word_unat_eq_iff unat_of_nat)
  have out: "kmem h' x = kmem h x" if "unat x \<notin> area (unat a, 4096)" for x
  proof -
    have "unat (adr a t i) \<in> area (unat a, 4096)" if "i < bcap t" for i
      using unat_adr [OF pb t that] page_off [OF t that] by (simp add: in_area)
    then show ?thesis using that m'(3) [of x] by (auto simp: h'_def)
  qed
  have iu: "inuse h' q \<longleftrightarrow> q = p \<or> inuse h q" if "q < 256" for q using ws(2) [OF that] by (simp add: h'_def inuse_def)
  have fld: "pagerefs h' = (pagerefs h)[p := r]" "sizebases h' = (sizebases h)[t := Some p]" "allbase h' = Some p"
    "length (pagerefs_inuse h') = 8" "kmem h' = m'" "firstpaddr h' = f" "curspl h' = curspl h" "ram_ok h'"
    using ws(1) A(5) by (simp_all add: h'_def ram_ok_def)
  have rf: "next_samesize r = sizebases h ! t" "next_all r = allbase h" "pageaddr_and_blocktype r = MKPAB a (of_nat t)"
    "nfree r = of_nat (bcap t)" "freelist_offset r = fl_off t (rev [0..<bcap t])"
    using nb by (simp_all add: r_def)
  have a3: "unat a = 0x80000000 + unat (firstpaddr h)" "unat (firstpaddr h') = unat (firstpaddr h) + 4096"
    using A(3,4) by (simp_all add: fld)
  have lk: "linked (kmem h') (adr a t) (rev [0..<bcap t])" using m'(2) by (simp add: fld)
  note I = add_page_inv [OF inv p t fld(1) rf fld(2-4) iu fld(8) a3 lk out]
  show ?thesis using ex I out fld(7) by auto
qed

lemma new_page_cases:
  assumes inv: "heap_inv h ps fl B" and t: "t < 8"
  obtains h' where "new_page t h = Some (None, h')" "heap_inv h' ps fl B" "blocks h' ps fl = blocks h ps fl" "kmem h' = kmem h"
      "curspl h' = curspl h"
  | p h' where "new_page t h = Some (Some p, h')" "heap_inv h' (p # ps) (fl(p := rev [0..<bcap t])) B"
      "blocks h' (p # ps) (fl(p := rev [0..<bcap t])) = blocks h ps fl" "pty h' p = t" "p \<notin> set ps"
      "\<And>x. unat x \<notin> page_area h' p \<Longrightarrow> kmem h' x = kmem h x" "curspl h' = curspl h"
proof -
  have L: "lists_ok h ps" and ram: "ram_ok h" using inv by (simp_all add: heap_inv_def pages_ok_def)
  then have len: "length (pagerefs h) = 256" "length (pagerefs_inuse h) = 8" "length (sizebases h) = 8" by (simp_all add: lists_ok_def)
  consider "allocpageref h = Some (None, h)"
    | p ws where "allocpageref h = Some (Some p, h\<lparr>pagerefs_inuse := ws\<rparr>)" "p < 256" "\<not> inuse h p" "length ws = 8"
      "\<And>q. q < 256 \<Longrightarrow> inuse (h\<lparr>pagerefs_inuse := ws\<rparr>) q \<longleftrightarrow> q = p \<or> inuse h q"
    using allocpageref_cases [OF len(2)] by metis
  then show ?thesis
  proof cases
    case 1
    then show ?thesis using that(1) inv by (simp add: new_page_def)
  next
    case (2 p ws)
    let ?h1 = "h\<lparr>pagerefs_inuse := ws\<rparr>"
    have r1: "ram_ok ?h1" using ram by (simp add: ram_ok_def)
    show ?thesis
    proof (rule alloc_kpages_cases [OF r1, of 1])
      assume a: "alloc_kpages (int 1) ?h1 = (0, ?h1)"
      have i: "inuse ?h1 p" using 2 by simp
      obtain ws' where f: "freepageref p ?h1 = Some (?h1\<lparr>pagerefs_inuse := ws'\<rparr>)" "length ws' = 8"
        "\<And>q. q < 256 \<Longrightarrow> inuse (?h1\<lparr>pagerefs_inuse := ws'\<rparr>) q \<longleftrightarrow> q \<noteq> p \<and> inuse ?h1 q"
        using freepageref_ok [OF _ 2(2) i] 2(4) by auto
      let ?h = "h\<lparr>pagerefs_inuse := ws'\<rparr>"
      have iq: "q < 256 \<and> inuse ?h q \<longleftrightarrow> q < 256 \<and> inuse h q" for q using f(3) 2(3,5) by auto
      have "new_page t h = Some (None, ?h)" using 2(1) a f(1) by (simp add: new_page_def)
      moreover have "heap_inv ?h ps fl B"
      proof -
        have "{q. q < 256 \<and> inuse ?h q} = {q. q < 256 \<and> inuse h q}" using iq by blast
        then have "lists_ok ?h ps" using L f(2) unfolding lists_ok_def pty_def by simp
        moreover have "pages_ok ?h ps fl" using inv unfolding heap_inv_def pages_ok_def page_ok_def pty_def ram_ok_def by simp
        moreover have "bigs_ok ?h ps B" using inv unfolding heap_inv_def bigs_ok_def by simp
        ultimately show ?thesis by (simp add: heap_inv_def)
      qed
      ultimately show ?thesis using that(1) by (simp add: blocks_def page_blocks_def pty_def)
    next
      fix a f
      assume A: "alloc_kpages (int 1) ?h1 = (a, ?h1\<lparr>firstpaddr := f\<rparr>)" "a \<noteq> 0" "unat a = 0x80000000 + unat (firstpaddr ?h1)"
        "unat f = unat (firstpaddr ?h1) + 1 * 4096" "ram_ok (?h1\<lparr>firstpaddr := f\<rparr>)"
      show ?thesis using new_page_fresh [OF inv t 2(2,3,1,4,5) _ A(2)] A that(2) by simp blast
    qed simp
  qed
qed

end
