(* ===== verification/Kern_HeapProps.thy ===== *)
theory Kern_HeapProps
  imports Kern_HeapOps
begin

text \<open>
  The contract of the kernel heap: what \<open>kmalloc\<close> hands out overlaps nothing that is in use, and \<open>kfree\<close>
  gives back just the block at its argument. The contract is the locale \<open>allocator\<close>.
\<close>

section \<open>The contract\<close>

locale allocator =
  fixes malloc :: "32 word \<Rightarrow> 's \<Rightarrow> (32 word \<times> 's) option"
    and free :: "32 word \<Rightarrow> 's \<Rightarrow> 's option"
    and valid :: "'s \<Rightarrow> (nat \<times> nat) set \<Rightarrow> bool"
    and same :: "(nat \<times> nat) set \<Rightarrow> 's \<Rightarrow> 's \<Rightarrow> bool"
    and limit :: nat
  assumes malloc_contract: "valid h A \<Longrightarrow> unat sz \<le> limit \<Longrightarrow> \<exists>a h'. malloc sz h = Some (a, h') \<and> same A h h' \<and>
      (a = 0 \<and> valid h' A \<or>
       a \<noteq> 0 \<and> (\<exists>n. unat sz \<le> n \<and> (\<forall>b \<in> A. area (unat a, n) \<inter> area b = {}) \<and> valid h' (insert (unat a, n) A)))"
    and free_contract: "valid h A \<Longrightarrow> (unat a, n) \<in> A \<Longrightarrow>
      \<exists>h'. free a h = Some h' \<and> same (A - {(unat a, n)}) h h' \<and> valid h' (A - {(unat a, n)})"
    and sizes_positive: "valid h A \<Longrightarrow> b \<in> A \<Longrightarrow> 0 < snd b"
    and same_trans: "same A h h' \<Longrightarrow> same B h' h'' \<Longrightarrow> B \<subseteq> A \<Longrightarrow> same B h h''"
begin

lemma fresh_block:
  assumes "valid h' (insert (unat a, n) A)" "\<forall>b \<in> A. area (unat a, n) \<inter> area b = {}"
  shows "insert (unat a, n) A - {(unat a, n)} = A"
proof -
  have "0 < n" using sizes_positive [OF assms(1)] by fastforce
  then have "(unat a, n) \<notin> A" using assms(2) by (fastforce simp: area_def)
  then show ?thesis by simp
qed

lemma malloc_free:
  assumes "valid h A" "unat sz \<le> limit"
  obtains a h1 where "malloc sz h = Some (a, h1)" "a = 0" "valid h1 A" "same A h h1"
  | a h1 h2 where "malloc sz h = Some (a, h1)" "a \<noteq> 0" "free a h1 = Some h2" "valid h2 A" "same A h h2"
proof -
  obtain a h1 where m: "malloc sz h = Some (a, h1)" "same A h h1" and c: "a = 0 \<and> valid h1 A \<or>
      a \<noteq> 0 \<and> (\<exists>n. unat sz \<le> n \<and> (\<forall>b \<in> A. area (unat a, n) \<inter> area b = {}) \<and> valid h1 (insert (unat a, n) A))"
    using malloc_contract [OF assms] by blast
  show ?thesis
  proof (cases "a = 0")
    case True
    then show ?thesis using that(1) m c by blast
  next
    case False
    then obtain n where n: "\<forall>b \<in> A. area (unat a, n) \<inter> area b = {}" "valid h1 (insert (unat a, n) A)" using c by blast
    note A = fresh_block [OF n(2,1)]
    obtain h2 where "free a h1 = Some h2" "same A h1 h2" "valid h2 A" using free_contract [OF n(2), of a n] unfolding A by blast
    then show ?thesis using that(2) [OF m(1) False] same_trans [OF m(2)] by blast
  qed
qed

end

section \<open>Slots\<close>

text \<open>The block with a given index on a page.\<close>

definition slot :: "kheap \<Rightarrow> nat \<Rightarrow> nat \<Rightarrow> nat \<times> nat" where
  "slot h p i = (unat (paddr h p) + i * bsz (pty h p), bsz (pty h p))"

lemma page_blocks_slot: "page_blocks h p is = slot h p ` ({..<bcap (pty h p)} - set is)"
  by (simp add: page_blocks_def slot_def)

lemma slot_adr:
  assumes "heap_inv h ps fl B" "p \<in> set ps" "i < bcap (pty h p)"
  shows "(unat (adr (paddr h p) (pty h p) i), bsz (pty h p)) = slot h p i"
  using unat_adr [OF inv_page(4,3) [OF assms(1,2)] assms(3)] by (simp add: slot_def)

lemma slot_inside:
  assumes "heap_inv h ps fl B" "p \<in> set ps" "i < bcap (pty h p)"
  shows "area (slot h p i) \<subseteq> page_area h p" "unat (paddr h p) + i * bsz (pty h p) \<in> area (slot h p i)"
  using block_bound [OF inv_page(3) [OF assms(1,2)] assms(3)] bsz_bcap(3) [of "pty h p"] by (auto simp: area_def slot_def)

lemma slot_inj: "slot h p i = slot h p j \<longleftrightarrow> i = j"
  using bsz_bcap(3) [of "pty h p"] by (simp add: slot_def)

lemma slots_apart:
  assumes "i \<noteq> j"
  shows "area (slot h p i) \<inter> area (slot h p j) = {}"
proof -
  have "i * b + b \<le> j * b \<or> j * b + b \<le> i * b" for b :: nat
  proof (cases "i < j")
    case True
    then have "Suc i * b \<le> j * b" by (intro mult_le_mono1) simp
    then show ?thesis by simp
  next
    case False
    then have "Suc j * b \<le> i * b" using assms by (intro mult_le_mono1) simp
    then show ?thesis by simp
  qed
  from this [of "bsz (pty h p)"] show ?thesis by (auto simp: area_def slot_def)
qed

lemma in_blocks:
  assumes "c \<in> blocks h ps fl"
  obtains q j where "q \<in> set ps" "j < bcap (pty h q)" "j \<notin> set (fl q)" "c = slot h q j"
  using assms by (auto simp: blocks_def page_blocks_slot)

lemma slot_apart:
  assumes inv: "heap_inv h ps fl B" and p: "p \<in> set ps" "i < bcap (pty h p)" and c: "c \<in> blocks h ps fl \<union> B" "c \<noteq> slot h p i"
  shows "area (slot h p i) \<inter> area c = {}"
proof (cases "c \<in> B")
  case True
  then have "area c \<inter> page_area h p = {}" using inv p(1) by (simp add: heap_inv_def bigs_ok_def)
  then show ?thesis using slot_inside(1) [OF inv p] by blast
next
  case False
  then obtain q j where q: "q \<in> set ps" "j < bcap (pty h q)" "c = slot h q j" using c(1) in_blocks by (metis UnE)
  show ?thesis
  proof (cases "q = p")
    case True
    then show ?thesis using q(3) c(2) slots_apart [of i j h p] by auto
  next
    case False
    have "page_area h p \<inter> page_area h q = {}" using pages_apart [of h ps fl p q] inv p(1) q(1) False by (simp add: heap_inv_def)
    then show ?thesis using slot_inside(1) [OF inv p] slot_inside(1) [OF inv q(1,2)] q(3) by blast
  qed
qed

lemma slot_free:
  assumes inv: "heap_inv h ps fl B" and p: "p \<in> set ps" "i < bcap (pty h p)" and f: "i \<in> set (fl p)"
  shows "slot h p i \<notin> blocks h ps fl \<union> B"
proof
  assume "slot h p i \<in> blocks h ps fl \<union> B"
  note s = slot_inside [OF inv p]
  consider "slot h p i \<in> B" | q j where "q \<in> set ps" "j < bcap (pty h q)" "j \<notin> set (fl q)" "slot h p i = slot h q j"
    using \<open>slot h p i \<in> _\<close> in_blocks by (metis UnE)
  then show False
  proof cases
    case 1
    then have "area (slot h p i) \<inter> page_area h p = {}" using inv p(1) by (simp add: heap_inv_def bigs_ok_def)
    then show False using s by blast
  next
    case (2 q j)
    show False
    proof (cases "q = p")
      case True
      then show False using 2 f slot_inj [of h p i j] by simp
    next
      case False
      have "page_area h p \<inter> page_area h q = {}" using pages_apart [of h ps fl p q] inv p(1) 2(1) False by (simp add: heap_inv_def)
      then show False using s slot_inside(1) [OF inv 2(1,2)] 2(4) by auto
    qed
  qed
qed

section \<open>\<open>kmalloc\<close>\<close>

lemma heap_spl [simp]: "heap (h\<lparr>curspl := x\<rparr>) A = heap h A"
  by (simp add: heap_def)

lemma same_words_refl: "kmem h' = kmem h \<Longrightarrow> same_words A h h'"
  by (simp add: same_words_def)

lemma same_words_spl [simp]: "same_words A h (h'\<lparr>curspl := x\<rparr>) = same_words A h h'"
    "same_words A (h\<lparr>curspl := x\<rparr>) h' = same_words A h h'"
  by (simp_all add: same_words_def)

text \<open>The outcome of an allocation.\<close>

definition got :: "kheap \<Rightarrow> (nat \<times> nat) set \<Rightarrow> nat \<Rightarrow> 32 word \<Rightarrow> kheap \<Rightarrow> bool" where
  "got h A sz a h' \<longleftrightarrow> same_words A h h' \<and> curspl h' = curspl h \<and> (a = 0 \<and> heap h' A \<or>
     a \<noteq> 0 \<and> (\<exists>n. sz \<le> n \<and> (\<forall>b \<in> A. area (unat a, n) \<inter> area b = {}) \<and> heap h' (insert (unat a, n) A)))"

lemma doalloc_got:
  assumes inv: "heap_inv h ps fl B" and p: "p \<in> set ps" "fl p = i # is" and sz: "sz \<le> bsz (pty h p)"
  shows "\<exists>a h'. doalloc p h = Some (a, h') \<and> got h (blocks h ps fl \<union> B) sz a h'"
proof -
  let ?a = "adr (paddr h p) (pty h p) i" and ?h = "set_page p (fl_off (pty h p) is) (of_nat (length is)) (kmem h) h"
  have i: "i < bcap (pty h p)" using inv_page(2) [OF inv p(1)] p(2) by (auto simp: page_ok_def)
  note I = doalloc_inv [OF inv p(1), of i "is", OF p(2)]
  have s: "(unat ?a, bsz (pty h p)) = slot h p i" by (rule slot_adr [OF inv p(1) i])
  have "\<forall>b \<in> blocks h ps fl \<union> B. area (unat ?a, bsz (pty h p)) \<inter> area b = {}"
    unfolding s using slot_apart [OF inv p(1) i] slot_free [OF inv p(1) i] p(2) by (metis list.set_intros(1))
  moreover have "heap ?h (insert (unat ?a, bsz (pty h p)) (blocks h ps fl \<union> B))" unfolding heap_def using I by blast
  moreover have "?a \<noteq> 0" by (rule adr_nonzero [OF inv_page(4,3) [OF inv p(1)] i])
  moreover have "same_words (blocks h ps fl \<union> B) h ?h" by (rule same_words_refl) simp
  moreover have "curspl ?h = curspl h" by (simp add: set_page_def)
  ultimately have "got h (blocks h ps fl \<union> B) sz ?a ?h" unfolding got_def using sz by blast
  then show ?thesis using doalloc_ok [OF inv p(1), of i "is", OF p(2)] by blast
qed

lemma nfree_iff:
  assumes "heap_inv h ps fl B" "p \<in> set ps"
  shows "0 < nfree (pr h p) \<longleftrightarrow> fl p \<noteq> []"
proof -
  have "unat (nfree (pr h p)) = length (fl p)" using inv_page(2) [OF assms] by (simp add: page_ok_def)
  then show ?thesis by (metis length_greater_0_conv unat_gt_0 word_gt_0)
qed

lemma find_page_inv:
  assumes inv: "heap_inv h ps fl B" and t: "t < 8"
  shows "find_page t (sizebases h ! t) h = Some (find (\<lambda>q. fl q \<noteq> []) (filter (\<lambda>q. pty h q = t) ps))"
proof -
  let ?qs = "filter (\<lambda>q. pty h q = t) ps"
  have c: "chain (\<lambda>q. next_samesize (pr h q)) (sizebases h ! t) ?qs" using inv t by (simp add: heap_inv_def lists_ok_def)
  have "\<forall>q \<in> set ?qs. q < length (pagerefs h) \<and> pty h q = t" using inv_page(1) [OF inv] by auto
  from find_page_find [OF c this] have "find_page t (sizebases h ! t) h = Some (find (\<lambda>q. 0 < nfree (pr h q)) ?qs)" .
  moreover have "find (\<lambda>q. 0 < nfree (pr h q)) ?qs = find (\<lambda>q. fl q \<noteq> []) ?qs"
    by (rule find_cong) (use nfree_iff [OF inv] in auto)
  ultimately show ?thesis by simp
qed

lemma got_step:
  assumes "got h1 A sz a h2" "same_words A h h1" "curspl h1 = curspl h"
  shows "got h A sz a h2"
  using assms by (simp add: got_def same_words_def)

lemma page_words:
  assumes inv: "heap_inv h (p # ps) fl B" and b: "blocks h (p # ps) fl = A" and f: "set (fl p) = {..<bcap (pty h p)}"
    and m: "\<And>x. unat x \<notin> page_area h p \<Longrightarrow> kmem h x = kmem h0 x"
  shows "same_words (A \<union> B) h0 h"
proof -
  have "area c \<inter> page_area h p = {}" if c: "c \<in> A \<union> B" for c
  proof (cases "c \<in> B")
    case True
    then show ?thesis using inv by (simp add: heap_inv_def bigs_ok_def)
  next
    case False
    then obtain q j where q: "q \<in> set (p # ps)" "j < bcap (pty h q)" "j \<notin> set (fl q)" "c = slot h q j"
      using c b in_blocks by (metis UnE)
    then have "q \<noteq> p" using f by auto
    then have "page_area h p \<inter> page_area h q = {}" using pages_apart [of h "p # ps" fl p q] inv q(1) by (simp add: heap_inv_def)
    then show ?thesis using slot_inside(1) [OF inv q(1,2)] q(4) by blast
  qed
  then show ?thesis using m unfolding same_words_def by blast
qed

lemma new_page_got:
  assumes inv: "heap_inv h ps fl B" and t: "t < 8" and sz: "sz \<le> bsz t"
  shows "\<exists>r h1. new_page t h = Some (r, h1) \<and> (case r of None \<Rightarrow> got h (blocks h ps fl \<union> B) sz 0 h1
    | Some p \<Rightarrow> \<exists>a h'. doalloc p h1 = Some (a, h') \<and> got h (blocks h ps fl \<union> B) sz a h')"
proof (rule new_page_cases [OF inv t])
  fix h' assume n: "new_page t h = Some (None, h')" "heap_inv h' ps fl B" "blocks h' ps fl = blocks h ps fl" "kmem h' = kmem h" "curspl h' = curspl h"
  then have "heap h' (blocks h ps fl \<union> B)" unfolding heap_def by metis
  then show ?thesis using n by (simp add: got_def same_words_refl)
next
  fix p h' assume n: "new_page t h = Some (Some p, h')" "heap_inv h' (p # ps) (fl(p := rev [0..<bcap t])) B"
    "blocks h' (p # ps) (fl(p := rev [0..<bcap t])) = blocks h ps fl" "pty h' p = t" "p \<notin> set ps"
    "\<And>x. unat x \<notin> page_area h' p \<Longrightarrow> kmem h' x = kmem h x" "curspl h' = curspl h"
  obtain k where "bcap t = Suc k" using bsz_bcap(4) [of t] by (cases "bcap t") auto
  then have f: "(fl(p := rev [0..<bcap t])) p = k # rev [0..<k]" by simp
  have w: "same_words (blocks h ps fl \<union> B) h h'"
    by (rule page_words [OF n(2,3)]) (use n(4,6) in auto)
  obtain a h2 where "doalloc p h' = Some (a, h2)" "got h' (blocks h ps fl \<union> B) sz a h2"
    using doalloc_got [OF n(2) list.set_intros(1) f, of sz] sz unfolding n(3,4) by blast
  then show ?thesis using got_step [OF _ w n(7)] n(1) by simp
qed

lemma got_spl: "got (h\<lparr>curspl := x\<rparr>) A sz a h' \<Longrightarrow> got h A sz a (h'\<lparr>curspl := curspl h\<rparr>)"
  by (simp add: got_def)

lemma subpage_kmalloc_got:
  assumes H: "heap h A" and sz: "unat sz \<le> 2048"
  shows "\<exists>a h'. subpage_kmalloc sz h = Some (a, h') \<and> got h A (unat sz) a h'"
proof -
  obtain t where t: "blocktype sz = Some t" "t < 8" "unat sz \<le> bsz t" using blocktype_Some [OF sz] by blast
  let ?h = "h\<lparr>curspl := SPL_HIGH\<rparr>"
  obtain ps fl B where inv: "heap_inv ?h ps fl B" and A: "A = blocks ?h ps fl \<union> B" using H by (auto simp: heap_def)
  have len: "length (sizebases h) = 8" using inv by (simp add: heap_inv_def lists_ok_def)
  have fp: "find_page t (sizebases h ! t) ?h = Some (find (\<lambda>q. fl q \<noteq> []) (filter (\<lambda>q. pty ?h q = t) ps))"
    using find_page_inv [OF inv t(2)] by simp
  show ?thesis
  proof (cases "find (\<lambda>q. fl q \<noteq> []) (filter (\<lambda>q. pty ?h q = t) ps)")
    case None
    obtain r h1 where r: "new_page t ?h = Some (r, h1)" "case r of None \<Rightarrow> got ?h A (unat sz) 0 h1
        | Some p \<Rightarrow> \<exists>a h'. doalloc p h1 = Some (a, h') \<and> got ?h A (unat sz) a h'"
      using new_page_got [OF inv t(2,3)] A by blast
    then show ?thesis using fp t None len by (cases r) (auto simp: subpage_kmalloc_def intro: got_spl)
  next
    case (Some p)
    then have p: "p \<in> set ps" "pty ?h p = t" "fl p \<noteq> []" by (auto simp: find_Some_iff dest!: nth_mem)
    then obtain i "is" where "fl p = i # is" by (cases "fl p") auto
    then obtain a h' where "doalloc p ?h = Some (a, h')" "got ?h A (unat sz) a h'"
      using doalloc_got [OF inv p(1)] t(3) p(2) A by blast
    then show ?thesis using fp t Some len by (auto simp: subpage_kmalloc_def intro: got_spl)
  qed
qed

text \<open>A block of whole pages.\<close>

lemma rounded:
  assumes "unat sz \<le> 0x7ffff000"
  shows "unat ((sz + PAGE_SIZE - 1) div PAGE_SIZE) = (unat sz + 4095) div 4096"
proof -
  have "unat (sz + 4095) = unat sz + 4095" using assms by (subst unat_word_ariths) simp
  moreover have "sz + PAGE_SIZE - 1 = sz + 4095" by simp
  ultimately show ?thesis by (simp only: unat_div) simp
qed

lemma bigs_insert:
  assumes inv: "heap_inv h ps fl B" and f: "unat f = unat (firstpaddr h) + n * 4096" and n: "0 < n" and r: "ram_ok (h\<lparr>firstpaddr := f\<rparr>)"
    and a: "unat a = 0x80000000 + unat (firstpaddr h)"
  shows "heap_inv (h\<lparr>firstpaddr := f\<rparr>) ps fl (insert (unat a, n * 4096) B)"
    "\<forall>b \<in> blocks h ps fl \<union> B. area (unat a, n * 4096) \<inter> area b = {}"
proof -
  let ?h = "h\<lparr>firstpaddr := f\<rparr>"
  have Pg: "pages_ok h ps fl" and Bg: "bigs_ok h ps B" using inv by (simp_all add: heap_inv_def)
  have below: "area b \<subseteq> {..<unat a}" if b: "b \<in> blocks h ps fl \<union> B" for b
  proof (cases "b \<in> B")
    case True
    then have "fst b + snd b \<le> unat a" using Bg a by (simp add: bigs_ok_def)
    then show ?thesis by (auto simp: area_def)
  next
    case False
    then obtain q j where q: "q \<in> set ps" "j < bcap (pty h q)" "b = slot h q j" using b in_blocks by (metis UnE)
    have "unat (paddr h q) + 4096 \<le> unat a" using Pg q(1) a by (simp add: pages_ok_def)
    then have "page_area h q \<subseteq> {..<unat a}" by (auto simp: area_def)
    then show ?thesis using slot_inside(1) [OF inv q(1,2)] q(3) by blast
  qed
  then show ap: "\<forall>b \<in> blocks h ps fl \<union> B. area (unat a, n * 4096) \<inter> area b = {}" by (fastforce simp: area_def)
  have "lists_ok ?h ps" using inv by (simp add: heap_inv_def lists_ok_def pty_def inuse_def)
  moreover have "pages_ok ?h ps fl" using Pg f r by (fastforce simp: pages_ok_def page_ok_def pty_def)
  moreover have "bigs_ok ?h ps (insert (unat a, n * 4096) B)"
  proof -
    have d: "4096 dvd unat a" unfolding a using Pg by (intro dvd_add) (simp_all add: pages_ok_def ram_ok_def dvd_eq_mod_eq_0)
    have pg: "area (unat a, n * 4096) \<inter> page_area h q = {}" if "q \<in> set ps" for q
    proof -
      have "unat (paddr h q) + 4096 \<le> unat a" using Pg that a by (simp add: pages_ok_def)
      then show ?thesis by (auto simp: area_def)
    qed
    have o: "\<forall>b \<in> B. 0 < snd b \<and> 4096 dvd fst b \<and> 0x80000000 \<le> fst b \<and> fst b + snd b \<le> 0x80000000 + unat f \<and>
        (\<forall>p \<in> set ps. area b \<inter> page_area h p = {})" using Bg f by (fastforce simp: bigs_ok_def)
    have "\<forall>b \<in> B. \<forall>c \<in> B. b \<noteq> c \<longrightarrow> area b \<inter> area c = {}" using Bg by (simp add: bigs_ok_def)
    moreover have "\<forall>b \<in> B. area (unat a, n * 4096) \<inter> area b = {} \<and> area b \<inter> area (unat a, n * 4096) = {}" using ap by blast
    ultimately show ?thesis using o d pg n a f unfolding bigs_ok_def by simp
  qed
  ultimately show "heap_inv ?h ps fl (insert (unat a, n * 4096) B)" by (simp add: heap_inv_def)
qed

lemma big_kmalloc_got:
  assumes H: "heap h A" and sz: "2048 \<le> unat sz" "unat sz \<le> 0x7ffff000"
  shows "\<exists>a h'. kmalloc sz h = Some (a, h') \<and> got h A (unat sz) a h'"
proof -
  obtain ps fl B where inv: "heap_inv h ps fl B" and A: "A = blocks h ps fl \<union> B" using H by (auto simp: heap_def)
  have ram: "ram_ok h" using inv by (simp add: heap_inv_def pages_ok_def)
  define n where "n = (unat sz + 4095) div 4096"
  have n: "n < 2 ^ 19" "0 < n" "unat sz \<le> n * 4096" using sz by (auto simp: n_def)
  have "uint ((sz + PAGE_SIZE - 1) div PAGE_SIZE) = int n" unfolding n_def using rounded [OF sz(2)] by (metis uint_nat)
  moreover have "2048 \<le> sz" using sz(1) by (simp add: word_le_nat_alt)
  ultimately have k: "kmalloc sz h = Some (alloc_kpages (int n) h)" by (simp add: kmalloc_def Let_def)
  show ?thesis
  proof (rule alloc_kpages_cases [OF ram n(1)])
    assume "alloc_kpages (int n) h = (0, h)"
    then show ?thesis using k H by (simp add: got_def same_words_refl)
  next
    fix a f assume a: "alloc_kpages (int n) h = (a, h\<lparr>firstpaddr := f\<rparr>)" "a \<noteq> 0" "unat a = 0x80000000 + unat (firstpaddr h)"
      "unat f = unat (firstpaddr h) + n * 4096" "ram_ok (h\<lparr>firstpaddr := f\<rparr>)"
    note I = bigs_insert [OF inv a(4) n(2) a(5,3)]
    have "blocks (h\<lparr>firstpaddr := f\<rparr>) ps fl = blocks h ps fl" by (simp add: blocks_def page_blocks_def pty_def)
    then have "heap (h\<lparr>firstpaddr := f\<rparr>) (insert (unat a, n * 4096) A)" unfolding heap_def A using I(1) by (metis Un_insert_right)
    then have "got h A (unat sz) a (h\<lparr>firstpaddr := f\<rparr>)" unfolding got_def using a(2) n(3) I(2) A by (auto simp: same_words_def)
    then show ?thesis using k a(1) by simp
  qed
qed

lemma kmalloc_got:
  assumes "heap h A" "unat sz \<le> 0x7ffff000"
  shows "\<exists>a h'. kmalloc sz h = Some (a, h') \<and> got h A (unat sz) a h'"
proof (cases "2048 \<le> unat sz")
  case True
  then show ?thesis using big_kmalloc_got assms by blast
next
  case False
  then have "kmalloc sz h = subpage_kmalloc sz h" by (simp add: kmalloc_def word_le_nat_alt)
  then show ?thesis using subpage_kmalloc_got [OF assms(1), of sz] False by simp
qed

section \<open>\<open>kfree\<close>\<close>

lemma page_of_inv:
  assumes inv: "heap_inv h ps fl B"
  shows "page_of a (allbase h) h = Some (find (\<lambda>q. unat a \<in> page_area h q) ps)"
proof -
  have c: "chain (\<lambda>q. next_all (pr h q)) (allbase h) ps" using inv by (simp add: heap_inv_def lists_ok_def)
  have "\<forall>q \<in> set ps. q < length (pagerefs h) \<and> pty h q < 8" using inv_page [OF inv] by auto
  note f = page_of_find [OF c this, of a]
  have "(paddr h q \<le> a \<and> a < paddr h q + PAGE_SIZE) = (unat a \<in> page_area h q)" if q: "q \<in> set ps" for q
  proof -
    have "unat (paddr h q) + 4096 \<le> 0x80000000 + unat (firstpaddr h)" "unat (firstpaddr h) \<le> 508 * 1024 * 1024"
      using inv q by (auto simp: heap_inv_def pages_ok_def ram_ok_def)
    then have "unat (paddr h q + PAGE_SIZE) = unat (paddr h q) + 4096" by (subst unat_word_ariths) simp
    then show ?thesis by (simp add: word_le_nat_alt word_less_nat_alt in_area)
  qed
  then have "find (\<lambda>q. paddr h q \<le> a \<and> a < paddr h q + PAGE_SIZE) ps = find (\<lambda>q. unat a \<in> page_area h q) ps"
    by (intro find_cong) auto
  then show ?thesis using f by simp
qed

lemma page_of_slot:
  assumes inv: "heap_inv h ps fl B" and p: "p \<in> set ps" "unat a \<in> page_area h p"
  shows "page_of a (allbase h) h = Some (Some p)"
proof -
  obtain q where q: "find (\<lambda>q. unat a \<in> page_area h q) ps = Some q"
    using p by (cases "find (\<lambda>q. unat a \<in> page_area h q) ps") (auto simp: find_None_iff)
  then have "q \<in> set ps" "unat a \<in> page_area h q" by (auto simp: find_Some_iff)
  then have "q = p" using pages_apart [of h ps fl p q] inv p by (auto simp: heap_inv_def)
  then show ?thesis using q page_of_inv [OF inv] by simp
qed

lemma fill_deadbeef_out: "(\<And>k. k < n \<Longrightarrow> x \<noteq> a + of_nat (4 * k)) \<Longrightarrow> fill_deadbeef n a m x = m x"
  by (induction n) auto

text \<open>The words of a block that is freed.\<close>

lemma freed_words:
  assumes inv: "heap_inv h ps fl B" and p: "p \<in> set ps" "i < bcap (pty h p)"
    and x: "unat x \<notin> area (slot h p i)"
  defines "a \<equiv> adr (paddr h p) (pty h p) i"
  shows "((fill_deadbeef (bsz (pty h p) div 4) a m)(a := nx)) x = m x"
proof -
  note P = inv_page [OF inv p(1)]
  have a: "unat a = unat (paddr h p) + i * bsz (pty h p)" using unat_adr [OF P(4,3) p(2)] by (simp add: a_def)
  have "x \<noteq> a + of_nat (4 * k)" if k: "k < bsz (pty h p) div 4" for k
  proof -
    have k4: "4 * k < bsz (pty h p)" using k by auto
    then have "i * bsz (pty h p) + 4 * k < 4096" using block_bound [OF P(3) p(2)] by linarith
    then have "unat (paddr h p + of_nat (i * bsz (pty h p) + 4 * k)) = unat (paddr h p) + (i * bsz (pty h p) + 4 * k)"
      by (rule unat_off [OF P(4)])
    then have "unat (a + of_nat (4 * k)) = unat (paddr h p) + i * bsz (pty h p) + 4 * k" by (simp add: a_def adr_def add.assoc)
    then show ?thesis using x k4 by (auto simp: area_def slot_def)
  qed
  moreover have "x \<noteq> a" using x a bsz_bcap(3) [of "pty h p"] by (auto simp: area_def slot_def)
  ultimately show ?thesis by (simp add: fill_deadbeef_out)
qed

lemma slot_words:
  assumes "heap_inv h ps fl B" "p \<in> set ps" "i < bcap (pty h p)" "j < bcap (pty h p)" "j \<noteq> i"
  shows "unat (adr (paddr h p) (pty h p) j) \<notin> area (slot h p i)"
proof -
  have "unat (adr (paddr h p) (pty h p) j) \<in> area (slot h p j)"
    using slot_inside(2) [OF assms(1,2,4)] slot_adr [OF assms(1,2,4)] by (simp add: slot_def)
  then show ?thesis using slots_apart [OF assms(5), of h p] by blast
qed

text \<open>The page with the block back on its free list.\<close>

definition put :: "kheap \<Rightarrow> nat \<Rightarrow> nat \<Rightarrow> nat list \<Rightarrow> kheap" where
  "put h p i is = set_page p (of_nat (i * bsz (pty h p))) (nfree (pr h p) + 1)
     ((fill_deadbeef (bsz (pty h p) div 4) (adr (paddr h p) (pty h p) i) (kmem h))
       (adr (paddr h p) (pty h p) i := (case is of [] \<Rightarrow> 0 | j # _ \<Rightarrow> adr (paddr h p) (pty h p) j))) h"

lemma put_inv:
  assumes inv: "heap_inv h ps fl B" and p: "p \<in> set ps" "i < bcap (pty h p)" and f: "i \<notin> set (fl p)"
  defines "h' \<equiv> put h p i (fl p)"
  shows "heap_inv h' ps (fl(p := i # fl p)) B" "blocks h' ps (fl(p := i # fl p)) \<union> B = blocks h ps fl \<union> B - {slot h p i}"
    "same_words (blocks h ps fl \<union> B - {slot h p i}) h h'" "unat (nfree (pr h p) + 1) = Suc (length (fl p))"
    "Suc (length (fl p)) \<le> bcap (pty h p)"
proof -
  let ?t = "pty h p" and ?a = "paddr h p"
  note P = inv_page [OF inv p(1)]
  have ok: "distinct (fl p)" "set (fl p) \<subseteq> {..<bcap ?t}" "unat (nfree (pr h p)) = length (fl p)" "linked (kmem h) (adr ?a ?t) (fl p)"
    using P(2) by (auto simp: page_ok_def)
  have "card (set (i # fl p)) \<le> card {..<bcap ?t}" using ok(2) p(2) by (intro card_mono) auto
  then show l: "Suc (length (fl p)) \<le> bcap ?t" using ok(1) f by (simp add: distinct_card)
  then have "Suc (length (fl p)) < 2 ^ 16" using bsz_bcap(6) [OF P(3)] by simp
  then show n: "unat (nfree (pr h p) + 1) = Suc (length (fl p))" using ok(3) by (subst unat_word_ariths) simp
  have out: "kmem h' x = kmem h x" if "unat x \<notin> area (slot h p i)" for x
    unfolding h'_def put_def using freed_words [OF inv p that] by simp
  have "kmem h' (adr ?a ?t j) = kmem h (adr ?a ?t j)" if "j \<in> set (fl p)" for j
    by (rule out, rule slot_words [OF inv p]) (use that ok(2) f in auto)
  then have "linked (kmem h') (adr ?a ?t) (fl p)" using linked_cong [of "fl p" "kmem h'" "adr ?a ?t"] ok(4) by blast
  moreover have "kmem h' (adr ?a ?t i) = (case fl p of [] \<Rightarrow> 0 | j # _ \<Rightarrow> adr ?a ?t j)" by (simp add: h'_def put_def)
  ultimately have "linked (kmem h') (adr ?a ?t) (i # fl p)" by simp
  then have okp: "page_ok h' p (i # fl p)"
    using P ok p(2) f n by (simp add: page_ok_def h'_def put_def set_page_pr fl_off_def)
  have in_page: "area (slot h p i) \<subseteq> page_area h p" by (rule slot_inside(1) [OF inv p])
  show inv': "heap_inv h' ps (fl(p := i # fl p)) B"
    using okp unfolding h'_def put_def by (rule set_page_inv [OF inv p(1)]) (rule freed_words [OF inv p], use in_page in blast)
  have s: "slot h' p i = slot h p i" "pty h' p = ?t" by (simp_all add: slot_def h'_def put_def)
  have "slot h p i \<notin> blocks h' ps (fl(p := i # fl p)) \<union> B" using slot_free [OF inv' p(1), of i] p(2) s by simp
  moreover have "insert (slot h p i) (page_blocks h p (i # fl p)) = page_blocks h p (fl p)"
    using p(2) f by (auto simp: page_blocks_slot)
  then have "insert (slot h p i) (blocks h' ps (fl(p := i # fl p))) = blocks h ps fl"
    using set_page_blocks [OF p(1)] blocks_split [OF p(1)] unfolding h'_def put_def by (metis Un_insert_right)
  ultimately show "blocks h' ps (fl(p := i # fl p)) \<union> B = blocks h ps fl \<union> B - {slot h p i}" by blast
  show "same_words (blocks h ps fl \<union> B - {slot h p i}) h h'"
    unfolding same_words_def using out slot_apart [OF inv p] by blast
qed

lemma same_words_kmem: "kmem h2 = kmem h1 \<Longrightarrow> same_words A h h2 = same_words A h h1"
  by (simp add: same_words_def)

lemma block_aligned:
  assumes P: "page_ok h p is" and i: "i < bcap (pty h p)"
  defines "a \<equiv> adr (paddr h p) (pty h p) i"
  shows "\<not> (PAGE_SIZE \<le> a - paddr h p \<or> (a - paddr h p) mod (sizes ! pty h p) \<noteq> 0)" "a - paddr h p = of_nat (i * bsz (pty h p))"
    "i * bsz (pty h p) < 4096"
proof -
  have t: "pty h p < 8" using P by (simp add: page_ok_def)
  show o4: "i * bsz (pty h p) < 4096" by (rule page_off [OF t i])
  show off: "a - paddr h p = of_nat (i * bsz (pty h p))" by (simp add: a_def adr_def)
  have u: "unat (of_nat (i * bsz (pty h p)) :: 32 word) = i * bsz (pty h p)" using o4 by (simp add: unat_of_nat del: of_nat_mult)
  have "unat ((a - paddr h p) mod (sizes ! pty h p)) = 0" unfolding off unat_mod u sizes_nth(2) [OF t] by simp
  moreover have "\<not> PAGE_SIZE \<le> (of_nat (i * bsz (pty h p)) :: 32 word)" using o4 u by (simp add: word_le_nat_alt del: of_nat_mult)
  ultimately show "\<not> (PAGE_SIZE \<le> a - paddr h p \<or> (a - paddr h p) mod (sizes ! pty h p) \<noteq> 0)" unfolding off by (simp add: unat_eq_zero)
qed

lemma free_next:
  assumes P: "page_ok h p is"
  shows "(if freelist_offset (pr h p) = INVALID_OFFSET then 0 else paddr h p + ucast (freelist_offset (pr h p)))
      = (case is of [] \<Rightarrow> 0 | j # _ \<Rightarrow> adr (paddr h p) (pty h p) j)"
proof (cases "is")
  case Nil
  then show ?thesis using P by (simp add: page_ok_def fl_off_def)
next
  case (Cons j js)
  then have j: "pty h p < 8" "j < bcap (pty h p)" "freelist_offset (pr h p) = of_nat (j * bsz (pty h p))"
    using P by (auto simp: page_ok_def fl_off_def)
  note j4 = page_off [OF j(1,2)]
  have "unat (of_nat (j * bsz (pty h p)) :: 16 word) = j * bsz (pty h p)" using j4 by (simp add: unat_of_nat del: of_nat_mult)
  then have "freelist_offset (pr h p) \<noteq> 0xffff" using j(3) j4 by (auto simp del: of_nat_mult)
  then show ?thesis using Cons by (simp add: j(3) ucast_off(1) [OF j4] adr_def del: of_nat_mult)
qed

lemma subpage_kfree_eq:
  assumes inv: "heap_inv h ps fl B" and p: "p \<in> set ps" "i < bcap (pty h p)" and f: "i \<notin> set (fl p)"
  defines "h1 \<equiv> put (h\<lparr>curspl := SPL_HIGH\<rparr>) p i (fl p)"
  shows "subpage_kfree (adr (paddr h p) (pty h p) i) h = do {
    h' \<leftarrow> (if Suc (length (fl p)) = bcap (pty h p) then do { h \<leftarrow> remove_lists p (pty h p) h1; freepageref p h } else Some h1);
    Some (True, h'\<lparr>curspl := curspl h\<rparr>) }"
proof -
  let ?h = "h\<lparr>curspl := SPL_HIGH\<rparr>" and ?t = "pty h p" and ?a = "adr (paddr h p) (pty h p) i"
  note P = inv_page [OF inv p(1)]
  note I = put_inv [OF inv p f]
  note al = block_aligned [OF P(2) p(2)]
  have po: "page_of ?a (allbase h) ?h = Some (Some p)" using page_of_slot [of ?h ps fl B p ?a] inv p(1) adr_in_page [OF P(2) p(2)] by simp
  have n: "unat (ucast (nfree (pr h p) + 1) :: 32 word) = Suc (length (fl p))"
    using I(4,5) bsz_bcap(6) [OF P(3)] by (simp add: unsigned_ucast_eq take_bit_eq_mod)
  have c: "ucast (nfree (pr h p) + 1) \<le> PAGE_SIZE div sizes ! ?t"
    "ucast (nfree (pr h p) + 1) = PAGE_SIZE div sizes ! ?t \<longleftrightarrow> Suc (length (fl p)) = bcap ?t"
    using I(5) n page_div(1) [OF P(3)] by (simp_all add: word_le_nat_alt word_unat_eq_iff)
  have up: "upd_pr p (\<lambda>r. r\<lparr>freelist_offset := of_nat (i * bsz ?t), nfree := nfree r + 1\<rparr>) (?h\<lparr>kmem := m\<rparr>)
      = Some (set_page p (of_nat (i * bsz ?t)) (nfree (pr h p) + 1) m ?h)" for m
    using P(1) by (simp add: upd_pr_in set_page_def)
  have bt: "unat (PR_BLOCKTYPE (pr h p)) = ?t" by (simp add: pty_def)
  have pa: "paddr h p + of_nat (i * bsz ?t) = ?a" by (simp add: adr_def)
  have h1: "h1 = set_page p (of_nat (i * bsz ?t)) (nfree (pr h p) + 1)
      ((fill_deadbeef (bsz ?t div 4) ?a (kmem h))(?a := (case fl p of [] \<Rightarrow> 0 | j # _ \<Rightarrow> adr (paddr h p) ?t j))) ?h"
    by (simp add: h1_def put_def pty_def cong: list.case_cong)
  have g: "get_pr p ?h = Some (pr h p)" using P(1) by (simp add: get_pr_in)
  have sz: "unat (sizes ! ?t) = bsz ?t" by (rule sizes_nth(2) [OF P(3)])
  show ?thesis
    using al(1) ucast_off(2) [OF al(3)]
    by (simp add: subpage_kfree_def Let_def po g bt al(2) pa sz free_next [OF P(2)] up c h1 free_kpages_def del: of_nat_mult cong: if_cong)
qed

text \<open>A block of a page goes back, with the page if that was its last block.\<close>

lemma subpage_kfree_slot:
  assumes inv: "heap_inv h ps fl B" and p: "p \<in> set ps" "i < bcap (pty h p)" and f: "i \<notin> set (fl p)"
  defines "A \<equiv> blocks h ps fl \<union> B - {slot h p i}"
  shows "\<exists>h'. subpage_kfree (adr (paddr h p) (pty h p) i) h = Some (True, h') \<and> heap h' A \<and> same_words A h h' \<and> curspl h' = curspl h"
proof -
  let ?h = "h\<lparr>curspl := SPL_HIGH\<rparr>" and ?t = "pty h p"
  let ?h1 = "put ?h p i (fl p)" and ?fl = "fl(p := i # fl p)"
  have inv1: "heap_inv ?h ps fl B" using inv by simp
  have e: "pty ?h p = ?t" "slot ?h p i = slot h p i" by (simp_all add: pty_def slot_def)
  have p1: "i < bcap (pty ?h p)" using p(2) e by simp
  note I = put_inv [OF inv1 p(1) p1 f, unfolded e blocks_spl, folded A_def]
  have w: "same_words A h ?h1" using I(3) by simp
  show ?thesis
  proof (cases "Suc (length (fl p)) = bcap ?t")
    case False
    have "heap ?h1 A" unfolding heap_def using I(1,2) by blast
    then show ?thesis using subpage_kfree_eq [OF inv p f] False w by simp
  next
    case True
    have t: "pty ?h1 p = ?t" using e(1) by (simp add: put_def)
    have "set (i # fl p) = {..<bcap ?t}"
    proof (rule card_subset_eq)
      show "set (i # fl p) \<subseteq> {..<bcap ?t}" using inv_page(2) [OF inv p(1)] p(2) by (auto simp: page_ok_def)
      show "card (set (i # fl p)) = card {..<bcap ?t}"
        using True f inv_page(2) [OF inv p(1)] by (simp add: distinct_card page_ok_def)
    qed simp
    then have full: "set (?fl p) = {..<bcap (pty ?h1 p)}" by (simp add: t)
    obtain h2 h' where d: "remove_lists p ?t ?h1 = Some h2" "freepageref p h2 = Some h'" "heap_inv h' (remove1 p ps) ?fl B"
      "blocks h' (remove1 p ps) ?fl = blocks ?h1 ps ?fl" "kmem h' = kmem ?h1"
      using drop_page [OF I(1) p(1) full] t by metis
    have "heap h' A" unfolding heap_def using d(3,4) I(2) by metis
    moreover have "same_words A h h'" using w same_words_kmem [OF d(5)] by simp
    ultimately show ?thesis using subpage_kfree_eq [OF inv p f] True d(1,2) by simp
  qed
qed

lemma kfree_ok:
  assumes H: "heap h A" and b: "(unat a, n) \<in> A"
  shows "\<exists>h'. kfree a h = Some h' \<and> heap h' (A - {(unat a, n)}) \<and> same_words (A - {(unat a, n)}) h h' \<and> curspl h' = curspl h"
proof -
  obtain ps fl B where inv: "heap_inv h ps fl B" and A: "A = blocks h ps fl \<union> B" using H by (auto simp: heap_def)
  show ?thesis
  proof (cases "(unat a, n) \<in> B")
    case True
    then have B: "4096 dvd unat a" "0 < n" "0x80000000 \<le> unat a" "\<And>p. p \<in> set ps \<Longrightarrow> area (unat a, n) \<inter> page_area h p = {}"
      using inv by (auto simp: heap_inv_def bigs_ok_def)
    have "unat a \<in> area (unat a, n)" using B(2) by (simp add: in_area)
    then have "find (\<lambda>q. unat a \<in> page_area h q) ps = None" using B(4) by (auto simp: find_None_iff)
    then have "page_of a (allbase h) (h\<lparr>curspl := SPL_HIGH\<rparr>) = Some None" using page_of_inv [of "h\<lparr>curspl := SPL_HIGH\<rparr>" ps fl B a] inv by simp
    then have "subpage_kfree a h = Some (False, h)" by (simp add: subpage_kfree_def)
    moreover have "unat (a mod PAGE_SIZE) = 0" unfolding unat_mod using B(1) by simp
    moreover have "a \<noteq> 0" using B(3) by auto
    ultimately have "kfree a h = Some h" by (simp add: kfree_def unat_eq_zero free_kpages_def)
    moreover have "heap h (A - {(unat a, n)})"
    proof -
      have "(unat a, n) \<notin> blocks h ps fl"
      proof
        assume "(unat a, n) \<in> blocks h ps fl"
        then obtain q j where q: "q \<in> set ps" "j < bcap (pty h q)" "(unat a, n) = slot h q j" by (rule in_blocks)
        then show False using slot_inside [OF inv q(1,2)] B(4) [OF q(1)] by auto
      qed
      then have "A - {(unat a, n)} = blocks h ps fl \<union> (B - {(unat a, n)})" unfolding A by blast
      moreover have "heap_inv h ps fl (B - {(unat a, n)})" using inv by (auto simp: heap_inv_def bigs_ok_def)
      ultimately show ?thesis unfolding heap_def by blast
    qed
    ultimately show ?thesis by (simp add: same_words_refl)
  next
    case False
    then obtain p i where p: "p \<in> set ps" "i < bcap (pty h p)" "i \<notin> set (fl p)" "(unat a, n) = slot h p i"
      using b A in_blocks by (metis UnE)
    have a: "a = adr (paddr h p) (pty h p) i" using slot_adr [OF inv p(1,2)] p(4) by (metis prod.inject word_unat_eq_iff)
    have "a \<noteq> 0" using adr_nonzero [OF inv_page(4,3) [OF inv p(1)] p(2)] a by simp
    then show ?thesis using subpage_kfree_slot [OF inv p(1-3)] unfolding A p(4) a [symmetric] by (auto simp: kfree_def)
  qed
qed

lemma heap_size_positive:
  assumes "heap h A" "b \<in> A"
  shows "0 < snd b"
proof -
  obtain ps fl B where inv: "heap_inv h ps fl B" and A: "A = blocks h ps fl \<union> B" using assms(1) by (auto simp: heap_def)
  show ?thesis
  proof (cases "b \<in> B")
    case True
    then show ?thesis using inv by (simp add: heap_inv_def bigs_ok_def)
  next
    case False
    then show ?thesis using assms(2) A in_blocks bsz_bcap(3) by (metis UnE slot_def snd_conv)
  qed
qed

interpretation kh: allocator kmalloc kfree heap same_words "0x7ffff000"
proof
  fix h A and sz :: "32 word"
  assume "heap h A" "unat sz \<le> 0x7ffff000"
  then show "\<exists>a h'. kmalloc sz h = Some (a, h') \<and> same_words A h h' \<and> (a = 0 \<and> heap h' A \<or>
      a \<noteq> 0 \<and> (\<exists>n. unat sz \<le> n \<and> (\<forall>b \<in> A. area (unat a, n) \<inter> area b = {}) \<and> heap h' (insert (unat a, n) A)))"
    using kmalloc_got unfolding got_def by blast
next
  fix h A and a :: "32 word" and n
  assume "heap h A" "(unat a, n) \<in> A"
  then show "\<exists>h'. kfree a h = Some h' \<and> same_words (A - {(unat a, n)}) h h' \<and> heap h' (A - {(unat a, n)})" using kfree_ok by blast
next
  fix h A b
  assume "heap h A" "b \<in> A"
  then show "0 < snd b" by (rule heap_size_positive)
next
  fix A B h h' h''
  assume "same_words A h h'" "same_words B h' h''" "B \<subseteq> A"
  then show "same_words B h h''" unfolding same_words_def by (metis subset_iff)
qed

section \<open>The heap at boot\<close>

text \<open>The static variables of the source are zero when the kernel starts.\<close>

definition boot :: kheap where
  "boot = \<lparr>curspl = 0, firstpaddr = 0x21000, lastpaddr = 0x80000, tlb = [], pmem = (\<lambda>_. 0),
     pagerefs = replicate 256 \<lparr>next_samesize = None, next_all = None, pageaddr_and_blocktype = 0, freelist_offset = 0, nfree = 0\<rparr>,
     pagerefs_inuse = replicate 8 0, sizebases = replicate 8 None, allbase = None, kmem = (\<lambda>_. 0)\<rparr>"

lemma boot_heap: "heap boot {}"
proof -
  have "\<not> inuse boot p" if "p < 256" for p using that by (simp add: inuse_def boot_def)
  then have "lists_ok boot []" by (auto simp: lists_ok_def boot_def)
  moreover have "pages_ok boot [] (\<lambda>_. [])" by (simp add: pages_ok_def ram_ok_def boot_def)
  ultimately have "heap_inv boot [] (\<lambda>_. []) {}" by (simp add: heap_inv_def bigs_ok_def)
  moreover have "blocks boot [] (\<lambda>_. []) = {}" by (simp add: blocks_def)
  ultimately show ?thesis unfolding heap_def by force
qed

lemma boot_kmalloc: "kmalloc 4096 boot = Some (0x80021000, boot\<lparr>firstpaddr := 0x22000\<rparr>)"
  by (simp add: kmalloc_def alloc_kpages_def getppages_eq ram_stealmem_def boot_def Let_def)

lemma boot_block: "\<exists>n. heap (boot\<lparr>firstpaddr := 0x22000\<rparr>) {(0x80021000, n)}"
  using kmalloc_got [OF boot_heap, of 4096] by (auto simp: boot_kmalloc got_def)

section \<open>Properties\<close>

text \<open>
  (C35) \<open>kmalloc\<close> always returns, for sizes up to 2 gigabytes less a page. On a consistent heap it returns
  the null pointer and leaves the allocated blocks as they are, or a block of at least the size that overlaps
  no allocated block. The contents of the allocated blocks and the interrupt level do not change.
\<close>

theorem kmalloc_correct:
  assumes "heap h A" "unat sz \<le> 0x7ffff000"
  shows "\<exists>a h'. kmalloc sz h = Some (a, h') \<and> same_words A h h' \<and> curspl h' = curspl h \<and> (a = 0 \<and> heap h' A \<or>
     a \<noteq> 0 \<and> (\<exists>n. unat sz \<le> n \<and> (\<forall>b \<in> A. area (unat a, n) \<inter> area b = {}) \<and> heap h' (insert (unat a, n) A)))"
  using kmalloc_got [OF assms] unfolding got_def .

theorem kmalloc_correct_witness: "\<exists>a h'. kmalloc 100 boot = Some (a, h') \<and> curspl h' = 0"
  using kmalloc_correct [OF boot_heap, of 100] by (auto simp: boot_def)



text \<open>
  (C37) Allocation and release cancel out: after \<open>kfree\<close> of what \<open>kmalloc\<close> returned, the allocated blocks are
  those of before, with their contents.
\<close>

theorem kmalloc_kfree:
  assumes "heap h A" "unat sz \<le> 0x7ffff000" "kmalloc sz h = Some (a, h1)" "a \<noteq> 0"
  shows "\<exists>h2. kfree a h1 = Some h2 \<and> heap h2 A \<and> same_words A h h2"
  using kh.malloc_free [OF assms(1,2)] assms(3,4) by (metis option.inject prod.inject)

theorem kmalloc_kfree_witness: "\<exists>h2. kfree 0x80021000 (boot\<lparr>firstpaddr := 0x22000\<rparr>) = Some h2 \<and> heap h2 {} \<and> same_words {} boot h2"
  using kmalloc_kfree [OF boot_heap _ boot_kmalloc] by simp

text \<open>
  (C38) The sizes of pages wrap: for a size with which the end of the free memory passes the end of the address
  space, \<open>kmalloc\<close> reports success, and the boundary between memory in use and free memory moves down or stays.
\<close>

theorem kmalloc_wraps:
  assumes "ram_ok h" "2 ^ 32 \<le> unat (firstpaddr h) + unat sz"
  shows "\<exists>h'. kmalloc sz h = Some (firstpaddr h + MIPS_KSEG0, h') \<and> unat (firstpaddr h') \<le> unat (firstpaddr h)"
proof -
  let ?f = "unat (firstpaddr h)" and ?n = "(sz + PAGE_SIZE - 1) div PAGE_SIZE"
  have f: "0 < ?f" "?f \<le> 508 * 1024 * 1024" "?f \<le> unat (lastpaddr h)" "?f mod 4096 = 0" using assms(1) by (simp_all add: ram_ok_def)
  have s: "unat sz < 2 ^ 32" using unsigned_less [of sz] by simp
  have np: "unat ?n = (unat sz + 4095) mod 2 ^ 32 div 4096"
  proof -
    have "sz + PAGE_SIZE - 1 = sz + 4095" by simp
    moreover have "unat (sz + 4095) = (unat sz + 4095) mod 2 ^ 32" by (subst unat_word_ariths) simp
    ultimately show ?thesis by (simp only: unat_div) simp
  qed
  define r where "r = unat (?n * PAGE_SIZE)"
  have r: "r = (unat sz + 4095) mod 2 ^ 32 div 4096 * 4096"
  proof -
    have "(unat sz + 4095) mod 2 ^ 32 div 4096 * 4096 < 2 ^ 32"
      by (meson div_times_less_eq_dividend le_less_trans mod_less_divisor zero_less_numeral zero_less_power)
    moreover have "unat (?n * PAGE_SIZE) = unat ?n * 4096 mod 2 ^ 32" by (subst unat_word_ariths) simp
    ultimately show ?thesis unfolding r_def np by simp
  qed
  have sum: "unat (firstpaddr h + ?n * PAGE_SIZE) \<le> ?f"
  proof (cases "unat sz + 4095 < 2 ^ 32")
    case True
    then have "r = (unat sz + 4095) div 4096 * 4096" using r by simp
    then have b: "unat sz \<le> r" "r < 2 ^ 32"
      using True div_mult_mod_eq [of "unat sz + 4095" 4096] mod_less_divisor [of 4096 "unat sz + 4095"] by linarith+
    have "unat (firstpaddr h + ?n * PAGE_SIZE) = (?f + r) mod 2 ^ 32" unfolding r_def by (subst unat_word_ariths) simp
    moreover have "2 ^ 32 \<le> ?f + r" using b(1) assms(2) by linarith
    ultimately show ?thesis using b(2) f(2) by (simp add: le_mod_geq)
  next
    case False
    then have "(unat sz + 4095) mod 2 ^ 32 = unat sz + 4095 - 2 ^ 32" using s by (simp add: le_mod_geq)
    then have "r = 0" using r s by simp
    then have "?n * PAGE_SIZE = 0" unfolding r_def by (simp add: unat_eq_zero)
    then show ?thesis by simp
  qed
  then have "ram_stealmem ?n h = (firstpaddr h, h\<lparr>firstpaddr := firstpaddr h + ?n * PAGE_SIZE\<rparr>)"
    using f(3) by (simp add: ram_stealmem_def Let_def word_less_nat_alt)
  moreover have "firstpaddr h \<noteq> 0" "LARGEST_SUBPAGE_SIZE \<le> sz" using f(1,2) assms(2) by (auto simp: word_le_nat_alt)
  ultimately have "kmalloc sz h = Some (firstpaddr h + MIPS_KSEG0, h\<lparr>firstpaddr := firstpaddr h + ?n * PAGE_SIZE\<rparr>)"
    by (simp add: kmalloc_def alloc_kpages_def getppages_eq Let_def)
  then show ?thesis using sum by simp
qed

theorem kmalloc_wraps_witness: "\<exists>h'. kmalloc 0xfffff001 boot = Some (0x80021000, h') \<and> unat (firstpaddr h') \<le> 0x21000"
  using kmalloc_wraps [of boot "0xfffff001"] by (simp add: boot_def ram_ok_def)

end
