(* ===== verification/Kern_Syscall.thy ===== *)
theory Kern_Syscall
  imports Kern_Reach Kern_Uio Kern_SfsFormat
begin

text \<open>
  System calls (\<^verbatim>\<open>arch/mips/mips/syscall.c\<close>). A call that cannot block is one function on the state of the
  thread system and the memory of the process. \<open>sys_waitpid\<close> blocks twice: it is the function up to its first
  \<open>P\<close>, the function from there to its second \<open>P\<close>, and the rest. The user writes that \<open>sys_waitpid\<close> makes
  through the pointer \<open>status\<close> are results of these functions.
\<close>

section \<open>Trap frames\<close>

text \<open>The registers that the system calls read or write; all others go along in \<open>tf_rest\<close>.\<close>

record trapframe =
  tf_v0 :: "32 word"
  tf_a0 :: "32 word"
  tf_a1 :: "32 word"
  tf_a2 :: "32 word"
  tf_a3 :: "32 word"
  tf_epc :: "32 word"
  tf_rest :: "32 word list"

datatype syscall =
    SYS_reboot | SYS_write | SYS_read | SYS_fork | SYS_getpid | SYS_waitpid | SYS__exit | SYS_execv | SYS___time | SYS_sbrk

text \<open>The branch that \<open>mips_syscall\<close> takes; \<open>None\<close> is the default with \<open>ENOSYS\<close>.\<close>

definition callno :: "trapframe \<Rightarrow> syscall option" where
  "callno tf = map_of [(8, SYS_reboot), (6, SYS_write), (5, SYS_read), (2, SYS_fork), (11, SYS_getpid), (3, SYS_waitpid),
     (0, SYS__exit), (1, SYS_execv), (28, SYS___time), (10, SYS_sbrk)] (tf_v0 tf)"

text \<open>The end of \<open>mips_syscall\<close>, with the error code or the value that the call returned.\<close>

definition syscall_return :: "errno + 32 word \<Rightarrow> trapframe \<Rightarrow> trapframe" where
  "syscall_return r tf =
     (case r of
        Inl e \<Rightarrow> tf\<lparr>tf_v0 := word_of_int (errno_code e), tf_a3 := 1, tf_epc := tf_epc tf + 4\<rparr>
      | Inr retval \<Rightarrow> tf\<lparr>tf_v0 := retval, tf_a3 := 0, tf_epc := tf_epc tf + 4\<rparr>)"

section \<open>Console\<close>

text \<open>The bytes that \<open>kprintf\<close> prints are the second result.\<close>

definition sys_write ::
    "int \<Rightarrow> 32 word \<Rightarrow> 32 word \<Rightarrow> 'c uctx_scheme \<Rightarrow> kern \<Rightarrow> ((errno + 32 word) \<times> 8 word list \<times> kern) option" where
  "sys_write fd buf nbytes c s =
     (if fd \<noteq> 1 \<and> fd \<noteq> 2 then Some (Inl EBADF, [], s)
      else if buf = 0 then Some (Inl EFAULT, [], s)
      else do {
        let (spl, s) = splhigh s;
        let (a, s) = kmalloc_ask s;
        kassert (a [] \<noteq> None);
        let len = unat (nbytes + 1);
        (r, temp) \<leftarrow> copyin c buf (replicate len 0) len;
        let s = snd (splx spl s);
        Some (case r of
            Inl e \<Rightarrow> (Inl EFAULT, [], s)
          | Inr u \<Rightarrow> (Inr nbytes, takeWhile (\<lambda>b. b \<noteq> 0) (temp[unat nbytes := 0]), s)) })"

text \<open>The loop of \<open>sys_read\<close>; \<open>getch\<close> gives the characters that are typed, in their order.\<close>

primrec read_chars :: "nat \<Rightarrow> (nat \<Rightarrow> 8 word) \<Rightarrow> nat \<Rightarrow> 8 word list" where
  "read_chars 0 getch i = []"
| "read_chars (Suc n) getch i = getch i # (if getch i = 13 then [] else read_chars n getch (Suc i))"

definition sys_read ::
    "int \<Rightarrow> 32 word \<Rightarrow> 32 word \<Rightarrow> (nat \<Rightarrow> 8 word) \<Rightarrow> 'c uctx_scheme \<Rightarrow> kern \<Rightarrow>
      ((errno + 32 word) \<times> 'c uctx_scheme \<times> kern) option" where
  "sys_read fd buf buflen getch c s =
     (if fd \<noteq> 0 then Some (Inl EBADF, c, s)
      else if buf = 0 then Some (Inl EFAULT, c, s)
      else do {
        let (a, s) = kmalloc_ask s;
        kassert (a [] \<noteq> None);
        let temp = read_chars (nat (sint buflen)) getch 0;
        let count = length temp;
        (r, c) \<leftarrow> copyout (temp @ [0]) buf (count + 1) c;
        Some (case r of Inl e \<Rightarrow> (Inl EFAULT, c, s) | Inr u \<Rightarrow> (Inr (of_nat count), c, s)) })"

section \<open>Processes\<close>

text \<open>
  \<open>sys_fork\<close> hands \<open>md_forkentry\<close> the copy of the trap frame and the new address space: the second result
  is the new thread with these two arguments.
\<close>

definition sys_fork ::
    "trapframe \<Rightarrow> kern \<Rightarrow> ((errno + 32 word) \<times> (tid \<times> trapframe \<times> nat) option \<times> kern) option" where
  "sys_fork tf s = do {
     let (spl, s) = splhigh s;
     let (a, s) = kmalloc_ask s;
     if a [] = None then Some (Inl ENOMEM, None, snd (splx spl s))
     else do {
       t \<leftarrow> curthread s;
       x \<leftarrow> threads s t;
       sp \<leftarrow> t_vmspace x;
       old \<leftarrow> spaces s sp;
       let (p, s) = kmalloc_struct s;
       (r, s) \<leftarrow> as_copy (p \<noteq> None) old s;
       (case r of
          Inl e \<Rightarrow> Some (Inl ENOMEM, None, snd (splx spl s))
        | Inr new \<Rightarrow> do {
            i \<leftarrow> p;
            let s = s\<lparr>spaces := (spaces s)(i \<mapsto> new)\<rparr>;
            (r, s) \<leftarrow> thread_fork (t_name x) s;
            (case r of
               Inl e \<Rightarrow> Some (Inl ENOMEM, None, snd (splx spl s))
             | Inr child \<Rightarrow> do {
                 y \<leftarrow> threads s child;
                 Some (Inr (word_of_int (t_pid y)), Some (child, tf, i), snd (splx spl s)) }) }) } }"

text \<open>The entry of the new thread, up to the return to user mode with the trap frame.\<close>

definition md_forkentry :: "trapframe \<Rightarrow> nat \<Rightarrow> kern \<Rightarrow> (trapframe \<times> kern) option" where
  "md_forkentry tf i s = do {
     t \<leftarrow> curthread s;
     s \<leftarrow> upd_thread t (\<lambda>x. x\<lparr>t_vmspace := Some i\<rparr>) s;
     Some (tf\<lparr>tf_v0 := 0, tf_a3 := 0, tf_epc := tf_epc tf + 4\<rparr>, as_activate s) }"

definition sys_getpid :: "kern \<Rightarrow> int option" where
  "sys_getpid s = do { t \<leftarrow> curthread s; x \<leftarrow> threads s t; Some (t_pid x) }"

definition sys__exit :: "int \<Rightarrow> kern \<Rightarrow> kern option" where
  "sys__exit exitcode s = do {
     let (spl, s) = splhigh s;
     pid \<leftarrow> sys_getpid s;
     s \<leftarrow> set_excode pid exitcode s;
     thread_exit s }"

text \<open>The checks of the arguments, in their order.\<close>

definition waitpid_check :: "int \<Rightarrow> 32 word \<Rightarrow> int \<Rightarrow> int \<Rightarrow> errno option" where
  "waitpid_check pid status options me =
     (if pid = - 8 \<or> pid = - 1 \<or> pid = 0 \<or> pid = 34000 then Some EINVAL
      else if status = 0 \<or> status = 0x40000000 \<or> status = 0x80000000 then Some EFAULT
      else if options \<noteq> 0 then Some EINVAL
      else if pid = me then Some EINVAL
      else None)"

text \<open>Up to \<open>P(lock)\<close>; \<open>Inr\<close> if the call gets there.\<close>

definition sys_waitpid :: "int \<Rightarrow> 32 word \<Rightarrow> int \<Rightarrow> kern \<Rightarrow> ((errno + unit) \<times> kern) option" where
  "sys_waitpid pid status options s = do {
     me \<leftarrow> sys_getpid s;
     (case waitpid_check pid status options me of
        Some e \<Rightarrow> Some (Inl e, s)
      | None \<Rightarrow> do {
          l \<leftarrow> lock_sem s;
          s \<leftarrow> sem_P l s;
          Some (Inr (), s) }) }"

text \<open>
  From there on: the call returns with the exit code or an error, or it waits for the semaphore of the
  thread (\<open>Inr None\<close>).
\<close>

definition waitpid_locked :: "int \<Rightarrow> kern \<Rightarrow> ((errno + int option) \<times> kern) option" where
  "waitpid_locked pid s = do {
     has_exited \<leftarrow> get_exited pid s;
     l \<leftarrow> lock_sem s;
     if has_exited = 1 then do {
       c \<leftarrow> get_excode pid s;
       s \<leftarrow> sem_V l s;
       Some (Inr (Some c), s) }
     else if has_exited = 0 then do {
       pid_thread \<leftarrow> find_thread_by_pid pid s;
       s \<leftarrow> sem_V l s;
       t \<leftarrow> pid_thread;
       x \<leftarrow> threads s t;
       w \<leftarrow> t_wait x;
       s \<leftarrow> sem_P w s;
       Some (Inr None, s) }
     else do {
       s \<leftarrow> sem_V l s;
       Some (Inl EINVAL, s) } }"

text \<open>The rest, after \<open>P(pid_thread->wait)\<close>: the exit code.\<close>

definition waitpid_woken :: "int \<Rightarrow> kern \<Rightarrow> (int \<times> kern) option" where
  "waitpid_woken pid s = do {
     c \<leftarrow> get_excode pid s;
     s \<leftarrow> delete_from_plist pid s;
     Some (c, s) }"

text \<open>\<open>secs\<close> and \<open>nsecs\<close> are what \<open>gettime\<close> returns.\<close>

definition sys___time ::
    "32 word \<times> 32 word \<Rightarrow> 32 word \<Rightarrow> 32 word \<Rightarrow> 'c uctx_scheme \<Rightarrow> ((errno + 32 word) \<times> 'c uctx_scheme) option" where
  "sys___time now user_secs user_nsecs c = do {
     let (secs, nsecs) = now;
     (r, c) \<leftarrow> (if user_secs \<noteq> 0 then copyout (be32 secs) user_secs 4 c else Some (Inr (), c));
     (case r of
        Inl e \<Rightarrow> Some (Inl EFAULT, c)
      | Inr u \<Rightarrow> do {
          (r, c) \<leftarrow> copyout (be32 nsecs) user_nsecs 4 c;
          Some (case r of Inl e \<Rightarrow> (Inl EFAULT, c) | Inr u \<Rightarrow> (Inr secs, c)) }) }"

section \<open>The arguments of a program\<close>

text \<open>
  \<open>sys_execv\<close> reads the strings of its caller directly before it copies them; \<open>None\<close> is a fault of the
  kernel in user memory.
\<close>

partial_function (option) ustrlen :: "(32 word \<Rightarrow> 8 word option) \<Rightarrow> 32 word \<Rightarrow> nat \<Rightarrow> nat option" where
  "ustrlen m a n = do { b \<leftarrow> m (a + of_nat n); if b = 0 then Some n else ustrlen m a (n + 1) }"

definition uword :: "(32 word \<Rightarrow> 8 word option) \<Rightarrow> 32 word \<Rightarrow> 32 word option" where
  "uword m a = (let bs = uread 4 m a in if length bs = 4 then Some (un32 bs) else None)"

partial_function (option) count_args :: "(32 word \<Rightarrow> 8 word option) \<Rightarrow> 32 word \<Rightarrow> nat \<Rightarrow> nat option" where
  "count_args m args argc = do {
     p \<leftarrow> uword m (args + of_nat (4 * argc));
     if p = 0 then Some argc else count_args m args (argc + 1) }"

text \<open>One string from user space, in a buffer that it fills.\<close>

definition exec_string :: "32 word \<Rightarrow> nat \<Rightarrow> 'c uctx_scheme \<Rightarrow> kern \<Rightarrow> ((errno + 8 word list) \<times> kern) option" where
  "exec_string p len c s = do {
     let (a, s) = kmalloc_ask s;
     if a [] = None then Some (Inl ENOMEM, s)
     else do {
       (r, buf) \<leftarrow> copyinstr c p (replicate (len + 1) 0) (len + 1);
       Some (case r of Inl e \<Rightarrow> (Inl ENOMEM, s) | Inr n \<Rightarrow> (Inr buf, s)) } }"

definition exec_program :: "32 word \<Rightarrow> 'c uctx_scheme \<Rightarrow> kern \<Rightarrow> ((errno + 8 word list) \<times> kern) option" where
  "exec_program program c s =
     (if program = 0 \<or> program = 0x40000000 \<or> program = 0x80000000 then Some (Inl EFAULT, s)
      else do {
        len \<leftarrow> ustrlen (umem c) program 0;
        if len = 0 then Some (Inl EINVAL, s) else exec_string program len c s })"

text \<open>The loop over the arguments with the given indices.\<close>

primrec exec_strings :: "nat list \<Rightarrow> 32 word \<Rightarrow> 'c uctx_scheme \<Rightarrow> kern \<Rightarrow> ((errno + 8 word list list) \<times> kern) option" where
  "exec_strings [] args c s = Some (Inr [], s)"
| "exec_strings (i # is) args c s = do {
     p \<leftarrow> uword (umem c) (args + of_nat (4 * i));
     if p = 0x40000000 \<or> p = 0x80000000 then Some (Inl EFAULT, s)
     else do {
       len \<leftarrow> ustrlen (umem c) p 0;
       on_ok (exec_string p len c s) (\<lambda>v s. on_ok (exec_strings is args c s) (\<lambda>vs s. Some (Inr (v # vs), s)) id) id } }"

definition exec_args :: "32 word \<Rightarrow> 'c uctx_scheme \<Rightarrow> kern \<Rightarrow> ((errno + 8 word list list) \<times> kern) option" where
  "exec_args args c s =
     (if args = 0x40000000 \<or> args = 0x80000000 \<or> args = 0 then Some (Inl EFAULT, s)
      else do {
        argc \<leftarrow> count_args (umem c) args 0;
        exec_strings [0..<argc] args c s })"

text \<open>
  The way out: the strings, the last first, then the pointers to them. A string \<open>v\<close> is kept with its NUL, so
  that its length is \<open>strlen + 1\<close>.
\<close>

definition block_len :: "8 word list \<Rightarrow> nat" where
  "block_len v = (if length v mod 4 = 0 then length v else length v + (4 - length v mod 4))"

primrec push_strings :: "8 word list list \<Rightarrow> 32 word \<Rightarrow> 'c uctx_scheme \<Rightarrow>
    ((errno + 32 word list) \<times> 32 word \<times> 'c uctx_scheme) option" where
  "push_strings [] sp c = Some (Inr [], sp, c)"
| "push_strings (v # vs) sp c = on_ok (push_strings vs sp c) (\<lambda>ps (sp, c).
     let sp = sp - of_nat (block_len v) in
     on_ok (map_option (\<lambda>(r, c). (r, sp, c)) (copyoutstr v sp (length v) c)) (\<lambda>n (sp, c). Some (Inr (sp # ps), sp, c)) id) id"

primrec push_words :: "32 word list \<Rightarrow> 32 word \<Rightarrow> 'c uctx_scheme \<Rightarrow> ((errno + unit) \<times> 32 word \<times> 'c uctx_scheme) option" where
  "push_words [] sp c = Some (Inr (), sp, c)"
| "push_words (p # ps) sp c = on_ok (push_words ps sp c) (\<lambda>u (sp, c).
     map_option (\<lambda>(r, c). (r, sp - 4, c)) (copyout (be32 p) (sp - 4) 4 c)) id"

definition exec_stack :: "8 word list list \<Rightarrow> 32 word \<Rightarrow> 'c uctx_scheme \<Rightarrow> ((errno + 32 word) \<times> 'c uctx_scheme) option" where
  "exec_stack argv sp c =
     on_ok (push_strings argv sp c) (\<lambda>ps (sp, c).
       on_ok (push_words ps sp c) (\<lambda>u (sp, c). Some (Inr sp, c)) snd) snd"

end
