(* ===== verification/Kern_ExecArgs.thy ===== *)
theory Kern_ExecArgs
  imports Kern_Syscall
begin

text \<open>
  The stack that \<open>sys_execv\<close> builds for a new program holds its arguments: every pointer points to a copy of
  the string with its NUL.
\<close>

section \<open>Changes to a part of user memory\<close>

definition only :: "nat \<Rightarrow> nat \<Rightarrow> (32 word \<Rightarrow> 8 word option) \<Rightarrow> (32 word \<Rightarrow> 8 word option) \<Rightarrow> bool" where
  "only lo hi m m' \<longleftrightarrow> (\<forall>x. m' x = None \<longleftrightarrow> m x = None) \<and> (\<forall>x. unat x < lo \<or> hi \<le> unat x \<longrightarrow> m' x = m x)"

lemma only_refl: "only lo hi m m"
  by (simp add: only_def)

lemma only_trans: "only lo hi m m' \<Longrightarrow> only lo' hi' m' m'' \<Longrightarrow> a \<le> lo \<Longrightarrow> a \<le> lo' \<Longrightarrow> hi \<le> b \<Longrightarrow> hi' \<le> b \<Longrightarrow> only a b m m''"
  by (auto simp: only_def)

lemma only_mapped: "only lo hi m m' \<Longrightarrow> mapped m' a n = mapped m a n"
  by (simp add: only_def mapped_def)

lemma unat_near: "unat a + n \<le> 2 ^ 31 \<Longrightarrow> k \<le> n \<Longrightarrow> unat (a + of_nat k) = unat a + k" for a :: "32 word"
  by (simp add: unat_word_ariths unat_of_nat)

lemma unat_back: "k \<le> unat a \<Longrightarrow> unat (a - of_nat k) = unat a - k" for a :: "32 word"
proof -
  assume k: "k \<le> unat a"
  then have "k < 2 ^ 32" using unat32_less [of a] by simp
  then have u: "unat (of_nat k :: 32 word) = k" by (simp add: unat_of_nat)
  then show ?thesis using k by (simp add: unat_sub word_le_nat_alt)
qed

lemma only_ubytes:
  assumes "only lo hi m m'" "unat a + n \<le> 2 ^ 31" "unat a + n \<le> lo \<or> hi \<le> unat a"
  shows "ubytes m' a n = ubytes m a n"
proof -
  have "m' (a + of_nat k) = m (a + of_nat k)" if "k < n" for k
    using assms(1,3) unat_near [OF assms(2), of k] that by (auto simp: only_def)
  then show ?thesis by (simp add: ubytes_def)
qed

lemma uupd_dom: "uupd bs m a x = None \<longleftrightarrow> m x = None" if "mapped m a (length bs)"
  using that
proof (induction bs arbitrary: m a)
  case (Cons b bs)
  then have "uupd bs (m(a \<mapsto> b)) (a + 1) x = None \<longleftrightarrow> (m(a \<mapsto> b)) x = None"
    by (intro Cons.IH mapped_upd) (simp add: mapped_Suc)
  then show ?case using Cons.prems by (auto simp: mapped_Suc)
qed simp

lemma uupd_only:
  assumes "unat a + length bs \<le> 2 ^ 31" "mapped m a (length bs)"
  shows "only (unat a) (unat a + length bs) m (uupd bs m a)" "ubytes (uupd bs m a) a (length bs) = bs"
proof -
  have "uupd bs m a x = m x" if "unat x < unat a \<or> unat a + length bs \<le> unat x" for x
  proof (rule uupd_frame)
    fix k assume "k < length bs"
    then show "x \<noteq> a + of_nat k" using that unat_near [OF assms(1), of k] by auto
  qed
  then show "only (unat a) (unat a + length bs) m (uupd bs m a)" using uupd_dom [OF assms(2)] by (simp add: only_def)
  show "ubytes (uupd bs m a) a (length bs) = bs"
    using uupd_nth [of _ bs m a] assms(1) by (intro nth_equalityI) (simp_all add: ubytes_def)
qed

section \<open>Strings\<close>

definition cstring :: "8 word list \<Rightarrow> bool" where
  "cstring v \<longleftrightarrow> v \<noteq> [] \<and> last v = 0 \<and> 0 \<notin> set (butlast v)"

abbreviation (input) copystr_u ::
    "8 word list \<Rightarrow> 32 word \<Rightarrow> nat \<Rightarrow> nat \<Rightarrow> nat list \<Rightarrow> 'c uctx_scheme \<Rightarrow> (errno + nat) \<times> 'c uctx_scheme" where
  "copystr_u src a maxlen stoplen is c \<equiv>
     copystr (\<lambda>c i. Some (src ! i))
       (\<lambda>c i b. if umem c (a + of_nat i) = None then None else Some (c\<lparr>umem := (umem c)(a + of_nat i \<mapsto> b)\<rparr>)) maxlen stoplen is c"

lemma copystr_string:
  assumes "cstring (drop i v)" "mapped (umem c) (a + of_nat i) (length v - i)" "i < length v"
  shows "copystr_u v a ml sl [i..<length v] c = (Inr (length v), c\<lparr>umem := uupd (drop i v) (umem c) (a + of_nat i)\<rparr>)"
  using assms
proof (induction "length v - i" arbitrary: i c)
  case (Suc n)
  have u: "[i..<length v] = i # [Suc i..<length v]" using Suc.prems(3) by (simp add: upt_conv_Cons)
  have d: "drop i v = v ! i # drop (Suc i) v" using Suc.prems(3) by (simp add: Cons_nth_drop_Suc)
  have m: "umem c (a + of_nat i) \<noteq> None" using Suc.prems(2,3) by (auto simp: mapped_def dest!: spec [of _ 0])
  show ?case
  proof (cases "Suc i = length v")
    case True
    then have "v ! i = 0" "drop (Suc i) v = []" using Suc.prems(1) d by (simp_all add: cstring_def)
    then show ?thesis using m True by (simp add: u d)
  next
    case False
    then have lt: "Suc i < length v" using Suc.prems(3) by simp
    then have ne: "v ! i \<noteq> 0" "cstring (drop (Suc i) v)" using Suc.prems(1) d by (auto simp: cstring_def)
    let ?c = "c\<lparr>umem := (umem c)(a + of_nat i \<mapsto> v ! i)\<rparr>"
    have "length v - i = Suc (length v - Suc i)" using lt by simp
    then have "mapped (umem c) (a + of_nat (Suc i)) (length v - Suc i)"
      using Suc.prems(2) mapped_Suc [of "umem c" "a + of_nat i"] by (simp add: add_ac)
    then have "mapped (umem ?c) (a + of_nat (Suc i)) (length v - Suc i)" by (simp add: mapped_upd del: of_nat_Suc)
    moreover have "n = length v - Suc i" using Suc.hyps(2) by simp
    ultimately have "copystr_u v a ml sl [Suc i..<length v] ?c =
        (Inr (length v), ?c\<lparr>umem := uupd (drop (Suc i) v) (umem ?c) (a + of_nat (Suc i))\<rparr>)"
      using Suc.hyps(1) [of "Suc i"] ne(2) lt by blast
    then show ?thesis using m ne(1) by (simp add: u d add_ac)
  qed
qed simp

lemma copyoutstr_ok:
  assumes "cstring v" "unat a + length v \<le> 2 ^ 31" "mapped (umem c) a (length v)"
  shows "copyoutstr v a (length v) c = Some (Inr (length v), c\<lparr>umem := uupd v (umem c) a\<rparr>)"
proof -
  have "v \<noteq> []" using assms(1) by (simp add: cstring_def)
  then have "copycheck a (length v) = Inr (length v)" using assms(2) by (intro copycheck_in) simp_all
  then show ?thesis using copystr_string [of 0 v c a] assms \<open>v \<noteq> []\<close> by (simp add: copyoutstr_def)
qed

section \<open>The strings on the stack\<close>

definition blocks_len :: "8 word list list \<Rightarrow> nat" where
  "blocks_len vs = sum_list (map block_len vs)"

lemma block_len: "length v \<le> block_len v"
proof (cases "length v mod 4 = 0")
  case False
  then have "block_len v = length v + (4 - length v mod 4)" by (simp only: block_len_def if_False)
  then show ?thesis by (simp only: le_add1)
qed (simp add: block_len_def)

text \<open>The strings \<open>vs\<close> are at the addresses \<open>ps\<close>, between two bounds.\<close>

definition strings_at :: "(32 word \<Rightarrow> 8 word option) \<Rightarrow> nat \<Rightarrow> nat \<Rightarrow> 32 word list \<Rightarrow> 8 word list list \<Rightarrow> bool" where
  "strings_at m lo hi ps vs \<longleftrightarrow> list_all2 (\<lambda>p v. lo \<le> unat p \<and> unat p + length v \<le> hi \<and> ubytes m p (length v) = v) ps vs"

lemma strings_at_only:
  assumes "strings_at m lo hi ps vs" "only a b m m'" "b \<le> lo" "hi \<le> 2 ^ 31"
  shows "strings_at m' lo hi ps vs"
  using assms(1) unfolding strings_at_def
proof (rule list_all2_mono)
  fix p v assume p: "lo \<le> unat p \<and> unat p + length v \<le> hi \<and> ubytes m p (length v) = v"
  have "unat p + length v \<le> 2 ^ 31" using p assms(4) by linarith
  then have "ubytes m' p (length v) = ubytes m p (length v)" using only_ubytes [OF assms(2)] p assms(3) by simp
  then show "lo \<le> unat p \<and> unat p + length v \<le> hi \<and> ubytes m' p (length v) = v" using p by simp
qed

lemma strings_at_mono: "strings_at m lo hi ps vs \<Longrightarrow> lo' \<le> lo \<Longrightarrow> strings_at m lo' hi ps vs"
  unfolding strings_at_def by (erule list_all2_mono) simp

lemma mapped_back:
  assumes "mapped m (sp - of_nat (b + n)) (b + n)"
  shows "mapped m (sp - of_nat n) n" "mapped m (sp - of_nat n - of_nat b) b"
proof -
  have "sp - of_nat (b + n) + of_nat b = sp - of_nat n" by simp
  then show "mapped m (sp - of_nat n) n" using mapped_add [OF assms] by simp
  have "sp - of_nat n - of_nat b = sp - of_nat (b + n)" by simp
  then show "mapped m (sp - of_nat n - of_nat b) b" using mapped_mono [OF assms, of b] by (simp only: le_add1)
qed

lemma push_strings_ok:
  assumes "\<forall>v \<in> set vs. cstring v" "blocks_len vs \<le> unat sp" "unat sp \<le> 2 ^ 31"
    "mapped (umem c) (sp - of_nat (blocks_len vs)) (blocks_len vs)"
  shows "\<exists>ps m. push_strings vs sp c = Some (Inr ps, sp - of_nat (blocks_len vs), c\<lparr>umem := m\<rparr>) \<and>
    only (unat sp - blocks_len vs) (unat sp) (umem c) m \<and> strings_at m (unat sp - blocks_len vs) (unat sp) ps vs"
  using assms
proof (induction vs)
  case Nil
  then show ?case by (intro exI [of _ "[]"] exI [of _ "umem c"]) (simp add: blocks_len_def only_refl strings_at_def)
next
  case (Cons v vs)
  let ?n = "blocks_len vs" and ?b = "block_len v"
  have n: "blocks_len (v # vs) = ?b + ?n" by (simp add: blocks_len_def)
  have le: "?b + ?n \<le> unat sp" using Cons.prems(2) n by simp
  note mp = mapped_back [OF Cons.prems(4) [unfolded n]]
  have "?n \<le> unat sp" using le by simp
  then obtain ps m where r: "push_strings vs sp c = Some (Inr ps, sp - of_nat ?n, c\<lparr>umem := m\<rparr>)"
    "only (unat sp - ?n) (unat sp) (umem c) m" "strings_at m (unat sp - ?n) (unat sp) ps vs"
    using Cons.IH Cons.prems(1,3) mp(1) by auto
  let ?a = "sp - of_nat ?n - of_nat ?b" and ?m = "uupd v m (sp - of_nat ?n - of_nat ?b)"
  have u1: "unat (sp - of_nat ?n) = unat sp - ?n" using le by (intro unat_back) simp
  then have u: "unat ?a = unat sp - (?b + ?n)" using le unat_back [of ?b "sp - of_nat ?n"] by simp
  have a31: "unat ?a + length v \<le> 2 ^ 31" using u le Cons.prems(3) block_len [of v] by linarith
  have mv: "mapped m ?a (length v)" using mp(2) only_mapped [OF r(2)] mapped_mono block_len by blast
  have "copyoutstr v ?a (length v) (c\<lparr>umem := m\<rparr>) = Some (Inr (length v), c\<lparr>umem := ?m\<rparr>)"
    using copyoutstr_ok [OF _ a31, of "c\<lparr>umem := m\<rparr>"] Cons.prems(1) mv by simp
  then have ex: "push_strings (v # vs) sp c = Some (Inr (?a # ps), sp - of_nat (?b + ?n), c\<lparr>umem := ?m\<rparr>)"
    using r(1) by (simp add: Let_def algebra_simps)
  note o = uupd_only [OF a31 mv]
  have hi: "unat ?a + length v \<le> unat sp - ?n" using u le block_len [of v] by linarith
  have "only (unat sp - (?b + ?n)) (unat sp) (umem c) ?m" by (rule only_trans [OF r(2) o(1)]) (use u hi in linarith)+
  moreover have "strings_at ?m (unat sp - (?b + ?n)) (unat sp) (?a # ps) (v # vs)"
  proof -
    have "strings_at ?m (unat sp - ?n) (unat sp) ps vs" by (rule strings_at_only [OF r(3) o(1) hi Cons.prems(3)])
    then have "strings_at ?m (unat sp - (?b + ?n)) (unat sp) ps vs" by (rule strings_at_mono) simp
    moreover have "unat ?a + length v \<le> unat sp" using hi by linarith
    ultimately show ?thesis using o(2) u unfolding strings_at_def by simp
  qed
  ultimately show ?case using ex n by (intro exI [of _ "?a # ps"] exI [of _ ?m]) simp
qed

section \<open>The pointers on the stack\<close>

lemma push_words_ok:
  assumes "4 * length ps \<le> unat sp" "unat sp \<le> 2 ^ 31" "mapped (umem c) (sp - of_nat (4 * length ps)) (4 * length ps)"
  shows "\<exists>m. push_words ps sp c = Some (Inr (), sp - of_nat (4 * length ps), c\<lparr>umem := m\<rparr>) \<and>
    only (unat sp - 4 * length ps) (unat sp) (umem c) m \<and>
    (\<forall>i < length ps. ubytes m (sp - of_nat (4 * length ps) + of_nat (4 * i)) 4 = be32 (ps ! i))"
  using assms
proof (induction ps)
  case Nil
  then show ?case by (intro exI [of _ "umem c"]) (simp add: only_refl)
next
  case (Cons p ps)
  let ?n = "4 * length ps"
  have n: "4 * length (p # ps) = 4 + ?n" by simp
  have le: "4 + ?n \<le> unat sp" using Cons.prems(1) n by linarith
  note mp = mapped_back [OF Cons.prems(3) [unfolded n]]
  have "?n \<le> unat sp" using le by simp
  then obtain m where r: "push_words ps sp c = Some (Inr (), sp - of_nat ?n, c\<lparr>umem := m\<rparr>)"
    "only (unat sp - ?n) (unat sp) (umem c) m" "\<And>i. i < length ps \<Longrightarrow> ubytes m (sp - of_nat ?n + of_nat (4 * i)) 4 = be32 (ps ! i)"
    using Cons.IH Cons.prems(2) mp(1) by blast
  let ?a = "sp - of_nat ?n - of_nat 4" and ?m = "uupd (be32 p) m (sp - of_nat ?n - of_nat 4)"
  have u1: "unat (sp - of_nat ?n) = unat sp - ?n" using le by (intro unat_back) simp
  have u: "unat ?a = unat sp - (4 + ?n)" using le unat_back [of 4 "sp - of_nat ?n"] u1 by linarith
  have a31: "unat ?a + length (be32 p) \<le> 2 ^ 31" using u le Cons.prems(2) by simp
  have mv: "mapped m ?a (length (be32 p))" using mp(2) only_mapped [OF r(2)] unfolding length_be by blast
  have "copyout (be32 p) ?a 4 (c\<lparr>umem := m\<rparr>) = Some (Inr (), c\<lparr>umem := ?m\<rparr>)"
    using copyout_ok [of ?a 4 "c\<lparr>umem := m\<rparr>" "be32 p"] a31 mv by simp
  then have ex: "push_words (p # ps) sp c = Some (Inr (), ?a, c\<lparr>umem := ?m\<rparr>)" using r(1) by simp
  note o = uupd_only [OF a31 mv, unfolded length_be]
  have hi: "unat ?a + 4 = unat sp - ?n" using u le by linarith
  have "only (unat sp - (4 + ?n)) (unat sp) (umem c) ?m" by (rule only_trans [OF r(2) o(1)]) (use u hi in linarith)+
  moreover have "ubytes ?m (?a + of_nat (4 * i)) 4 = be32 ((p # ps) ! i)" if i: "i < length (p # ps)" for i
  proof (cases i)
    case 0
    then show ?thesis using o(2) by simp
  next
    case (Suc j)
    then have j: "j < length ps" using i by simp
    have e: "?a + of_nat (4 * i) = sp - of_nat ?n + of_nat (4 * j)" by (simp add: Suc)
    have q: "unat (sp - of_nat ?n + of_nat (4 * j)) = unat sp - ?n + 4 * j"
      using j u1 le Cons.prems(2) by (subst unat_near [of _ ?n]) auto
    have "ubytes ?m (sp - of_nat ?n + of_nat (4 * j)) 4 = ubytes m (sp - of_nat ?n + of_nat (4 * j)) 4"
      by (rule only_ubytes [OF o(1)]) (use q hi j le Cons.prems(2) in auto)
    then show ?thesis unfolding e using r(3) [OF j] Suc by simp
  qed
  ultimately show ?case unfolding n using ex by (intro exI [of _ ?m]) (simp add: algebra_simps)
qed

section \<open>The stack of a new program\<close>

text \<open>
  (C23) The arguments of a program that \<open>sys_execv\<close> starts: with room for them below the initial stack pointer
  the copy succeeds, the new stack pointer is the address of an array with one pointer for each
  argument, each of them points to the bytes of the argument with its NUL, above the array, and nothing outside
  this part of the stack is written.
\<close>

theorem exec_stack_correct:
  assumes "\<forall>v \<in> set argv. cstring v" "blocks_len argv + 4 * length argv \<le> unat sp0" "unat sp0 \<le> 2 ^ 31"
    "mapped (umem c) (sp0 - of_nat (4 * length argv + blocks_len argv)) (4 * length argv + blocks_len argv)"
  shows "\<exists>m ps sp. exec_stack argv sp0 c = Some (Inr sp, c\<lparr>umem := m\<rparr>) \<and>
    unat sp = unat sp0 - (4 * length argv + blocks_len argv) \<and> only (unat sp) (unat sp0) (umem c) m \<and>
    strings_at m (unat sp + 4 * length argv) (unat sp0) ps argv \<and>
    (\<forall>i < length argv. ubytes m (sp + of_nat (4 * i)) 4 = be32 (ps ! i))"
proof -
  let ?n = "blocks_len argv" and ?k = "4 * length argv"
  note mp = mapped_back [OF assms(4)]
  have le: "?n \<le> unat sp0" using assms(2) by simp
  obtain ps m where r: "push_strings argv sp0 c = Some (Inr ps, sp0 - of_nat ?n, c\<lparr>umem := m\<rparr>)"
    "only (unat sp0 - ?n) (unat sp0) (umem c) m" "strings_at m (unat sp0 - ?n) (unat sp0) ps argv"
    using push_strings_ok [OF assms(1) le assms(3) mp(1)] by blast
  have l: "length ps = length argv" using r(3) by (simp add: strings_at_def list_all2_lengthD)
  have u1: "unat (sp0 - of_nat ?n) = unat sp0 - ?n" by (rule unat_back [OF le])
  have "4 * length ps \<le> unat (sp0 - of_nat ?n)" "unat (sp0 - of_nat ?n) \<le> 2 ^ 31" using u1 assms(2,3) l by linarith+
  moreover have "mapped (umem (c\<lparr>umem := m\<rparr>)) (sp0 - of_nat ?n - of_nat (4 * length ps)) (4 * length ps)"
    using mp(2) only_mapped [OF r(2)] l by simp
  ultimately obtain m' where w: "push_words ps (sp0 - of_nat ?n) (c\<lparr>umem := m\<rparr>) =
      Some (Inr (), sp0 - of_nat ?n - of_nat ?k, c\<lparr>umem := m'\<rparr>)"
    "only (unat sp0 - ?n - ?k) (unat sp0 - ?n) m m'"
    "\<forall>i < length argv. ubytes m' (sp0 - of_nat ?n - of_nat ?k + of_nat (4 * i)) 4 = be32 (ps ! i)"
    using push_words_ok [of ps "sp0 - of_nat ?n" "c\<lparr>umem := m\<rparr>"] u1 l by auto
  let ?sp = "sp0 - of_nat ?n - of_nat ?k"
  have u: "unat ?sp = unat sp0 - (?k + ?n)" using unat_back [of ?k "sp0 - of_nat ?n"] u1 assms(2) by linarith
  have ex: "exec_stack argv sp0 c = Some (Inr ?sp, c\<lparr>umem := m'\<rparr>)" using r(1) w(1) by (simp add: exec_stack_def)
  have "only (unat ?sp) (unat sp0) (umem c) m'" by (rule only_trans [OF r(2) w(2)]) (use u in linarith)+
  moreover have "strings_at m' (unat ?sp + ?k) (unat sp0) ps argv"
  proof -
    have "unat ?sp + ?k = unat sp0 - ?n" using u assms(2) by linarith
    then show ?thesis using strings_at_only [OF r(3) w(2) order_refl assms(3)] by simp
  qed
  ultimately show ?thesis using ex u w(3) by blast
qed

theorem exec_stack_correct_witness:
  "\<exists>m ps sp. exec_stack [[112, 0], [97, 98, 99, 100, 0]] 0x80000000 \<lparr>cur_space = None, umem = (\<lambda>_. Some 0)\<rparr> =
      Some (Inr sp, \<lparr>cur_space = None, umem = m\<rparr>) \<and> unat sp = 0x80000000 - 20 \<and>
    strings_at m (unat sp + 8) 0x80000000 ps [[112, 0], [97, 98, 99, 100, 0]]"
proof -
  have "\<forall>v \<in> set [[112, 0], [97, 98, 99, 100, 0]]. cstring (v :: 8 word list)" by (simp add: cstring_def)
  moreover have "blocks_len [[112, 0], [97, 98, 99, 100, 0]] = 12" by (simp add: blocks_len_def block_len_def)
  ultimately show ?thesis
    using exec_stack_correct [of "[[112, 0], [97, 98, 99, 100, 0]]" "0x80000000"
      "\<lparr>cur_space = None, umem = (\<lambda>_. Some 0)\<rparr>"] by (force simp: mapped_def)
qed

end
