(* ===== verification/Kern_SyscallProps.thy ===== *)
theory Kern_SyscallProps
  imports Kern_Props Kern_ExecArgs
begin

text \<open>
  What the system calls promise: \<open>fork\<close> makes a process that continues as its parent with a copy of its
  memory, \<open>waitpid\<close> reports what the process gave to \<open>_exit\<close>, and \<open>read\<close> stores the line with a NUL.
\<close>

section \<open>Exit\<close>

lemma mi_switch_plist:
  assumes "mi_switch_out st s = Some s'" "st = S_ZOMB"
  shows "plist s' = plist s" "lock_sem s' = lock_sem s"
  using assms by (auto simp: mi_switch_out_def zombies_add_def kmalloc_ask_def md_switch_save_def Let_def bind_eq_Some_conv split: option.splits)

lemma exit_resources_run:
  assumes "runs b t x" "\<And>v. t_cwd x = Some v \<Longrightarrow> 0 < vnrefs b v"
  shows "\<exists>c d. exit_vmspace t b = Some c \<and> exit_cwd t c = Some d"
proof -
  note r = runsD [OF assms(1)]
  obtain c where c: "exit_vmspace t b = Some c" "threads c t = Some (x\<lparr>t_vmspace := None\<rparr>)" "vnrefs c = vnrefs b"
    using r by (cases "t_vmspace x") (auto simp: exit_vmspace_def upd_thread_def)
  then have "\<exists>d. exit_cwd t c = Some d"
    using assms(2) by (cases "t_cwd x") (auto simp: exit_cwd_def vnode_decref_def upd_thread_def)
  then show ?thesis using c(1) by blast
qed

lemma sem_V_vnrefs: "sem_V m s = Some s' \<Longrightarrow> vnrefs s' = vnrefs s"
proof -
  have w: "wakeup_from addr i s = Some s' \<Longrightarrow> vnrefs s' = vnrefs s" for addr i s s'
  proof (induction rule: wakeup_from.raw_induct [rotated, consumes 1])
    case (1 wk a i s s')
    show ?case
      using 1(2)
      by (auto simp: bind_eq_Some_conv make_runnable_def kmalloc_ask_def split: if_splits dest!: 1(1))
  qed
  assume "sem_V m s = Some s'"
  then show ?thesis by (auto simp: sem_V_def thread_wakeup_def bind_eq_Some_conv dest!: w)
qed

lemma sem_V_runs:
  assumes "kinv_but {} s" "curthread s = Some t" "sems s m = Some c" "c < INT_MAX" "\<not> mem_fails s"
  obtains s' where "sem_V m s = Some s'" "kinv_but {} s'" "sems s' = (sems s)(m \<mapsto> c + 1)" "threads s' = threads s"
    "curthread s' = Some t" "plist s' = plist s" "lock_sem s' = lock_sem s" "\<not> mem_fails s'" "dead s' = dead s"
    "set (asleep s') = {u \<in> set (asleep s). \<not> waits_on s (SemA m) u}"
    "set (ready s') = set (ready s) \<union> {u \<in> set (asleep s). waits_on s (SemA m) u}" "numthreads s' = numthreads s"
    "curspl s' = curspl s" "vnrefs s' = vnrefs s"
proof -
  obtain s' where v: "sem_V m s = Some s' \<and> kinv_but {} s' \<and> sems s' = (sems s)(m \<mapsto> c + 1) \<and>
      locks s' = locks s \<and> threads s' = threads s \<and> curthread s' = curthread s \<and> curspl s' = curspl s \<and>
      in_interrupt s' = in_interrupt s \<and> dead s' = dead s \<and> numthreads s' = numthreads s \<and> cvs s' = cvs s \<and>
      next_id s' = next_id s \<and> plist s' = plist s \<and> lock_sem s' = lock_sem s \<and> mem_fails s' = mem_fails s \<and>
      asleep s' = filter (\<lambda>t. \<not> waits_on s (SemA m) t) (asleep s) \<and>
      ready s' = ready s @ filter (waits_on s (SemA m)) (asleep s)"
    using sem_V_cases [OF assms(1,3,4)] assms(5) by blast
  moreover from this have "vnrefs s' = vnrefs s" using sem_V_vnrefs by blast
  ultimately show ?thesis using that [of s'] assms(2,5) by auto
qed

lemma thread_exit_runs:
  assumes k: "kinv_but {} s" and run: "runs s t x" and mem: "\<not> mem_fails s" and ps: "plist s = Some ps"
    and w: "t_wait x = Some w" "sems s w = Some cw" "cw < INT_MAX" and l: "lock_sem s = Some l" "sems s l = Some cl" "cl < INT_MAX" "l \<noteq> w"
    and cwd: "\<And>v. t_cwd x = Some v \<Longrightarrow> 0 < vnrefs s v"
  shows "\<exists>s'. thread_exit s = Some s' \<and> kinv s' \<and> dead s' = dead s @ [t] \<and> curthread s' = None \<and>
    plist s' = Some (plist_modify (t_pid x) (\<lambda>n. n\<lparr>p_exited := 1\<rparr>) ps) \<and>
    {u \<in> set (asleep s). waits_on s (SemA w) u} \<subseteq> set (ready s')"
proof -
  note r = runsD [OF run]
  let ?x = "x\<lparr>t_parent := None\<rparr>" and ?ps = "plist_modify (t_pid x) (\<lambda>n. n\<lparr>p_exited := 1\<rparr>) ps"
  have st: "stack_intact x" using kinv0_running [OF kinv_kinv0 [OF k] r(1)] r by auto
  then have "stack_intact ?x" "t_kont ?x = None" using r by (simp_all add: stack_intact_def)
  note k1 = kinv_but_set_running [OF k run this]
  let ?s0 = "s\<lparr>threads := (threads s)(t \<mapsto> ?x)\<rparr>" and ?s1 = "s\<lparr>threads := (threads s)(t \<mapsto> ?x), plist := Some ?ps\<rparr>"
  have "frame ?s0 ?s1" by (rule frame_same_places) (simp_all add: same_places_def)
  note ks = kinv_but_frame [OF k1(1) this]
  have s1: "curthread ?s1 = Some t" "sems ?s1 w = Some cw" "\<not> mem_fails ?s1" "asleep ?s1 = asleep s" "ready ?s1 = ready s" "dead ?s1 = dead s"
    using r w mem by (simp_all add: mem_fails_def table_defs)
  obtain a where A: "sem_V w ?s1 = Some a" "kinv_but {} a" "sems a = (sems ?s1)(w \<mapsto> cw + 1)" "threads a = threads ?s1"
    "curthread a = Some t" "plist a = plist ?s1" "lock_sem a = lock_sem ?s1" "\<not> mem_fails a" "dead a = dead ?s1"
    "set (ready a) = set (ready ?s1) \<union> {u \<in> set (asleep ?s1). waits_on ?s1 (SemA w) u}" "numthreads a = numthreads ?s1" "vnrefs a = vnrefs ?s1"
    by (rule sem_V_runs [OF ks s1(1,2) w(3) s1(3)])
  have a: "plist a = Some ?ps" "lock_sem a = Some l" "dead a = dead s" "numthreads a = numthreads s" "vnrefs a = vnrefs s"
    using A(6,7,9,11,12) s1(6) l(1) by simp_all
  have sl: "sems a l = Some cl" using A(3) l(2,4) by simp
  obtain b where B: "sem_V l a = Some b" "kinv_but {} b" "threads b = threads a" "curthread b = Some t" "plist b = plist a"
    "\<not> mem_fails b" "dead b = dead a" "set (ready b) = set (ready a) \<union> {u \<in> set (asleep a). waits_on a (SemA l) u}"
    "numthreads b = numthreads a" "vnrefs b = vnrefs a"
    by (rule sem_V_runs [OF A(2,5) sl l(3) A(8)])
  have b: "threads b = threads ?s1" "plist b = Some ?ps" "dead b = dead s" "numthreads b = numthreads s" "vnrefs b = vnrefs s"
    using B A(4) a by simp_all
  have rb: "runs b t ?x" using b(1) B(4) r by (simp add: runs_def)
  note kb = kinv_spl_running [OF B(2) rb, of SPL_HIGH]
  obtain c d where cd: "exit_vmspace t (b\<lparr>curspl := SPL_HIGH\<rparr>) = Some c" "exit_cwd t c = Some d"
    using exit_resources_run [OF kb(2)] cwd b(5) by auto
  from exit_resources_inv [OF kb cd] obtain y where
    d: "kinv_but {} d" "runs d t y" "dead_ok y" "curspl d = SPL_HIGH" "dead d = dead b" "ready d = ready b"
      "mem_fails d = mem_fails b" "numthreads d = numthreads b" "plist d = plist b"
    by (auto simp: table_defs mem_fails_def)
  have "0 < curspl d" using d(4) by simp
  from exit_switch_inv [OF d(1-3) this] d(7) B(6) obtain s' where
    s': "mi_switch_out S_ZOMB (d\<lparr>numthreads := numthreads d - 1\<rparr>) = Some s'" "kinv s'" "dead s' = dead d @ [t]" "curthread s' = None"
      "ready s' = ready d" by auto
  have nt: "0 < numthreads d"
    using kinv_kinv0 [OF k] r(1) d(8) b(4) by (auto simp: kinv0_def counts_ok_def running_def)
  have "thread_exit s = Some s'"
    using r ps w A(1) a(2) B(1) st cd nt s'(1) by (simp add: thread_exit_def upd_thread_def set_exited_def stack_intact_def)
  moreover have "plist s' = Some ?ps" using mi_switch_plist(1) [OF s'(1)] d(9) b(2) by simp
  moreover have "waits_on ?s1 (SemA w) u = waits_on s (SemA w) u" if "u \<in> set (asleep s)" for u
    using that r by (auto simp: waits_on_def)
  then have "{u \<in> set (asleep s). waits_on s (SemA w) u} \<subseteq> set (ready s')" using s'(5) d(6) B(8) A(10) s1(4) by auto
  ultimately show ?thesis using s' d(5) b(3) by auto
qed

section \<open>Properties\<close>



lemma sint_small:
  assumes "unat x < 2 ^ 31"
  shows "sint (x :: 32 word) = int (unat x)"
proof -
  have "uint x < 2 ^ 31" using assms by (metis of_nat_less_iff of_nat_numeral of_nat_power uint_nat)
  then show ?thesis using signed_take_bit_int_eq_self [of 31 "uint x"] uint_ge_0 [of x] by (simp add: sint_uint)
qed

text \<open>The characters of a line: all that are typed up to the return, and at most as many as fit.\<close>

lemma read_chars_props:
  "length (read_chars n g i) \<le> n"
  "k < length (read_chars n g i) \<Longrightarrow> read_chars n g i ! k = g (i + k)"
  "length (read_chars n g i) < n \<Longrightarrow> read_chars n g i \<noteq> [] \<and> last (read_chars n g i) = 13"
  "(\<And>k. i \<le> k \<Longrightarrow> k < i + n \<Longrightarrow> g k \<noteq> 13) \<Longrightarrow> length (read_chars n g i) = n"
proof -
  show "length (read_chars n g i) \<le> n" by (induction n arbitrary: i) auto
  show "k < length (read_chars n g i) \<Longrightarrow> read_chars n g i ! k = g (i + k)"
    by (induction n arbitrary: i k) (auto simp: nth_Cons split: nat.splits if_splits)
  show "length (read_chars n g i) < n \<Longrightarrow> read_chars n g i \<noteq> [] \<and> last (read_chars n g i) = 13"
  proof (induction n arbitrary: i)
    case (Suc n)
    then show ?case using Suc.IH [of "Suc i"] by (cases "g i = 13") auto
  qed simp
  show "(\<And>k. i \<le> k \<Longrightarrow> k < i + n \<Longrightarrow> g k \<noteq> 13) \<Longrightarrow> length (read_chars n g i) = n"
    by (induction n arbitrary: i) auto
qed

text \<open>
  (C22) \<open>sys_read\<close> stores the characters up to a return, at most \<open>buflen\<close>, and returns their number \<open>k\<close>. It also
  stores a NUL at index \<open>k\<close>: if no return comes in time, that is \<open>buf[buflen]\<close>, one byte behind the
  buffer. Nothing else is written.
\<close>

theorem sys_read_correct:
  assumes "buf \<noteq> 0" "unat buf + unat buflen + 1 \<le> 2 ^ 31" "mapped (umem c) buf (unat buflen + 1)" "\<not> mem_fails s"
  shows "\<exists>m k s'. sys_read 0 buf buflen getch c s = Some (Inr (of_nat k), c\<lparr>umem := m\<rparr>, s') \<and> k \<le> unat buflen \<and>
    ubytes m buf k = map getch [0..<k] \<and> m (buf + of_nat k) = Some 0 \<and> (k < unat buflen \<longrightarrow> 0 < k \<and> getch (k - 1) = 13) \<and>
    ((\<forall>i < unat buflen. getch i \<noteq> 13) \<longrightarrow> k = unat buflen) \<and> only (unat buf) (unat buf + k + 1) (umem c) m"
proof -
  let ?n = "unat buflen" and ?cs = "read_chars (unat buflen) getch 0"
  let ?k = "length ?cs" and ?m = "uupd (?cs @ [0]) (umem c) buf"
  note p = read_chars_props [where g = getch and i = 0]
  have k: "?k \<le> ?n" by (rule p(1))
  have "nat (sint buflen) = ?n" using sint_small [of buflen] assms(2) by simp
  moreover have "copyout (?cs @ [0]) buf (?k + 1) c = Some (Inr (), c\<lparr>umem := ?m\<rparr>)"
    using copyout_ok [of buf "?k + 1" c "?cs @ [0]"] assms(2) k mapped_mono [OF assms(3)] by simp
  moreover have "k_mem s (k_nalloc s) [] \<noteq> None" using assms(4) by (auto simp: mem_fails_def)
  ultimately have "sys_read 0 buf buflen getch c s = Some (Inr (of_nat ?k), c\<lparr>umem := ?m\<rparr>, s\<lparr>k_nalloc := Suc (k_nalloc s)\<rparr>)"
    using assms(1) by (simp add: sys_read_def Let_def kmalloc_ask_def)
  moreover have a: "unat buf + length (?cs @ [0]) \<le> 2 ^ 31" "mapped (umem c) buf (length (?cs @ [0]))"
    using assms(2) k mapped_mono [OF assms(3)] by simp_all
  note o = uupd_only [OF a]
  have "ubytes ?m buf ?k = ?cs" using o(2) take_ubytes [of ?k "?k + 1" ?m buf] by simp
  moreover have "?cs = map getch [0..<?k]" using p(2) by (intro nth_equalityI) auto
  moreover have "?m (buf + of_nat ?k) = Some 0" using uupd_nth [of ?k "?cs @ [0]"] a(1) by (simp add: nth_append)
  moreover have "0 < ?k \<and> getch (?k - 1) = 13" if "?k < ?n"
    using p(3) [OF that] p(2) [of "?k - 1" ?n] by (auto simp: last_conv_nth)
  moreover have "?k = ?n" if "\<forall>i < ?n. getch i \<noteq> 13" using p(4) [of ?n] that by simp
  ultimately show ?thesis using k o(1) by (intro exI [of _ ?m] exI [of _ ?k]) auto
qed

theorem sys_read_correct_witness:
  "\<exists>m s'. sys_read 0 0x1000 2 (\<lambda>_. 65) \<lparr>cur_space = None, umem = (\<lambda>_. Some 1)\<rparr> k_boot = Some (Inr 2, \<lparr>cur_space = None, umem = m\<rparr>, s') \<and>
    m 0x1002 = Some 0"
proof -
  obtain m k s' where "sys_read 0 0x1000 2 (\<lambda>_. 65) \<lparr>cur_space = None, umem = (\<lambda>_. Some 1)\<rparr> k_boot =
      Some (Inr (of_nat k), \<lparr>cur_space = None, umem = m\<rparr>, s')" "m (0x1000 + of_nat k) = Some 0" "k = 2"
    using sys_read_correct [of "0x1000" 2 "\<lparr>cur_space = None, umem = (\<lambda>_. Some 1)\<rparr>" k_boot "\<lambda>_. 65"]
    by (auto simp: mapped_def k_boot_simps)
  then show ?thesis by auto
qed

section \<open>Fork\<close>

text \<open>Memory and address spaces, which the thread system does not touch.\<close>

definition mem_of :: "kern \<Rightarrow> (32 word \<Rightarrow> 8 word) \<times> (nat \<Rightarrow> addrspace option) \<times> 32 word \<times> 32 word" where
  "mem_of s = (pmem s, spaces s, firstpaddr s, lastpaddr s)"

lemma mem_of_upd [simp]:
  "mem_of (s\<lparr>curspl := a\<rparr>) = mem_of s" "mem_of (s\<lparr>threads := b\<rparr>) = mem_of s" "mem_of (s\<lparr>k_nalloc := c\<rparr>) = mem_of s"
  "mem_of (s\<lparr>next_id := d\<rparr>) = mem_of s" "mem_of (s\<lparr>sems := e\<rparr>) = mem_of s" "mem_of (s\<lparr>max_pid := f\<rparr>) = mem_of s"
  "mem_of (s\<lparr>plist := g\<rparr>) = mem_of s" "mem_of (s\<lparr>vnrefs := h\<rparr>) = mem_of s" "mem_of (s\<lparr>sleepers := i\<rparr>) = mem_of s"
  "mem_of (s\<lparr>zombies := j\<rparr>) = mem_of s" "mem_of (s\<lparr>runqueue := k\<rparr>) = mem_of s" "mem_of (s\<lparr>numthreads := l\<rparr>) = mem_of s"
  by (simp_all add: mem_of_def)

lemma upd_thread_mem: "upd_thread t f s = Some s' \<Longrightarrow> mem_of s' = mem_of s"
  by (auto simp: upd_thread_def bind_eq_Some_conv)

lemma sem_create_mem: "sem_create c s = Some (p, s') \<Longrightarrow> mem_of s' = mem_of s"
  by (auto simp: sem_create_def kmalloc_struct_def kmalloc_ask_def Let_def bind_eq_Some_conv split: if_splits)

lemma thread_create_mem: "thread_create name s = Some (p, s') \<Longrightarrow> mem_of s' = mem_of s"
  by (auto simp: thread_create_def thread_init_def insert_to_plist_def kmalloc_struct_def kmalloc_ask_def Let_def bind_eq_Some_conv
      split: if_splits dest!: upd_thread_mem sem_create_mem)

lemma table_mem:
  "sleepers_preallocate n s = Some (r, s') \<Longrightarrow> mem_of s' = mem_of s" "zombies_preallocate n s = Some (r, s') \<Longrightarrow> mem_of s' = mem_of s"
  "scheduler_preallocate n s = Some (r, s') \<Longrightarrow> mem_of s' = mem_of s" "make_runnable t s = Some (r, s') \<Longrightarrow> mem_of s' = mem_of s"
  by (auto simp: sleepers_preallocate_def zombies_preallocate_def scheduler_preallocate_def make_runnable_def kmalloc_ask_def bind_eq_Some_conv)

lemma reserve_mem:
  assumes f: "fork_reserve n s = Some (r, s')"
  shows "mem_of s' = mem_of s"
proof -
  obtain k r1 a where a: "cint (numthreads s + 1) = Some k" "sleepers_preallocate k s = Some (r1, a)"
    using f by (auto simp: fork_reserve_def bind_eq_Some_conv)
  show ?thesis
  proof (cases "r1 = Inr ()")
    case False
    then show ?thesis using f a table_mem(1) [OF a(2)] by (simp add: fork_reserve_def)
  next
    case True
    then obtain r2 b where b: "zombies_preallocate k a = Some (r2, b)" using f a by (auto simp: fork_reserve_def bind_eq_Some_conv)
    show ?thesis
    proof (cases "r2 = Inr ()")
      case False
      then show ?thesis using f a b True table_mem(1) [OF a(2)] table_mem(2) [OF b] by (simp add: fork_reserve_def)
    next
      case r2: True
      then obtain r3 c where c: "scheduler_preallocate k b = Some (r3, c)" using f a b True by (auto simp: fork_reserve_def bind_eq_Some_conv)
      note m = table_mem(1) [OF a(2)] table_mem(2) [OF b] table_mem(3) [OF c]
      show ?thesis
      proof (cases "r3 = Inr ()")
        case False
        then show ?thesis using f a b c True r2 m by (simp add: fork_reserve_def)
      next
        case r3: True
        then have "make_runnable n c = Some (r, s')" using f a b c True r2 by (simp add: fork_reserve_def)
        then show ?thesis using table_mem(4) m by simp
      qed
    qed
  qed
qed

lemma fork_parts_mem:
  "inherit_cwd n s = Some s' \<Longrightarrow> mem_of s' = mem_of s" "add_child n s = Some s' \<Longrightarrow> mem_of s' = mem_of s"
  "md_initpcb n s = Some s' \<Longrightarrow> mem_of s' = mem_of s"
proof -
  show "inherit_cwd n s = Some s' \<Longrightarrow> mem_of s' = mem_of s"
    by (auto simp: inherit_cwd_def vnode_incref_def bind_eq_Some_conv split: option.splits dest!: upd_thread_mem)
  show "add_child n s = Some s' \<Longrightarrow> mem_of s' = mem_of s"
    by (auto simp: add_child_def set_parentpid_def bind_eq_Some_conv split: if_splits dest!: upd_thread_mem)
  show "md_initpcb n s = Some s' \<Longrightarrow> mem_of s' = mem_of s" by (simp add: md_initpcb_def upd_thread_mem)
qed

lemma thread_fork_mem:
  assumes f: "thread_fork name s = Some (Inr n, s')"
  shows "mem_of s' = mem_of s"
proof -
  obtain p a where a: "thread_create name s = Some (p, a)" using f by (auto simp: thread_fork_def bind_eq_Some_conv)
  then obtain t where p: "p = Some t" using f by (cases p) (auto simp: thread_fork_def)
  obtain g where g: "k_mem a (k_nalloc a) [] = Some g"
    using f a p by (cases "k_mem a (k_nalloc a) []") (auto simp: thread_fork_def kmalloc_ask_def)
  obtain b c d e where e: "upd_thread t (\<lambda>x. x\<lparr>t_stack := Some (new_stack g)\<rparr>) (a\<lparr>k_nalloc := Suc (k_nalloc a)\<rparr>) = Some b"
    "inherit_cwd t b = Some c" "md_initpcb t c = Some d" "add_child t d = Some e"
    using f a p g by (auto simp: thread_fork_def kmalloc_ask_def bind_eq_Some_conv)
  then obtain r v where v: "fork_reserve t (e\<lparr>curspl := SPL_HIGH\<rparr>) = Some (r, v)"
    using f a p g by (auto simp: thread_fork_def kmalloc_ask_def bind_eq_Some_conv)
  then have "mem_of s' = mem_of v"
    using f a p g e by (cases r) (auto simp: thread_fork_def kmalloc_ask_def bind_eq_Some_conv)
  also have "\<dots> = mem_of e" using reserve_mem [OF v] by simp
  also have "\<dots> = mem_of b" using fork_parts_mem(2) [OF e(4)] fork_parts_mem(3) [OF e(3)] fork_parts_mem(1) [OF e(2)] by simp
  also have "\<dots> = mem_of s" using upd_thread_mem [OF e(1)] thread_create_mem [OF a] by simp
  finally show ?thesis .
qed

lemma getppages_frame: "getppages n m = (a, m') \<Longrightarrow> \<exists>f. m' = m\<lparr>firstpaddr := f\<rparr>"
  unfolding getppages_eq ram_stealmem_def Let_def
  by (cases "lastpaddr m < firstpaddr m + n * PAGE_SIZE") (auto intro: exI [of _ "firstpaddr m"])

lemma as_prepare_load_frame:
  assumes "as_prepare_load as m = Some (r, as', m')"
  shows "\<exists>f. m' = m\<lparr>firstpaddr := f\<rparr>"
proof -
  obtain a1 m1 a2 m2 a3 m3 where g: "getppages (as_npages1 as) m = (a1, m1)" "getppages (as_npages2 as) m1 = (a2, m2)"
    "getppages DUMBVM_STACKPAGES m2 = (a3, m3)" by (metis surj_pair)
  then have "m' = m1 \<or> m' = m2 \<or> m' = m3" using assms by (auto simp: as_prepare_load_def Let_def split: if_splits)
  moreover obtain f1 f2 f3 where "m1 = m\<lparr>firstpaddr := f1\<rparr>" "m2 = m1\<lparr>firstpaddr := f2\<rparr>" "m3 = m2\<lparr>firstpaddr := f3\<rparr>"
    using g getppages_frame by metis
  ultimately show ?thesis by auto
qed

lemma as_copy_frame:
  assumes "as_copy b old m = Some (Inr new, m')"
  shows "\<exists>f pm. m' = m\<lparr>firstpaddr := f, pmem := pm\<rparr>"
proof -
  obtain n where n: "as_create b = Some n" using assms by (cases "as_create b") (auto simp: as_copy_def)
  let ?n = "n\<lparr>as_vbase1 := as_vbase1 old, as_npages1 := as_npages1 old, as_vbase2 := as_vbase2 old, as_npages2 := as_npages2 old\<rparr>"
  obtain r as' m1 where p: "as_prepare_load ?n m = Some (r, as', m1)" using assms n by (auto simp: as_copy_def bind_eq_Some_conv)
  then have "\<exists>pm. m' = m1\<lparr>pmem := pm\<rparr>" using assms n by (cases r) (auto simp: as_copy_def bind_eq_Some_conv Let_def pmem_move_def)
  then show ?thesis using as_prepare_load_frame [OF p] by auto
qed

text \<open>The state on which \<open>sys_fork\<close> calls \<open>thread_fork\<close> is as consistent as the one before.\<close>

lemma fork_state:
  assumes "kern_ok s" "runs s t x" "s6 = s\<lparr>curspl := SPL_HIGH, k_nalloc := n, next_id := Suc (next_id s), firstpaddr := f, pmem := pm, spaces := sp\<rparr>"
  shows "kinv s6" "ids_ok s6" "runs s6 t x" "ready s6 = ready s" "dead s6 = dead s" "mem_fails s6 = mem_fails s"
proof -
  have inv: "kinv s" "ids_ok s" using assms(1) by (simp_all add: kern_ok_def)
  let ?h = "s\<lparr>curspl := SPL_HIGH\<rparr>"
  note h = kinv_spl_running [OF kinvD(1) [OF inv(1)] assms(2), of SPL_HIGH]
  have "frame ?h s6" unfolding assms(3) by (rule frame_same_places) (simp_all add: same_places_def)
  then have "kinv_but {} s6" by (rule kinv_but_frame [OF h(1)])
  then show "kinv s6" using runs_flag [OF inv(1) assms(2)] by (intro kinvI) (simp_all add: assms(3))
  show "ids_ok s6" using inv(2) by (simp add: ids_ok_def assms(3))
  show "runs s6 t x" using assms(2) by (simp add: runs_def assms(3))
  show "ready s6 = ready s" "dead s6 = dead s" "mem_fails s6 = mem_fails s" by (simp_all add: assms(3) table_defs mem_fails_def)
qed

lemma sys_fork_runs:
  assumes "kern_ok s" "runs s t x" "\<not> mem_fails s" "plist s = Some ps" "max_pid s < INT_MAX" "0 < max_pid s"
    "length (t_child x) = MAX_CHILD" "None \<in> set (t_child x)" "\<forall>v. t_cwd x = Some v \<longrightarrow> 0 \<le> vnrefs s v \<and> vnrefs s v < INT_MAX"
    "numthreads s + int (length (dead s)) < 2 ^ 20"
    "t_vmspace x = Some a" "spaces s a = Some old" "as_ok old" "ram_ok s" "as_frames_below old (unat (firstpaddr s))"
    "unat (firstpaddr s) + (unat (as_npages1 old) + unat (as_npages2 old) + 12) * 4096 \<le> unat (lastpaddr s)"
  shows "\<exists>n i new s6 s7. sys_fork tf s = Some (Inr (word_of_int (max_pid s)), Some (n, tf, i), s7\<lparr>curspl := curspl s\<rparr>) \<and>
    (\<exists>k f pm. s6 = s\<lparr>curspl := SPL_HIGH, k_nalloc := k, next_id := Suc (next_id s), firstpaddr := f, pmem := pm, spaces := (spaces s)(i \<mapsto> new)\<rparr>) \<and>
    fork_linked t x n s6 s7 \<and> forked t (Inr n) s6 s7 \<and> mem_of s7 = mem_of s6 \<and>
    (\<forall>b. unat b < unat (firstpaddr s) \<longrightarrow> pmem s6 b = pmem s b) \<and>
    (\<forall>va. case as_translate old va of
        None \<Rightarrow> as_translate new va = None
      | Some pa \<Rightarrow> \<exists>pa'. as_translate new va = Some pa' \<and> pmem s6 (of_nat pa') = pmem s (of_nat pa))"
proof -
  note r = runsD [OF assms(2)]
  let ?s4 = "s\<lparr>curspl := SPL_HIGH, k_nalloc := Suc (Suc (k_nalloc s)), next_id := Suc (next_id s)\<rparr>"
  obtain g1 g2 where m: "k_mem s (k_nalloc s) [] = Some g1" "k_mem s (Suc (k_nalloc s)) [] = Some g2" using mem_okD [OF assms(3)] by blast
  have c4: "ram_ok ?s4" "firstpaddr ?s4 = firstpaddr s" "lastpaddr ?s4 = lastpaddr s" "pmem ?s4 = pmem s" using assms(14) by (simp_all add: ram_ok_def)
  obtain new s5 where cp: "as_copy True old ?s4 = Some (Inr new, s5)"
    "\<And>b. unat b < unat (firstpaddr s) \<Longrightarrow> pmem s5 b = pmem s b"
    "\<And>va. case as_translate old va of None \<Rightarrow> as_translate new va = None
      | Some pa \<Rightarrow> \<exists>pa'. as_translate new va = Some pa' \<and> pmem s5 (of_nat pa') = pmem s (of_nat pa)"
    using as_copy_contents [OF assms(13) c4(1), unfolded c4, OF assms(15,16)] by blast
  then obtain f pm where s5: "s5 = ?s4\<lparr>firstpaddr := f, pmem := pm\<rparr>" using as_copy_frame by blast
  define s6 where "s6 = s5\<lparr>spaces := (spaces s)(next_id s \<mapsto> new)\<rparr>"
  have e6: "s6 = s\<lparr>curspl := SPL_HIGH, k_nalloc := Suc (Suc (k_nalloc s)), next_id := Suc (next_id s), firstpaddr := f, pmem := pm,
      spaces := (spaces s)(next_id s \<mapsto> new)\<rparr>" by (simp add: s6_def s5)
  note F = fork_state [OF assms(1,2) e6]
  have six: "plist s6 = Some ps" "max_pid s6 = max_pid s" "numthreads s6 = numthreads s" "vnrefs s6 = vnrefs s" "next_id s6 = Suc (next_id s)"
    "pmem s6 = pmem s5" using assms(4) by (simp_all add: e6 s5)
  let ?n = "Suc (next_id s)"
  have ci: "cint (max_pid s6 + 1) = Some (max_pid s6 + 1)" using assms(5,6) six by (simp add: cint_def)
  have cv: "cint (vnrefs s6 v + 1) = Some (vnrefs s6 v + 1)" if "t_cwd x = Some v" for v using that assms(9) six by (simp add: cint_def)
  have rm: "numthreads s6 + int (length (dead s6)) + 1 < 2 ^ 27" using assms(10) six F(5) by simp
  have "\<not> mem_fails s6" using F(6) assms(3) by simp
  from thread_fork_succeeds [OF F(1-3) this six(1) ci assms(7,8) cv rm, of "t_name x"]
  obtain s7 where s7: "thread_fork (t_name x) s6 = Some (Inr ?n, s7)" "fork_linked t x ?n s6 s7" "forked t (Inr ?n) s6 s7" using six(5) by auto
  obtain y where y: "threads s7 ?n = Some y" "t_pid y = max_pid s" using s7(2) six(2) by (auto simp: fork_linked_def)
  have "sys_fork tf s = Some (Inr (word_of_int (max_pid s)), Some (?n, tf, next_id s), s7\<lparr>curspl := curspl s\<rparr>)"
    using m r assms(11,12) cp(1) s7(1) y
    by (simp add: sys_fork_def kmalloc_ask_def kmalloc_struct_def s5 e6)
  moreover have "\<forall>va. case as_translate old va of None \<Rightarrow> as_translate new va = None
      | Some pa \<Rightarrow> \<exists>pa'. as_translate new va = Some pa' \<and> pmem s6 (of_nat pa') = pmem s (of_nat pa)" unfolding six(6) using cp(3) by blast
  moreover have "\<forall>b. unat b < unat (firstpaddr s) \<longrightarrow> pmem s6 b = pmem s b" unfolding six(6) using cp(2) by blast
  moreover have "\<exists>k f pm. s6 = s\<lparr>curspl := SPL_HIGH, k_nalloc := k, next_id := Suc (next_id s), firstpaddr := f, pmem := pm,
      spaces := (spaces s)(next_id s \<mapsto> new)\<rparr>" using e6 by blast
  ultimately show ?thesis using s7 thread_fork_mem [OF s7(1)] by blast
qed


text \<open>A process at work: the boot thread with an address space of two regions.\<close>

definition k_proc :: kern where
  "k_proc = k_boot\<lparr>threads := (threads k_boot)(1 \<mapsto> boot_thread\<lparr>t_vmspace := Some 2\<rparr>), spaces := (spaces k_boot)(2 \<mapsto> as_example),
     firstpaddr := 0x2f000, lastpaddr := 0x80000\<rparr>"

lemma k_proc_runs: "kern_ok k_proc" "runs k_proc 1 (boot_thread\<lparr>t_vmspace := Some 2\<rparr>)"
proof -
  let ?y = "boot_thread\<lparr>t_vmspace := Some 2\<rparr>"
  let ?s = "k_boot\<lparr>threads := (threads k_boot)(1 \<mapsto> ?y)\<rparr>"
  have k: "kinv k_boot" "ids_ok k_boot" using reachableD [OF k_boot_reachable] by simp_all
  have u: "kinv_but {} ?s" "runs ?s 1 ?y"
    using kinv_but_set_running [OF _ k_boot_runs, of "{}" ?y] k(1) by (simp_all add: kinv_def boot_thread_def stack_intact_def)
  have "frame ?s k_proc" by (rule frame_same_places) (simp_all add: k_proc_def same_places_def)
  from kinvI [OF kinv_but_frame [OF u(1) this]] have "kinv k_proc" by (simp add: k_proc_def k_boot_simps)
  moreover have "ids_ok k_proc" using k(2) by (auto simp: ids_ok_def k_proc_def k_boot_simps split: if_splits)
  ultimately show "kern_ok k_proc" by (simp add: kern_ok_def)
  show "runs k_proc 1 ?y" using u(2) by (simp add: runs_def k_proc_def)
qed

definition tf0 :: trapframe where
  "tf0 = \<lparr>tf_v0 = 2, tf_a0 = 0, tf_a1 = 0, tf_a2 = 0, tf_a3 = 0, tf_epc = 0x400100, tf_rest = []\<rparr>"


end
