(* ===== verification/Kern_Census.thy ===== *)
theory Kern_Census
  imports Kern_Props
begin

text \<open>
  No thread gets lost: every thread that exists is running, in the run queue, asleep or a zombie. The invariant of the
  kernel says that the threads in these four places exist and are distinct; here the structures are counted. Most
  steps change neither their number nor \<open>numthreads\<close>, and creation, exit and the disposal of
  zombies change both sides alike.
\<close>

section \<open>Steps that create and destroy nothing\<close>

definition settled :: "kern \<Rightarrow> kern \<Rightarrow> bool" where
  "settled s s' \<longleftrightarrow> dom (threads s') = dom (threads s) \<and> numthreads s' = numthreads s \<and> dead s' = dead s"

lemma settled_refl [simp]: "settled s s" by (simp add: settled_def)

lemma settled_trans: "settled a b \<Longrightarrow> settled b c \<Longrightarrow> settled a c" by (simp add: settled_def)

lemma settled_upd [simp]:
  "settled s (s'\<lparr>curspl := a\<rparr>) = settled s s'" "settled (s\<lparr>curspl := a\<rparr>) s' = settled s s'"
  "settled s (s'\<lparr>sleepers := b\<rparr>) = settled s s'" "settled (s\<lparr>sleepers := b\<rparr>) s' = settled s s'"
  "settled s (s'\<lparr>runqueue := c\<rparr>) = settled s s'" "settled (s\<lparr>runqueue := c\<rparr>) s' = settled s s'"
  "settled s (s'\<lparr>k_nalloc := n\<rparr>) = settled s s'" "settled (s\<lparr>k_nalloc := n\<rparr>) s' = settled s s'"
  "settled s (s'\<lparr>next_id := n\<rparr>) = settled s s'" "settled (s\<lparr>next_id := n\<rparr>) s' = settled s s'"
  "settled s (s'\<lparr>curthread := t\<rparr>) = settled s s'" "settled (s\<lparr>curthread := t\<rparr>) s' = settled s s'"
  "settled s (s'\<lparr>in_interrupt := i\<rparr>) = settled s s'" "settled (s\<lparr>in_interrupt := i\<rparr>) s' = settled s s'"
  "settled s (s'\<lparr>lbolt_counter := i\<rparr>) = settled s s'" "settled (s\<lparr>lbolt_counter := i\<rparr>) s' = settled s s'"
  "settled s (s'\<lparr>locks := lk\<rparr>) = settled s s'" "settled (s\<lparr>locks := lk\<rparr>) s' = settled s s'"
  "settled s (s'\<lparr>cvs := cs\<rparr>) = settled s s'" "settled (s\<lparr>cvs := cs\<rparr>) s' = settled s s'"
  "settled s (s'\<lparr>sems := sm\<rparr>) = settled s s'" "settled (s\<lparr>sems := sm\<rparr>) s' = settled s s'"
  "settled s (s'\<lparr>plist := pl\<rparr>) = settled s s'" "settled (s\<lparr>plist := pl\<rparr>) s' = settled s s'"
  "settled s (s'\<lparr>vnrefs := vr\<rparr>) = settled s s'" "settled (s\<lparr>vnrefs := vr\<rparr>) s' = settled s s'"
  "settled s (s'\<lparr>spaces := sp\<rparr>) = settled s s'" "settled (s\<lparr>spaces := sp\<rparr>) s' = settled s s'"
  "settled s (s'\<lparr>tlb := tb\<rparr>) = settled s s'" "settled (s\<lparr>tlb := tb\<rparr>) s' = settled s s'"
  by (simp_all add: settled_def dead_def)

lemma settled_thread: "upd_thread t f s = Some s' \<Longrightarrow> settled s s'"
  by (auto simp: upd_thread_def bind_eq_Some_conv settled_def dead_def split: if_splits)

lemma make_runnable_settled: "make_runnable t s = Some (r, s') \<Longrightarrow> settled s s'"
  by (auto simp: make_runnable_def kmalloc_ask_def bind_eq_Some_conv)

lemma wakeup_from_settled: "wakeup_from addr i s = Some s' \<Longrightarrow> settled s s'"
proof (induction rule: wakeup_from.raw_induct [rotated, consumes 1])
  case (1 wk a i s s')
  show ?case
    using 1(2) by (auto simp: bind_eq_Some_conv split: if_splits dest!: make_runnable_settled 1(1)) (blast intro: settled_trans)+
qed

lemma thread_wakeup_settled: "thread_wakeup addr s = Some s' \<Longrightarrow> settled s s'"
  by (auto simp: thread_wakeup_def bind_eq_Some_conv dest: wakeup_from_settled)

lemma thread_wakeup_one_settled: "thread_wakeup_one addr s = Some s' \<Longrightarrow> settled s s'"
  by (auto simp: thread_wakeup_one_def bind_eq_Some_conv split: option.splits dest!: make_runnable_settled)

lemma settled_switch_save: "threads s t = Some x \<Longrightarrow> settled s (md_switch_save t x s)"
  by (auto simp: md_switch_save_def settled_def dead_def split: if_splits)

lemma mi_switch_out_settled:
  assumes "mi_switch_out n s = Some s'" "n \<noteq> S_ZOMB"
  shows "settled s s'"
proof (cases "curthread s")
  case (Some t)
  then obtain x r where x: "threads s t = Some x"
    "(case n of S_READY \<Rightarrow> make_runnable t (md_switch_save t x s) | S_SLEEP \<Rightarrow> sleepers_add t (md_switch_save t x s)
      | S_ZOMB \<Rightarrow> zombies_add t (md_switch_save t x s) | S_RUN \<Rightarrow> None) = Some (r, s')"
    using assms(1) by (auto simp: mi_switch_out_def bind_eq_Some_conv Let_def)
  then have "settled (md_switch_save t x s) s'"
    using assms(2) by (auto simp: sleepers_add_def kmalloc_ask_def bind_eq_Some_conv split: threadstate.splits dest: make_runnable_settled)
  then show ?thesis using settled_switch_save [OF x(1)] by (blast intro: settled_trans)
qed (use assms in \<open>auto simp: mi_switch_out_def bind_eq_Some_conv\<close>)

lemma thread_sleep_settled: "thread_sleep addr k s = Some s' \<Longrightarrow> settled s s'"
  by (auto simp: thread_sleep_def bind_eq_Some_conv intro: settled_trans [OF settled_thread mi_switch_out_settled])

lemma P_loop_settled: "P_loop m spl s = Some s' \<Longrightarrow> settled s s'"
  by (auto simp: P_loop_def bind_eq_Some_conv split: if_splits dest: thread_sleep_settled)

lemma sem_settled: "sem_P m s = Some s' \<Longrightarrow> settled s s'" "sem_V m s = Some s' \<Longrightarrow> settled s s'"
  by (auto simp: sem_P_def sem_V_def bind_eq_Some_conv dest!: P_loop_settled thread_wakeup_settled)

lemma thread_yield_settled: "thread_yield s = Some s' \<Longrightarrow> settled s s'"
  by (auto simp: thread_yield_def bind_eq_Some_conv split: option.splits dest!: settled_thread mi_switch_out_settled intro: settled_trans)

lemma acquire_loop_settled: "acquire_loop l spls s = Some s' \<Longrightarrow> settled s s'"
  unfolding acquire_loop_def fold_splx by (auto simp: bind_eq_Some_conv split: if_splits dest: thread_sleep_settled)

lemma lock_settled: "lock_acquire outer l s = Some s' \<Longrightarrow> settled s s'" "lock_release l s = Some s' \<Longrightarrow> settled s s'"
  by (auto simp: lock_acquire_def lock_release_def lock_do_i_hold_def bind_eq_Some_conv split: if_splits
    dest!: acquire_loop_settled thread_wakeup_one_settled)

lemma cv_settled:
  "cv_wait cv l s = Some s' \<Longrightarrow> settled s s'" "cv_signal cv l s = Some s' \<Longrightarrow> settled s s'" "cv_broadcast cv l s = Some s' \<Longrightarrow> settled s s'"
  by (auto simp: cv_wait_def cv_signal_def cv_broadcast_def bind_eq_Some_conv
    dest!: lock_settled(2) thread_sleep_settled thread_wakeup_one_settled thread_wakeup_settled intro: settled_trans)

lemma clock_settled: "clock_loop n spl s = Some s' \<Longrightarrow> settled s s'" "clocksleep n s = Some s' \<Longrightarrow> settled s s'"
  by (auto simp: clocksleep_def clock_loop_def split: if_splits dest!: thread_sleep_settled)

lemma hardclock_settled: "hardclock_tick s = Some s' \<Longrightarrow> settled s s'"
  by (auto simp: hardclock_tick_def bind_eq_Some_conv split: if_splits dest!: thread_wakeup_settled)

lemma timer_settled: "timer_irq s = Some s' \<Longrightarrow> settled s s'"
  by (auto simp: timer_irq_def irq_exit_def bind_eq_Some_conv Let_def split: option.splits
    dest!: hardclock_settled settled_thread mi_switch_out_settled intro: settled_trans) (blast intro: settled_trans)

lemma device_settled: "device_irq m s = Some s' \<Longrightarrow> settled s s'"
  by (auto simp: device_irq_def irq_exit_def bind_eq_Some_conv dest!: sem_settled(2))

lemma dispatch_settled: "mi_dispatch s = Some s' \<Longrightarrow> settled s s'"
  by (auto simp: mi_dispatch_def scheduler_def bind_eq_Some_conv split: option.splits if_splits)

lemma sleep_end_settled: "thread_sleep_end s = Some s' \<Longrightarrow> settled s s'"
  by (auto simp: thread_sleep_end_def bind_eq_Some_conv intro: settled_thread)

section \<open>The census\<close>

definition counted :: "kern \<Rightarrow> bool" where
  "counted s \<longleftrightarrow> finite (dom (threads s)) \<and> int (card (dom (threads s))) = numthreads s + int (length (dead s))"

lemma settled_counted: "settled s s' \<Longrightarrow> counted s \<Longrightarrow> counted s'"
  by (simp add: settled_def counted_def)

text \<open>When the count is right, the four places hold all threads.\<close>

lemma counted_places:
  assumes "kinv0 s" "counted s"
  shows "dom (threads s) = places s"
proof -
  let ?xs = "running s @ ready s @ asleep s @ dead s"
  have p: "places s = set ?xs" by (auto simp: places_def)
  have d: "distinct ?xs" "numthreads s = int (length (running s) + length (ready s) + length (asleep s))"
    using assms(1) by (simp_all add: kinv0_def counts_ok_def)
  have "card (set ?xs) = length ?xs" using d(1) by (rule distinct_card)
  then have "card (places s) = card (dom (threads s))" using assms(2) d(2) unfolding p counted_def by simp
  moreover have "places s \<subseteq> dom (threads s)" using placed_exists [OF assms(1)] by auto
  ultimately show ?thesis using assms(2) card_subset_eq [of "dom (threads s)" "places s"] by (simp add: counted_def)
qed

lemma cleaned_counted:
  assumes "kinv0 s" "cleaned s s'" "counted s"
  shows "counted s'"
proof -
  have d: "distinct (dead s)" "set (dead s) \<subseteq> dom (threads s)"
    using assms(1) by (auto simp: kinv0_def counts_ok_def threads_ok_def list_all_iff dest!: thr_okD)
  have c: "dom (threads s') = dom (threads s) - set (dead s)" "numthreads s' = numthreads s" "dead s' = []"
    using cleaned_simps [OF assms(2)] by (auto split: if_splits)
  have "card (dom (threads s')) = card (dom (threads s)) - length (dead s)"
    using card_Diff_subset [OF _ d(2)] distinct_card [OF d(1)] c(1) by simp
  moreover have "length (dead s) \<le> card (dom (threads s))"
    using card_mono [OF _ d(2)] assms(3) distinct_card [OF d(1)] by (simp add: counted_def)
  ultimately show ?thesis using assms(3) c by (simp add: counted_def)
qed

section \<open>Creation, exit and resumption\<close>

lemma fork_reserve_fields:
  assumes "fork_reserve n s = Some (r, s')"
  shows "threads s' = threads s" "sems s' = sems s" "lock_sem s' = lock_sem s" "numthreads s' = numthreads s" "next_id s' = next_id s"
proof -
  define R :: "kern \<Rightarrow> kern \<Rightarrow> bool" where "R a b \<longleftrightarrow> threads b = threads a \<and> sems b = sems a \<and> lock_sem b = lock_sem a \<and> numthreads b = numthreads a \<and> next_id b = next_id a" for a b
  have t: "R a b \<Longrightarrow> R b c \<Longrightarrow> R a c" for a b c by (simp add: R_def)
  have p: "sleepers_preallocate k a = Some (q, b) \<Longrightarrow> R a b" "zombies_preallocate k a = Some (q, b) \<Longrightarrow> R a b"
    "scheduler_preallocate k a = Some (q, b) \<Longrightarrow> R a b" "make_runnable n a = Some (q, b) \<Longrightarrow> R a b" for k a q b
    by (auto simp: R_def sleepers_preallocate_def zombies_preallocate_def scheduler_preallocate_def make_runnable_def
      kmalloc_ask_def bind_eq_Some_conv)
  have step: "R s s'" if "do { (q, b) \<leftarrow> m; if q \<noteq> Inr () then Some (q, b) else f b } = Some (r, s')"
    "\<And>q b. m = Some (q, b) \<Longrightarrow> R s b" "\<And>b. R s b \<Longrightarrow> f b = Some (r, s') \<Longrightarrow> R s s'"
    for m :: "((errno + unit) \<times> kern) option" and f
    using that by (cases m) (auto split: if_splits)
  obtain k where "do { (q, b) \<leftarrow> sleepers_preallocate k s; if q \<noteq> Inr () then Some (q, b) else
      do { (q, b) \<leftarrow> zombies_preallocate k b; if q \<noteq> Inr () then Some (q, b) else
      do { (q, b) \<leftarrow> scheduler_preallocate k b; if q \<noteq> Inr () then Some (q, b) else make_runnable n b } } } = Some (r, s')"
    using assms by (cases "cint (numthreads s + 1)") (simp_all add: fork_reserve_def)
  then have "R s s'"
  proof (rule step)
    fix b assume b: "R s b" "do { (q, b) \<leftarrow> zombies_preallocate k b; if q \<noteq> Inr () then Some (q, b) else
      do { (q, b) \<leftarrow> scheduler_preallocate k b; if q \<noteq> Inr () then Some (q, b) else make_runnable n b } } = Some (r, s')"
    show "R s s'" by (rule step [OF b(2)], blast intro: b(1) t p, rule step, assumption) (blast intro: t p)+
  qed (rule p)
  then show "threads s' = threads s" "sems s' = sems s" "lock_sem s' = lock_sem s" "numthreads s' = numthreads s" "next_id s' = next_id s" by (simp_all add: R_def)
qed

lemma fork_fail_fields:
  assumes "fork_fail n s = Some s'"
  shows "threads s' = (threads s)(n := None)" "sems s' = sems s" "lock_sem s' = lock_sem s"
proof -
  obtain y where y: "threads s n = Some y" using assms by (auto simp: fork_fail_def bind_eq_Some_conv)
  have "threads s' = (threads s)(n := None) \<and> sems s' = sems s \<and> lock_sem s' = lock_sem s"
    using assms y by (cases "t_cwd y") (auto simp: fork_fail_def vnode_decref_def bind_eq_Some_conv split: if_splits)
  then show "threads s' = (threads s)(n := None)" "sems s' = sems s" "lock_sem s' = lock_sem s" by simp_all
qed

text \<open>The three ways through \<open>thread_fork\<close>.\<close>

lemma thread_fork_parts:
  assumes "thread_fork name s = Some (r, s')"
  obtains (none) "r = Inl ENOMEM" "asked s s'"
  | (stack) n w a where "created name n w s a" "r = Inl ENOMEM" "s' = a\<lparr>k_nalloc := Suc (k_nalloc a), threads := (threads a)(n := None)\<rparr>"
  | (fork) n w a g b1 b2 b3 b q f where "created name n w s a" "k_mem a (k_nalloc a) [] = Some g"
      "upd_thread n (\<lambda>x. x\<lparr>t_stack := Some (new_stack g)\<rparr>) (a\<lparr>k_nalloc := Suc (k_nalloc a)\<rparr>) = Some b1"
      "inherit_cwd n b1 = Some b2" "md_initpcb n b2 = Some b3" "add_child n b3 = Some b" "fork_reserve n (b\<lparr>curspl := SPL_HIGH\<rparr>) = Some (q, f)"
      "(case q of
          Inr u \<Rightarrow> do { k \<leftarrow> cint (numthreads f + 1); Some (Inr n, snd (splx (curspl b) (f\<lparr>numthreads := k\<rparr>))) }
        | Inl e \<Rightarrow> do { s \<leftarrow> fork_fail n (snd (splx (curspl b) f)); Some (Inl e, s) }) = Some (r, s')"
proof -
  obtain p a where a: "thread_create name s = Some (p, a)" using assms by (auto simp: thread_fork_def bind_eq_Some_conv)
  show ?thesis
  proof (cases p)
    case None
    then show ?thesis using assms a thread_create_cases [OF a] none by (simp add: thread_fork_def)
  next
    case (Some n)
    then obtain w where c: "created name n w s a" using thread_create_cases [OF a] by auto
    show ?thesis
    proof (cases "k_mem a (k_nalloc a) []")
      case None
      then show ?thesis using assms a Some stack [OF c] by (simp add: thread_fork_def kmalloc_ask_def)
    next
      case g: (Some g)
      then obtain b1 b2 b3 b q f where "upd_thread n (\<lambda>x. x\<lparr>t_stack := Some (new_stack g)\<rparr>) (a\<lparr>k_nalloc := Suc (k_nalloc a)\<rparr>) = Some b1"
        "inherit_cwd n b1 = Some b2" "md_initpcb n b2 = Some b3" "add_child n b3 = Some b" "fork_reserve n (b\<lparr>curspl := SPL_HIGH\<rparr>) = Some (q, f)"
        "(case q of
            Inr u \<Rightarrow> do { k \<leftarrow> cint (numthreads f + 1); Some (Inr n, snd (splx (curspl b) (f\<lparr>numthreads := k\<rparr>))) }
          | Inl e \<Rightarrow> do { s \<leftarrow> fork_fail n (snd (splx (curspl b) f)); Some (Inl e, s) }) = Some (r, s')"
        using assms a Some by (auto simp: thread_fork_def kmalloc_ask_def bind_eq_Some_conv)
      then show ?thesis using fork [OF c g] by blast
    qed
  qed
qed

text \<open>A dispatched thread returns from its switch: the zombies are gone.\<close>

lemma popped_cleaned:
  assumes "kinv s" "curthread s = Some t" "threads s t = Some x" "t_kont x = Some k"
  obtains a where "mi_switch_in (popped t x s) = Some a" "cleaned (popped t x s) a" "t \<notin> set (dead s)"
proof -
  have i0: "kinv0 s" using kinvD(2) [OF assms(1)] .
  have "switching s" using assms(2-4) by (simp add: switching_def)
  then have i: "tables_ok s" "0 < curspl s" "distinct (running s @ ready s @ asleep s @ dead s)" "list_all (thr_ok s dead_ok) (dead s)"
    using i0 by (auto simp: kinv0_def threads_ok_def counts_ok_def)
  then have d: "t \<notin> set (dead s)" "distinct (dead s)" using assms(2) by (auto simp: running_def)
  have p: "dead (popped t x s) = dead s" "tables_ok (popped t x s)" "0 < curspl (popped t x s)" "curthread (popped t x s) = Some t"
    "threads (popped t x s) t = Some (x\<lparr>t_kont := None\<rparr>)"
    using i(1,2) assms(2) by (simp_all add: popped_def dead_def tables_ok_def)
  have "list_all (thr_ok (popped t x s) dead_ok) (dead s)"
    using i(4) d(1) by (auto simp: list_all_iff thr_ok_def popped_def)
  then show ?thesis using mi_switch_in_cleaned [OF p(2-5)] p(1) d that by auto
qed

lemma add_child_settled: "add_child n s = Some s' \<Longrightarrow> settled s s'"
proof -
  assume "add_child n s = Some s'"
  then obtain cur i a b p q where "(if i < MAX_CHILD then upd_thread cur (\<lambda>x. x\<lparr>t_child := (t_child x)[i := Some n]\<rparr>) s else Some s) = Some a"
    "upd_thread n (\<lambda>y. y\<lparr>t_parent := Some cur\<rparr>) a = Some b" "set_parentpid p q b = Some s'"
    by (simp add: add_child_def bind_eq_Some_conv) blast
  then have "settled s a" "settled a b" "settled b s'"
    by (auto simp: set_parentpid_def bind_eq_Some_conv split: if_splits intro: settled_thread)
  then show ?thesis by (blast intro: settled_trans)
qed

lemma inherit_cwd_settled: "inherit_cwd n s = Some s' \<Longrightarrow> settled s s'"
  by (auto simp: inherit_cwd_def vnode_incref_def bind_eq_Some_conv split: option.splits dest!: settled_thread)

lemma thread_fork_dom:
  assumes "thread_fork name s = Some (r, s')" "ids_ok s"
  shows "case r of Inl e \<Rightarrow> dom (threads s') = dom (threads s)
    | Inr n \<Rightarrow> dom (threads s') = insert n (dom (threads s)) \<and> n \<notin> dom (threads s)"
  using assms(1)
proof (cases rule: thread_fork_parts)
  case none
  then show ?thesis using asked_fields(1) by simp
next
  case (stack n w a)
  then have "threads s n = None" using assms(2) by (simp add: created_def ids_ok_def)
  then show ?thesis using stack by (auto simp: created_def split: if_splits)
next
  case (fork n w a g b1 b2 b3 b q f)
  have n: "threads s n = None" "dom (threads a) = insert n (dom (threads s))"
    using fork(1) assms(2) by (auto simp: created_def ids_ok_def)
  have "settled (a\<lparr>k_nalloc := Suc (k_nalloc a)\<rparr>) b1" "settled b1 b2" "settled b2 b3" "settled b3 b"
    using settled_thread [OF fork(3)] inherit_cwd_settled [OF fork(4)] settled_thread [OF fork(5) [unfolded md_initpcb_def]] add_child_settled [OF fork(6)]
    by simp_all
  then have d: "dom (threads f) = insert n (dom (threads s))" using n(2) fork_reserve_fields(1) [OF fork(7)] by (simp add: settled_def)
  show ?thesis
  proof (cases q)
    case (Inl err)
    then have "fork_fail n (f\<lparr>curspl := curspl b\<rparr>) = Some s'" "r = Inl err" using fork(8) by (auto simp: bind_eq_Some_conv)
    then show ?thesis using fork_fail_fields(1) [of n "f\<lparr>curspl := curspl b\<rparr>" s'] d n(1) by auto
  next
    case (Inr u)
    then obtain k where "s' = f\<lparr>numthreads := k, curspl := curspl b\<rparr>" "r = Inr n" using fork(8) by (auto simp: bind_eq_Some_conv)
    then show ?thesis using d n(1) by auto
  qed
qed

lemma thread_fork_counted:
  assumes "kern_ok s" "runs s t x" "numthreads s + int (length (dead s)) + 1 < 2 ^ 27" "thread_fork name s = Some (r, s')" "counted s"
  shows "counted s'"
proof -
  have i: "kinv s" "ids_ok s" using assms(1) by (simp_all add: kern_ok_def)
  have "forked t r s s'" by (rule thread_fork_inv [OF i assms(2,3,4)])
  then show ?thesis using thread_fork_dom [OF assms(4) i(2)] assms(5) by (auto simp: forked_def counted_def split: sum.splits)
qed

lemma sem_V_curthread: "sem_V m s = Some s' \<Longrightarrow> curthread s' = curthread s"
  by (auto simp: sem_V_def bind_eq_Some_conv dest!: wakeup_curthread)

lemma upd_thread_curthread: "upd_thread t f s = Some s' \<Longrightarrow> curthread s' = curthread s"
  by (auto simp: upd_thread_def bind_eq_Some_conv)

lemma exit_vmspace_settled:
  assumes "exit_vmspace t s = Some s'"
  shows "settled s s' \<and> curthread s' = curthread s"
proof -
  obtain x where x: "threads s t = Some x" using assms by (auto simp: exit_vmspace_def bind_eq_Some_conv)
  show ?thesis using assms x
    by (cases "t_vmspace x") (auto simp: exit_vmspace_def bind_eq_Some_conv dest: settled_thread upd_thread_curthread)
qed

lemma exit_cwd_settled:
  assumes "exit_cwd t s = Some s'"
  shows "settled s s' \<and> curthread s' = curthread s"
proof -
  obtain x where x: "threads s t = Some x" using assms by (auto simp: exit_cwd_def bind_eq_Some_conv)
  show ?thesis
  proof (cases "t_cwd x")
    case (Some v)
    then obtain b f where b: "vnode_decref v s = Some (f, b)" "upd_thread t (\<lambda>x. x\<lparr>t_cwd := None\<rparr>) b = Some s'"
      using assms x by (auto simp: exit_cwd_def bind_eq_Some_conv)
    then have "settled s b \<and> curthread b = curthread s" by (auto simp: vnode_decref_def bind_eq_Some_conv split: if_splits)
    then show ?thesis using settled_thread [OF b(2)] upd_thread_curthread [OF b(2)] settled_trans by auto
  qed (use assms x in \<open>simp add: exit_cwd_def\<close>)
qed

text \<open>The steps of \<open>thread_exit\<close>.\<close>

lemma thread_exit_parts:
  assumes "thread_exit s = Some s'" "runs s t x"
  obtains b w c l d e f where "set_exited (t_pid x) (s\<lparr>threads := (threads s)(t \<mapsto> x\<lparr>t_parent := None\<rparr>)\<rparr>) = Some b"
    "t_wait x = Some w" "sem_V w b = Some c" "lock_sem c = Some l" "sem_V l c = Some d" "exit_vmspace t (d\<lparr>curspl := SPL_HIGH\<rparr>) = Some e"
    "exit_cwd t e = Some f" "mi_switch_out S_ZOMB (f\<lparr>numthreads := numthreads f - 1\<rparr>) = Some s'" "curthread f = Some t"
proof -
  note r = runsD [OF assms(2)]
  obtain b w c l d e f where b: "set_exited (t_pid x) (s\<lparr>threads := (threads s)(t \<mapsto> x\<lparr>t_parent := None\<rparr>)\<rparr>) = Some b"
    "t_wait x = Some w" "sem_V w b = Some c" "lock_sem c = Some l" "sem_V l c = Some d" "exit_vmspace t (d\<lparr>curspl := SPL_HIGH\<rparr>) = Some e"
    "exit_cwd t e = Some f" "mi_switch_out S_ZOMB (f\<lparr>numthreads := numthreads f - 1\<rparr>) = Some s'"
    using assms(1) r by (auto simp: thread_exit_def upd_thread_def bind_eq_Some_conv)
  have "curthread b = Some t" using b(1) r(1) by (auto simp: set_exited_def bind_eq_Some_conv)
  then have "curthread f = Some t"
    using sem_V_curthread [OF b(3)] sem_V_curthread [OF b(5)] exit_vmspace_settled [OF b(6)] exit_cwd_settled [OF b(7)] by simp
  then show ?thesis using that b by blast
qed

lemma thread_exit_counted:
  assumes "kern_ok s" "thread_exit s = Some s'" "runs s t x" "counted s"
  shows "counted s'"
  using assms(2,3)
proof (cases rule: thread_exit_parts)
  case (1 b w c l d e f)
  have d: "dead s' = dead s @ [t]" using thread_exit_inv [OF _ _ assms(3,2)] assms(1) by (simp add: kern_ok_def)
  have "settled s (s\<lparr>threads := (threads s)(t \<mapsto> x\<lparr>t_parent := None\<rparr>)\<rparr>)"
    using runsD(2) [OF assms(3)] by (auto simp: settled_def dead_def split: if_splits)
  then have "settled s b" using 1(1) by (auto simp: set_exited_def bind_eq_Some_conv)
  then have "settled s d" using sem_settled(2) [OF 1(3)] sem_settled(2) [OF 1(5)] settled_trans by blast
  then have f: "settled s f" using exit_vmspace_settled [OF 1(6)] exit_cwd_settled [OF 1(7)] settled_trans by simp blast
  have "dom (threads s') = dom (threads f)" "numthreads s' = numthreads f - 1"
    using 1(8,9) by (auto simp: mi_switch_out_def zombies_add_def md_switch_save_def kmalloc_ask_def bind_eq_Some_conv Let_def split: if_splits)
  then show ?thesis using f d assms(4) by (simp add: settled_def counted_def)
qed

lemma resume_counted:
  assumes "kinv s" "curthread s = Some t" "threads s t = Some x" "t_kont x = Some k" "resume s = Some s'" "counted s"
  shows "counted s'"
proof -
  from popped_cleaned [OF assms(1-4)] obtain a where a: "mi_switch_in (popped t x s) = Some a" "cleaned (popped t x s) a" "t \<notin> set (dead s)" .
  have u: "upd_thread t (\<lambda>x. x\<lparr>t_kont := None\<rparr>) s = Some (popped t x s)" using assms(3) by (simp add: upd_thread_def popped_def)
  have p: "settled s (popped t x s)" by (rule settled_thread [OF u])
  have i0: "kinv0 s" using kinvD(2) [OF assms(1)] .
  have e: "s\<lparr>threads := (threads s)(t \<mapsto> x\<lparr>t_kont := None\<rparr>), in_interrupt := in_interrupt s\<rparr> = popped t x s"
    by (intro kern.equality) (simp_all add: popped_def)
  have "stack_intact x" using kinv0_running [OF i0 assms(2)] assms(3) by auto
  then have "stack_intact (x\<lparr>t_kont := None\<rparr>)" by (simp add: stack_intact_def)
  from kinv0_set_running [OF i0 assms(2) this, of "in_interrupt s", unfolded e] have "kinv0 (popped t x s)" by simp
  then have ca: "counted a" using cleaned_counted [OF _ a(2)] settled_counted [OF p assms(6)] by blast
  show ?thesis
  proof (cases "kont_chan k")
    case None
    then show ?thesis using assms(2-5) u a(1) settled_counted [OF _ ca, of s'] settled_counted [OF p assms(6)] settled_counted [of "popped t x s" s']
      by (cases k) (auto simp: resume_def bind_eq_Some_conv mi_threadstart_def as_activate_def irq_exit_def split: if_splits)
  next
    case (Some ch)
    have "curthread a = Some t" "threads a t \<noteq> None" using cleaned_simps(1,3) [OF a(2)] assms(2) a(3) by (simp_all add: popped_def dead_def)
    then obtain b where b: "thread_sleep_end a = Some b" by (auto simp: thread_sleep_end_def upd_thread_def)
    have "counted b" using settled_counted [OF sleep_end_settled [OF b] ca] .
    then show ?thesis using assms(2-5) u a(1) b Some settled_counted [of b s']
      by (cases k) (auto simp: resume_def dest: P_loop_settled clock_settled acquire_loop_settled lock_settled)
  qed
qed

lemma kcall_counted:
  assumes "kern_ok s" "runs s t x" "kcall_pre op t s" "kcall op s = Some s'" "counted s"
  shows "counted s'"
proof (cases op)
  case (Op_Fork name)
  then obtain r where "thread_fork name s = Some (r, s')" using assms(4) by auto
  moreover have "numthreads s + int (length (dead s)) + 1 < 2 ^ 27" using assms(3) Op_Fork by (simp add: kcall_pre_def)
  ultimately show ?thesis using thread_fork_counted [OF assms(1,2)] assms(5) by blast
next
  case Op_Exit
  then show ?thesis using thread_exit_counted [OF assms(1) _ assms(2,5)] assms(4) by simp
next
  case (Op_SemCreate c)
  then show ?thesis using settled_counted [OF _ assms(5), of s'] assms(4)
    by (auto simp: sem_create_def kmalloc_struct_def kmalloc_ask_def bind_eq_Some_conv split: if_splits)
next
  case Op_LockCreate
  then show ?thesis using settled_counted [OF _ assms(5), of s'] assms(4)
    by (auto simp: lock_create_def kmalloc_struct_def kmalloc_ask_def split: if_splits)
next
  case Op_CvCreate
  then show ?thesis using settled_counted [OF _ assms(5), of s'] assms(4)
    by (auto simp: cv_create_def kmalloc_struct_def kmalloc_ask_def split: if_splits)
qed (use assms(4) settled_counted [OF _ assms(5), of s'] in
    \<open>auto dest: sem_settled lock_settled cv_settled thread_yield_settled clock_settled\<close>)

lemma kstep_counted:
  assumes "kern_ok s" "kstep s s'" "counted s"
  shows "counted s'"
  using assms(2)
proof (cases rule: kstep.cases)
  case (step_call t x op)
  then show ?thesis using kcall_counted [OF assms(1)] assms(3) by blast
next
  case (step_resume t)
  then obtain x k where "threads s t = Some x" "t_kont x = Some k" by (auto simp: switching_def split: option.splits)
  then show ?thesis using resume_counted [OF _ step_resume(2)] step_resume(3) assms(1,3) by (auto simp: kern_ok_def)
qed (use settled_counted [OF _ assms(3), of s'] dispatch_settled timer_settled device_settled in blast)+

lemma reachable_counted:
  assumes "ksys.reachable s"
  shows "counted s"
proof -
  have "kern_ok s \<and> counted s" using assms
  proof (rule ksys.reachable_invariant)
    fix s assume b: "booted s"
    then obtain s0 t where "boot_threads s0 = Some (t, s)" "blank s0" by (auto simp: booted_def)
    from boot_fields [OF this] obtain x zs where "threads s = (\<lambda>_. None)(t \<mapsto> x)" "zombies s = Some zs" "guys zs = []" "numthreads s = 1" .
    then have "counted s" by (simp add: counted_def dead_def)
    then show "kern_ok s \<and> counted s" using boot_ok [OF b] by simp
  qed (use kstep_ok kstep_counted in blast)
  then show ?thesis ..
qed

text \<open>
  (C3) Every thread is in exactly one place. The running thread, the run queue, the sleepers and the
  zombies are disjoint and have no duplicates; together they are all the threads that exist, so that no thread is
  ever lost; \<open>numthreads\<close> counts those that are not zombies; a sleeper has a sleep address, and the run
  queue can take every other thread.
\<close>

theorem reachable_one_place:
  assumes "ksys.reachable s"
  shows "distinct (running s @ ready s @ asleep s @ dead s) \<and>
    dom (threads s) = set (running s @ ready s @ asleep s @ dead s) \<and>
    numthreads s = int (length (running s @ ready s @ asleep s)) \<and> numthreads s \<le> rq_cap s + 1 \<and>
    (\<forall>t \<in> set (asleep s). \<exists>x. threads s t = Some x \<and> t_sleepaddr x \<noteq> None)"
proof -
  note i0 = reachableD(3) [OF assms]
  have "dom (threads s) = set (running s @ ready s @ asleep s @ dead s)"
    using counted_places [OF i0 reachable_counted [OF assms]] by (auto simp: places_def)
  moreover have "\<exists>x. threads s t = Some x \<and> t_sleepaddr x \<noteq> None" if "t \<in> set (asleep s)" for t
    using i0 that by (auto simp: kinv0_def threads_ok_def list_all_iff asleep_ok_def dest!: thr_okD split: option.splits)
  ultimately show ?thesis using i0 by (simp add: kinv0_def counts_ok_def)
qed

theorem reachable_one_place_witness:
  "distinct (running k_held @ ready k_held @ asleep k_held @ dead k_held) \<and> numthreads k_held = 1"
  using reachable_one_place [OF k_held_reachable(2)] by (simp add: k_held_def k_lock_def k_boot_def)

end
