(* ===== verification/Kern_SemAcct.thy ===== *)
theory Kern_SemAcct
  imports Kern_Census
begin

text \<open>
  The account of one semaphore. A thread that is inside \<open>P\<close> and has not got its unit yet is known by the
  channel it waits on. The relation \<open>calm\<close> says that a step leaves the count of a semaphore alone and
  lets no thread of a given set begin or end such a wait; \<open>P\<close>, \<open>V\<close> and the resumption of a waiting thread are the steps that
  move the account, each by one unit.
\<close>

section \<open>Threads that wait\<close>

text \<open>The channel on which a thread waits or has just been woken; the outer option says whether there is such a thread.\<close>

definition pend :: "kern \<Rightarrow> tid \<Rightarrow> chan option option" where
  "pend s u = map_option (\<lambda>x. Option.bind (t_kont x) kont_chan) (threads s u)"

text \<open>The threads in \<open>D\<close> are alive, and neither \<open>thread_exit\<close> nor \<open>sys_waitpid\<close> of anybody uses the semaphore.\<close>

definition unshared :: "nat \<Rightarrow> kern \<Rightarrow> bool" where
  "unshared m s \<longleftrightarrow> lock_sem s \<noteq> Some m \<and> (\<forall>u x. threads s u = Some x \<longrightarrow> t_wait x \<noteq> Some m)"

definition calm :: "nat set \<Rightarrow> tid set \<Rightarrow> kern \<Rightarrow> kern \<Rightarrow> bool" where
  "calm M D s s' \<longleftrightarrow>
     (\<forall>u. \<forall>m \<in> M. pend s' u = Some (Some (SemA m)) \<longrightarrow> pend s u = Some (Some (SemA m))) \<and>
     (set (dead s) \<inter> D = {} \<longrightarrow>
        set (dead s') \<inter> D = {} \<and> (\<forall>m \<in> M. sems s' m = sems s m) \<and> (\<forall>m \<in> M. unshared m s \<longrightarrow> unshared m s') \<and> (\<forall>u \<in> D. pend s' u = pend s u))"

lemma unshared_mono:
  assumes "unshared m a" "lock_sem s' = lock_sem a" "\<And>u x. threads s' u = Some x \<Longrightarrow> \<exists>v y. threads a v = Some y \<and> t_wait y = t_wait x"
  shows "unshared m s'"
  using assms unfolding unshared_def by metis

lemma calm_refl [simp]: "calm M D s s" by (simp add: calm_def)

lemma calm_trans: "calm M D a b \<Longrightarrow> calm M D b c \<Longrightarrow> calm M D a c" by (auto simp: calm_def)

lemma calm_mono: "calm M D a b \<Longrightarrow> N \<subseteq> M \<Longrightarrow> calm N D a b" unfolding calm_def by blast

lemma calm_upd [simp]:
  "calm M D s (s'\<lparr>curspl := a\<rparr>) = calm M D s s'" "calm M D (s\<lparr>curspl := a\<rparr>) s' = calm M D s s'"
  "calm M D s (s'\<lparr>sleepers := b\<rparr>) = calm M D s s'" "calm M D (s\<lparr>sleepers := b\<rparr>) s' = calm M D s s'"
  "calm M D s (s'\<lparr>runqueue := c\<rparr>) = calm M D s s'" "calm M D (s\<lparr>runqueue := c\<rparr>) s' = calm M D s s'"
  "calm M D s (s'\<lparr>k_nalloc := n\<rparr>) = calm M D s s'" "calm M D (s\<lparr>k_nalloc := n\<rparr>) s' = calm M D s s'"
  "calm M D s (s'\<lparr>next_id := n\<rparr>) = calm M D s s'" "calm M D (s\<lparr>next_id := n\<rparr>) s' = calm M D s s'"
  "calm M D s (s'\<lparr>curthread := t\<rparr>) = calm M D s s'" "calm M D (s\<lparr>curthread := t\<rparr>) s' = calm M D s s'"
  "calm M D s (s'\<lparr>in_interrupt := i\<rparr>) = calm M D s s'" "calm M D (s\<lparr>in_interrupt := i\<rparr>) s' = calm M D s s'"
  "calm M D s (s'\<lparr>lbolt_counter := i\<rparr>) = calm M D s s'" "calm M D (s\<lparr>lbolt_counter := i\<rparr>) s' = calm M D s s'"
  "calm M D s (s'\<lparr>locks := lk\<rparr>) = calm M D s s'" "calm M D (s\<lparr>locks := lk\<rparr>) s' = calm M D s s'"
  "calm M D s (s'\<lparr>cvs := cs\<rparr>) = calm M D s s'" "calm M D (s\<lparr>cvs := cs\<rparr>) s' = calm M D s s'"
  "calm M D s (s'\<lparr>numthreads := nt\<rparr>) = calm M D s s'" "calm M D (s\<lparr>numthreads := nt\<rparr>) s' = calm M D s s'"
  "calm M D s (s'\<lparr>plist := pl\<rparr>) = calm M D s s'" "calm M D (s\<lparr>plist := pl\<rparr>) s' = calm M D s s'"
  "calm M D s (s'\<lparr>vnrefs := vr\<rparr>) = calm M D s s'" "calm M D (s\<lparr>vnrefs := vr\<rparr>) s' = calm M D s s'"
  "calm M D s (s'\<lparr>spaces := sp\<rparr>) = calm M D s s'" "calm M D (s\<lparr>spaces := sp\<rparr>) s' = calm M D s s'"
  "calm M D s (s'\<lparr>max_pid := mp\<rparr>) = calm M D s s'" "calm M D (s\<lparr>max_pid := mp\<rparr>) s' = calm M D s s'"
  "calm M D s (s'\<lparr>tlb := tb\<rparr>) = calm M D s s'" "calm M D (s\<lparr>tlb := tb\<rparr>) s' = calm M D s s'"
  by (simp_all add: calm_def pend_def unshared_def dead_def)

lemma calm_sems [simp]:
  "k \<notin> M \<Longrightarrow> calm M D s (s'\<lparr>sems := (sems s')(k \<mapsto> c)\<rparr>) = calm M D s s'"
  "k \<notin> M \<Longrightarrow> calm M D (s\<lparr>sems := (sems s)(k \<mapsto> c)\<rparr>) s' = calm M D s s'"
  "k \<notin> M \<Longrightarrow> calm M D (s\<lparr>curspl := n, sems := (sems s)(k \<mapsto> c)\<rparr>) s' = calm M D s s'"
  by (auto simp: calm_def pend_def unshared_def dead_def)

text \<open>A change of one thread that keeps what it waits on, or of a thread outside of the set.\<close>

lemma calm_thread:
  assumes "upd_thread t f s = Some s'" "\<And>x. threads s t = Some x \<Longrightarrow> t_wait (f x) = t_wait x"
    "\<And>x. threads s t = Some x \<Longrightarrow> t \<in> D \<or> Option.bind (t_kont (f x)) kont_chan \<in> Some ` SemA ` M \<Longrightarrow>
       Option.bind (t_kont (f x)) kont_chan = Option.bind (t_kont x) kont_chan"
  shows "calm M D s s'"
proof -
  obtain x where x: "threads s t = Some x" "s' = s\<lparr>threads := (threads s)(t \<mapsto> f x)\<rparr>"
    using assms(1) by (auto simp: upd_thread_def bind_eq_Some_conv)
  have "\<forall>m \<in> M. unshared m s \<longrightarrow> unshared m s'" using x assms(2) [OF x(1)] by (simp add: unshared_def)
  moreover have "\<forall>u \<in> D. pend s' u = pend s u" using x assms(3) [OF x(1)] by (simp add: pend_def)
  moreover have "pend s u = Some (Some (SemA m))" if "m \<in> M" "pend s' u = Some (Some (SemA m))" for u m
    using that x assms(3) [OF x(1)] by (cases "u = t") (simp_all add: pend_def)
  ultimately show ?thesis using x(2) by (simp add: calm_def dead_def)
qed

lemma make_runnable_calm: "make_runnable t s = Some (r, s') \<Longrightarrow> calm M D s s'"
  by (auto simp: make_runnable_def kmalloc_ask_def bind_eq_Some_conv)

lemma wakeup_from_calm: "wakeup_from addr i s = Some s' \<Longrightarrow> calm M D s s'"
proof (induction rule: wakeup_from.raw_induct [rotated, consumes 1])
  case (1 wk a i s s')
  show ?case
    using 1(2) by (auto simp: bind_eq_Some_conv split: if_splits dest!: make_runnable_calm [of _ _ _ _ M D] 1(1)) (blast intro: calm_trans)+
qed

lemma thread_wakeup_calm: "thread_wakeup addr s = Some s' \<Longrightarrow> calm M D s s'"
  by (auto simp: thread_wakeup_def bind_eq_Some_conv dest: wakeup_from_calm)

lemma thread_wakeup_one_calm: "thread_wakeup_one addr s = Some s' \<Longrightarrow> calm M D s s'"
  by (auto simp: thread_wakeup_one_def bind_eq_Some_conv split: option.splits dest!: make_runnable_calm [of _ _ _ _ M D])

lemma table_add_calm:
  "sleepers_add t s = Some (r, s') \<Longrightarrow> calm M D s s'"
  by (auto simp: sleepers_add_def kmalloc_ask_def bind_eq_Some_conv)

lemma calm_switch_save:
  assumes "threads s t = Some x"
  shows "calm M D s (md_switch_save t x s)"
proof -
  have "upd_thread t (\<lambda>x. x\<lparr>pcb_ininterrupt := in_interrupt s\<rparr>) (s\<lparr>curthread := None\<rparr>) = Some (md_switch_save t x s)"
    using assms by (simp add: upd_thread_def md_switch_save_def)
  from calm_thread [OF this] have "calm M D (s\<lparr>curthread := None\<rparr>) (md_switch_save t x s)" by simp
  then show ?thesis by simp
qed

lemma mi_switch_out_calm:
  assumes "mi_switch_out n s = Some s'" "n \<noteq> S_ZOMB"
  shows "calm M D s s'"
proof (cases "curthread s")
  case (Some t)
  then obtain x r where x: "threads s t = Some x"
    "(case n of S_READY \<Rightarrow> make_runnable t (md_switch_save t x s) | S_SLEEP \<Rightarrow> sleepers_add t (md_switch_save t x s)
      | S_ZOMB \<Rightarrow> zombies_add t (md_switch_save t x s) | S_RUN \<Rightarrow> None) = Some (r, s')"
    using assms(1) by (auto simp: mi_switch_out_def bind_eq_Some_conv Let_def)
  then have "calm M D (md_switch_save t x s) s'"
    using assms(2) by (auto split: threadstate.splits dest: make_runnable_calm table_add_calm)
  then show ?thesis using calm_switch_save [OF x(1)] by (blast intro: calm_trans)
qed (use assms in \<open>auto simp: mi_switch_out_def bind_eq_Some_conv\<close>)

section \<open>The calls of the others\<close>

text \<open>The running thread is not in the set.\<close>

definition other :: "tid set \<Rightarrow> kern \<Rightarrow> bool" where
  "other D s \<longleftrightarrow> (\<forall>t. curthread s = Some t \<longrightarrow> t \<notin> D)"

lemma other_upd [simp]:
  "other D (s\<lparr>curspl := a\<rparr>) = other D s" "other D (s\<lparr>locks := lk\<rparr>) = other D s" "other D (s\<lparr>sems := sm\<rparr>) = other D s"
  "other D (s\<lparr>threads := th\<rparr>) = other D s" "other D (s\<lparr>numthreads := nt\<rparr>) = other D s" "other D (s\<lparr>k_nalloc := n\<rparr>) = other D s"
  "other D (s\<lparr>in_interrupt := i\<rparr>) = other D s"
  by (simp_all add: other_def)

lemma thread_sleep_calm: "thread_sleep addr k s = Some s' \<Longrightarrow> other D s \<Longrightarrow> kont_chan k \<notin> Some ` SemA ` M \<Longrightarrow> calm M D s s'"
  by (auto simp: thread_sleep_def bind_eq_Some_conv other_def intro: calm_trans [OF calm_thread mi_switch_out_calm])

lemma P_loop_calm: "P_loop m spl s = Some s' \<Longrightarrow> other D s \<Longrightarrow> m \<notin> M \<Longrightarrow> calm M D s s'"
  by (auto simp: P_loop_def bind_eq_Some_conv split: if_splits dest: thread_sleep_calm)

lemma sem_P_calm: "sem_P m s = Some s' \<Longrightarrow> other D s \<Longrightarrow> m \<notin> M \<Longrightarrow> calm M D s s'"
  by (auto simp: sem_P_def bind_eq_Some_conv dest!: P_loop_calm [of _ _ _ _ D M])

lemma sem_V_calm: "sem_V m s = Some s' \<Longrightarrow> m \<notin> M \<Longrightarrow> calm M D s s'"
  by (auto simp: sem_V_def bind_eq_Some_conv dest!: thread_wakeup_calm [of _ _ _ M D])

lemma thread_yield_calm:
  assumes "thread_yield s = Some s'" "other D s"
  shows "calm M D s s'"
proof (cases "curthread s")
  case (Some t)
  then obtain a where a: "upd_thread t (\<lambda>x. x\<lparr>t_kont := Some (K_Yield (curspl s))\<rparr>) (s\<lparr>curspl := SPL_HIGH\<rparr>) = Some a" "mi_switch_out S_READY a = Some s'"
    using assms(1) by (auto simp: thread_yield_def bind_eq_Some_conv)
  have "calm M D (s\<lparr>curspl := SPL_HIGH\<rparr>) a" using assms(2) Some by (intro calm_thread [OF a(1)]) (simp_all add: other_def)
  then show ?thesis using calm_trans [OF _ mi_switch_out_calm [OF a(2)]] by simp
qed (use assms in \<open>auto simp: thread_yield_def bind_eq_Some_conv dest!: mi_switch_out_calm [of _ _ _ M D]\<close>)

lemma acquire_loop_calm: "acquire_loop l spls s = Some s' \<Longrightarrow> other D s \<Longrightarrow> calm M D s s'"
  unfolding acquire_loop_def fold_splx by (auto simp: bind_eq_Some_conv split: if_splits dest: thread_sleep_calm)

lemma lock_acquire_calm: "lock_acquire outer l s = Some s' \<Longrightarrow> other D s \<Longrightarrow> calm M D s s'"
  by (auto simp: lock_acquire_def bind_eq_Some_conv dest!: acquire_loop_calm [of _ _ _ _ D M])

lemma lock_release_calm: "lock_release l s = Some s' \<Longrightarrow> calm M D s s'"
  by (auto simp: lock_release_def lock_do_i_hold_def bind_eq_Some_conv split: if_splits dest!: thread_wakeup_one_calm [of _ _ _ M D])

lemma lock_release_curthread: "lock_release l s = Some s' \<Longrightarrow> curthread s' = curthread s"
  by (auto simp: lock_release_def lock_do_i_hold_def bind_eq_Some_conv split: if_splits dest!: wakeup_one_curthread)

lemma cv_calm:
  "cv_wait cv l s = Some s' \<Longrightarrow> other D s \<Longrightarrow> calm M D s s'"
  "cv_signal cv l s = Some s' \<Longrightarrow> calm M D s s'" "cv_broadcast cv l s = Some s' \<Longrightarrow> calm M D s s'"
proof -
  assume "cv_wait cv l s = Some s'" "other D s"
  then obtain a where a: "lock_release l (s\<lparr>curspl := SPL_HIGH\<rparr>) = Some a" "thread_sleep (CvA cv) (K_CvWait cv l (curspl s)) a = Some s'"
    by (auto simp: cv_wait_def bind_eq_Some_conv)
  moreover have "other D a" using lock_release_curthread [OF a(1)] \<open>other D s\<close> by (simp add: other_def)
  ultimately have "calm M D (s\<lparr>curspl := SPL_HIGH\<rparr>) s'" by (intro calm_trans [OF lock_release_calm thread_sleep_calm]) auto
  then show "calm M D s s'" by simp
qed (auto simp: cv_signal_def cv_broadcast_def bind_eq_Some_conv dest!: thread_wakeup_one_calm [of _ _ _ M D]
    thread_wakeup_calm [of _ _ _ M D] lock_release_calm [of _ _ _ M D] intro: calm_trans)

lemma clock_calm:
  "clock_loop n spl s = Some s' \<Longrightarrow> other D s \<Longrightarrow> calm M D s s'" "clocksleep n s = Some s' \<Longrightarrow> other D s \<Longrightarrow> calm M D s s'"
  by (auto simp: clocksleep_def clock_loop_def split: if_splits dest!: thread_sleep_calm [of _ _ _ _ D M])

section \<open>The dispatcher and the interrupts\<close>

lemma hardclock_calm: "hardclock_tick s = Some s' \<Longrightarrow> calm M D s s'"
  by (auto simp: hardclock_tick_def bind_eq_Some_conv split: if_splits dest!: thread_wakeup_calm [of _ _ _ M D])

lemma device_calm: "device_irq m s = Some s' \<Longrightarrow> m \<notin> M \<Longrightarrow> calm M D s s'"
  by (auto simp: device_irq_def irq_exit_def bind_eq_Some_conv dest!: sem_V_calm [of _ _ _ M D])

lemma dispatch_calm: "mi_dispatch s = Some s' \<Longrightarrow> calm M D s s'"
  by (auto simp: mi_dispatch_def scheduler_def bind_eq_Some_conv split: option.splits if_splits)

lemma sleep_end_calm: "thread_sleep_end s = Some s' \<Longrightarrow> calm M D s s'"
  by (auto simp: thread_sleep_end_def bind_eq_Some_conv intro: calm_thread)

lemma cleaned_calm:
  assumes "cleaned s s'"
  shows "calm M D s s'"
proof -
  obtain zs tl where e: "s' = s\<lparr>threads := (\<lambda>u. if u \<in> set (dead s) then None else threads s u), zombies := Some zs,
      k_nalloc := Suc (k_nalloc s), tlb := tl\<rparr>" "guys zs = []" using assms by (auto simp: cleaned_def)
  then have un: "\<forall>m \<in> M. unshared m s \<longrightarrow> unshared m s'" by (auto simp: unshared_def split: if_splits)
  have pe: "pend s' u = pend s u" if "u \<notin> set (dead s)" for u using e(1) that by (simp add: pend_def)
  have nc: "pend s u = Some (Some (SemA m))" if "pend s' u = Some (Some (SemA m))" for u m
    using e(1) that by (simp add: pend_def split: if_splits)
  have "dead s' = []" "sems s' = sems s" using cleaned_simps [OF assms] by simp_all
  then show ?thesis unfolding calm_def using un pe nc by (metis disjoint_iff empty_iff list.set(1))
qed

lemma runs_pend: "runs s t x \<Longrightarrow> pend s t = Some None"
  by (simp add: runs_def pend_def)

lemma wakeup_threads: "thread_wakeup addr s = Some s' \<Longrightarrow> threads s' = threads s"
proof -
  have "wakeup_from addr i s = Some s' \<Longrightarrow> threads s' = threads s" for addr i s s'
  proof (induction rule: wakeup_from.raw_induct [rotated, consumes 1])
    case (1 wk a i s s')
    show ?case
      using 1(2) by (auto simp: bind_eq_Some_conv make_runnable_def kmalloc_ask_def split: if_splits dest!: 1(1))
  qed
  then show "thread_wakeup addr s = Some s' \<Longrightarrow> threads s' = threads s" by (auto simp: thread_wakeup_def bind_eq_Some_conv)
qed

lemma hardclock_fields:
  assumes "hardclock_tick s = Some s'"
  shows "threads s' = threads s" "curthread s' = curthread s"
  using assms by (auto simp: hardclock_tick_def bind_eq_Some_conv split: if_splits dest: wakeup_curthread wakeup_threads)

lemma sem_V_pend: "sem_V m s = Some s' \<Longrightarrow> pend s' u = pend s u"
  by (auto simp: sem_V_def bind_eq_Some_conv pend_def dest!: wakeup_threads)

lemma timer_calm:
  assumes "timer_irq s = Some s'" "interruptible s"
  shows "calm M D s s'"
proof -
  obtain a where a: "hardclock_tick (s\<lparr>curspl := SPL_HIGH, in_interrupt := 1\<rparr>) = Some a"
    "(case curthread a of
        None \<Rightarrow> do { s1 \<leftarrow> mi_switch_out S_READY (a\<lparr>curspl := SPL_HIGH\<rparr>); Some (irq_exit (in_interrupt s) (curspl s) (snd (splx (curspl a) s1))) }
      | Some t \<Rightarrow> do {
          s1 \<leftarrow> upd_thread t (\<lambda>x. x\<lparr>t_kont := Some (K_Preempt (curspl a) (in_interrupt s) (curspl s))\<rparr>) (a\<lparr>curspl := SPL_HIGH\<rparr>);
          mi_switch_out S_READY s1 }) = Some s'"
    using assms(1) by (auto simp: timer_irq_def bind_eq_Some_conv Let_def)
  note h = hardclock_fields [OF a(1), simplified]
  have c: "calm M D s (a\<lparr>curspl := SPL_HIGH\<rparr>)" using hardclock_calm [OF a(1), of M D] by simp
  have "calm M D (a\<lparr>curspl := SPL_HIGH\<rparr>) s'"
  proof (cases "curthread a")
    case (Some t)
    then obtain b where b: "upd_thread t (\<lambda>x. x\<lparr>t_kont := Some (K_Preempt (curspl a) (in_interrupt s) (curspl s))\<rparr>) (a\<lparr>curspl := SPL_HIGH\<rparr>) = Some b"
      "mi_switch_out S_READY b = Some s'" using a(2) by (auto simp: bind_eq_Some_conv)
    have "t_kont x = None" if "threads s t = Some x" for x using assms(2) Some h that by (simp add: interruptible_def)
    then have "calm M D (a\<lparr>curspl := SPL_HIGH\<rparr>) b" by (intro calm_thread [OF b(1)]) (simp_all add: h)
    then show ?thesis using calm_trans [OF _ mi_switch_out_calm [OF b(2)]] by simp
  next
    case None
    then show ?thesis using a(2) by (auto simp: irq_exit_def bind_eq_Some_conv dest!: mi_switch_out_calm [of _ _ _ M D])
  qed
  then show ?thesis using c calm_trans by blast
qed

section \<open>The units of a semaphore\<close>

text \<open>What \<open>P\<close> does for thread \<open>t\<close>, at once or when the thread resumes: it takes one unit, or it waits.\<close>

definition P_effect :: "nat \<Rightarrow> tid \<Rightarrow> tid set \<Rightarrow> kern \<Rightarrow> kern \<Rightarrow> bool" where
  "P_effect m t D s s' \<longleftrightarrow>
     calm (- {m}) D s s' \<and>
     (\<forall>u. u \<noteq> t \<and> pend s' u = Some (Some (SemA m)) \<longrightarrow> pend s u = Some (Some (SemA m))) \<and> (unshared m s \<longrightarrow> unshared m s') \<and>
     (\<exists>c. sems s m = Some c \<and>
       (if c = 0 then sems s' m = Some 0 \<and> pend s' t = Some (Some (SemA m)) else sems s' m = Some (c - 1) \<and> pend s' t = Some None))"

lemma P_loop_zombies: "P_loop m spl s = Some s' \<Longrightarrow> dead s' = dead s"
  by (auto simp: P_loop_def thread_sleep_def mi_switch_out_def sleepers_add_def md_switch_save_def upd_thread_def kmalloc_ask_def
    bind_eq_Some_conv dead_def split: if_splits option.splits)

lemma thread_sleep_pend:
  assumes "thread_sleep addr k s = Some s'" "curthread s = Some t"
  shows "pend s' t = Some (kont_chan k)"
  using assms by (auto simp: thread_sleep_def mi_switch_out_def sleepers_add_def md_switch_save_def upd_thread_def kmalloc_ask_def
    bind_eq_Some_conv pend_def)

lemma P_loop_pend:
  assumes "P_loop m spl s = Some s'" "curthread s = Some t" "u \<noteq> t"
  shows "pend s' u = pend s u"
  using assms by (auto simp: P_loop_def thread_sleep_def mi_switch_out_def sleepers_add_def md_switch_save_def upd_thread_def kmalloc_ask_def
    bind_eq_Some_conv pend_def split: if_splits)

lemma P_loop_sems:
  assumes "P_loop m spl s = Some s'" "sems s m = Some 0"
  shows "sems s' = sems s"
  using assms by (auto simp: P_loop_def thread_sleep_def mi_switch_out_def sleepers_add_def md_switch_save_def upd_thread_def kmalloc_ask_def
    bind_eq_Some_conv split: option.splits)

lemma P_loop_unshared:
  assumes "P_loop m spl s = Some s'" "unshared n s"
  shows "unshared n s'"
  using assms by (auto simp: P_loop_def thread_sleep_def mi_switch_out_def sleepers_add_def
    md_switch_save_def upd_thread_def kmalloc_ask_def bind_eq_Some_conv unshared_def split: if_splits option.splits)

lemma P_loop_effect:
  assumes "P_loop m spl s = Some s'" "curthread s = Some t" "pend s t = Some None" "t \<notin> D"
  shows "P_effect m t D s s'"
proof -
  have o: "other D s" using assms(2,4) by (simp add: other_def)
  note r = P_loop_calm [OF assms(1) o, of "- {m}"] P_loop_pend [OF assms(1,2)] P_loop_unshared [OF assms(1), of m]
  obtain c where c: "sems s m = Some c" using assms(1) by (auto simp: P_loop_def bind_eq_Some_conv)
  show ?thesis
  proof (cases "c = 0")
    case True
    then have "thread_sleep (SemA m) (K_P m spl) s = Some s'" using assms(1) c by (simp add: P_loop_def)
    then show ?thesis using True c r P_loop_sems [OF assms(1)] thread_sleep_pend [OF _ assms(2), of _ _ s'] by (auto simp: P_effect_def)
  next
    case False
    then have "s' = s\<lparr>sems := (sems s)(m \<mapsto> c - 1), curspl := spl\<rparr>" using assms(1) c by (auto simp: P_loop_def bind_eq_Some_conv)
    then show ?thesis using False c assms(3) r(1,3) by (simp add: P_effect_def pend_def)
  qed
qed

lemma sem_P_effect:
  assumes "sem_P m s = Some s'" "runs s t x" "t \<notin> D"
  shows "P_effect m t D s s'" "dead s' = dead s"
proof -
  have p: "P_loop m (curspl s) (s\<lparr>curspl := SPL_HIGH\<rparr>) = Some s'" using assms(1) by (auto simp: sem_P_def bind_eq_Some_conv)
  have "pend (s\<lparr>curspl := SPL_HIGH\<rparr>) t = Some None" using runs_pend [OF assms(2)] by (simp add: pend_def)
  then have "P_effect m t D (s\<lparr>curspl := SPL_HIGH\<rparr>) s'" using P_loop_effect [OF p _ _ assms(3)] runsD(1) [OF assms(2)] by simp
  then show "P_effect m t D s s'" by (simp add: P_effect_def pend_def unshared_def)
  show "dead s' = dead s" using P_loop_zombies [OF p] by (simp add: dead_def)
qed

lemma sem_V_effect:
  assumes "sem_V m s = Some s'"
  shows "calm (- {m}) D s s'" "\<exists>c. sems s m = Some c \<and> sems s' m = Some (c + 1)" "unshared m s \<Longrightarrow> unshared m s'"
proof -
  show "calm (- {m}) D s s'" using sem_V_calm [OF assms, of "- {m}" D] by simp
  obtain c a where a: "sems s m = Some c" "thread_wakeup (SemA m) (s\<lparr>curspl := SPL_HIGH, sems := (sems s)(m \<mapsto> c + 1)\<rparr>) = Some a"
    "s' = a\<lparr>curspl := curspl s\<rparr>"
    using assms by (auto simp: sem_V_def bind_eq_Some_conv dest!: cint_SomeD)
  have "sems a m = Some (c + 1)" using thread_wakeup_calm [OF a(2), of "{m}" "{}"] by (simp add: calm_def)
  then show "\<exists>c. sems s m = Some c \<and> sems s' m = Some (c + 1)" using a by simp
  show "unshared m s \<Longrightarrow> unshared m s'" using thread_wakeup_calm [OF a(2), of "{m}" "{}"] a(3) by (simp add: calm_def unshared_def)
qed

lemma popped_calm:
  assumes "threads s t = Some x" "t \<notin> D \<or> Option.bind (t_kont x) kont_chan = None"
  shows "calm M D s (popped t x s)"
proof -
  have "upd_thread t (\<lambda>x. x\<lparr>t_kont := None\<rparr>) s = Some (popped t x s)" using assms(1) by (simp add: upd_thread_def popped_def)
  from calm_thread [OF this] show ?thesis using assms by auto
qed

lemma resume_effect:
  assumes "kinv s" "curthread s = Some t" "threads s t = Some x" "t_kont x = Some k" "resume s = Some s'"
  shows "k = K_P m spl \<Longrightarrow> t \<notin> D \<Longrightarrow> P_effect m t D s s' \<and> t \<notin> set (dead s')"
    "kont_chan k = None \<Longrightarrow> calm M D s s'"
    "(\<And>m spl. k \<noteq> K_P m spl) \<Longrightarrow> t \<notin> D \<Longrightarrow> calm M D s s'"
proof -
  from popped_cleaned [OF assms(1-4)] obtain a where
    a: "mi_switch_in (popped t x s) = Some a" "cleaned (popped t x s) a" "t \<notin> set (dead s)" .
  note cs = cleaned_simps [OF a(2)]
  have ca: "calm M D s a" if "t \<notin> D \<or> kont_chan k = None" for M D
    using calm_trans [OF popped_calm cleaned_calm] assms(3,4) a(2) that by auto
  have u: "upd_thread t (\<lambda>x. x\<lparr>t_kont := None\<rparr>) s = Some (popped t x s)" using assms(3) by (simp add: upd_thread_def popped_def)
  have pp: "dead (popped t x s) = dead s" "sems (popped t x s) = sems s" "curthread (popped t x s) = Some t"
    "threads (popped t x s) t = Some (x\<lparr>t_kont := None\<rparr>)" using assms(2) by (simp_all add: popped_def dead_def)
  have ct: "curthread a = Some t" "threads a t = Some (x\<lparr>t_kont := None\<rparr>)" using cs pp a(3) by simp_all
  show "P_effect m t D s s' \<and> t \<notin> set (dead s')" if k: "k = K_P m spl" and D: "t \<notin> D"
  proof -
    obtain b where b: "thread_sleep_end a = Some b" "P_loop m spl b = Some s'"
      using assms(2-5) k u a(1) by (auto simp: resume_def bind_eq_Some_conv)
    have bt: "curthread b = Some t" "pend b t = Some None" "sems b = sems s" "dead b = []"
      using b(1) ct cs(7,8) pp by (auto simp: thread_sleep_end_def upd_thread_def pend_def dead_def)
    have sb: "calm M D s b" for M using calm_trans [OF ca sleep_end_calm [OF b(1)]] D by blast
    then have "calm M D b s' \<Longrightarrow> calm M D s s'" for M using calm_trans by blast
    moreover have "pend b u = Some (Some (SemA m)) \<Longrightarrow> pend s u = Some (Some (SemA m))" for u using sb [of UNIV] by (simp add: calm_def)
    moreover have "unshared m s \<Longrightarrow> unshared m b"
      using calm_trans [OF ca sleep_end_calm [OF b(1)], of "{}" UNIV] by (simp add: calm_def)
    ultimately show ?thesis using P_loop_effect [OF b(2) bt(1,2) D] bt(3,4) P_loop_zombies [OF b(2)] by (simp add: P_effect_def)
  qed
  show "calm M D s s'" if k: "kont_chan k = None"
    using assms(2-5) k u a(1) ca calm_trans [OF popped_calm [of s t x]]
    by (cases k) (auto simp: resume_def bind_eq_Some_conv mi_threadstart_def as_activate_def irq_exit_def split: if_splits intro: popped_calm)
  show "calm M D s s'" if k: "\<And>m spl. k \<noteq> K_P m spl" and D: "t \<notin> D"
  proof (cases "kont_chan k")
    case None
    then show ?thesis by (rule \<open>kont_chan k = None \<Longrightarrow> calm M D s s'\<close>)
  next
    case (Some ch)
    obtain b where b: "thread_sleep_end a = Some b" "curthread b = Some t"
      using ct by (auto simp: thread_sleep_end_def upd_thread_def)
    then have "other D b" using D by (simp add: other_def)
    moreover have "calm M D s b" using calm_trans [OF ca sleep_end_calm [OF b(1)]] D by blast
    ultimately show ?thesis using assms(2-5) k u a(1) b(1) Some calm_trans [of M D s b s']
      by (cases k) (auto simp: resume_def dest: clock_calm acquire_loop_calm lock_acquire_calm)
  qed
qed

section \<open>Creation and exit\<close>

text \<open>The semaphores and the threads in question have been created before.\<close>

definition older :: "nat set \<Rightarrow> kern \<Rightarrow> bool" where
  "older A s \<longleftrightarrow> (\<forall>i \<in> A. i < next_id s)"

text \<open>The semaphores in \<open>M\<close> are not created between the two states.\<close>

definition clear :: "nat set \<Rightarrow> kern \<Rightarrow> kern \<Rightarrow> bool" where
  "clear M s s' \<longleftrightarrow> (\<forall>m \<in> M. m < next_id s \<or> next_id s' \<le> m)"

lemma older_clear: "older M s \<Longrightarrow> clear M s s'" by (simp add: older_def clear_def)

lemma asked_calm: "asked s s' \<Longrightarrow> calm M D s s'"
  by (auto simp: asked_def)

lemma sem_create_calm:
  assumes "sem_create c s = Some (p, s')" "clear M s s'"
  shows "calm M D s s'"
proof (cases p)
  case None
  then show ?thesis using sem_create_cases [OF assms(1)] asked_calm by simp
next
  case (Some m)
  then obtain k where k: "m = next_id s" "s' = s\<lparr>k_nalloc := k, next_id := Suc m, sems := (sems s)(m \<mapsto> c)\<rparr>"
    using sem_create_cases [OF assms(1)] by auto
  then have "m \<notin> M" using assms(2) by (auto simp: clear_def)
  moreover have "s' = (s\<lparr>k_nalloc := k, next_id := Suc m\<rparr>)\<lparr>sems := (sems (s\<lparr>k_nalloc := k, next_id := Suc m\<rparr>))(m \<mapsto> c)\<rparr>"
    using k(2) by simp
  ultimately show ?thesis using calm_sems(1) [of m M D s "s\<lparr>k_nalloc := k, next_id := Suc m\<rparr>" c] by simp
qed

lemma create_calm:
  "lock_create s = Some (p, s') \<Longrightarrow> calm M D s s'" "cv_create s = Some (p, s') \<Longrightarrow> calm M D s s'"
  by (auto simp: lock_create_def cv_create_def kmalloc_struct_def kmalloc_ask_def split: if_splits option.splits)

lemma created_calm:
  assumes "created name n w s s'" "clear M s s'" "older D s"
  shows "calm M D s s'"
proof -
  have n: "n = next_id s" and th: "threads s' = (threads s)(n \<mapsto>
       \<lparr>t_name = name, t_sleepaddr = None, t_stack = None, t_vmspace = None, t_cwd = None, t_pid = max_pid s,
        t_child = replicate MAX_CHILD None, t_parent = None, t_wait = w, t_kont = None, pcb_ininterrupt = 0\<rparr>)"
    and o: "lock_sem s' = lock_sem s" "same_places s s'"
    and w: "case w of None \<Rightarrow> sems s' = sems s | Some m \<Rightarrow> n < m \<and> m < next_id s' \<and> sems s' = (sems s)(m \<mapsto> 0)"
    using assms(1) by (auto simp: created_def)
  have "\<forall>m \<in> M. w \<noteq> Some m \<and> sems s' m = sems s m" using w n assms(2) by (auto simp: clear_def split: option.splits)
  then have sm: "(\<forall>m \<in> M. sems s' m = sems s m) \<and> (\<forall>m \<in> M. unshared m s \<longrightarrow> unshared m s')" using th o(1) by (simp add: unshared_def)
  have pe: "\<forall>u \<in> D. pend s' u = pend s u" using th n assms(3) by (auto simp: older_def pend_def)
  have nc: "pend s u = Some (Some (SemA m))" if "pend s' u = Some (Some (SemA m))" for u m
    using that th by (simp add: pend_def split: if_splits)
  have d: "dead s' = dead s" using o(2) by (simp add: same_places_simps)
  show ?thesis unfolding calm_def d using sm pe nc by blast
qed

lemma add_child_calm: "add_child n s = Some s' \<Longrightarrow> n \<notin> D \<Longrightarrow> calm M D s s'"
proof -
  assume "add_child n s = Some s'" "n \<notin> D"
  then obtain cur i a b p q where "(if i < MAX_CHILD then upd_thread cur (\<lambda>x. x\<lparr>t_child := (t_child x)[i := Some n]\<rparr>) s else Some s) = Some a"
    "upd_thread n (\<lambda>y. y\<lparr>t_parent := Some cur\<rparr>) a = Some b" "set_parentpid p q b = Some s'"
    by (simp add: add_child_def bind_eq_Some_conv) blast
  then have "calm M D s a" "calm M D a b" "calm M D b s'"
    by (auto simp: set_parentpid_def bind_eq_Some_conv split: if_splits intro: calm_thread)
  then show ?thesis by (blast intro: calm_trans)
qed

lemma inherit_cwd_calm:
  assumes "inherit_cwd n s = Some s'"
  shows "calm M D s s'"
proof -
  have u: "upd_thread n (\<lambda>y. y\<lparr>t_cwd := v\<rparr>) a = Some s' \<Longrightarrow> calm M D a s'" for v a by (rule calm_thread, assumption) simp_all
  show ?thesis using assms by (auto simp: inherit_cwd_def vnode_incref_def bind_eq_Some_conv split: option.splits dest!: u)
qed

lemma exit_resources_calm:
  "exit_vmspace t s = Some s' \<Longrightarrow> calm M D s s'" "exit_cwd t s = Some s' \<Longrightarrow> calm M D s s'"
proof -
  assume a: "exit_vmspace t s = Some s'"
  obtain x where x: "threads s t = Some x" using a by (auto simp: exit_vmspace_def bind_eq_Some_conv)
  show "calm M D s s'"
  proof (cases "t_vmspace x")
    case (Some p)
    then obtain b where "upd_thread t (\<lambda>x. x\<lparr>t_vmspace := None\<rparr>) s = Some b" "s' = b\<lparr>spaces := (spaces b)(p := None)\<rparr>"
      using a x by (auto simp: exit_vmspace_def bind_eq_Some_conv)
    then show ?thesis using calm_thread [of t _ s b D M] by simp
  qed (use a x in \<open>simp add: exit_vmspace_def\<close>)
next
  assume a: "exit_cwd t s = Some s'"
  obtain x where x: "threads s t = Some x" using a by (auto simp: exit_cwd_def bind_eq_Some_conv)
  show "calm M D s s'"
  proof (cases "t_cwd x")
    case (Some v)
    then obtain b f where b: "vnode_decref v s = Some (f, b)" "upd_thread t (\<lambda>x. x\<lparr>t_cwd := None\<rparr>) b = Some s'"
      using a x by (auto simp: exit_cwd_def bind_eq_Some_conv)
    then have "calm M D s b" "calm M D b s'" using calm_thread [OF b(2), of D M] by (auto simp: vnode_decref_def bind_eq_Some_conv split: if_splits)
    then show ?thesis by (rule calm_trans)
  qed (use a x in \<open>simp add: exit_cwd_def\<close>)
qed

lemma calm_fields:
  assumes "calm M D s a" "\<forall>u \<in> D. pend s' u = pend a u" "sems s' = sems a" "\<And>m. unshared m a \<Longrightarrow> m \<in> M \<Longrightarrow> unshared m s'" "set (dead s') \<inter> D \<subseteq> set (dead s)"
    "\<And>u. pend s' u \<noteq> None \<Longrightarrow> pend s' u = pend a u"
  shows "calm M D s s'"
proof -
  have "pend s u = Some (Some (SemA m))" if "m \<in> M" "pend s' u = Some (Some (SemA m))" for u m
    using that assms(1) assms(6) [of u] unfolding calm_def by simp
  then show ?thesis using assms(1-5) by (auto simp: calm_def)
qed

lemma fork_next_id:
  assumes "upd_thread n f0 (a\<lparr>k_nalloc := j\<rparr>) = Some b1" "inherit_cwd n b1 = Some b2" "md_initpcb n b2 = Some b3" "add_child n b3 = Some b"
    "fork_reserve n (b\<lparr>curspl := SPL_HIGH\<rparr>) = Some (q, f)"
    "(case q of
        Inr u \<Rightarrow> do { k \<leftarrow> cint (numthreads f + 1); Some (Inr n, snd (splx (curspl b) (f\<lparr>numthreads := k\<rparr>))) }
      | Inl e \<Rightarrow> do { s \<leftarrow> fork_fail n (snd (splx (curspl b) f)); Some (Inl e, s) }) = Some (r, s')"
  shows "next_id s' = next_id a"
proof -
  have u: "upd_thread t g x = Some y \<Longrightarrow> next_id y = next_id x" for t g x y by (auto simp: upd_thread_def bind_eq_Some_conv)
  have "next_id b1 = next_id a" using u [OF assms(1)] by simp
  moreover have "next_id b2 = next_id b1" using assms(2) by (auto simp: inherit_cwd_def vnode_incref_def bind_eq_Some_conv split: option.splits dest!: u)
  moreover have "next_id b3 = next_id b2" using assms(3) u unfolding md_initpcb_def by blast
  moreover have "next_id b = next_id b3"
  proof -
    obtain cur i x y p q where "(if i < MAX_CHILD then upd_thread cur (\<lambda>x. x\<lparr>t_child := (t_child x)[i := Some n]\<rparr>) b3 else Some b3) = Some x"
      "upd_thread n (\<lambda>y. y\<lparr>t_parent := Some cur\<rparr>) x = Some y" "set_parentpid p q y = Some b"
      using assms(4) by (simp add: add_child_def bind_eq_Some_conv) blast
    then show ?thesis by (auto simp: set_parentpid_def bind_eq_Some_conv split: if_splits dest!: u)
  qed
  moreover have "next_id f = next_id b" using fork_reserve_fields(5) [OF assms(5)] by simp
  moreover have "next_id s' = next_id f"
  proof (cases q)
    case (Inl err)
    then obtain y where y: "fork_fail n (f\<lparr>curspl := curspl b\<rparr>) = Some s'" "threads f n = Some y"
      using assms(6) by (auto simp: bind_eq_Some_conv fork_fail_def)
    then show ?thesis by (cases "t_cwd y") (auto simp: fork_fail_def vnode_decref_def bind_eq_Some_conv split: if_splits)
  next
    case (Inr u)
    then show ?thesis using assms(6) by (auto simp: bind_eq_Some_conv)
  qed
  ultimately show ?thesis by simp
qed

lemma thread_fork_calm:
  assumes "kern_ok s" "runs s t x" "numthreads s + int (length (dead s)) + 1 < 2 ^ 27" "thread_fork name s = Some (r, s')"
    "clear M s s'" "older D s"
  shows "calm M D s s'"
proof -
  have d: "dead s' = dead s" using thread_fork_inv [OF _ _ assms(2,3,4)] assms(1) by (simp add: kern_ok_def forked_def)
  show ?thesis using assms(4)
  proof (cases rule: thread_fork_parts)
    case none
    then show ?thesis by (simp add: asked_calm)
  next
    case (stack n w a)
    have "n \<notin> D" using stack(1) assms(6) by (auto simp: created_def older_def)
    moreover have "clear M s a" using assms(5) stack(3) by (simp add: clear_def)
    ultimately show ?thesis using d stack(3) by (intro calm_fields [OF created_calm [OF stack(1) _ assms(6)]]) (auto simp: pend_def unshared_def split: if_splits)
  next
    case (fork n w a g b1 b2 b3 b q f)
    note b = fork(3-8)
    have n: "n \<notin> D" using fork(1) assms(6) by (auto simp: created_def older_def)
    have cl: "clear M s a" using assms(5) fork_next_id [OF b] by (simp add: clear_def)
    have "calm M D (a\<lparr>k_nalloc := Suc (k_nalloc a)\<rparr>) b1" by (rule calm_thread [OF b(1)]) simp_all
    moreover have "calm M D b2 b3" using b(3) unfolding md_initpcb_def by (rule calm_thread) (use n in simp_all)
    ultimately have cb: "calm M D s b"
      using created_calm [OF fork(1) cl assms(6)] inherit_cwd_calm [OF b(2), of M D] add_child_calm [OF b(4) n, of M] calm_trans by (metis calm_upd(8))
    note f = fork_reserve_fields [OF b(5), simplified]
    have e: "(\<forall>u \<in> D. threads s' u = threads b u) \<and> sems s' = sems b \<and> lock_sem s' = lock_sem b \<and> (\<forall>u x. threads s' u = Some x \<longrightarrow> threads b u = Some x)"
    proof (cases q)
      case (Inl err)
      then have "fork_fail n (f\<lparr>curspl := curspl b\<rparr>) = Some s'" using b(6) by (auto simp: bind_eq_Some_conv)
      then show ?thesis using fork_fail_fields [of n "f\<lparr>curspl := curspl b\<rparr>" s'] f n by (auto split: if_splits)
    next
      case (Inr u)
      then obtain k where "s' = f\<lparr>numthreads := k, curspl := curspl b\<rparr>" using b(6) by (auto simp: bind_eq_Some_conv)
      then show ?thesis using f by simp
    qed
    have u: "unshared m s'" if "unshared m b" for m using e by (intro unshared_mono [OF that]) blast+
    have p: "pend s' u = pend b u" if "pend s' u \<noteq> None" for u
    proof -
      from that obtain y where y: "threads s' u = Some y" by (auto simp: pend_def)
      moreover have "threads b u = Some y" using e y by blast
      ultimately show ?thesis by (simp add: pend_def)
    qed
    show ?thesis by (rule calm_fields [OF cb _ _ u _ p]) (use d e [THEN conjunct1] e [THEN conjunct2, THEN conjunct1] in \<open>simp_all add: pend_def\<close>)
  qed
qed

lemma thread_exit_calm:
  assumes "kern_ok s" "thread_exit s = Some s'" "runs s t x" "t \<notin> D" "\<forall>m \<in> M. unshared m s"
  shows "calm M D s s'"
  using assms(2,3)
proof (cases rule: thread_exit_parts)
  case (1 b w c l d e f)
  note b = 1 and r = runsD [OF assms(3)]
  have sa: "calm M D s (s\<lparr>threads := (threads s)(t \<mapsto> x\<lparr>t_parent := None\<rparr>)\<rparr>)" for D
    by (rule calm_thread [of t "\<lambda>x. x\<lparr>t_parent := None\<rparr>"]) (use r in \<open>simp_all add: upd_thread_def\<close>)
  have sb: "calm M D s b" for D using b(1) sa by (auto simp: set_exited_def bind_eq_Some_conv)
  have "w \<notin> M" using assms(5) r(2) b(2) by (auto simp: unshared_def)
  then have sc: "calm M D s c" for D using calm_trans [OF sb sem_V_calm [OF b(3)]] by blast
  then have "\<forall>m \<in> M. unshared m c" using sc [of "{}"] assms(5) by (simp add: calm_def)
  then have "l \<notin> M" using b(4) by (auto simp: unshared_def)
  then have sd: "calm M D s d" using calm_trans [OF sc sem_V_calm [OF b(5)]] by blast
  have "calm M D d e" using exit_resources_calm(1) [OF b(6), of M D] by simp
  then have sf: "calm M D s f" using calm_trans [OF sd] calm_trans exit_resources_calm(2) [OF b(7), of M D] by blast
  obtain y where y: "threads f t = Some y" "threads s' = (threads f)(t \<mapsto> y\<lparr>pcb_ininterrupt := in_interrupt f\<rparr>)" "sems s' = sems f" "lock_sem s' = lock_sem f"
    using b(8,9) by (auto simp: mi_switch_out_def zombies_add_def md_switch_save_def kmalloc_ask_def bind_eq_Some_conv Let_def)
  have "unshared m f \<Longrightarrow> unshared m s'" for m using y by (auto simp: unshared_def)
  moreover have "pend s' u = pend f u" for u using y by (simp add: pend_def)
  moreover have "dead s' = dead s @ [t]" using thread_exit_inv [OF _ _ assms(3,2)] assms(1) by (simp add: kern_ok_def)
  ultimately show ?thesis using y(3) assms(4) by (intro calm_fields [OF sf]) auto
qed

section \<open>All calls\<close>

text \<open>A call that does not wait for or signal a semaphore in \<open>M\<close> by its pointer.\<close>

fun op_avoids :: "nat set \<Rightarrow> kop \<Rightarrow> bool" where
  "op_avoids M (Op_P m) \<longleftrightarrow> m \<notin> M"
| "op_avoids M (Op_V m) \<longleftrightarrow> m \<notin> M"
| "op_avoids M _ \<longleftrightarrow> True"

lemma kcall_calm:
  assumes "kern_ok s" "runs s t x" "t \<notin> D" "kcall_pre op t s" "kcall op s = Some s'" "op_avoids M op" "\<forall>m \<in> M. unshared m s" "clear M s s'" "older D s"
  shows "calm M D s s'"
proof -
  have o: "other D s" using runsD(1) [OF assms(2)] assms(3) by (simp add: other_def)
  show ?thesis
  proof (cases op)
    case (Op_Fork name)
    then obtain r where "thread_fork name s = Some (r, s')" using assms(5) by auto
    moreover have "numthreads s + int (length (dead s)) + 1 < 2 ^ 27" using assms(4) Op_Fork by (simp add: kcall_pre_def)
    ultimately show ?thesis using thread_fork_calm [OF assms(1,2)] assms(8,9) by blast
  qed (use assms o in \<open>auto intro: sem_P_calm sem_V_calm lock_acquire_calm lock_release_calm cv_calm thread_yield_calm clock_calm
      thread_exit_calm dest: sem_create_calm create_calm\<close>)
qed

section \<open>Fresh semaphores\<close>

text \<open>Nobody knows or waits for a semaphore that has not been created yet.\<close>

definition fresh_ok :: "kern \<Rightarrow> bool" where
  "fresh_ok s \<longleftrightarrow> (\<forall>m. next_id s \<le> m \<longrightarrow> unshared m s \<and> (\<forall>u. pend s u \<noteq> Some (Some (SemA m))))"

lemma calm_fresh:
  assumes "calm {m. next_id s' \<le> m} {} s s'" "next_id s \<le> next_id s'" "fresh_ok s"
  shows "fresh_ok s'"
  using assms unfolding calm_def fresh_ok_def by auto

lemma resume_next_id: "resume s = Some s' \<Longrightarrow> next_id s' = next_id s"
  using resume_held [of s s' None] by (simp add: keeps_held_def same_ids_def)

lemma resume_fresh:
  assumes "kern_ok s" "curthread s = Some t" "switching s" "resume s = Some s'" "fresh_ok s"
  shows "fresh_ok s'"
proof -
  obtain x k where x: "threads s t = Some x" "t_kont x = Some k" using assms(2,3) by (auto simp: switching_def split: option.splits)
  have inv: "kinv s" using assms(1) by (simp add: kern_ok_def)
  note e = resume_effect [OF inv assms(2) x assms(4)]
  have "calm {m. next_id s \<le> m} {} s s'"
  proof (cases "\<exists>m spl. k = K_P m spl")
    case True
    then obtain m spl where k: "k = K_P m spl" by blast
    then have pe: "P_effect m t {} s s'" using e(1) by simp
    then obtain c where "sems s m = Some c" by (auto simp: P_effect_def)
    then have "m < next_id s" using assms(1) by (force simp: kern_ok_def ids_ok_def not_less [symmetric])
    then show ?thesis using pe calm_mono [of "- {m}" "{}" s s'] by (auto simp: P_effect_def)
  next
    case False
    then show ?thesis by (intro e(3)) auto
  qed
  then show ?thesis using calm_fresh assms(5) resume_next_id [OF assms(4)] by simp
qed

lemma thread_fork_next_id: "thread_fork name s = Some (r, s') \<Longrightarrow> next_id s \<le> next_id s'"
  by (erule thread_fork_parts) (auto simp: created_def asked_fields dest: fork_next_id)

lemma thread_exit_next_id:
  assumes "thread_exit s = Some s'" "runs s t x"
  shows "next_id s' = next_id s"
  using assms
proof (cases rule: thread_exit_parts)
  case (1 b w c l d e f)
  have v: "sem_V m x = Some y \<Longrightarrow> next_id y = next_id x" for m x y using sem_V_quiet [of m x y] by (simp add: quiet_def same_ids_def)
  have "next_id b = next_id s" using 1(1) by (auto simp: set_exited_def bind_eq_Some_conv)
  moreover have "next_id e = next_id d"
    using 1(6) by (auto simp: exit_vmspace_def upd_thread_def bind_eq_Some_conv split: option.splits)
  moreover have "next_id f = next_id e"
  proof -
    obtain y where y: "threads e t = Some y" using 1(7) by (auto simp: exit_cwd_def bind_eq_Some_conv)
    then show ?thesis using 1(7)
      by (cases "t_cwd y") (auto simp: exit_cwd_def vnode_decref_def upd_thread_def bind_eq_Some_conv split: if_splits)
  qed
  moreover have "next_id s' = next_id f" using mi_switch_out_quiet [OF 1(8)] by (simp add: quiet_def same_ids_def)
  ultimately show ?thesis using v [OF 1(3)] v [OF 1(5)] by simp
qed

lemma kcall_next_id:
  assumes "runs s t x" "kcall op s = Some s'"
  shows "next_id s \<le> next_id s'"
proof -
  have q: "quiet s s' \<Longrightarrow> next_id s \<le> next_id s'" "keeps_held u s s' \<Longrightarrow> next_id s \<le> next_id s'" for u
    by (auto simp: quiet_def keeps_held_def same_ids_def)
  show ?thesis
  proof (cases op)
    case (Op_SemCreate c)
    then obtain p where "sem_create c s = Some (p, s')" using assms(2) by auto
    then show ?thesis using sem_create_cases [of c s p s'] by (cases p) (auto dest: asked_fields(12))
  next
    case Op_LockCreate
    then show ?thesis using assms(2) by (auto simp: lock_create_def kmalloc_struct_def kmalloc_ask_def split: if_splits)
  next
    case Op_CvCreate
    then show ?thesis using assms(2) by (auto simp: cv_create_def kmalloc_struct_def kmalloc_ask_def split: if_splits)
  next
    case (Op_Fork name)
    then show ?thesis using assms(2) by (auto dest: thread_fork_next_id)
  next
    case Op_Exit
    then show ?thesis using thread_exit_next_id [OF _ assms(1)] assms(2) by simp
  next
    case (Op_Acquire l)
    then show ?thesis using assms(2) q(2) lock_acquire_held [of "[]" l s s' None] by auto
  qed (use assms(2) in \<open>auto dest: q sem_P_quiet sem_V_quiet lock_release_held cv_held thread_yield_quiet clock_quiet(2)\<close>)
qed

lemma kcall_fresh:
  assumes "kern_ok s" "runs s t x" "kcall_pre op t s" "kcall op s = Some s'" "fresh_ok s"
  shows "fresh_ok s'"
proof -
  note n = kcall_next_id [OF assms(2,4)]
  have "sems s m = None" if "next_id s' \<le> m" for m using assms(1) n that by (simp add: kern_ok_def ids_ok_def)
  then have "op_avoids {m. next_id s' \<le> m} op" using assms(4) by (cases op) (auto simp: sem_P_def sem_V_def)
  moreover have "\<forall>m \<in> {m. next_id s' \<le> m}. unshared m s" using assms(5) n by (simp add: fresh_ok_def)
  ultimately have "calm {m. next_id s' \<le> m} {} s s'"
    by (intro kcall_calm [OF assms(1,2) _ assms(3,4)]) (auto simp: clear_def older_def)
  then show ?thesis using calm_fresh n assms(5) by blast
qed

lemma kstep_fresh:
  assumes "kern_ok s" "kstep s s'" "fresh_ok s"
  shows "fresh_ok s'"
  using assms(2)
proof (cases rule: kstep.cases)
  case (step_call t x op)
  then show ?thesis using kcall_fresh [OF assms(1)] assms(3) by blast
next
  case step_dispatch
  then show ?thesis using calm_fresh [OF dispatch_calm] dispatch_quiet [of s s'] assms(3) by (simp add: quiet_def same_ids_def)
next
  case (step_resume t)
  then show ?thesis using resume_fresh [OF assms(1)] assms(3) by blast
next
  case step_timer
  then show ?thesis using calm_fresh [OF timer_calm] timer_quiet [of s s'] assms(3) by (simp add: quiet_def same_ids_def)
next
  case (step_device m)
  then obtain c where "sems s m = Some c" by (auto simp: device_irq_def sem_V_def bind_eq_Some_conv)
  then have "m < next_id s" using assms(1) by (force simp: kern_ok_def ids_ok_def not_less [symmetric])
  then show ?thesis using calm_fresh [OF device_calm [OF step_device(2)]] device_quiet [OF step_device(2)] assms(3)
    by (simp add: quiet_def same_ids_def)
qed

lemma boot_fresh:
  assumes "booted s"
  shows "fresh_ok s"
proof -
  let ?e = "\<lparr>a_num = 0, a_max = 0, a_v = None\<rparr> :: tid karray"
  obtain s0 t a where a: "blank s0" "scheduler_bootstrap s0 = Some a" "thread_bootstrap a = Some (t, s)"
    using assms by (auto simp: booted_def boot_threads_def bind_eq_Some_conv)
  have ta: "threads a = (\<lambda>_. None)" using a(1,2) by (auto simp: scheduler_bootstrap_def kmalloc_ask_def blank_def bind_eq_Some_conv)
  obtain k1 l b k2 d where st: "sem_create 0 (plist_init (a\<lparr>k_nalloc := k1\<rparr>)) = Some (l, b)"
    "thread_create ''<boot/menu>'' (b\<lparr>lock_sem := l, sleepers := Some ?e, k_nalloc := k2, zombies := Some ?e\<rparr>) = Some (Some t, d)"
    "do { d \<leftarrow> upd_thread t (\<lambda>x. x\<lparr>pcb_ininterrupt := 0\<rparr>) d;
          Some (t, d\<lparr>curthread := Some t, numthreads := 1\<rparr>) } = Some (t, s)"
    using a(3) by (auto simp: thread_bootstrap_def kmalloc_ask_def bind_eq_Some_conv array_create_def split: if_splits)
  have b: "threads b = (\<lambda>_. None)" "\<And>m. l = Some m \<Longrightarrow> m < next_id b"
    using sem_create_cases [OF st(1)] ta by (auto simp: plist_init_def asked_def split: option.splits)
  obtain w where w: "created ''<boot/menu>'' t w (b\<lparr>lock_sem := l, sleepers := Some ?e, k_nalloc := k2, zombies := Some ?e\<rparr>) d"
    using thread_create_cases [OF st(2)] by auto
  obtain y where y: "threads d = (\<lambda>_. None)(t \<mapsto> y)" "t_kont y = None" "t_wait y = w"
    using w b(1) by (auto simp: created_def)
  have n: "lock_sem d = l" "next_id b < next_id d" "\<And>m. w = Some m \<Longrightarrow> m < next_id d"
    using w by (auto simp: created_def split: option.splits)
  have s: "threads s = (\<lambda>_. None)(t \<mapsto> y\<lparr>pcb_ininterrupt := 0\<rparr>)" "lock_sem s = lock_sem d" "next_id s = next_id d"
    using st(3) y(1) by (auto simp: upd_thread_def)
  have "unshared m s \<and> pend s u \<noteq> Some (Some (SemA m))" if "next_id s \<le> m" for m u
    using that s y n b(2) [of m] by (auto simp: unshared_def pend_def)
  then show ?thesis by (simp add: fresh_ok_def)
qed

lemma reachable_fresh:
  assumes "ksys.reachable s"
  shows "fresh_ok s"
proof -
  have "kern_ok s \<and> fresh_ok s" using assms
    by (rule ksys.reachable_invariant) (use boot_ok boot_fresh kstep_ok kstep_fresh in blast)+
  then show ?thesis ..
qed

end
