(* ===== verification/Kern_Stoplight.thy ===== *)
theory Kern_Stoplight
  imports Kern_SemAcct
begin

text \<open>
  The intersection (\<^verbatim>\<open>kern/asst1/stoplight.c\<close>), run on the kernel of the other theories. A function of the file is the list of
  the calls it makes; the threads that execute these lists are threads of the kernel, and every call of \<open>P\<close>, \<open>V\<close>,
  \<open>sem_create\<close> and \<open>thread_fork\<close> is the operation of the kernel model, with interrupts, preemption
  and other threads in between.
\<close>

section \<open>The functions\<close>

text \<open>The static semaphores.\<close>

datatype stopsem = NW | NE | SW | SE | Intersection

text \<open>The calls. \<open>Random\<close> is the choice of direction and driving in \<open>approachintersection\<close>, \<open>Exit\<close> the end of a thread.\<close>

datatype act =
    P stopsem | V stopsem
  | Message nat nat nat nat
  | Random nat
  | Create stopsem int
  | Fork nat
  | Exit

definition gostraight :: "nat \<Rightarrow> nat \<Rightarrow> act list" where
  "gostraight cardirection carnumber =
     (let message = (\<lambda>n. Message n carnumber cardirection ((cardirection + 2) mod 4)) in
      if cardirection = 0 then
        [P Intersection, message 0, P NW, message 1, P SW, message 2, V NW, message 4, V SW, V Intersection]
      else if cardirection = 1 then
        [P Intersection, message 0, P NE, message 1, P NW, message 2, V NE, message 4, V NW, V Intersection]
      else if cardirection = 2 then
        [P Intersection, message 0, P SE, message 1, P NE, message 2, V SE, message 4, V NE, V Intersection]
      else
        [P Intersection, message 0, P SW, message 1, P SE, message 2, V SW, message 4, V SE, V Intersection])"

definition turnleft :: "nat \<Rightarrow> nat \<Rightarrow> act list" where
  "turnleft cardirection carnumber =
     (let message = (\<lambda>n. Message n carnumber cardirection ((cardirection + 1) mod 4)) in
      if cardirection = 0 then
        [P Intersection, message 0, P NW, message 1, P SW, message 2, V NW, P SE, message 3, V SW, message 4, V SE, V Intersection]
      else if cardirection = 1 then
        [P Intersection, message 0, P NE, message 1, P NW, message 2, V NE, P SW, message 3, V NW, message 4, V SW, V Intersection]
      else if cardirection = 2 then
        [P Intersection, message 0, P SE, message 1, P NE, message 2, V SE, P NW, message 3, V NE, message 4, V NW, V Intersection]
      else
        [P Intersection, message 0, P SW, message 1, P SE, message 2, V SW, P NE, message 3, V SE, message 4, V NE, V Intersection])"

definition turnright :: "nat \<Rightarrow> nat \<Rightarrow> act list" where
  "turnright cardirection carnumber =
     (let message = (\<lambda>n. Message n carnumber cardirection ((cardirection + 3) mod 4)) in
      if cardirection = 0 then
        [P Intersection, message 0, P NW, message 1, message 4, V NW, V Intersection]
      else if cardirection = 1 then
        [P Intersection, message 0, P NE, message 1, message 4, V NE, V Intersection]
      else if cardirection = 2 then
        [P Intersection, message 0, P SE, message 1, message 4, V SE, V Intersection]
      else
        [P Intersection, message 0, P SW, message 1, message 4, V SW, V Intersection])"

text \<open>\<open>r1\<close> and \<open>r2\<close> are the two results of \<open>random\<close>.\<close>

definition approachintersection :: "nat \<Rightarrow> nat \<Rightarrow> nat \<Rightarrow> act list" where
  "approachintersection r1 r2 carnumber =
     (let carDirection = r1 mod 4; carDriving = r2 mod 3 in
      if carDriving = 0 then gostraight carDirection carnumber
      else if carDriving = 1 then turnleft carDirection carnumber
      else turnright carDirection carnumber)"

abbreviation NCARS :: nat where "NCARS \<equiv> 20"

definition createcars :: "act list" where
  "createcars = [Create NW 1, Create NE 1, Create SW 1, Create SE 1, Create Intersection 3] @ map Fork [0..<NCARS]"

section \<open>The system\<close>

text \<open>The kernel, the static pointers, and for every thread in the functions above the rest of its calls.\<close>

record lights =
  kernel :: kern
  ptr :: "stopsem \<Rightarrow> nat option"
  prog :: "tid \<Rightarrow> act list option"

text \<open>
  The steps: a call of the running thread when it is in one of the functions, and any step of the kernel otherwise. Threads
  outside of the functions have no access to the static semaphores, and the devices signal their own. A
  failing \<open>thread_fork\<close> is a panic.
\<close>

inductive lstep :: "lights \<Rightarrow> lights \<Rightarrow> bool" where
  lstep_P: "runs (kernel l) t x \<Longrightarrow> prog l t = Some (P a # p) \<Longrightarrow> ptr l a = Some m \<Longrightarrow> sem_P m (kernel l) = Some k \<Longrightarrow>
     lstep l (l\<lparr>kernel := k, prog := (prog l)(t \<mapsto> p)\<rparr>)"
| lstep_V: "runs (kernel l) t x \<Longrightarrow> prog l t = Some (V a # p) \<Longrightarrow> ptr l a = Some m \<Longrightarrow> sem_V m (kernel l) = Some k \<Longrightarrow>
     lstep l (l\<lparr>kernel := k, prog := (prog l)(t \<mapsto> p)\<rparr>)"
| lstep_message: "runs (kernel l) t x \<Longrightarrow> prog l t = Some (Message n c d e # p) \<Longrightarrow> lstep l (l\<lparr>prog := (prog l)(t \<mapsto> p)\<rparr>)"
| lstep_random: "runs (kernel l) t x \<Longrightarrow> prog l t = Some (Random c # p) \<Longrightarrow>
     lstep l (l\<lparr>prog := (prog l)(t \<mapsto> approachintersection r1 r2 c @ p)\<rparr>)"
| lstep_create: "runs (kernel l) t x \<Longrightarrow> prog l t = Some (Create a n # p) \<Longrightarrow> sem_create n (kernel l) = Some (q, k) \<Longrightarrow>
     lstep l (l\<lparr>kernel := k, ptr := (ptr l)(a := q), prog := (prog l)(t \<mapsto> p)\<rparr>)"
| lstep_fork: "runs (kernel l) t x \<Longrightarrow> prog l t = Some (Fork c # p) \<Longrightarrow> kcall_pre (Op_Fork name) t (kernel l) \<Longrightarrow>
     thread_fork name (kernel l) = Some (Inr n, k) \<Longrightarrow>
     lstep l (l\<lparr>kernel := k, prog := (prog l)(t \<mapsto> p, n \<mapsto> [Random c, Exit])\<rparr>)"
| lstep_return: "runs (kernel l) t x \<Longrightarrow> prog l t = Some [] \<Longrightarrow> lstep l (l\<lparr>prog := (prog l)(t := None)\<rparr>)"
| lstep_exit: "runs (kernel l) t x \<Longrightarrow> prog l t = Some (Exit # p) \<Longrightarrow> thread_exit (kernel l) = Some k \<Longrightarrow>
     lstep l (l\<lparr>kernel := k, prog := (prog l)(t := None)\<rparr>)"
| lstep_other: "runs (kernel l) t x \<Longrightarrow> prog l t = None \<Longrightarrow> kcall_pre op t (kernel l) \<Longrightarrow> op_avoids (ran (ptr l)) op \<Longrightarrow>
     kcall op (kernel l) = Some k \<Longrightarrow> lstep l (l\<lparr>kernel := k\<rparr>)"
| lstep_dispatch: "curthread (kernel l) = None \<Longrightarrow> mi_dispatch (kernel l) = Some k \<Longrightarrow> lstep l (l\<lparr>kernel := k\<rparr>)"
| lstep_resume: "switching (kernel l) \<Longrightarrow> curthread (kernel l) = Some t \<Longrightarrow> resume (kernel l) = Some k \<Longrightarrow> lstep l (l\<lparr>kernel := k\<rparr>)"
| lstep_timer: "interruptible (kernel l) \<Longrightarrow> timer_irq (kernel l) = Some k \<Longrightarrow> lstep l (l\<lparr>kernel := k\<rparr>)"
| lstep_device: "interruptible (kernel l) \<Longrightarrow> m \<notin> ran (ptr l) \<Longrightarrow> device_irq m (kernel l) = Some k \<Longrightarrow> lstep l (l\<lparr>kernel := k\<rparr>)"

text \<open>It starts when some thread of a running system calls \<open>createcars\<close>.\<close>

definition lights_start :: "lights \<Rightarrow> bool" where
  "lights_start l \<longleftrightarrow> ksys.reachable (kernel l) \<and> ptr l = (\<lambda>_. None) \<and>
     (\<exists>t x. runs (kernel l) t x \<and> prog l = (\<lambda>_. None)(t \<mapsto> createcars))"

interpretation lsys: transition_system lights_start lstep .

text \<open>A thread is past its \<open>P\<close> of a semaphore and has not called \<open>V\<close> yet.\<close>

definition inside :: "stopsem \<Rightarrow> act list \<Rightarrow> bool" where
  "inside a p \<longleftrightarrow> V a \<in> set p \<and> P a \<notin> set p"

definition holds :: "lights \<Rightarrow> stopsem \<Rightarrow> tid \<Rightarrow> bool" where
  "holds l a t \<longleftrightarrow>
     (case prog l t of
        None \<Rightarrow> False
      | Some p \<Rightarrow> inside a p \<and> (\<forall>m. ptr l a = Some m \<longrightarrow> pend (kernel l) t \<noteq> Some (Some (SemA m))))"

text \<open>How many cars may be there.\<close>

definition room :: "stopsem \<Rightarrow> int" where
  "room a = (if a = Intersection then 3 else 1)"

section \<open>The programs\<close>

text \<open>The region that a car leaves when it has entered region \<open>a\<close>.\<close>

fun before :: "stopsem \<Rightarrow> stopsem" where
  "before NW = NE"
| "before SW = NW"
| "before SE = SW"
| "before NE = SE"
| "before Intersection = Intersection"

text \<open>
  A call of \<open>P\<close> in front of the calls \<open>p\<close>: the matching \<open>V\<close> follows; the intersection is entered with no region
  held, and a region is entered from inside the intersection with at most the region before it.
\<close>

definition P_ok :: "stopsem \<Rightarrow> act list \<Rightarrow> bool" where
  "P_ok a p \<longleftrightarrow> inside a p \<and>
     (if a = Intersection then \<forall>b. inside b p \<longrightarrow> b = Intersection
      else inside Intersection p \<and> (\<forall>b. inside b p \<longrightarrow> b = a \<or> b = Intersection \<or> b = before a))"

fun prog_ok :: "act list \<Rightarrow> bool" where
  "prog_ok [] \<longleftrightarrow> True"
| "prog_ok (P a # p) \<longleftrightarrow> P_ok a p \<and> prog_ok p"
| "prog_ok (V a # p) \<longleftrightarrow> V a \<notin> set p \<and> P a \<notin> set p \<and> prog_ok p"
| "prog_ok (Create a n # p) \<longleftrightarrow> n = room a \<and> (\<forall>n. Create a n \<notin> set p) \<and> prog_ok p"
| "prog_ok (Random c # p) \<longleftrightarrow> p = [Exit]"
| "prog_ok (Exit # p) \<longleftrightarrow> p = []"
| "prog_ok (_ # p) \<longleftrightarrow> prog_ok p"

lemma all_stopsem: "(\<forall>a. Q a) \<longleftrightarrow> Q NW \<and> Q NE \<and> Q SW \<and> Q SE \<and> Q Intersection"
  by (metis stopsem.exhaust)

lemmas program_defs = approachintersection_def gostraight_def turnleft_def turnright_def Let_def

lemma approach_ok: "prog_ok (approachintersection r1 r2 c @ [Exit])"
  by (simp add: program_defs P_ok_def inside_def all_stopsem)

lemma approach_inside: "\<not> inside a (approachintersection r1 r2 c @ [Exit])" "Create a n \<notin> set (approachintersection r1 r2 c)"
  by (cases a; simp add: program_defs inside_def)+

lemma createcars_ok: "prog_ok createcars" "P a \<notin> set createcars" "V a \<notin> set createcars"
proof -
  have "prog_ok (map Fork xs)" for xs by (induction xs) simp_all
  then show "prog_ok createcars" by (auto simp: createcars_def room_def)
  show "P a \<notin> set createcars" "V a \<notin> set createcars" by (auto simp: createcars_def)
qed

end
