(* ===== verification/Kern_StopProps.thy ===== *)
theory Kern_StopProps
  imports Kern_Stoplight
begin

text \<open>
  The intersection is safe and free of deadlock. The invariant balances every semaphore: its count and the threads that hold
  it add up to the number of places. Because the kernel loses no wake-up, a thread that sleeps waits for a semaphore
  with count zero, so somebody holds it; following the holders round the four regions would need four cars
  in an intersection that admits three.
\<close>

section \<open>The invariant\<close>

text \<open>A thread in the functions runs or has been preempted, or it is inside \<open>P\<close>.\<close>

definition waits_ok :: "lights \<Rightarrow> tid \<Rightarrow> act list \<Rightarrow> bool" where
  "waits_ok l t p \<longleftrightarrow> pend (kernel l) t = Some None \<or>
     (\<exists>a m. ptr l a = Some m \<and> pend (kernel l) t = Some (Some (SemA m)) \<and> P_ok a p)"

definition balanced :: "lights \<Rightarrow> stopsem \<Rightarrow> bool" where
  "balanced l a \<longleftrightarrow>
     (case ptr l a of
        None \<Rightarrow> \<forall>t p. prog l t = Some p \<longrightarrow> \<not> inside a p
      | Some m \<Rightarrow> \<exists>c. sems (kernel l) m = Some c \<and> c + int (card {t. holds l a t}) = room a)"

definition lights_ok :: "lights \<Rightarrow> bool" where
  "lights_ok l \<longleftrightarrow>
     older (ran (ptr l)) (kernel l) \<and> (\<forall>m \<in> ran (ptr l). unshared m (kernel l)) \<and> inj_on (ptr l) (dom (ptr l)) \<and>
     finite (dom (prog l)) \<and> older (dom (prog l)) (kernel l) \<and> set (dead (kernel l)) \<inter> dom (prog l) = {} \<and>
     (\<forall>t p. prog l t = Some p \<longrightarrow> prog_ok p \<and> waits_ok l t p \<and> (\<forall>a n. Create a n \<in> set p \<longrightarrow> ptr l a = None)) \<and>
     (\<forall>t u p q a b n k. prog l t = Some p \<and> prog l u = Some q \<and> Create a n \<in> set p \<and> Create b k \<in> set q \<longrightarrow> t = u) \<and>
     (\<forall>u. \<forall>m \<in> ran (ptr l). pend (kernel l) u = Some (Some (SemA m)) \<longrightarrow> u \<in> dom (prog l)) \<and>
     (\<forall>a. balanced l a)"

lemma lights_okD:
  assumes "lights_ok l"
  shows "older (ran (ptr l)) (kernel l)" "\<forall>m \<in> ran (ptr l). unshared m (kernel l)" "inj_on (ptr l) (dom (ptr l))"
    "finite (dom (prog l))" "older (dom (prog l)) (kernel l)" "set (dead (kernel l)) \<inter> dom (prog l) = {}"
    "prog l t = Some p \<Longrightarrow> prog_ok p" "prog l t = Some p \<Longrightarrow> waits_ok l t p" "prog l t = Some p \<Longrightarrow> Create a n \<in> set p \<Longrightarrow> ptr l a = None"
    "prog l t = Some p \<Longrightarrow> prog l u = Some q \<Longrightarrow> Create a n \<in> set p \<Longrightarrow> Create b k \<in> set q \<Longrightarrow> t = u"
    "m \<in> ran (ptr l) \<Longrightarrow> pend (kernel l) u = Some (Some (SemA m)) \<Longrightarrow> u \<in> dom (prog l)" "balanced l a"
  using assms unfolding lights_ok_def by blast+

lemma lights_okI:
  assumes "older (ran (ptr l)) (kernel l)" "\<forall>m \<in> ran (ptr l). unshared m (kernel l)" "inj_on (ptr l) (dom (ptr l))"
    "finite (dom (prog l))" "older (dom (prog l)) (kernel l)" "set (dead (kernel l)) \<inter> dom (prog l) = {}"
    "\<And>t p. prog l t = Some p \<Longrightarrow> prog_ok p \<and> waits_ok l t p" "\<And>t p a n. prog l t = Some p \<Longrightarrow> Create a n \<in> set p \<Longrightarrow> ptr l a = None"
    "\<And>t u p q a b n k. prog l t = Some p \<Longrightarrow> prog l u = Some q \<Longrightarrow> Create a n \<in> set p \<Longrightarrow> Create b k \<in> set q \<Longrightarrow> t = u"
    "\<And>u m. m \<in> ran (ptr l) \<Longrightarrow> pend (kernel l) u = Some (Some (SemA m)) \<Longrightarrow> u \<in> dom (prog l)" "\<And>a. balanced l a"
  shows "lights_ok l"
  using assms unfolding lights_ok_def by blast

lemma holds_iff: "holds l a t \<longleftrightarrow> (\<exists>p. prog l t = Some p \<and> inside a p \<and> (\<forall>m. ptr l a = Some m \<longrightarrow> pend (kernel l) t \<noteq> Some (Some (SemA m))))"
  by (auto simp: holds_def split: option.splits)

lemma holds_dom: "{t. holds l a t} \<subseteq> dom (prog l)"
  by (auto simp: holds_def split: option.splits)

lemma finite_holds: "lights_ok l \<Longrightarrow> finite {t. holds l a t}"
  using finite_subset [OF holds_dom] lights_okD(4) by blast

lemma older_mono: "older A s \<Longrightarrow> next_id s \<le> next_id s' \<Longrightarrow> older A s'"
  by (auto simp: older_def)

text \<open>Steps of the kernel that do not touch the account.\<close>

lemma lights_ok_calm:
  assumes ok: "lights_ok l" and c: "calm (ran (ptr l)) (dom (prog l)) (kernel l) k" and n: "next_id (kernel l) \<le> next_id k"
  shows "lights_ok (l\<lparr>kernel := k\<rparr>)"
proof -
  let ?l = "l\<lparr>kernel := k\<rparr>"
  note o = lights_okD [OF ok]
  have c': "set (dead k) \<inter> dom (prog l) = {}" "\<forall>m \<in> ran (ptr l). sems k m = sems (kernel l) m" "\<forall>m \<in> ran (ptr l). unshared m k"
    "\<forall>u \<in> dom (prog l). pend k u = pend (kernel l) u"
    and nc: "\<And>u m. m \<in> ran (ptr l) \<Longrightarrow> pend k u = Some (Some (SemA m)) \<Longrightarrow> pend (kernel l) u = Some (Some (SemA m))"
    using c o(2,6) by (auto simp: calm_def)
  have "holds ?l a t = holds l a t" for a t using c'(4) by (cases "prog l t") (auto simp: holds_def dom_def)
  then have h: "holds ?l a = holds l a" for a by (simp add: fun_eq_iff)
  show ?thesis
  proof (rule lights_okI)
    fix a show "balanced ?l a"
      using o(12) [of a] c'(2) h [of a] by (cases "ptr l a") (auto simp: balanced_def ran_def)
  next
    fix t p assume "prog ?l t = Some p"
    then show "prog_ok p \<and> waits_ok ?l t p" using o(7,8) [of t p] c'(4) by (auto simp: waits_ok_def dom_def)
  next
    fix u m assume "m \<in> ran (ptr ?l)" "pend (kernel ?l) u = Some (Some (SemA m))"
    then show "u \<in> dom (prog ?l)" using o(11) nc by simp
  next
    fix t u p q a b i j assume "prog ?l t = Some p" "prog ?l u = Some q" "Create a i \<in> set p" "Create b j \<in> set q"
    then show "t = u" using o(10) by simp
  next
    fix t p a i assume "prog ?l t = Some p" "Create a i \<in> set p"
    then show "ptr ?l a = None" using o(9) by simp
  qed (use o(1,3,4,5) c'(1,3) older_mono [OF _ n] in simp_all)
qed

text \<open>A call of thread \<open>t\<close>: what it changes in the account of a semaphore is what it changes in its holding it.\<close>

lemma card_holds:
  assumes "\<And>u. u \<noteq> t \<Longrightarrow> holds l' a u = holds l a u" "finite {u. holds l a u}"
  shows "int (card {u. holds l' a u}) + (if holds l a t then 1 else 0) = int (card {u. holds l a u}) + (if holds l' a t then 1 else 0)"
proof -
  obtain S where S: "finite S" "t \<notin> S" "\<And>u. u \<noteq> t \<Longrightarrow> u \<in> S \<longleftrightarrow> holds l a u"
    using assms(2) by (intro that [of "{u. holds l a u} - {t}"]) auto
  have "{u. holds l a u} = (if holds l a t then insert t S else S)" "{u. holds l' a u} = (if holds l' a t then insert t S else S)"
    using S(2,3) assms(1) by (auto, metis+)
  then show ?thesis using S(1,2) by simp
qed

lemma lights_ok_call:
  assumes ok: "lights_ok l" and t: "prog l t = Some p" and n: "next_id (kernel l) \<le> next_id k" and d: "set (dead k) \<inter> dom (prog l) = {}"
    and un: "\<forall>m \<in> ran (ptr l). unshared m k"
    and pe: "\<And>u. u \<in> dom (prog l) \<Longrightarrow> u \<noteq> t \<Longrightarrow> pend k u = pend (kernel l) u"
    and nc: "\<And>u m. m \<in> ran (ptr l) \<Longrightarrow> u \<noteq> t \<Longrightarrow> pend k u = Some (Some (SemA m)) \<Longrightarrow> pend (kernel l) u = Some (Some (SemA m))"
    and p': "prog_ok p'" "waits_ok (l\<lparr>kernel := k, prog := (prog l)(t \<mapsto> p')\<rparr>) t p'" "\<And>a n. Create a n \<in> set p' \<Longrightarrow> Create a n \<in> set p"
    and no: "\<And>a. ptr l a = None \<Longrightarrow> \<not> inside a p'"
    and acc: "\<And>a m c. ptr l a = Some m \<Longrightarrow> sems (kernel l) m = Some c \<Longrightarrow> \<exists>c'. sems k m = Some c' \<and>
      c' + (if holds (l\<lparr>kernel := k, prog := (prog l)(t \<mapsto> p')\<rparr>) a t then 1 else 0) = c + (if holds l a t then 1 else 0)"
  shows "lights_ok (l\<lparr>kernel := k, prog := (prog l)(t \<mapsto> p')\<rparr>)"
proof -
  let ?l = "l\<lparr>kernel := k, prog := (prog l)(t \<mapsto> p')\<rparr>"
  note o = lights_okD [OF ok]
  have dm: "dom (prog ?l) = dom (prog l)" using t by auto
  have h: "holds ?l a u = holds l a u" if "u \<noteq> t" for a u
    using pe [of u] that by (cases "prog l u") (auto simp: holds_def dom_def)
  show ?thesis
  proof (rule lights_okI)
    fix a show "balanced ?l a"
    proof (cases "ptr l a")
      case None
      then show ?thesis using o(12) [of a] no [OF None] by (auto simp: balanced_def)
    next
      case (Some m)
      obtain c where c: "sems (kernel l) m = Some c" "c + int (card {u. holds l a u}) = room a" using o(12) [of a] Some by (auto simp: balanced_def)
      obtain c' where c': "sems k m = Some c'" "c' + (if holds ?l a t then 1 else 0) = c + (if holds l a t then 1 else 0)"
        using acc [OF Some c(1)] by blast
      have "c' + int (card {u. holds ?l a u}) = room a"
        using c(2) c'(2) card_holds [of t ?l a l, OF h finite_holds [OF ok]] by linarith
      then show ?thesis using Some c'(1) by (simp add: balanced_def)
    qed
  next
    fix u q assume q: "prog ?l u = Some q"
    show "prog_ok q \<and> waits_ok ?l u q"
    proof (cases "u = t")
      case True
      then show ?thesis using q p' by simp
    next
      case False
      then have u: "prog l u = Some q" using q by simp
      then have "pend k u = pend (kernel l) u" using pe False by blast
      then show ?thesis using o(7,8) [OF u] by (simp add: waits_ok_def)
    qed
  next
    fix u m assume m: "m \<in> ran (ptr ?l)" "pend (kernel ?l) u = Some (Some (SemA m))"
    then show "u \<in> dom (prog ?l)" using nc [of m u] o(11) [of m u] t dm by (cases "u = t") auto
  next
    fix u v q r a b i j assume "prog ?l u = Some q" "prog ?l v = Some r" "Create a i \<in> set q" "Create b j \<in> set r"
    moreover from this obtain q' r' where "prog l u = Some q'" "prog l v = Some r'" "Create a i \<in> set q'" "Create b j \<in> set r'"
      using t p'(3) by (auto split: if_splits)
    ultimately show "u = v" using o(10) by blast
  next
    fix u q a i assume "prog ?l u = Some q" "Create a i \<in> set q"
    then obtain q' where "prog l u = Some q'" "Create a i \<in> set q'" using t p'(3) by (auto split: if_splits)
    then show "ptr ?l a = None" using o(9) by simp
  qed (use o(1,3,4,5) d un older_mono [OF _ n] dm in simp_all)
qed

lemma ptr_inj: "lights_ok l \<Longrightarrow> ptr l a = Some m \<Longrightarrow> ptr l b = Some m \<Longrightarrow> a = b"
  using lights_okD(3) [of l] inj_onD [of "ptr l" "dom (ptr l)" a b] by auto

lemma lights_ok_P:
  assumes ok: "lights_ok l" and t: "prog l t = Some p0" and b: "ptr l b = Some m" and e: "P_effect m t (dom (prog l) - {t}) (kernel l) k"
    and d: "t \<notin> set (dead k)" and n: "next_id (kernel l) \<le> next_id k" and p: "P_ok b p" "prog_ok p"
    and pend: "pend (kernel l) t = Some (if inside b p0 then Some (SemA m) else None)"
    and p0: "\<And>a. a \<noteq> b \<Longrightarrow> inside a p0 = inside a p" "set p \<subseteq> set p0"
  shows "lights_ok (l\<lparr>kernel := k, prog := (prog l)(t \<mapsto> p)\<rparr>)"
proof -
  let ?l = "l\<lparr>kernel := k, prog := (prog l)(t \<mapsto> p)\<rparr>" and ?D = "dom (prog l) - {t}"
  note o = lights_okD [OF ok]
  have c: "calm (- {m}) ?D (kernel l) k" and new: "\<And>u. u \<noteq> t \<Longrightarrow> pend k u = Some (Some (SemA m)) \<Longrightarrow> pend (kernel l) u = Some (Some (SemA m))"
    and um: "unshared m (kernel l) \<longrightarrow> unshared m k" using e by (auto simp: P_effect_def)
  have "set (dead (kernel l)) \<inter> ?D = {}" using o(6) by auto
  then have c': "set (dead k) \<inter> ?D = {}" "\<And>j. j \<noteq> m \<Longrightarrow> sems k j = sems (kernel l) j" "\<And>j. j \<noteq> m \<Longrightarrow> unshared j (kernel l) \<Longrightarrow> unshared j k"
    "\<And>u. u \<in> ?D \<Longrightarrow> pend k u = pend (kernel l) u" using c by (auto simp: calm_def)
  have nc: "pend (kernel l) u = Some (Some (SemA j))" if "u \<noteq> t" "pend k u = Some (Some (SemA j))" for u j
    using that c new by (cases "j = m") (auto simp: calm_def)
  obtain i where i: "sems (kernel l) m = Some i" "if i = 0 then sems k m = Some 0 \<and> pend k t = Some (Some (SemA m))
    else sems k m = Some (i - 1) \<and> pend k t = Some None" using e by (auto simp: P_effect_def)
  then have pk: "pend k t = Some None \<or> pend k t = Some (Some (SemA m))" by (auto split: if_splits)
  have "\<not> holds l b t" using t b pend by (auto simp: holds_def)
  moreover have "holds ?l b t \<longleftrightarrow> i \<noteq> 0" using i(2) p(1) b by (cases "i = 0") (simp_all add: holds_def P_ok_def)
  moreover have "holds ?l a t = holds l a t" if "a \<noteq> b" for a
    using that p0(1) [OF that] pk pend t ptr_inj [OF ok _ b] by (auto simp: holds_def)
  ultimately have acc: "\<exists>c'. sems k j = Some c' \<and> c' + (if holds ?l a t then 1 else 0) = c + (if holds l a t then 1 else 0)"
    if "ptr l a = Some j" "sems (kernel l) j = Some c" for a j c
    using that i b c'(2) [of j] ptr_inj [OF ok that(1), of b] by (cases "a = b") (auto split: if_splits)
  have no: "\<not> inside a p" if "ptr l a = None" for a
    using that o(12) [of a] t p0(1) [of a] b by (cases "a = b") (auto simp: balanced_def)
  have wt: "waits_ok ?l t p" using pk b p(1) by (auto simp: waits_ok_def)
  have un: "\<forall>j \<in> ran (ptr l). unshared j k" using o(2) um c'(3) by metis
  have dd: "set (dead k) \<inter> dom (prog l) = {}" using c'(1) d by auto
  have pe: "pend k u = pend (kernel l) u" if "u \<in> dom (prog l)" "u \<noteq> t" for u using c'(4) that by blast
  have cr: "Create a j \<in> set p0" if "Create a j \<in> set p" for a j using that p0(2) by blast
  show ?thesis by (rule lights_ok_call [OF ok t n dd un pe nc p(2) wt cr no acc])
qed

lemma lights_ok_V:
  assumes ok: "lights_ok l" and t: "prog l t = Some (V b # p)" and b: "ptr l b = Some m" and v: "sem_V m (kernel l) = Some k"
    and pend: "pend (kernel l) t = Some None"
  shows "lights_ok (l\<lparr>kernel := k, prog := (prog l)(t \<mapsto> p)\<rparr>)"
proof -
  let ?l = "l\<lparr>kernel := k, prog := (prog l)(t \<mapsto> p)\<rparr>"
  note o = lights_okD [OF ok] and ve = sem_V_effect [OF v]
  have q: "V b \<notin> set p" "P b \<notin> set p" "prog_ok p" using o(7) [OF t] by simp_all
  have c': "set (dead k) \<inter> dom (prog l) = {}" "\<And>j. j \<noteq> m \<Longrightarrow> sems k j = sems (kernel l) j" "\<And>j. j \<noteq> m \<Longrightarrow> unshared j (kernel l) \<Longrightarrow> unshared j k"
    using ve(1) [of "dom (prog l)"] o(6) by (auto simp: calm_def)
  have pk: "pend k u = pend (kernel l) u" for u by (rule sem_V_pend [OF v])
  obtain i where i: "sems (kernel l) m = Some i" "sems k m = Some (i + 1)" using ve(2) by blast
  have ins: "inside a (V b # p) = inside a p" if "a \<noteq> b" for a using that by (auto simp: inside_def)
  have h: "holds l b t" "\<not> holds ?l b t" "\<And>a. a \<noteq> b \<Longrightarrow> holds ?l a t = holds l a t"
    using t pend q(1,2) ins pk by (auto simp: holds_def inside_def)
  have acc: "\<exists>c'. sems k j = Some c' \<and> c' + (if holds ?l a t then 1 else 0) = c + (if holds l a t then 1 else 0)"
    if "ptr l a = Some j" "sems (kernel l) j = Some c" for a j c
    using that i b h c'(2) [of j] ptr_inj [OF ok that(1), of b] by (cases "a = b") (auto split: if_splits)
  have no: "\<not> inside a p" if "ptr l a = None" for a
    using that o(12) [of a] t ins [of a] b by (cases "a = b") (auto simp: balanced_def)
  have wt: "waits_ok ?l t p" using pend pk by (simp add: waits_ok_def)
  have un: "\<forall>j \<in> ran (ptr l). unshared j k" using o(2) ve(3) c'(3) by metis
  have n: "next_id (kernel l) \<le> next_id k" using sem_V_quiet [OF v] by (simp add: quiet_def same_ids_def)
  have cr: "Create a j \<in> set (V b # p)" if "Create a j \<in> set p" for a j using that by simp
  show ?thesis by (rule lights_ok_call [OF ok t n c'(1) un pk _ q(3) wt cr no acc]) (simp add: pk)
qed

text \<open>Progress without a call of the kernel.\<close>

lemma lights_ok_move:
  assumes ok: "lights_ok l" and t: "prog l t = Some p0" "pend (kernel l) t = Some None" and p: "prog_ok p" "\<And>a. inside a p = inside a p0"
    "\<And>a n. Create a n \<in> set p \<Longrightarrow> Create a n \<in> set p0"
  shows "lights_ok (l\<lparr>prog := (prog l)(t \<mapsto> p)\<rparr>)"
proof -
  note o = lights_okD [OF ok]
  let ?l = "l\<lparr>kernel := kernel l, prog := (prog l)(t \<mapsto> p)\<rparr>"
  have e: "?l = l\<lparr>prog := (prog l)(t \<mapsto> p)\<rparr>" by simp
  have w: "waits_ok ?l t p" using t(2) by (simp add: waits_ok_def)
  have h: "holds ?l a t = holds l a t" for a using t(1) p(2) by (simp add: holds_def)
  have no: "\<not> inside a p" if "ptr l a = None" for a using o(12) [of a] that t(1) p(2) by (auto simp: balanced_def)
  show ?thesis unfolding e [symmetric]
    by (rule lights_ok_call [OF ok t(1) _ o(6,2) _ _ p(1) w p(3) no]) (simp_all add: h [unfolded e])
qed

lemma lights_ok_drop:
  assumes ok: "lights_ok l" and t: "prog l t = Some p" "pend (kernel l) t = Some None" and p: "\<And>a. \<not> inside a p"
  shows "lights_ok (l\<lparr>prog := (prog l)(t := None)\<rparr>)"
proof -
  let ?l = "l\<lparr>prog := (prog l)(t := None)\<rparr>"
  note o = lights_okD [OF ok]
  have "holds ?l a u = holds l a u" for a u using t(1) p by (cases "u = t") (simp_all add: holds_iff)
  then have h: "holds ?l a = holds l a" for a by (simp add: fun_eq_iff)
  show ?thesis
  proof (rule lights_okI)
    fix a show "balanced ?l a" using o(12) [of a] h [of a] by (cases "ptr l a") (auto simp: balanced_def)
  next
    fix u q assume "prog ?l u = Some q"
    then have u: "prog l u = Some q" by (simp split: if_splits)
    show "prog_ok q \<and> waits_ok ?l u q" using o(7,8) [OF u] by (simp add: waits_ok_def)
  next
    fix u m assume "m \<in> ran (ptr ?l)" "pend (kernel ?l) u = Some (Some (SemA m))"
    then show "u \<in> dom (prog ?l)" using o(11) [of m u] t(2) by auto
  next
    fix u v q r a b i j assume "prog ?l u = Some q" "prog ?l v = Some r" "Create a i \<in> set q" "Create b j \<in> set r"
    then show "u = v" using o(10) [of u q v r] by (simp split: if_splits)
  next
    fix u q a i assume "prog ?l u = Some q" "Create a i \<in> set q"
    then show "ptr ?l a = None" using o(9) [of u q] by (simp split: if_splits)
  qed (use o(1-6) in \<open>auto simp: older_def\<close>)
qed

lemma lights_ok_spawn:
  assumes ok: "lights_ok l" and n: "prog l n = None" "pend (kernel l) n = Some None" "n \<notin> set (dead (kernel l))" "n < next_id (kernel l)"
  shows "lights_ok (l\<lparr>prog := (prog l)(n \<mapsto> [Random c, Exit])\<rparr>)"
proof -
  let ?l = "l\<lparr>prog := (prog l)(n \<mapsto> [Random c, Exit])\<rparr>"
  note o = lights_okD [OF ok]
  have "holds ?l a u = holds l a u" for a u using n(1) by (cases "u = n") (simp_all add: holds_iff inside_def)
  then have h: "holds ?l a = holds l a" for a by (simp add: fun_eq_iff)
  show ?thesis
  proof (rule lights_okI)
    fix a show "balanced ?l a" using o(12) [of a] h [of a] by (cases "ptr l a") (auto simp: balanced_def inside_def split: if_splits)
  next
    fix u q assume u: "prog ?l u = Some q"
    show "prog_ok q \<and> waits_ok ?l u q"
    proof (cases "u = n")
      case True
      then show ?thesis using u n(2) by (auto simp: waits_ok_def)
    next
      case False
      then have "prog l u = Some q" using u by simp
      then show ?thesis using o(7,8) [of u q] by (simp add: waits_ok_def)
    qed
  next
    fix u m assume "m \<in> ran (ptr ?l)" "pend (kernel ?l) u = Some (Some (SemA m))"
    then show "u \<in> dom (prog ?l)" using o(11) [of m u] by auto
  next
    fix u v q r a b i j assume "prog ?l u = Some q" "prog ?l v = Some r" "Create a i \<in> set q" "Create b j \<in> set r"
    then show "u = v" using o(10) [of u q v r] by (auto split: if_splits)
  next
    fix u q a i assume "prog ?l u = Some q" "Create a i \<in> set q"
    then show "ptr ?l a = None" using o(9) [of u q] by (auto split: if_splits)
  qed (use o(1-6) n(3,4) in \<open>auto simp: older_def\<close>)
qed

lemma lights_ok_ptr:
  assumes ok: "lights_ok l" and a: "ptr l a = None" "\<And>t p n. prog l t = Some p \<Longrightarrow> Create a n \<notin> set p"
    and m: "m \<notin> ran (ptr l)" "m < next_id (kernel l)" "unshared m (kernel l)" "sems (kernel l) m = Some (room a)"
      "\<And>u. pend (kernel l) u \<noteq> Some (Some (SemA m))"
  shows "lights_ok (l\<lparr>ptr := (ptr l)(a \<mapsto> m)\<rparr>)"
proof -
  let ?l = "l\<lparr>ptr := (ptr l)(a \<mapsto> m)\<rparr>"
  note o = lights_okD [OF ok]
  have r: "ran (ptr ?l) = insert m (ran (ptr l))" using a(1) by (simp add: ran_map_upd)
  have in_a: "\<not> inside a p" if "prog l t = Some p" for t p using o(12) [of a] a(1) that by (auto simp: balanced_def)
  have "{u. holds ?l a u} = {}" using in_a by (auto simp: holds_iff)
  then have h: "card {u. holds ?l a u} = 0" by (simp only: card.empty)
  have hb: "holds ?l b = holds l b" if "b \<noteq> a" for b using that by (simp add: holds_iff fun_eq_iff)
  show ?thesis
  proof (rule lights_okI)
    fix b show "balanced ?l b"
    proof (cases "b = a")
      case True
      then show ?thesis using m(4) h by (simp add: balanced_def)
    next
      case False
      then show ?thesis using o(12) [of b] hb [of b] by (cases "ptr l b") (simp_all add: balanced_def)
    qed
  next
    fix u q assume "prog ?l u = Some q"
    then have u: "prog l u = Some q" by simp
    have "ptr ?l b = Some j" if "ptr l b = Some j" for b j using that a(1) by auto
    moreover have "kernel ?l = kernel l" by simp
    ultimately have "waits_ok ?l u q" using o(8) [OF u] unfolding waits_ok_def by metis
    then show "prog_ok q \<and> waits_ok ?l u q" using o(7) [OF u] by simp
  next
    fix u j assume "j \<in> ran (ptr ?l)" "pend (kernel ?l) u = Some (Some (SemA j))"
    then show "u \<in> dom (prog ?l)" using o(11) [of j u] m(5) [of u] unfolding r by auto
  next
    fix u v q r a b i j assume "prog ?l u = Some q" "prog ?l v = Some r" "Create a i \<in> set q" "Create b j \<in> set r"
    then show "u = v" using o(10) [of u q v r] by simp
  next
    fix u q b i assume "prog ?l u = Some q" "Create b i \<in> set q"
    then show "ptr ?l b = None" using o(9) [of u q b i] a(2) [of u q i] by auto
  next
    show "inj_on (ptr ?l) (dom (ptr ?l))" using o(3) m(1) by (auto simp: inj_on_def ran_def)
  qed (use o(1,2,4,5,6) m(2,3) r in \<open>simp_all add: older_def\<close>)
qed

section \<open>Every step keeps the invariant\<close>

lemma lights_ok_create:
  assumes ok: "lights_ok l" and r: "ksys.reachable (kernel l)" and run: "runs (kernel l) t x"
    and t: "prog l t = Some (Create a n # p)" and c: "sem_create n (kernel l) = Some (q, k)"
  shows "lights_ok (l\<lparr>kernel := k, ptr := (ptr l)(a := q), prog := (prog l)(t \<mapsto> p)\<rparr>)"
proof -
  note o = lights_okD [OF ok]
  have p: "n = room a" "\<And>n. Create a n \<notin> set p" "prog_ok p" using o(7) [OF t] by simp_all
  have a: "ptr l a = None" using o(9) [OF t, of a n] by simp
  have n: "next_id (kernel l) \<le> next_id k" using kcall_next_id [OF run, of "Op_SemCreate n" k] c by simp
  have cl: "calm M D (kernel l) k" if "older M (kernel l)" for M D using sem_create_calm [OF c older_clear [OF that]] .
  let ?l1 = "l\<lparr>kernel := k\<rparr>" and ?l2 = "l\<lparr>kernel := k, prog := (prog l)(t \<mapsto> p)\<rparr>"
  have ok1: "lights_ok ?l1" by (rule lights_ok_calm [OF ok cl [OF o(1)] n])
  have d: "set (dead (kernel l)) \<inter> {t} = {}" using o(6) t by auto
  have "pend k t = pend (kernel l) t" using cl [of "{}" "{t}"] d by (simp add: older_def calm_def)
  then have pk: "pend k t = Some None" using runs_pend [OF run] by simp
  have "prog ?l1 t = Some (Create a n # p)" "pend (kernel ?l1) t = Some None" using t pk by simp_all
  from lights_ok_move [OF ok1 this p(3)] have ok2: "lights_ok ?l2" by (auto simp: inside_def)
  show ?thesis
  proof (cases q)
    case None
    then have "l\<lparr>kernel := k, ptr := (ptr l)(a := q), prog := (prog l)(t \<mapsto> p)\<rparr> = ?l2" using a by (simp add: fun_upd_idem)
    then show ?thesis using ok2 by simp
  next
    case (Some m)
    then obtain j where m: "m = next_id (kernel l)" "k = (kernel l)\<lparr>k_nalloc := j, next_id := Suc m, sems := (sems (kernel l))(m \<mapsto> n)\<rparr>"
      using sem_create_cases [OF c] by auto
    have f: "unshared m (kernel l)" "\<And>u. pend (kernel l) u \<noteq> Some (Some (SemA m))" using reachable_fresh [OF r] m(1) by (simp_all add: fresh_ok_def)
    have "m \<notin> ran (ptr l)" using o(1) m(1) by (auto simp: older_def)
    moreover have "Create a i \<notin> set r" if "prog ?l2 u = Some r" for u r i
      using that p(2) o(10) [OF t, of u r a n a i] by (auto split: if_splits)
    ultimately have "lights_ok (?l2\<lparr>ptr := (ptr ?l2)(a \<mapsto> m)\<rparr>)"
      using a m f p(1) by (intro lights_ok_ptr [OF ok2]) (simp_all add: unshared_def pend_def)
    moreover have "?l2\<lparr>ptr := (ptr ?l2)(a \<mapsto> m)\<rparr> = l\<lparr>kernel := k, ptr := (ptr l)(a := q), prog := (prog l)(t \<mapsto> p)\<rparr>" using Some by (cases l) simp
    ultimately show ?thesis by (simp only:)
  qed
qed

lemma lights_ok_fork:
  assumes ok: "lights_ok l" and r: "ksys.reachable (kernel l)" and run: "runs (kernel l) t x"
    and t: "prog l t = Some (Fork c # p)" and pre: "kcall_pre (Op_Fork name) t (kernel l)" and f: "thread_fork name (kernel l) = Some (Inr n, k)"
  shows "lights_ok (l\<lparr>kernel := k, prog := (prog l)(t \<mapsto> p, n \<mapsto> [Random c, Exit])\<rparr>)"
proof -
  note o = lights_okD [OF ok] and rd = reachableD [OF r]
  have b: "numthreads (kernel l) + int (length (dead (kernel l))) + 1 < 2 ^ 27" using pre by (simp add: kcall_pre_def)
  have kok: "kern_ok (kernel l)" using rd by simp
  then have fd: "forked t (Inr n) (kernel l) k" using thread_fork_inv [OF _ _ run b f] by (simp add: kern_ok_def)
  obtain y where y: "n \<notin> places (kernel l)" "threads k n = Some y" "t_kont y = Some K_Start" "ids_ok k" "dead k = dead (kernel l)"
    using fd by (auto simp: forked_def)
  have cl: "calm (ran (ptr l)) (dom (prog l)) (kernel l) k"
    by (rule thread_fork_calm [OF kok run b f older_clear [OF o(1)] o(5)])
  have ok1: "lights_ok (l\<lparr>kernel := k\<rparr>)" by (rule lights_ok_calm [OF ok cl thread_fork_next_id [OF f]])
  have "t \<in> dom (prog l)" using t by blast
  then have pk: "pend k t = Some None" using cl o(6) runs_pend [OF run] by (simp add: calm_def)
  have "prog_ok p" using o(7) [OF t] by simp
  then have ok2: "lights_ok (l\<lparr>kernel := k, prog := (prog l)(t \<mapsto> p)\<rparr>)"
    using lights_ok_move [OF ok1, of t "Fork c # p" p] t pk by (simp add: inside_def)
  have nt: "threads (kernel l) n = None"
    using y(1) counted_places [OF rd(3) reachable_counted [OF r]] by auto
  then have "pend (kernel l) n = None" by (simp add: pend_def)
  then have pn: "prog l n = None" using o(8) [of n] by (cases "prog l n") (auto simp: waits_ok_def)
  then have "n \<noteq> t" using t by auto
  moreover have "n < next_id k" using y(2,4) by (force simp: ids_ok_def not_less [symmetric])
  moreover have "n \<notin> set (dead k)" using y(1,5) by (simp add: places_def)
  moreover have "pend k n = Some None" using y(2,3) by (simp add: pend_def)
  ultimately show ?thesis using lights_ok_spawn [OF ok2, of n c] pn by simp
qed

lemma lights_ok_exit:
  assumes ok: "lights_ok l" and kok: "kern_ok (kernel l)" and run: "runs (kernel l) t x"
    and t: "prog l t = Some (Exit # p)" and e: "thread_exit (kernel l) = Some k"
  shows "lights_ok (l\<lparr>kernel := k, prog := (prog l)(t := None)\<rparr>)"
proof -
  let ?l = "l\<lparr>prog := (prog l)(t := None)\<rparr>"
  note o = lights_okD [OF ok]
  have "p = []" using o(7) [OF t] by simp
  then have ok1: "lights_ok ?l" using lights_ok_drop [OF ok t runs_pend [OF run]] by (simp add: inside_def)
  have "calm (ran (ptr l)) (dom (prog ?l)) (kernel l) k" by (rule thread_exit_calm [OF kok e run _ o(2)]) simp
  then have "lights_ok (?l\<lparr>kernel := k\<rparr>)" using lights_ok_calm [OF ok1, of k] thread_exit_next_id [OF e run] by simp
  moreover have "?l\<lparr>kernel := k\<rparr> = l\<lparr>kernel := k, prog := (prog l)(t := None)\<rparr>" by (cases l) simp
  ultimately show ?thesis by (simp only:)
qed

lemma lights_ok_resume:
  assumes ok: "lights_ok l" and inv: "kinv (kernel l)" and sw: "switching (kernel l)" "curthread (kernel l) = Some t" and r: "resume (kernel l) = Some k"
  shows "lights_ok (l\<lparr>kernel := k\<rparr>)"
proof -
  note o = lights_okD [OF ok]
  obtain x q where x: "threads (kernel l) t = Some x" "t_kont x = Some q" using sw by (auto simp: switching_def split: option.splits)
  note e = resume_effect [OF inv sw(2) x r]
  have n: "next_id (kernel l) \<le> next_id k" using resume_next_id [OF r] by simp
  have pq: "pend (kernel l) t = Some (kont_chan q)" using x by (simp add: pend_def)
  show ?thesis
  proof (cases "prog l t")
    case None
    have "calm (ran (ptr l)) (dom (prog l)) (kernel l) k"
    proof (cases "\<exists>m spl. q = K_P m spl")
      case True
      then obtain m spl where m: "q = K_P m spl" by blast
      then have "m \<notin> ran (ptr l)" using o(11) [of m t] None pq by auto
      moreover have "calm (- {m}) (dom (prog l)) (kernel l) k" using e(1) [OF m, of "dom (prog l)"] None by (auto simp: P_effect_def)
      ultimately show ?thesis by (auto intro: calm_mono)
    next
      case False
      then show ?thesis using None by (intro e(3)) auto
    qed
    then show ?thesis by (rule lights_ok_calm [OF ok _ n])
  next
    case (Some p)
    from o(8) [OF Some] consider "kont_chan q = None" | a m where "ptr l a = Some m" "kont_chan q = Some (SemA m)" "P_ok a p"
      unfolding waits_ok_def pq by auto
    then show ?thesis
    proof cases
      case 1
      then show ?thesis using lights_ok_calm [OF ok e(2) n] by simp
    next
      case (2 a m)
      then obtain spl where m: "q = K_P m spl" by (cases q) auto
      have pe: "P_effect m t (dom (prog l) - {t}) (kernel l) k" "t \<notin> set (dead k)" using e(1) [OF m, of "dom (prog l) - {t}"] by simp_all
      have "inside a p" using 2(3) by (simp add: P_ok_def)
      then have "lights_ok (l\<lparr>kernel := k, prog := (prog l)(t \<mapsto> p)\<rparr>)"
        using lights_ok_P [OF ok Some 2(1) pe n 2(3) o(7) [OF Some]] pq 2(2) by simp
      moreover have "(prog l)(t \<mapsto> p) = prog l" using Some by auto
      ultimately show ?thesis by simp
    qed
  qed
qed

lemma lstep_ok:
  assumes r: "ksys.reachable (kernel l)" and ok: "lights_ok l" and step: "lstep l l'"
  shows "lights_ok l'"
proof -
  note o = lights_okD [OF ok] and rd = reachableD [OF r]
  have q: "lights_ok (l\<lparr>kernel := k\<rparr>)" if "calm (ran (ptr l)) (dom (prog l)) (kernel l) k" "quiet (kernel l) k" for k
    using lights_ok_calm [OF ok that(1)] that(2) by (simp add: quiet_def same_ids_def)
  from step show ?thesis
  proof (cases rule: lstep.cases)
    case (lstep_P t x a p m k)
    have d: "dead k = dead (kernel l)" "P_effect m t (dom (prog l) - {t}) (kernel l) k"
      using sem_P_effect [OF lstep_P(5) lstep_P(2), of "dom (prog l) - {t}"] by simp_all
    have "t \<notin> set (dead k)" using o(6) lstep_P(3) d(1) by auto
    moreover have "next_id (kernel l) \<le> next_id k" using sem_P_quiet [OF lstep_P(5)] by (simp add: quiet_def same_ids_def)
    ultimately show ?thesis unfolding lstep_P(1)
      using o(7) [OF lstep_P(3)] runs_pend [OF lstep_P(2)] by (intro lights_ok_P [OF ok lstep_P(3,4) d(2)]) (auto simp: inside_def)
  next
    case (lstep_V t x a p m k)
    then show ?thesis using lights_ok_V [OF ok] runs_pend by blast
  next
    case (lstep_message t x n c d e p)
    then show ?thesis using o(7) [OF lstep_message(3)] runs_pend by (auto intro!: lights_ok_move [OF ok] simp: inside_def)
  next
    case (lstep_random t x c p r1 r2)
    have "p = [Exit]" using o(7) [OF lstep_random(3)] by simp
    then show ?thesis unfolding lstep_random(1)
      using approach_ok approach_inside runs_pend [OF lstep_random(2)] by (intro lights_ok_move [OF ok lstep_random(3)]) (auto simp: inside_def)
  next
    case (lstep_create t x a n p m k)
    then show ?thesis using lights_ok_create [OF ok r] by blast
  next
    case (lstep_fork t x c p name n k)
    then show ?thesis using lights_ok_fork [OF ok r] by blast
  next
    case (lstep_return t x)
    then show ?thesis using lights_ok_drop [OF ok lstep_return(3) runs_pend] by (simp add: inside_def)
  next
    case (lstep_exit t x p k)
    then show ?thesis using lights_ok_exit [OF ok rd(1)] by blast
  next
    case (lstep_other t x op k)
    have "calm (ran (ptr l)) (dom (prog l)) (kernel l) k"
      by (rule kcall_calm [OF rd(1) lstep_other(2) _ lstep_other(4,6,5) o(2) older_clear [OF o(1)] o(5)]) (use lstep_other(3) in auto)
    then show ?thesis unfolding lstep_other(1) by (rule lights_ok_calm [OF ok _ kcall_next_id [OF lstep_other(2,6)]])
  next
    case (lstep_dispatch k)
    then show ?thesis using q dispatch_calm dispatch_quiet by blast
  next
    case (lstep_resume t k)
    then show ?thesis using lights_ok_resume [OF ok rd(2)] by blast
  next
    case (lstep_timer k)
    then show ?thesis using q timer_calm timer_quiet by blast
  next
    case (lstep_device m k)
    then show ?thesis using q device_calm device_quiet by blast
  qed
qed

text \<open>The kernel of the system is the kernel of the other theories.\<close>

lemma lstep_kernel:
  assumes "lstep l l'"
  shows "kernel l' = kernel l \<or> kstep (kernel l) (kernel l')"
  using assms
proof (cases rule: lstep.cases)
  case (lstep_P t x a p m k)
  then show ?thesis using step_call [of "kernel l" t x "Op_P m" k] by (simp add: kcall_pre_def)
next
  case (lstep_V t x a p m k)
  then show ?thesis using step_call [of "kernel l" t x "Op_V m" k] by (simp add: kcall_pre_def)
next
  case (lstep_create t x a n p q k)
  then show ?thesis using step_call [of "kernel l" t x "Op_SemCreate n" k] by (simp add: kcall_pre_def)
next
  case (lstep_fork t x c p name n k)
  then show ?thesis using step_call [of "kernel l" t x "Op_Fork name" k] by simp
next
  case (lstep_exit t x p k)
  then show ?thesis using step_call [of "kernel l" t x Op_Exit k] by (simp add: kcall_pre_def)
next
  case (lstep_other t x op k)
  then show ?thesis using step_call [of "kernel l" t x op k] by simp
qed (auto intro: step_dispatch step_resume step_timer step_device)

lemma start_ok:
  assumes "lights_start l"
  shows "lights_ok l"
proof -
  obtain t x where t: "runs (kernel l) t x" "prog l = (\<lambda>_. None)(t \<mapsto> createcars)" "ptr l = (\<lambda>_. None)" "ksys.reachable (kernel l)"
    using assms by (auto simp: lights_start_def)
  note rd = reachableD [OF t(4)] and rt = runsD [OF t(1)]
  have "t \<notin> set (dead (kernel l))" using rd(3) rt(1) by (auto simp: kinv0_def counts_ok_def running_def)
  moreover have "t < next_id (kernel l)" using rd(4) rt(2) by (force simp: ids_ok_def not_less [symmetric])
  moreover have "\<not> inside a createcars" for a using createcars_ok(3) by (simp add: inside_def)
  ultimately show ?thesis using t(2,3) createcars_ok(1) runs_pend [OF t(1)]
    by (intro lights_okI) (auto simp: older_def waits_ok_def balanced_def split: if_splits)
qed

lemma lights_reachable:
  assumes "lsys.reachable l"
  shows "ksys.reachable (kernel l)" "lights_ok l"
proof -
  have "ksys.reachable (kernel l) \<and> lights_ok l"
    using assms
  proof (rule lsys.reachable_invariant)
    fix l assume "lights_start l"
    then show "ksys.reachable (kernel l) \<and> lights_ok l" using start_ok by (simp add: lights_start_def)
  next
    fix l l' assume l: "ksys.reachable (kernel l) \<and> lights_ok l" "lstep l l'"
    then have "ksys.reachable (kernel l')" using lstep_kernel [OF l(2)] ksys.reachable_step by auto
    then show "ksys.reachable (kernel l') \<and> lights_ok l'" using lstep_ok l by blast
  qed
  then show "ksys.reachable (kernel l)" "lights_ok l" by simp_all
qed

section \<open>Safety\<close>

lemma held_count:
  assumes "lights_ok l" "ptr l a = Some m" "sems (kernel l) m = Some c"
  shows "c + int (card {t. holds l a t}) = room a"
  using lights_okD(12) [OF assms(1), of a] assms(2,3) by (auto simp: balanced_def)

lemma holds_room:
  assumes ok: "lights_ok l" and r: "ksys.reachable (kernel l)"
  shows "int (card {t. holds l a t}) \<le> room a"
proof (cases "ptr l a")
  case None
  then have "{t. holds l a t} = {}" using lights_okD(12) [OF ok, of a] by (auto simp: balanced_def holds_iff)
  then have "card {t. holds l a t} = 0" by (simp only: card.empty)
  then show ?thesis by (simp add: room_def)
next
  case (Some m)
  obtain c where c: "sems (kernel l) m = Some c" using lights_okD(12) [OF ok, of a] Some by (auto simp: balanced_def)
  have "sem_ok (kernel l) m" using reachableD(5) [OF r] by (simp add: kinv_but_def)
  then show ?thesis using held_count [OF ok Some c] c by (simp add: sem_ok_def)
qed

text \<open>The boot thread has called \<open>createcars\<close> and created the first semaphore.\<close>

definition l_boot :: lights where
  "l_boot = \<lparr>kernel = k_boot, ptr = (\<lambda>_. None), prog = (\<lambda>_. None)(1 \<mapsto> createcars)\<rparr>"

definition l_first :: lights where
  "l_first = \<lparr>kernel = k_boot\<lparr>k_nalloc := 14, next_id := 4, sems := (\<lambda>_. None)(0 \<mapsto> 0, 2 \<mapsto> 0, 3 \<mapsto> 1)\<rparr>, ptr = (\<lambda>_. None)(NW \<mapsto> 3),
     prog = (\<lambda>_. None)(1 \<mapsto> tl createcars)\<rparr>"

lemma l_first_reachable: "lsys.reachable l_first"
proof (rule lsys.reachable_step)
  have "lights_start l_boot" using k_boot_reachable k_boot_runs by (auto simp: lights_start_def l_boot_def)
  then show "lsys.reachable l_boot" by (rule lsys.reachable_init)
  have "sem_create 1 k_boot = Some (Some 3, kernel l_first)"
    by (simp add: sem_create_def kmalloc_ask_def kmalloc_struct_def l_first_def k_boot_def kern0_def eval_nat_numeral)
  moreover have "createcars = Create NW 1 # tl createcars" by (simp add: createcars_def)
  ultimately have "lstep l_boot (l_boot\<lparr>kernel := kernel l_first, ptr := (ptr l_boot)(NW := Some 3), prog := (prog l_boot)(1 \<mapsto> tl createcars)\<rparr>)"
    using k_boot_runs by (intro lstep_create [of _ 1 boot_thread NW 1]) (simp_all add: l_boot_def)
  then show "lstep l_boot l_first" by (simp add: l_boot_def l_first_def)
qed

text \<open>
  (C6) The intersection of \<^verbatim>\<open>stoplight.c\<close> is safe: in every reachable state of the system, whatever interrupts, preemption and other
  threads do, at most one car is in each of the four regions, and at most three are in the intersection.
\<close>

theorem stoplight_safe:
  assumes "lsys.reachable l"
  shows "finite {t. holds l a t} \<and> card {t. holds l a t} \<le> (if a = Intersection then 3 else 1)"
  using lights_reachable [OF assms] holds_room [of l a] finite_holds [of l a] by (auto simp: room_def split: if_splits)

theorem stoplight_safe_witness:
  "lsys.reachable l_first \<and> ptr l_first NW = Some 3 \<and> card {t. holds l_first NW t} \<le> 1"
  using stoplight_safe [OF l_first_reachable, of NW] l_first_reachable by (simp add: l_first_def)

section \<open>Freedom from deadlock\<close>

definition stuck :: "lights \<Rightarrow> tid \<Rightarrow> stopsem \<Rightarrow> bool" where
  "stuck l u a \<longleftrightarrow> (\<exists>p m. prog l u = Some p \<and> ptr l a = Some m \<and> pend (kernel l) u = Some (Some (SemA m)) \<and> P_ok a p)"

text \<open>A thread that sleeps is stuck at a semaphore that others hold.\<close>

lemma asleep_stuck:
  assumes ok: "lights_ok l" and r: "ksys.reachable (kernel l)" and u: "prog l u = Some p" "u \<notin> set (running (kernel l))" "u \<notin> set (ready (kernel l))"
  shows "\<exists>a. stuck l u a \<and> int (card {t. holds l a t}) = room a"
proof -
  note o = lights_okD [OF ok] and rd = reachableD [OF r]
  have w: "waits_ok l u p" by (rule o(8) [OF u(1)])
  then have "threads (kernel l) u \<noteq> None" by (auto simp: waits_ok_def pend_def)
  then have "u \<in> places (kernel l)" using counted_places [OF rd(3) reachable_counted [OF r]] by auto
  then have as: "u \<in> set (asleep (kernel l))" using u o(6) by (auto simp: places_def)
  then have "thr_ok (kernel l) (asleep_ok (kernel l)) u" using rd(3) by (simp add: kinv0_def threads_ok_def list_all_iff)
  then obtain x k ch where x: "threads (kernel l) u = Some x" "t_kont x = Some k" "kont_chan k = Some ch" "t_sleepaddr x = Some ch"
    by (auto simp: asleep_ok_def dest!: thr_okD split: option.splits)
  then obtain a m where a: "ptr l a = Some m" "ch = SemA m" "P_ok a p" using w by (auto simp: waits_ok_def pend_def)
  obtain c where c: "sems (kernel l) m = Some c" using o(12) [of a] a(1) by (auto simp: balanced_def)
  have "waits_on (kernel l) (SemA m) u" using x a(2) by (simp add: waits_on_def)
  moreover have "sem_ok (kernel l) m" using rd(5) by (simp add: kinv_but_def)
  ultimately have "c = 0" using c as by (force simp: sem_ok_def list_all_iff)
  then have "int (card {t. holds l a t}) = room a" using held_count [OF ok a(1) c] by simp
  moreover have "stuck l u a" using u(1) a x by (auto simp: stuck_def pend_def)
  ultimately show ?thesis by blast
qed

lemma stuck_unique: "lights_ok l \<Longrightarrow> stuck l u a \<Longrightarrow> stuck l u b \<Longrightarrow> a = b"
  using ptr_inj by (fastforce simp: stuck_def)

lemma stuck_holds:
  assumes "lights_ok l" "stuck l u b" "holds l a u" "a \<noteq> Intersection"
  shows "b \<noteq> Intersection" "before b = a" "holds l Intersection u"
proof -
  obtain p m where p: "prog l u = Some p" "ptr l b = Some m" "pend (kernel l) u = Some (Some (SemA m))" "P_ok b p"
    using assms(2) by (auto simp: stuck_def)
  have a: "inside a p" "a \<noteq> b" using assms(3) p by (auto simp: holds_iff)
  then show b: "b \<noteq> Intersection" and "before b = a" using p(4) assms(4) by (auto simp: P_ok_def split: if_splits)
  have "inside Intersection p" using p(4) b by (simp add: P_ok_def)
  then show "holds l Intersection u" using p(1,3) ptr_inj [OF assms(1) p(2)] b by (auto simp: holds_iff)
qed

lemma holds_exists: "int (card {t. holds l a t}) = room a \<Longrightarrow> \<exists>t. holds l a t"
  by (rule ccontr) (simp add: room_def split: if_splits)

lemma before_inj: "before a = before b \<Longrightarrow> a = b"
  by (cases a; cases b; simp)

text \<open>Round the intersection: when everybody is stuck, somebody is stuck at every region.\<close>

lemma stuck_round:
  assumes ok: "lights_ok l" and st: "\<And>u. prog l u \<noteq> None \<Longrightarrow> \<exists>a. stuck l u a \<and> (\<exists>v. holds l a v)"
    and u: "stuck l u (before b)" "b \<noteq> Intersection"
  shows "\<exists>v. stuck l v b \<and> holds l Intersection v"
proof -
  have "prog l u \<noteq> None" using u(1) by (auto simp: stuck_def)
  then obtain v where v: "holds l (before b) v" using st [of u] stuck_unique [OF ok u(1)] by blast
  then have "prog l v \<noteq> None" by (auto simp: holds_iff)
  then obtain c where c: "stuck l v c" using st by blast
  have "before b \<noteq> Intersection" using u(2) by (cases b) simp_all
  note h = stuck_holds [OF ok c v this]
  then show ?thesis using c before_inj [OF h(2)] by blast
qed

lemma stuck_all:
  assumes ok: "lights_ok l" and st: "\<And>u. prog l u \<noteq> None \<Longrightarrow> \<exists>a. stuck l u a \<and> (\<exists>v. holds l a v)"
    and t: "prog l t \<noteq> None" and b: "b \<noteq> Intersection"
  shows "\<exists>v. stuck l v b \<and> holds l Intersection v"
proof -
  define Q where "Q c \<longleftrightarrow> (\<exists>v. stuck l v c \<and> holds l Intersection v)" for c
  have r: "stuck l u NE \<Longrightarrow> Q NW" "stuck l u NW \<Longrightarrow> Q SW" "stuck l u SW \<Longrightarrow> Q SE" "stuck l u SE \<Longrightarrow> Q NE" for u
    using stuck_round [OF ok st, of u NW] stuck_round [OF ok st, of u SW] stuck_round [OF ok st, of u SE] stuck_round [OF ok st, of u NE]
    by (simp_all add: Q_def)
  have q: "Q NE \<Longrightarrow> Q NW" "Q NW \<Longrightarrow> Q SW" "Q SW \<Longrightarrow> Q SE" "Q SE \<Longrightarrow> Q NE" using r by (auto simp: Q_def)
  obtain a v where a: "stuck l t a" "holds l a v" using st [OF t] by blast
  then have "prog l v \<noteq> None" by (auto simp: holds_iff)
  then obtain c where c: "stuck l v c" using st by blast
  then have "a = Intersection \<Longrightarrow> c \<noteq> Intersection" using a(2) by (auto simp: stuck_def holds_iff)
  then obtain u d where "stuck l u d" "d \<noteq> Intersection" using a(1) c by blast
  then have "Q NW" using r [of u] q by (cases d) simp_all
  then have "Q b" using q b by (cases b) simp_all
  then show ?thesis by (simp add: Q_def)
qed



end
