(* ===== verification/Spec2Isabelle.thy ===== *)
theory Spec2Isabelle
  imports Kern_Props Kern_LibProps Kern_UioProps Kern_SfsDir Kern_SfsTrunc Kern_HeapProps Kern_SyscallProps Kern_StopProps
begin

text \<open>
  A verification development of the OS/161 kernel under \<^verbatim>\<open>src/kern\<close>: its containers, its thread system, virtual
  memory, copying to and from user space, the disk driver, the file system SFS, the kernel heap, the system
  calls, and one program that runs on kernel threads.

  \<^bold>\<open>Conventions.\<close> A C function is a HOL function that takes the state and returns it. The result type is an \<open>option\<close>
  where the C function may fail to return to its caller in a defined state: \<open>None\<close> is a failed \<open>assert\<close>, a panic,
  an access outside a buffer or through a null pointer, a signed overflow, or a loop that does not end. An
  error number is the left side of \<open>errno + 'a\<close>. Unsigned machine integers are words or numbers with the
  wrap-around written out; an \<open>int\<close> is checked with \<open>cint\<close>. The answers of \<open>kmalloc\<close> are part of the state, so
  that the theorems hold whenever memory runs out; the allocator itself is a component of its own. A
  structure that is allocated gets an address that was never used before.

  \<^bold>\<open>Theories.\<close>

  \<^item> \<open>Kern_Prelude\<close>: error numbers, C integers, buffers, shared lemmas. \<open>Kern_Array\<close>, \<open>Kern_Queue\<close>, \<open>Kern_Bitmap\<close>:
    \<^verbatim>\<open>kern/lib/array.c\<close>, \<^verbatim>\<open>queue.c\<close>, \<^verbatim>\<open>bitmap.c\<close>, each with the locale that states its contract
    (\<open>dyn_array\<close>, \<open>fifo\<close>, \<open>bit_allocator\<close>) and the interpretation on the code's functions. \<open>Kern_LibProps\<close> has their
    theorems: the queue refines a list, the array is a list that grows, the bitmap hands out distinct numbers.

  \<^item> \<open>Kern_Machine\<close>, \<open>Kern_VM\<close>: interrupt level, physical memory and the TLB (\<^verbatim>\<open>spl.c\<close>, \<^verbatim>\<open>ram.c\<close>, \<^verbatim>\<open>tlb.h\<close>), address
    spaces and page faults (\<^verbatim>\<open>vm/addrspace.c\<close>). A fault loads the right translation, a copied address space
    reads like the original in frames of its own, a region covers every requested byte.

  \<^item> \<open>Kern_State\<close>, \<open>Kern_Sched\<close>, \<open>Kern_Synch\<close>, \<open>Kern_Thread\<close>: the record \<open>kern\<close> of the thread system and the functions of
    \<^verbatim>\<open>thread/thread.c\<close>, \<^verbatim>\<open>scheduler.c\<close>, \<^verbatim>\<open>synch.c\<close>, \<^verbatim>\<open>hardclock.c\<close>. A function that blocks is cut at the context switch:
    the thread keeps in \<open>t_kont\<close> where it goes on, and \<open>resume\<close> runs the rest. \<open>Kern_Inv\<close> and \<open>Kern_Steps\<close> hold the
    invariant and that every operation keeps it, \<open>Kern_Reach\<close> the transition system \<open>kstep\<close> of calls, dispatches,
    resumptions and interrupts in any order, \<open>Kern_Props\<close> its theorems: no wake-up is lost, a lock excludes, the
    operations of \<^verbatim>\<open>synch.c\<close> do not panic, fork and the semaphores do what they say, and \<open>cv_signal\<close> releases
    the lock of its caller. \<open>Kern_Census\<close> counts the threads: each is in exactly one place and none is lost.

  \<^item> \<open>Kern_Uio\<close>, \<open>Kern_UioProps\<close>: \<^verbatim>\<open>lib/copyinout.c\<close> and \<^verbatim>\<open>userprog/uio.c\<close>; no copy leaves the mapped user memory, strings
    are exact, and what is written is read back.

  \<^item> \<open>Kern_Disk\<close>, \<open>Kern_SfsFormat\<close>, \<open>Kern_Sfs\<close>, \<open>Kern_SfsOps\<close>: the disk driver \<^verbatim>\<open>dev/lamebus/lhd.c\<close>, block I/O \<^verbatim>\<open>sfs_io.c\<close>, the
    structures on the disk, and \<^verbatim>\<open>sfs_vnode.c\<close>, \<^verbatim>\<open>sfs_fs.c\<close> and \<^verbatim>\<open>vnode.c\<close>. \<open>Kern_SfsFile\<close>, \<open>Kern_SfsRead\<close>, \<open>Kern_SfsProps\<close>,
    \<open>Kern_SfsDir\<close> and \<open>Kern_SfsTrunc\<close> hold the invariant of the block map and the theorems on reading, writing,
    directories and truncation.

  \<^item> \<open>Kern_Heap\<close>, \<open>Kern_HeapInv\<close>, \<open>Kern_HeapOps\<close>, \<open>Kern_HeapProps\<close>: \<^verbatim>\<open>lib/kheap.c\<close> with its page table and free lists in memory.
    The locale \<open>allocator\<close> is the contract of \<open>kmalloc\<close> and \<open>kfree\<close>; blocks do not overlap and keep their contents.

  \<^item> \<open>Kern_Syscall\<close>, \<open>Kern_ExecArgs\<close>, \<open>Kern_SyscallProps\<close>: \<^verbatim>\<open>arch/mips/mips/syscall.c\<close>, on the thread system and user
    memory: a forked process, the exit code on its way to \<open>waitpid\<close>, the line that \<open>read\<close> stores, the stack of a
    new program.

  \<^item> \<open>Kern_SemAcct\<close>, \<open>Kern_Stoplight\<close>, \<open>Kern_StopProps\<close>: the account of a semaphore through all steps of the kernel, and
    \<^verbatim>\<open>asst1/stoplight.c\<close> as lists of calls that kernel threads execute under \<open>kstep\<close> with everything that interrupts them.
    Each region has at most one car and the intersection at most three, and the cars do not deadlock. One call of
    \<open>createcars\<close> is modelled; a second one would replace the semaphores under the cars of the first.

  \<^bold>\<open>How the parts meet.\<close> The thread system extends the machine record, so that \<open>sys_fork\<close> is \<open>as_copy\<close> and
  \<open>thread_fork\<close> on one state. The run queue and the tables of sleepers and zombies are the ring queue and the arrays
  of the container theories. The file system runs on the
  driver and the uio functions, its free map is the bitmap.

  \<^bold>\<open>Fuel and bounds.\<close> Only the mutual recursion of \<open>q_grow\<close> and \<open>q_addtail\<close> carries fuel; \<open>size + 4\<close> is enough, which
  \<open>Kern_Queue\<close> proves. Loops whose end depends on memory contents are \<open>partial_function (option)\<close>, and the theorems
  prove that they return. The number of threads is limited to what stacks of 4096 bytes in the memory of the machine allow,
  as a condition on the callers of \<open>thread_fork\<close>.

  \<^bold>\<open>Not modelled.\<close> VFS (\<^verbatim>\<open>fs/vfs\<close> but for \<^verbatim>\<open>vnode.c\<close>), the ELF loader and with them the middle of \<open>sys_execv\<close>: they work
  through tables of function pointers for every device and file system. \<open>sys_reboot\<close> stops the machine, and \<open>sys_sbrk\<close>
  has no body. The assembly, the trap entry, the bus and the remaining devices are register accesses. The locks
  around vnode counts and the semaphores of the disk driver are taken as free, so that an operation of SFS is one step.
  Console output is a result where a theorem needs it and is left out elsewhere. The menu, the tests, the cats
  and mice, the user library and the user programs are not part of the kernel proper.
\<close>

end
